(* ===== verification/Prelude.thy ===== *)
theory Prelude
  imports Main "HOL-Library.AList" "HOL-Library.List_Lexorder" "HOL-Library.Char_ord"
    "HOL-Library.Word"
begin

text \<open>
  The shared base of the development: Go's byte strings and maps, the error monad, and the
  generic list facts the components use.

  A Go \<open>string\<close> and a \<open>[]byte\<close> are both sequences of bytes; HOL's \<open>string\<close>
  is a list of 8-bit characters, so it stands for both, and its lexicographic order
  (\<open>List_Lexorder\<close> over \<open>Char_ord\<close>) is the order of \<open>bytes.Compare\<close> and
  \<open>strings.Compare\<close>. A Go map is an association list (\<open>map_of\<close> reads it,
  \<open>AList.update\<close> and \<open>AList.delete\<close> write it): the list order stands for the
  iteration order, which Go leaves unspecified. A fallible function returns \<open>err + 'a\<close>,
  with \<open>Inl\<close> for the error.
\<close>

section \<open>Names for the model's base types\<close>

type_synonym bytes = string
type_synonym gomap = "(string \<times> string) list"
type_synonym u64 = "64 word"
type_synonym i64 = "64 word"

named_theorems result_simps \<open>equations of the error monad\<close>

section \<open>The error monad\<close>

definition rbind :: "'e + 'a \<Rightarrow> ('a \<Rightarrow> 'e + 'b) \<Rightarrow> 'e + 'b" where
  "rbind m f = (case m of Inl e \<Rightarrow> Inl e | Inr x \<Rightarrow> f x)"

lemma rbind_Inl [simp, result_simps]: "rbind (Inl e) f = Inl e"
  and rbind_Inr [simp, result_simps]: "rbind (Inr x) f = f x"
  by (simp_all add: rbind_def)

lemma rbind_eq_Inr [result_simps]: "rbind m f = Inr y \<longleftrightarrow> (\<exists>x. m = Inr x \<and> f x = Inr y)"
  by (cases m) auto

lemma rbind_eq_Inl [result_simps]:
  "rbind m f = Inl e \<longleftrightarrow> m = Inl e \<or> (\<exists>x. m = Inr x \<and> f x = Inl e)"
  by (cases m) auto

lemma rbind_cong [fundef_cong]:
  "m = m' \<Longrightarrow> (\<And>x. m' = Inr x \<Longrightarrow> f x = f' x) \<Longrightarrow> rbind m f = rbind m' f'"
  by (cases m') auto

text \<open>A guard: the check's error when it fails, the rest of the function otherwise.\<close>

definition guard :: "bool \<Rightarrow> 'e \<Rightarrow> 'e + unit" where
  "guard b e = (if b then Inr () else Inl e)"

lemma guard_simps [simp, result_simps]:
  "guard True e = Inr ()" "guard False e = Inl e"
  by (simp_all add: guard_def)

lemma guard_eq_Inr [simp, result_simps]: "guard b e = Inr u \<longleftrightarrow> b"
  by (simp add: guard_def)

lemma guard_eq_Inl [simp, result_simps]: "guard b e = Inl e' \<longleftrightarrow> \<not> b \<and> e' = e"
  by (auto simp: guard_def)

text \<open>A bulk loop that stops at the first error, positionally.\<close>

fun mapM :: "('i \<Rightarrow> 'e + 'o) \<Rightarrow> 'i list \<Rightarrow> 'e + 'o list" where
  "mapM f [] = Inr []"
| "mapM f (x # xs) = rbind (f x) (\<lambda>y. rbind (mapM f xs) (\<lambda>ys. Inr (y # ys)))"

lemma mapM_Inr_iff: "mapM f xs = Inr ys \<longleftrightarrow> list_all2 (\<lambda>x y. f x = Inr y) xs ys"
  by (induction xs arbitrary: ys) (auto simp: rbind_eq_Inr list_all2_Cons1)

lemma mapM_Inr_length: "mapM f xs = Inr ys \<Longrightarrow> length ys = length xs"
  by (simp add: mapM_Inr_iff list_all2_lengthD)

lemma mapM_Inr_nth: "mapM f xs = Inr ys \<Longrightarrow> i < length xs \<Longrightarrow> f (xs ! i) = Inr (ys ! i)"
  by (auto simp: mapM_Inr_iff list_all2_conv_all_nth)

lemma mapM_total: "(\<And>x. x \<in> set xs \<Longrightarrow> f x = Inr (g x)) \<Longrightarrow> mapM f xs = Inr (map g xs)"
  by (induction xs) auto

lemma mapM_Inl: "mapM f xs = Inl e \<Longrightarrow> \<exists>x \<in> set xs. f x = Inl e"
  by (induction xs) (auto simp: rbind_eq_Inl)

lemma mapM_Inr_all: "mapM f xs = Inr ys \<Longrightarrow> x \<in> set xs \<Longrightarrow> \<exists>y. f x = Inr y"
  by (induction xs arbitrary: ys) (auto simp: rbind_eq_Inr)

lemma mapM_cong [fundef_cong]:
  "xs = ys \<Longrightarrow> (\<And>x. x \<in> set ys \<Longrightarrow> f x = g x) \<Longrightarrow> mapM f xs = mapM g ys"
  by (induction ys arbitrary: xs) (auto intro: rbind_cong)

text \<open>A loop of checks over a list: the first error, or none.\<close>

fun checkAll :: "('a \<Rightarrow> 'e + unit) \<Rightarrow> 'a list \<Rightarrow> 'e + unit" where
  "checkAll f [] = Inr ()"
| "checkAll f (x # xs) = rbind (f x) (\<lambda>_. checkAll f xs)"

lemma checkAll_Inr_iff: "checkAll f xs = Inr () \<longleftrightarrow> (\<forall>x \<in> set xs. f x = Inr ())"
  by (induction xs) (auto simp: rbind_eq_Inr)

lemma checkAll_Inl: "checkAll f xs = Inl e \<Longrightarrow> \<exists>x \<in> set xs. f x = Inl e"
  by (induction xs) (auto simp: rbind_eq_Inl)

lemma checkAll_append: "checkAll f (xs @ ys) = rbind (checkAll f xs) (\<lambda>_. checkAll f ys)"
  by (induction xs) (auto simp: rbind_def split: sum.split)

lemma checkAll_cong [fundef_cong]:
  "xs = ys \<Longrightarrow> (\<And>x. x \<in> set ys \<Longrightarrow> f x = g x) \<Longrightarrow> checkAll f xs = checkAll g ys"
  by (induction ys arbitrary: xs) (auto intro: rbind_cong)

section \<open>Go maps\<close>

definition keys :: "('k \<times> 'v) list \<Rightarrow> 'k list" where
  "keys m = map fst m"

definition has :: "('k \<times> 'v) list \<Rightarrow> 'k \<Rightarrow> bool" where
  "has m k = (map_of m k \<noteq> None)"

lemma has_iff_keys: "has m k \<longleftrightarrow> k \<in> set (keys m)"
  by (simp add: has_def keys_def map_of_eq_None_iff)

lemma keys_simps [simp]: "keys [] = []" "keys (p # m) = fst p # keys m"
  by (simp_all add: keys_def)

lemma set_keys: "set (keys m) = dom (map_of m)"
  by (simp add: keys_def dom_map_of_conv_image_fst)

lemma set_keys_update [simp]: "set (keys (AList.update k v m)) = insert k (set (keys m))"
  by (auto simp: set_keys update_conv')

lemma set_keys_delete [simp]: "set (keys (AList.delete k m)) = set (keys m) - {k}"
  by (auto simp: set_keys delete_conv')

lemma distinct_keys_update: "distinct (keys m) \<Longrightarrow> distinct (keys (AList.update k v m))"
  by (simp add: keys_def distinct_update)

text \<open>Reading a Go map of strings at an absent key gives the empty string.\<close>

definition getz :: "('k \<times> string) list \<Rightarrow> 'k \<Rightarrow> string" where
  "getz m k = (case map_of m k of None \<Rightarrow> [] | Some v \<Rightarrow> v)"

text \<open>Copying every entry of one map over another, in iteration order.\<close>

definition putAll :: "('k \<times> 'v) list \<Rightarrow> ('k \<times> 'v) list \<Rightarrow> ('k \<times> 'v) list" where
  "putAll new m = fold (\<lambda>(k, v). AList.update k v) new m"

lemma putAll_simps [simp]:
  "putAll [] m = m"
  "putAll ((k, v) # new) m = putAll new (AList.update k v m)"
  by (simp_all add: putAll_def)

lemma map_of_putAll:
  "distinct (keys new) \<Longrightarrow>
     map_of (putAll new m) k = (case map_of new k of Some v \<Rightarrow> Some v | None \<Rightarrow> map_of m k)"
proof (induction new arbitrary: m)
  case Nil
  then show ?case by simp
next
  case (Cons p new)
  obtain k' v where p: "p = (k', v)" by fastforce
  have fresh: "map_of new k' = None" and dist: "distinct (keys new)"
    using Cons.prems by (auto simp: p keys_def map_of_eq_None_iff)
  show ?case
    using Cons.IH[OF dist, of "AList.update k' v m"] fresh
    by (auto simp: p update_conv' split: option.splits)
qed

lemma set_keys_putAll [simp]: "set (keys (putAll new m)) = set (keys new) \<union> set (keys m)"
  by (induction new arbitrary: m) auto

lemma distinct_keys_putAll: "distinct (keys m) \<Longrightarrow> distinct (keys (putAll new m))"
  by (induction new arbitrary: m) (auto simp: distinct_keys_update)

section \<open>Strings\<close>

definition startsWith :: "string \<Rightarrow> string \<Rightarrow> bool" where
  "startsWith p s = (take (length p) s = p)"

definition endsWith :: "string \<Rightarrow> string \<Rightarrow> bool" where
  "endsWith p s = (length p \<le> length s \<and> drop (length s - length p) s = p)"

lemma startsWith_iff: "startsWith p s \<longleftrightarrow> (\<exists>t. s = p @ t)"
  by (auto simp: startsWith_def) (metis append_take_drop_id)

lemma endsWith_iff: "endsWith p s \<longleftrightarrow> (\<exists>t. s = t @ p)"
  by (auto simp: endsWith_def) (metis append_take_drop_id)

text \<open>\<open>strings.Split\<close> on a single byte: always at least one piece.\<close>

fun splitOn :: "char \<Rightarrow> string \<Rightarrow> string list" where
  "splitOn c [] = [[]]"
| "splitOn c (x # xs) =
     (if x = c then [] # splitOn c xs
      else (case splitOn c xs of [] \<Rightarrow> [[x]] | p # ps \<Rightarrow> (x # p) # ps))"

lemma splitOn_not_Nil [simp]: "splitOn c s \<noteq> []"
  by (induction s) (auto split: list.split)

lemma splitOn_no_sep: "c \<notin> set s \<Longrightarrow> splitOn c s = [s]"
  by (induction s) auto

text \<open>\<open>strings.Cut\<close> on a single byte: what precedes and what follows its first occurrence.\<close>

definition cutOn :: "char \<Rightarrow> string \<Rightarrow> string \<times> string" where
  "cutOn c s = (takeWhile (\<lambda>x. x \<noteq> c) s, tl (dropWhile (\<lambda>x. x \<noteq> c) s))"

definition isDigit :: "char \<Rightarrow> bool" where
  "isDigit c = (CHR ''0'' \<le> c \<and> c \<le> CHR ''9'')"

definition digitVal :: "char \<Rightarrow> int" where
  "digitVal c = int (of_char c) - 48"

section \<open>64-bit counters\<close>

text \<open>The counter below the top of its range steps without wrapping; at the top it wraps to 0.\<close>

lemma u64_succ: "(x :: u64) \<noteq> - 1 \<Longrightarrow> unat (x + 1) = Suc (unat x)"
  using unatSuc[of x] by (metis add.commute add.right_inverse add_left_imp_eq)

lemma u64_less_succ: "(x :: u64) \<noteq> - 1 \<Longrightarrow> x < x + 1"
  by (simp add: word_less_nat_alt u64_succ)

lemma u64_less_succ_iff: "(x :: u64) \<noteq> - 1 \<Longrightarrow> y < x + 1 \<longleftrightarrow> y \<le> x"
  by (simp add: word_less_nat_alt word_le_nat_alt u64_succ less_Suc_eq_le)

end
