(* ===== verification/Errs.thy ===== *)
theory Errs
  imports Prelude
begin

text \<open>
  The error values of \<open>errors.go\<close>: one constructor per sentinel, grouped as the file groups
  them, and the composed errors \<open>wrapErr\<close> and \<open>alsoErr\<close>. What the model keeps of an
  error is what \<open>errors.Is\<close> can see: the sentinels it matches. The message text and the
  detail string (\<open>WithDetail\<close>) are dropped. An error that comes out of a library or a
  backend is a \<open>LibErr\<close>.
\<close>

section \<open>Sentinels\<close>

text \<open>Storage and the exported API.\<close>

datatype (plugins only: code size) store_err =
    ErrNotFound | ErrIntegrity | ErrClosed | ErrUnsupported | ErrContentCapped |
    ErrBranchNotFound | ErrSequencerGenesis

text \<open>Identifiers, type strings, contributors, content and edges.\<close>

datatype (plugins only: code size) form_err =
    errInvalidId | errInvalidVarint | errEmptyType | errSigningKeyNoPubkey |
    errSigningKeyMismatch | errResolveContributorPubkey | errNilContributor |
    errResolvedNoPubkey | errResolvedNoKey | errResolvedMismatch | errContentExternal |
    errNoUniverseForContent | errNilEdge | errEdgeRefRequired | errEdgeTypeRequired |
    errEdgeContentXOR | errEdgeRelationDir

text \<open>The claim builder and the graph.\<close>

datatype (plugins only: code size) build_err =
    errClaimTypeRequired | errClaimContentXOR | errClaimContributorRequired |
    errEncodingWithoutContent | errContentWithoutEncoding | errDiffEdgeUnnamed |
    errDiffEdgeDupName | errTwoContributors | errTwoDiffEdges | errHeightRequired |
    errHeightOnInitial | errNilClaim | errEmptyGraph | errNoContributorEdge | errNilHash

text \<open>Conditions reported with a detail.\<close>

datatype (plugins only: code size) detail_err =
    errNotContributorClaim | errUnknownNodeClass | errUnknownEncodingClass |
    errUnknownEdgeClass | errFieldNotSet | errInvalidFieldName | errFieldNameTooLong |
    errFieldValueTooLong | errTooManyFields | errInlineContentTooLarge | errInvalidSubtype |
    errInvalidEncodingSubtype

text \<open>Operation prefixes and the query.\<close>

datatype (plugins only: code size) query_err =
    errNewClaim | errNewEdge | errRelationDirNonRel | errBuildGraph | errGraphAddClaim |
    errConsolidate | errCopyClaims | errCopyContents | errQuery | ErrQueryNoHead |
    ErrQueryNoScope | ErrQueryScanShape | ErrQueryAnchorSet | ErrQueryEncoding |
    errDecodeQuery | errEncodeQuery | ErrQueryWhereForm | ErrQueryTimeOperand |
    ErrQueryComparisonForm | ErrQueryHops | ErrQueryEnum | ErrQueryBounds |
    ErrQueryEnvelopeAxis | ErrQueryOrderField | ErrQueryLayerName

text \<open>Contributions and the wire form.\<close>

datatype (plugins only: code size) contrib_err =
    ErrReservedType | ErrFutureDated | ErrBranchNotCreatable | ErrBranchName |
    ErrUnreadableReference | errContributionRefs | ErrWire | ErrWireKind | ErrWireNoBranch |
    ErrWireNoHeader | ErrWireLateConstraint | ErrWireUndeclared

text \<open>Verification.\<close>

datatype (plugins only: code size) verify_err =
    errVerify | ErrKeyNotYetValid | ErrKeyExpired | ErrKeyWindowField |
    ErrContributorUnresolved | errHeightResolve | ErrDeleteByNotCopied |
    ErrStructureNotDeletable | ErrHeightMismatch | ErrCreatedAtNotMonotone |
    ErrCreatedAtPredatesRanke | errNotBranchTable | ErrRefsBranchTable

text \<open>Codec, envelopes and keys.\<close>

datatype (plugins only: code size) op_err =
    errEncodeClaim | errMarshalCBOR | errDecodeClaim | errAssemble | errNodePreimage |
    errNotArchive | errID | errEncodePubkey | errDecodePubkey | errSignEnvelope |
    errDecodeEnvelope | errVerifyEnvelope | errEnvelopeNoKey | errEnvelopeNoPubkey |
    errEnvelopeNoPayload | errNoEnvelope

text \<open>Keys, content and the archive.\<close>

datatype (plugins only: code size) key_err =
    errLoadKeypair | errLoadPrivKey | ErrKeyEncrypted | ErrKeyFormat | errLoadPubKey |
    errVerifyContentOp | errVerifyingReader | errContent | errExpectedClassSub |
    errEncodeSigningKey | errArchiveLoadHead | errNilUniverse | errNilHeadID | errNilID

text \<open>The shape of a record.\<close>

datatype (plugins only: code size) shape_err =
    ErrContentBothSlots | ErrIDMismatch | ErrEnvelopeHeaders | ErrEnvelopeScheme |
    ErrEdgeOrder | ErrUnknownTypeClass | ErrRelationDirection | ErrDeleteMarkNoTarget |
    ErrTimestampForm | ErrDatedForm | ErrArchiveFirstTableHeight

text \<open>Bookmarks.\<close>

datatype (plugins only: code size) book_err =
    errBookmarkNoHead | errBookmarkNoSigner | errBookmarkNoSeed | errBookmarkNilSlot |
    errBookmarkNoUniverse | errBookmarkEncode | errBookmarkSeedGen | errBookmarkForm |
    errBookmarkHeaders | errBookmarkSlot | errBookmarkSignature | errBookmarkReference |
    errBookmarkGap | errBookmarkSlotRead | errBookmarkOpen | errBookmarkIndexRange |
    errBookmarkRangeInvalid | ErrUnexplainedGap

text \<open>The sequencers, and the storage adapters.\<close>

datatype (plugins only: code size) seq_err =
    errNilArg | errNoSigningKey | errNoBookmarks | errNewSequencer | errFound | errFounded | errSequencer
    | errSealed | errNoBranch | errNilClaimArg | errEmptyContribution | errForeign

datatype (plugins only: code size) adapter_err =
    errNoLayers | errNilLayer | errNoAuthoritative | errInvalidTier | errNoShards | errNilShard
    | errShardNilClaim | errShardNilHash | errBlobNilID | errBlobNilClaim | errBlobNilHash

section \<open>Errors and matching\<close>

datatype err =
    StoreErr store_err | FormErr form_err | BuildErr build_err | DetailErr detail_err
  | QueryErr query_err | ContribErr contrib_err | VerifyErr verify_err | OpErr op_err
  | KeyErr key_err | ShapeErr shape_err | BookErr book_err | SeqErr seq_err
  | AdapterErr adapter_err
  | LibErr string
  | Wrap err err
  | AlsoErr err err

text \<open>
  \<open>errors.Is(e, t)\<close> for a sentinel \<open>t\<close>: the error itself, or one that \<open>Unwrap\<close>
  reaches. \<open>wrapErr\<close> exposes its sentinel and its cause, \<open>alsoErr\<close> both its errors.
\<close>

fun errorsIs :: "err \<Rightarrow> err \<Rightarrow> bool" where
  "errorsIs (Wrap s c) t = (errorsIs s t \<or> errorsIs c t)"
| "errorsIs (AlsoErr p a) t = (errorsIs p t \<or> errorsIs a t)"
| "errorsIs e t = (e = t)"

type_synonym 'a result = "err + 'a"

text \<open>
  A step whose error is reported under an operation's prefix sentinel:
  \<open>if err != nil { return Wrap(sentinel, err) }\<close>.
\<close>

definition wrapping :: "err \<Rightarrow> 'a result \<Rightarrow> 'a result" where
  "wrapping s m = (case m of Inl e \<Rightarrow> Inl (Wrap s e) | Inr x \<Rightarrow> Inr x)"

lemma wrapping_simps [simp, result_simps]:
  "wrapping s (Inl e) = Inl (Wrap s e)" "wrapping s (Inr x) = Inr x"
  by (simp_all add: wrapping_def)

lemma wrapping_eq_Inr [simp, result_simps]: "wrapping s m = Inr x \<longleftrightarrow> m = Inr x"
  by (cases m) auto

lemma wrapping_eq_Inl [result_simps]: "wrapping s m = Inl e \<longleftrightarrow> (\<exists>c. m = Inl c \<and> e = Wrap s c)"
  by (cases m) auto

lemma errorsIs_wrapping: "wrapping s m = Inl e \<Longrightarrow> errorsIs s t \<Longrightarrow> errorsIs e t"
  by (auto simp: wrapping_eq_Inl)

end
