(* ===== verification/Taxonomy.thy ===== *)
theory Taxonomy
  imports Errs
begin

text \<open>
  The vocabularies of \<open>node_taxonomy.go\<close>, \<open>edge_taxonomy.go\<close>,
  \<open>field_taxonomy.go\<close> and \<open>encoding_taxonomy.go\<close>: the closed class sets, the
  subtypes the ADT gives meaning to, the compact aliases of both, the form of field names,
  subtypes and branch names, and the alias pass of \<open>codec.go\<close> that writes them.

  Every \<open>switch\<close> from a canonical value to its alias is a table, and its reverse another
  table, as the code states them: two switches that had drifted apart would show here. The six
  pairs are instances of the locale \<open>alias_table\<close>, whose law says the reverse undoes the
  forward table; the wire round trip and its injectivity are proved once in it.
\<close>

section \<open>Alias tables and the wire prefix\<close>

text \<open>A \<open>switch\<close> over the table's keys whose default passes the value through.\<close>

definition aliasVia :: "(string \<times> string) list \<Rightarrow> string \<Rightarrow> string" where
  "aliasVia tab c = (case map_of tab c of Some a \<Rightarrow> a | None \<Rightarrow> c)"

text \<open>\<open>aliasToWire\<close> and \<open>aliasFromWire\<close> of \<open>codec.go\<close>.\<close>

definition aliasToWire :: "string \<Rightarrow> (string \<Rightarrow> string) \<Rightarrow> string" where
  "aliasToWire v toAlias = (let a = toAlias v in if a \<noteq> v then CHR ''.'' # a else v)"

definition aliasFromWire :: "string \<Rightarrow> (string \<Rightarrow> string) \<Rightarrow> string" where
  "aliasFromWire w fromAlias =
     (case w of [] \<Rightarrow> w | c # rest \<Rightarrow> if c = CHR ''.'' then fromAlias rest else w)"

definition dotted :: "string \<Rightarrow> bool" where
  "dotted s = (case s of [] \<Rightarrow> False | c # _ \<Rightarrow> c = CHR ''.'')"

lemma dotted_simps [simp]: "\<not> dotted []" "dotted (c # s) \<longleftrightarrow> c = CHR ''.''"
  by (simp_all add: dotted_def)

lemma aliasFromWire_undotted [simp]: "\<not> dotted w \<Longrightarrow> aliasFromWire w f = w"
  by (cases w) (simp_all add: aliasFromWire_def)

lemma aliasFromWire_dot [simp]: "aliasFromWire (CHR ''.'' # a) f = f a"
  by (simp add: aliasFromWire_def)

locale alias_table =
  fixes toT fromT :: "(string \<times> string) list"
  assumes reverses: "map_of toT k = Some a \<Longrightarrow> map_of fromT a = Some k"
    and changes: "map_of toT k = Some a \<Longrightarrow> a \<noteq> k"
begin

lemma wire_cases:
  "aliasToWire v (aliasVia toT) = (case map_of toT v of Some a \<Rightarrow> CHR ''.'' # a | None \<Rightarrow> v)"
  using changes by (auto simp: aliasToWire_def aliasVia_def Let_def split: option.split)

lemma roundtrip:
  assumes "\<not> dotted v"
  shows "aliasFromWire (aliasToWire v (aliasVia toT)) (aliasVia fromT) = v"
  using assms reverses by (auto simp: wire_cases aliasVia_def split: option.split)

lemma injective:
  assumes "\<not> dotted v" "\<not> dotted w"
    and "aliasToWire v (aliasVia toT) = aliasToWire w (aliasVia toT)"
  shows "v = w"
  by (metis assms roundtrip)

lemma aliased_iff: "\<not> dotted v \<Longrightarrow> dotted (aliasToWire v (aliasVia toT)) \<longleftrightarrow> v \<in> dom (map_of toT)"
  by (auto simp: wire_cases split: option.split)

end

text \<open>An executable form of the two laws, for the concrete tables.\<close>

definition tableOk :: "(string \<times> string) list \<Rightarrow> (string \<times> string) list \<Rightarrow> bool" where
  "tableOk toT fromT = list_all (\<lambda>(k, a). map_of fromT a = Some k \<and> a \<noteq> k) toT"

lemma tableOkI: "tableOk toT fromT \<Longrightarrow> alias_table toT fromT"
  by (unfold_locales; fastforce simp: tableOk_def list_all_iff dest: map_of_SomeD)

section \<open>The node vocabulary (\<open>node_taxonomy.go\<close>)\<close>

definition nodeClassToAliasTab :: "(string \<times> string) list" where
  "nodeClassToAliasTab = [
      (''contribution'', ''c''), (''source'', ''s''), (''derivation'', ''d''),
      (''entity'', ''e''), (''relation'', ''r'')]"

definition nodeClassToAlias :: "string \<Rightarrow> string" where
  "nodeClassToAlias c = aliasVia nodeClassToAliasTab c"

definition nodeClassFromAliasTab :: "(string \<times> string) list" where
  "nodeClassFromAliasTab = [
      (''c'', ''contribution''), (''s'', ''source''), (''d'', ''derivation''),
      (''e'', ''entity''), (''r'', ''relation'')]"

definition nodeClassFromAlias :: "string \<Rightarrow> string" where
  "nodeClassFromAlias c = aliasVia nodeClassFromAliasTab c"

definition nodeSubtypeToAliasTab :: "(string \<times> string) list" where
  "nodeSubtypeToAliasTab = [
      (''contributor'', ''c''), (''branches'', ''B''), (''head'', ''h''), (''delete'', ''x''),
      (''expiry'', ''e'')]"

definition nodeSubtypeToAlias :: "string \<Rightarrow> string" where
  "nodeSubtypeToAlias c = aliasVia nodeSubtypeToAliasTab c"

definition nodeSubtypeFromAliasTab :: "(string \<times> string) list" where
  "nodeSubtypeFromAliasTab = [
      (''c'', ''contributor''), (''B'', ''branches''), (''h'', ''head''), (''x'', ''delete''),
      (''e'', ''expiry'')]"

definition nodeSubtypeFromAlias :: "string \<Rightarrow> string" where
  "nodeSubtypeFromAlias c = aliasVia nodeSubtypeFromAliasTab c"

section \<open>The edge vocabulary (\<open>edge_taxonomy.go\<close>)\<close>

definition edgeClassToAliasTab :: "(string \<times> string) list" where
  "edgeClassToAliasTab = [
      (''contribution'', ''c''), (''derivation'', ''d''), (''relation'', ''r'')]"

definition edgeClassToAlias :: "string \<Rightarrow> string" where
  "edgeClassToAlias c = aliasVia edgeClassToAliasTab c"

definition edgeClassFromAliasTab :: "(string \<times> string) list" where
  "edgeClassFromAliasTab = [
      (''c'', ''contribution''), (''d'', ''derivation''), (''r'', ''relation'')]"

definition edgeClassFromAlias :: "string \<Rightarrow> string" where
  "edgeClassFromAlias c = aliasVia edgeClassFromAliasTab c"

definition edgeSubtypeToAliasTab :: "(string \<times> string) list" where
  "edgeSubtypeToAliasTab = [
      (''contributor'', ''c''), (''head'', ''h''), (''branches'', ''B''), (''branch'', ''b''),
      (''prune'', ''p''), (''diff'', ''d''), (''delete'', ''x''), (''expiry'', ''e'')]"

definition edgeSubtypeToAlias :: "string \<Rightarrow> string" where
  "edgeSubtypeToAlias c = aliasVia edgeSubtypeToAliasTab c"

definition edgeSubtypeFromAliasTab :: "(string \<times> string) list" where
  "edgeSubtypeFromAliasTab = [
      (''c'', ''contributor''), (''h'', ''head''), (''B'', ''branches''), (''b'', ''branch''),
      (''p'', ''prune''), (''d'', ''diff''), (''x'', ''delete''), (''e'', ''expiry'')]"

definition edgeSubtypeFromAlias :: "string \<Rightarrow> string" where
  "edgeSubtypeFromAlias c = aliasVia edgeSubtypeFromAliasTab c"

section \<open>Field names (\<open>field_taxonomy.go\<close>)\<close>

definition fieldNameToAliasTab :: "(string \<times> string) list" where
  "fieldNameToAliasTab = [
      (''name'', ''n''), (''edges'', ''e''), (''content'', ''c''), (''content_size'', ''s''),
      (''content_hash'', ''h''), (''height'', ''H''), (''edges_diff_omit'', ''E''),
      (''fields_diff_omit'', ''F''), (''delete_by'', ''d''), (''pubkey_valid_from'', ''v''),
      (''pubkey_expires_after'', ''x'')]"

definition fieldNameToAlias :: "string \<Rightarrow> string" where
  "fieldNameToAlias c = aliasVia fieldNameToAliasTab c"

definition fieldNameFromAliasTab :: "(string \<times> string) list" where
  "fieldNameFromAliasTab = [
      (''n'', ''name''), (''e'', ''edges''), (''c'', ''content''), (''s'', ''content_size''),
      (''h'', ''content_hash''), (''H'', ''height''), (''E'', ''edges_diff_omit''),
      (''F'', ''fields_diff_omit''), (''d'', ''delete_by''), (''v'', ''pubkey_valid_from''),
      (''x'', ''pubkey_expires_after'')]"

definition fieldNameFromAlias :: "string \<Rightarrow> string" where
  "fieldNameFromAlias c = aliasVia fieldNameFromAliasTab c"

section \<open>Media types (\<open>encoding_taxonomy.go\<close>)\<close>

definition encodingClassToAliasTab :: "(string \<times> string) list" where
  "encodingClassToAliasTab = [
      (''application'', ''a''), (''audio'', ''A''), (''example'', ''e''), (''font'', ''f''),
      (''image'', ''i''), (''message'', ''m''), (''model'', ''l''), (''multipart'', ''M''),
      (''text'', ''t''), (''video'', ''V'')]"

definition encodingClassToAlias :: "string \<Rightarrow> string" where
  "encodingClassToAlias c = aliasVia encodingClassToAliasTab c"

definition encodingClassFromAliasTab :: "(string \<times> string) list" where
  "encodingClassFromAliasTab = [
      (''a'', ''application''), (''A'', ''audio''), (''e'', ''example''), (''f'', ''font''),
      (''i'', ''image''), (''m'', ''message''), (''l'', ''model''), (''M'', ''multipart''),
      (''t'', ''text''), (''V'', ''video'')]"

definition encodingClassFromAlias :: "string \<Rightarrow> string" where
  "encodingClassFromAlias c = aliasVia encodingClassFromAliasTab c"

definition encodingSubAliases :: "(string \<times> string) list" where
  "encodingSubAliases = [
      (''json'', ''j''), (''ld+json'', ''J''), (''xml'', ''x''), (''xhtml+xml'', ''X''),
      (''pdf'', ''p''), (''octet-stream'', ''o''), (''manifest+json'', ''w''), (''rtf'', ''r''),
      (''zip'', ''z''), (''gzip'', ''g''), (''x-tar'', ''t''), (''x-bzip2'', ''b''),
      (''x-7z-compressed'', ''7''), (''vnd.rar'', ''R''), (''java-archive'', ''k''),
      (''epub+zip'', ''e''), (''msword'', ''W''), (''vnd.ms-excel'', ''E''),
      (''vnd.ms-powerpoint'', ''Y''),
      (''vnd.openxmlformats-officedocument.wordprocessingml.document'', ''d''),
      (''vnd.openxmlformats-officedocument.spreadsheetml.sheet'', ''s''),
      (''vnd.openxmlformats-officedocument.presentationml.presentation'', ''P''),
      (''vnd.oasis.opendocument.text'', ''T''), (''vnd.oasis.opendocument.spreadsheet'', ''S''),
      (''vnd.oasis.opendocument.presentation'', ''Q''), (''plain'', ''n''), (''html'', ''h''),
      (''css'', ''c''), (''javascript'', ''a''), (''csv'', ''v''), (''markdown'', ''m''),
      (''calendar'', ''l''), (''png'', ''G''), (''apng'', ''A''), (''jpeg'', ''i''),
      (''gif'', ''f''), (''webp'', ''B''), (''avif'', ''V''), (''svg+xml'', ''y''),
      (''bmp'', ''M''), (''tiff'', ''F''), (''vnd.microsoft.icon'', ''I''), (''mpeg'', ''q''),
      (''aac'', ''C''), (''wav'', ''U''), (''ogg'', ''O''), (''webm'', ''K''), (''midi'', ''D''),
      (''mp4'', ''4''), (''x-msvideo'', ''Z''), (''mp2t'', ''2''), (''3gpp'', ''3''),
      (''woff'', ''L''), (''woff2'', ''H''), (''ttf'', ''5''), (''otf'', ''6'')]"

text \<open>The reverse map is built from the table: \<open>m[alias] = full\<close> for every entry.\<close>

definition encodingSubFromAliasMap :: "(string \<times> string) list" where
  "encodingSubFromAliasMap = putAll (map (\<lambda>(full, alias). (alias, full)) encodingSubAliases) []"

definition encodingSubToAlias :: "string \<Rightarrow> string" where
  "encodingSubToAlias s = aliasVia encodingSubAliases s"

definition encodingSubFromAlias :: "string \<Rightarrow> string" where
  "encodingSubFromAlias s = aliasVia encodingSubFromAliasMap s"

section \<open>The tables satisfy the laws\<close>

interpretation nodeClass: alias_table nodeClassToAliasTab nodeClassFromAliasTab
  by (rule tableOkI) code_simp

interpretation nodeSub: alias_table nodeSubtypeToAliasTab nodeSubtypeFromAliasTab
  by (rule tableOkI) code_simp

interpretation edgeClass: alias_table edgeClassToAliasTab edgeClassFromAliasTab
  by (rule tableOkI) code_simp

interpretation edgeSub: alias_table edgeSubtypeToAliasTab edgeSubtypeFromAliasTab
  by (rule tableOkI) code_simp

interpretation fieldNames: alias_table fieldNameToAliasTab fieldNameFromAliasTab
  by (rule tableOkI) code_simp

interpretation encClass: alias_table encodingClassToAliasTab encodingClassFromAliasTab
  by (rule tableOkI) code_simp

interpretation encSub: alias_table encodingSubAliases encodingSubFromAliasMap
  by (rule tableOkI) code_simp

lemma alias_functions:
  "nodeClassToAlias = aliasVia nodeClassToAliasTab"
  "nodeClassFromAlias = aliasVia nodeClassFromAliasTab"
  "nodeSubtypeToAlias = aliasVia nodeSubtypeToAliasTab"
  "nodeSubtypeFromAlias = aliasVia nodeSubtypeFromAliasTab"
  "edgeClassToAlias = aliasVia edgeClassToAliasTab"
  "edgeClassFromAlias = aliasVia edgeClassFromAliasTab"
  "edgeSubtypeToAlias = aliasVia edgeSubtypeToAliasTab"
  "edgeSubtypeFromAlias = aliasVia edgeSubtypeFromAliasTab"
  "fieldNameToAlias = aliasVia fieldNameToAliasTab"
  "fieldNameFromAlias = aliasVia fieldNameFromAliasTab"
  "encodingClassToAlias = aliasVia encodingClassToAliasTab"
  "encodingClassFromAlias = aliasVia encodingClassFromAliasTab"
  "encodingSubToAlias = aliasVia encodingSubAliases"
  "encodingSubFromAlias = aliasVia encodingSubFromAliasMap"
  by (rule ext, simp add: nodeClassToAlias_def nodeClassFromAlias_def nodeSubtypeToAlias_def
      nodeSubtypeFromAlias_def edgeClassToAlias_def edgeClassFromAlias_def edgeSubtypeToAlias_def
      edgeSubtypeFromAlias_def fieldNameToAlias_def fieldNameFromAlias_def
      encodingClassToAlias_def encodingClassFromAlias_def encodingSubToAlias_def
      encodingSubFromAlias_def)+

lemmas wire_roundtrips = nodeClass.roundtrip nodeSub.roundtrip edgeClass.roundtrip
  edgeSub.roundtrip fieldNames.roundtrip encClass.roundtrip encSub.roundtrip

section \<open>Type strings\<close>

text \<open>The closed type strings (\<open>class/sub\<close>), each built from its constants.\<close>

definition NodeTypeContributor :: string where "NodeTypeContributor = ''contribution/contributor''"
definition NodeTypeHead :: string where "NodeTypeHead = ''contribution/head''"
definition NodeBranches :: string where "NodeBranches = ''contribution/branches''"
definition NodeDelete :: string where "NodeDelete = ''contribution/delete''"
definition NodeExpiry :: string where "NodeExpiry = ''contribution/expiry''"
definition EdgeTypeContributor :: string where "EdgeTypeContributor = ''contribution/contributor''"
definition EdgeTypeHead :: string where "EdgeTypeHead = ''contribution/head''"
definition EdgeTypeBranches :: string where "EdgeTypeBranches = ''contribution/branches''"
definition EdgeTypeBranch :: string where "EdgeTypeBranch = ''contribution/branch''"
definition EdgeTypePrune :: string where "EdgeTypePrune = ''contribution/prune''"
definition EdgeTypeDiff :: string where "EdgeTypeDiff = ''contribution/diff''"
definition EdgeTypeDelete :: string where "EdgeTypeDelete = ''contribution/delete''"
definition EdgeTypeExpiry :: string where "EdgeTypeExpiry = ''contribution/expiry''"

lemmas type_strings = NodeTypeContributor_def NodeTypeHead_def NodeBranches_def NodeDelete_def
  NodeExpiry_def EdgeTypeContributor_def EdgeTypeHead_def EdgeTypeBranches_def EdgeTypeBranch_def
  EdgeTypePrune_def EdgeTypeDiff_def EdgeTypeDelete_def EdgeTypeExpiry_def

text \<open>The field names the code reads.\<close>

abbreviation "FieldName \<equiv> ''name''"
abbreviation "FieldEdgesDiffOmit \<equiv> ''edges_diff_omit''"
abbreviation "FieldFieldsDiffOmit \<equiv> ''fields_diff_omit''"
abbreviation "FieldPubkeyValidFrom \<equiv> ''pubkey_valid_from''"
abbreviation "FieldPubkeyExpiresAfter \<equiv> ''pubkey_expires_after''"
abbreviation "FieldDeleteBy \<equiv> ''delete_by''"

text \<open>
  \<open>splitType\<close>: the position of the first slash, which may be neither the first byte nor the
  last.
\<close>

definition splitType :: "string \<Rightarrow> (string \<times> string) result" where
  "splitType s =
     (if s = [] then Inl (FormErr errEmptyType)
      else let slash = length (takeWhile (\<lambda>c. c \<noteq> CHR ''/'') s) in
        if slash = length s \<or> slash = 0 \<or> slash = length s - 1
        then Inl (KeyErr errExpectedClassSub)
        else Inr (take slash s, drop (slash + 1) s))"

lemma splitType_joined:
  assumes "CHR ''/'' \<notin> set c" "c \<noteq> []" "s \<noteq> []"
  shows "splitType (c @ CHR ''/'' # s) = Inr (c, s)"
  using assms by (auto simp: splitType_def Let_def takeWhile_append)

lemma splitType_eq_Inr:
  "splitType t = Inr (c, s) \<longleftrightarrow>
     t = c @ CHR ''/'' # s \<and> CHR ''/'' \<notin> set c \<and> c \<noteq> [] \<and> s \<noteq> []"
proof
  assume L: "splitType t = Inr (c, s)"
  let ?n = "length (takeWhile (\<lambda>x. x \<noteq> CHR ''/'') t)"
  have n: "?n \<noteq> length t" "?n \<noteq> 0" "?n \<noteq> length t - 1" and cs: "c = take ?n t" "s = drop (?n + 1) t"
    using L by (auto simp: splitType_def Let_def split: if_splits)
  have lt: "?n < length t"
    using n(1) length_takeWhile_le[of "\<lambda>x. x \<noteq> CHR ''/''" t] by linarith
  have sl: "t ! ?n = CHR ''/''"
    using nth_length_takeWhile[OF lt] by simp
  have c: "c = takeWhile (\<lambda>x. x \<noteq> CHR ''/'') t"
    unfolding cs(1) by (rule takeWhile_eq_take[symmetric])
  have "t = take ?n t @ t ! ?n # drop (Suc ?n) t"
    using lt by (simp add: id_take_nth_drop)
  then show "t = c @ CHR ''/'' # s \<and> CHR ''/'' \<notin> set c \<and> c \<noteq> [] \<and> s \<noteq> []"
    using n lt cs sl by (auto simp: c dest: set_takeWhileD)
next
  assume "t = c @ CHR ''/'' # s \<and> CHR ''/'' \<notin> set c \<and> c \<noteq> [] \<and> s \<noteq> []"
  then show "splitType t = Inr (c, s)"
    using splitType_joined by blast
qed

section \<open>The closed class sets and the character rules\<close>

definition validEdgeClass :: "string \<Rightarrow> bool" where
  "validEdgeClass c = (c \<in> set [''derivation'', ''relation'', ''contribution''])"

definition validNodeClass :: "string \<Rightarrow> bool" where
  "validNodeClass c =
     (c \<in> set [''source'', ''derivation'', ''entity'', ''relation'', ''contribution''])"

definition validEncodingClass :: "string \<Rightarrow> bool" where
  "validEncodingClass c =
     (c \<in> set [''application'', ''audio'', ''example'', ''font'', ''image'', ''message'', ''model'',
        ''multipart'', ''text'', ''video''])"

definition maxFieldNameLen :: nat where "maxFieldNameLen = 128"
definition maxFieldValueLen :: int where "maxFieldValueLen = 64 * 1024"
definition maxFieldsPerRecord :: nat where "maxFieldsPerRecord = 256"

definition lowerOrDigit :: "char \<Rightarrow> bool" where
  "lowerOrDigit c = (CHR ''a'' \<le> c \<and> c \<le> CHR ''z'' \<or> isDigit c)"

text \<open>The loop of \<open>validFieldChars\<close>, at index \<open>i\<close>.\<close>

fun validFieldCharsFrom :: "nat \<Rightarrow> string \<Rightarrow> bool" where
  "validFieldCharsFrom i [] = True"
| "validFieldCharsFrom i (c # cs) =
     (if lowerOrDigit c then validFieldCharsFrom (i + 1) cs
      else if c = CHR ''_'' then (if i = 0 then False else validFieldCharsFrom (i + 1) cs)
      else False)"

definition validFieldChars :: "string \<Rightarrow> bool" where
  "validFieldChars name = (if name = [] then False else validFieldCharsFrom 0 name)"

definition alnum :: "char \<Rightarrow> bool" where
  "alnum c = (lowerOrDigit c \<or> CHR ''A'' \<le> c \<and> c \<le> CHR ''Z'')"

fun validEncodingCharsFrom :: "nat \<Rightarrow> string \<Rightarrow> bool" where
  "validEncodingCharsFrom i [] = True"
| "validEncodingCharsFrom i (c # cs) =
     (if i = 0 then (if \<not> alnum c then False else validEncodingCharsFrom (i + 1) cs)
      else if \<not> (alnum c \<or> c = CHR ''_'' \<or> c = CHR ''.'' \<or> c = CHR ''+'' \<or> c = CHR ''-'')
      then False
      else validEncodingCharsFrom (i + 1) cs)"

definition validEncodingSubtypeChars :: "string \<Rightarrow> bool" where
  "validEncodingSubtypeChars sub = (if sub = [] then False else validEncodingCharsFrom 0 sub)"

definition checkSubtype :: "string \<Rightarrow> unit result" where
  "checkSubtype sub = guard (validFieldChars sub) (DetailErr errInvalidSubtype)"

definition checkEncodingSubtype :: "string \<Rightarrow> unit result" where
  "checkEncodingSubtype sub =
     guard (validEncodingSubtypeChars sub) (DetailErr errInvalidEncodingSubtype)"

definition checkUserFieldName :: "string \<Rightarrow> unit result" where
  "checkUserFieldName name =
     (if maxFieldNameLen < length name then Inl (DetailErr errFieldNameTooLong)
      else if \<not> validFieldChars name then Inl (DetailErr errInvalidFieldName)
      else Inr ())"

definition checkFields :: "gomap \<Rightarrow> unit result" where
  "checkFields fields =
     (if maxFieldsPerRecord < length fields then Inl (DetailErr errTooManyFields)
      else checkAll (\<lambda>(k, v).
        rbind (checkUserFieldName k) (\<lambda>_.
          guard (int (length v) \<le> maxFieldValueLen) (DetailErr errFieldValueTooLong))) fields)"

definition branchNameMax :: nat where "branchNameMax = 128"

definition ValidateBranchName :: "string \<Rightarrow> unit result" where
  "ValidateBranchName name =
     (if name = [] then Inl (ContribErr ErrBranchName)
      else if branchNameMax < length name then Inl (ContribErr ErrBranchName)
      else if hd name = CHR ''_'' then Inl (ContribErr ErrBranchName)
      else checkAll (\<lambda>c. guard (lowerOrDigit c \<or> c = CHR ''_'') (ContribErr ErrBranchName)) name)"

text \<open>\<open>IsTextEncoding\<close>.\<close>

definition IsTextEncoding :: "string \<Rightarrow> bool" where
  "IsTextEncoding encoding =
     (if encoding = [] then False
      else startsWith ''text/'' encoding \<or> startsWith ''message/'' encoding \<or>
        endsWith ''+json'' encoding \<or> endsWith ''+xml'' encoding \<or>
        encoding = ''application/json'' \<or> encoding = ''application/xml'')"

text \<open>\<open>resolveContentEncoding\<close>: an encoding exactly where there is content.\<close>

definition resolveContentEncoding :: "string \<Rightarrow> bool \<Rightarrow> (string \<times> string) result" where
  "resolveContentEncoding encoding hasContent =
     rbind (if encoding \<noteq> [] then wrapping (QueryErr errNewClaim) (splitType encoding)
            else Inr ([], []))
       (\<lambda>(class, sub).
         if \<not> hasContent then
           (if class \<noteq> [] \<or> sub \<noteq> [] then Inl (BuildErr errEncodingWithoutContent)
            else Inr ([], []))
         else if class = [] then Inl (BuildErr errContentWithoutEncoding)
         else if \<not> validEncodingClass class then Inl (DetailErr errUnknownEncodingClass)
         else rbind (checkEncodingSubtype sub) (\<lambda>_. Inr (class, sub)))"

section \<open>What the validators accept\<close>

lemma validFieldCharsFrom_Suc:
  "0 < i \<Longrightarrow> validFieldCharsFrom i cs \<longleftrightarrow> (\<forall>c \<in> set cs. lowerOrDigit c \<or> c = CHR ''_'')"
  by (induction cs arbitrary: i) auto

lemma underscore_not_lowerOrDigit [simp]: "\<not> lowerOrDigit (CHR ''_'')"
  by code_simp

lemma dot_not_lowerOrDigit [simp]: "\<not> lowerOrDigit (CHR ''.'')"
  by code_simp

lemma dot_not_alnum [simp]: "\<not> alnum (CHR ''.'')"
  by code_simp

lemma validFieldChars_iff:
  "validFieldChars s \<longleftrightarrow>
     s \<noteq> [] \<and> hd s \<noteq> CHR ''_'' \<and> (\<forall>c \<in> set s. lowerOrDigit c \<or> c = CHR ''_'')"
  by (cases s) (auto simp: validFieldChars_def validFieldCharsFrom_Suc)

lemma validEncodingCharsFrom_Suc:
  "0 < i \<Longrightarrow> validEncodingCharsFrom i cs \<longleftrightarrow>
     (\<forall>c \<in> set cs. alnum c \<or> c \<in> {CHR ''_'', CHR ''.'', CHR ''+'', CHR ''-''})"
  by (induction cs arbitrary: i) auto

lemma validEncodingSubtypeChars_iff:
  "validEncodingSubtypeChars s \<longleftrightarrow>
     s \<noteq> [] \<and> alnum (hd s) \<and>
     (\<forall>c \<in> set s. alnum c \<or> c \<in> {CHR ''_'', CHR ''.'', CHR ''+'', CHR ''-''})"
  by (cases s) (auto simp: validEncodingSubtypeChars_def validEncodingCharsFrom_Suc)

lemma validFieldChars_undotted: "validFieldChars s \<Longrightarrow> \<not> dotted s"
  by (cases s) (auto simp: validFieldChars_iff)

lemma validEncodingSubtypeChars_undotted: "validEncodingSubtypeChars s \<Longrightarrow> \<not> dotted s"
  by (cases s) (auto simp: validEncodingSubtypeChars_iff)

lemma valid_class_undotted:
  "validNodeClass c \<Longrightarrow> \<not> dotted c" "validEdgeClass c \<Longrightarrow> \<not> dotted c"
  "validEncodingClass c \<Longrightarrow> \<not> dotted c"
  by (auto simp: validNodeClass_def validEdgeClass_def validEncodingClass_def)

lemma checkUserFieldName_ok:
  "checkUserFieldName k = Inr () \<longleftrightarrow> length k \<le> 128 \<and> validFieldChars k"
  by (auto simp: checkUserFieldName_def maxFieldNameLen_def)

lemma checkFields_ok_iff:
  "checkFields m = Inr () \<longleftrightarrow>
     length m \<le> 256 \<and> (\<forall>(k, v) \<in> set m. length k \<le> 128 \<and> validFieldChars k \<and> length v \<le> 65536)"
  by (auto simp: checkFields_def maxFieldsPerRecord_def maxFieldValueLen_def checkAll_Inr_iff
      rbind_eq_Inr checkUserFieldName_ok split: if_splits)

lemma ValidateBranchName_ok:
  "ValidateBranchName s = Inr () \<longleftrightarrow> checkUserFieldName s = Inr ()"
  by (auto simp: ValidateBranchName_def branchNameMax_def checkUserFieldName_ok
      validFieldChars_iff checkAll_Inr_iff)

section \<open>The alias pass over a field map\<close>

definition aliasFieldKeys :: "gomap \<Rightarrow> gomap" where
  "aliasFieldKeys fields = putAll (map (\<lambda>(k, v). (aliasToWire k fieldNameToAlias, v)) fields) []"

definition unaliasFieldKeys :: "gomap \<Rightarrow> gomap" where
  "unaliasFieldKeys fields =
     putAll (map (\<lambda>(k, v). (aliasFromWire k fieldNameFromAlias, v)) fields) []"

text \<open>Writing distinct keys into a fresh map is a plain copy.\<close>

lemma update_fresh: "k \<notin> set (keys m) \<Longrightarrow> AList.update k v m = m @ [(k, v)]"
  by (induction m) auto

lemma putAll_fresh:
  "distinct (keys new) \<Longrightarrow> set (keys new) \<inter> set (keys m) = {} \<Longrightarrow> putAll new m = m @ new"
proof (induction new arbitrary: m)
  case (Cons p new)
  then show ?case
    by (cases p) (simp add: update_fresh keys_def)
qed simp

lemma putAll_Nil: "distinct (keys new) \<Longrightarrow> putAll new [] = new"
  by (simp add: putAll_fresh)

definition undottedKeys :: "gomap \<Rightarrow> bool" where
  "undottedKeys m = (\<forall>k \<in> set (keys m). \<not> dotted k)"

lemma aliasFieldKeys_map:
  assumes "distinct (keys m)" "undottedKeys m"
  shows "aliasFieldKeys m = map (\<lambda>(k, v). (aliasToWire k fieldNameToAlias, v)) m"
proof -
  have inj: "inj_on (\<lambda>k. aliasToWire k fieldNameToAlias) (set (keys m))"
    using assms(2) fieldNames.injective
    by (auto intro!: inj_onI simp: undottedKeys_def alias_functions)
  have "keys (map (\<lambda>(k, v). (aliasToWire k fieldNameToAlias, v)) m) =
      map (\<lambda>k. aliasToWire k fieldNameToAlias) (keys m)"
    by (auto simp: keys_def)
  then have "distinct (keys (map (\<lambda>(k, v). (aliasToWire k fieldNameToAlias, v)) m))"
    using assms(1) inj by (simp add: distinct_map)
  then show ?thesis
    by (simp add: aliasFieldKeys_def putAll_Nil)
qed

lemma unalias_alias:
  assumes "distinct (keys m)" "undottedKeys m"
  shows "unaliasFieldKeys (aliasFieldKeys m) = m"
proof -
  have "map (\<lambda>(k, v). (aliasFromWire k fieldNameFromAlias, v)) (aliasFieldKeys m) = map id m"
    unfolding aliasFieldKeys_map[OF assms] map_map
    using assms(2) fieldNames.roundtrip
    by (intro map_cong) (auto simp: undottedKeys_def keys_def alias_functions)
  then show ?thesis
    using assms(1) by (simp add: unaliasFieldKeys_def putAll_Nil)
qed

lemma undottedKeys_checked: "checkFields m = Inr () \<Longrightarrow> undottedKeys m"
  by (fastforce simp: checkFields_ok_iff undottedKeys_def keys_def dest: validFieldChars_undotted)

section \<open>Lists in a field value\<close>

text \<open>
  \<open>strings.TrimSpace\<close> on the UTF-8 bytes: the encodings of the code points Go's
  \<open>unicode.IsSpace\<close> accepts.
\<close>

definition spaceSeqs :: "string list" where
  "spaceSeqs =
     [[CHR 0x20], [CHR 0x09], [CHR 0x0A], [CHR 0x0B], [CHR 0x0C], [CHR 0x0D],
      [CHR 0xC2, CHR 0x85], [CHR 0xC2, CHR 0xA0], [CHR 0xE1, CHR 0x9A, CHR 0x80],
      [CHR 0xE2, CHR 0x80, CHR 0x80], [CHR 0xE2, CHR 0x80, CHR 0x81],
      [CHR 0xE2, CHR 0x80, CHR 0x82], [CHR 0xE2, CHR 0x80, CHR 0x83],
      [CHR 0xE2, CHR 0x80, CHR 0x84], [CHR 0xE2, CHR 0x80, CHR 0x85],
      [CHR 0xE2, CHR 0x80, CHR 0x86], [CHR 0xE2, CHR 0x80, CHR 0x87],
      [CHR 0xE2, CHR 0x80, CHR 0x88], [CHR 0xE2, CHR 0x80, CHR 0x89],
      [CHR 0xE2, CHR 0x80, CHR 0x8A], [CHR 0xE2, CHR 0x80, CHR 0xA8],
      [CHR 0xE2, CHR 0x80, CHR 0xA9], [CHR 0xE2, CHR 0x80, CHR 0xAF],
      [CHR 0xE2, CHR 0x81, CHR 0x9F], [CHR 0xE3, CHR 0x80, CHR 0x80]]"

function trimLeft :: "string list \<Rightarrow> string \<Rightarrow> string" where
  "trimLeft ws s =
     (case find (\<lambda>w. w \<noteq> [] \<and> startsWith w s) ws of
        None \<Rightarrow> s
      | Some w \<Rightarrow> trimLeft ws (drop (length w) s))"
  by pat_completeness auto
termination
proof (relation "measure (\<lambda>(ws, s). length s)", goal_cases)
  case (2 ws s w)
  then have "w \<noteq> []" "startsWith w s"
    by (auto simp: find_Some_iff)
  then show ?case
    by (cases s) (auto simp: startsWith_def)
qed simp

declare trimLeft.simps [simp del]

definition trimSpace :: "string \<Rightarrow> string" where
  "trimSpace s = rev (trimLeft (map rev spaceSeqs) (rev (trimLeft spaceSeqs s)))"

text \<open>\<open>splitLines\<close>: the trimmed, non-empty lines, as a set of keys.\<close>

definition splitLines :: "string \<Rightarrow> string list" where
  "splitLines s = remdups (filter (\<lambda>l. l \<noteq> []) (map trimSpace (splitOn (CHR 0x0A) s)))"

lemma splitLines_nonempty: "l \<in> set (splitLines s) \<Longrightarrow> l \<noteq> []"
  by (simp add: splitLines_def)

lemma splitLines_Nil [simp]: "splitLines [] = []"
  by code_simp

section \<open>Properties\<close>

text \<open>
  Every type and encoding segment, and every field name,
  that a record can carry comes back from its wire alias unchanged, in all seven alias tables.
  A segment never starts with a dot, which is what keeps aliases and plain values apart.
\<close>

theorem wire_aliases_roundtrip:
  assumes "\<not> dotted v"
  shows "aliasFromWire (aliasToWire v nodeClassToAlias) nodeClassFromAlias = v \<and>
    aliasFromWire (aliasToWire v nodeSubtypeToAlias) nodeSubtypeFromAlias = v \<and>
    aliasFromWire (aliasToWire v edgeClassToAlias) edgeClassFromAlias = v \<and>
    aliasFromWire (aliasToWire v edgeSubtypeToAlias) edgeSubtypeFromAlias = v \<and>
    aliasFromWire (aliasToWire v encodingClassToAlias) encodingClassFromAlias = v \<and>
    aliasFromWire (aliasToWire v encodingSubToAlias) encodingSubFromAlias = v \<and>
    aliasFromWire (aliasToWire v fieldNameToAlias) fieldNameFromAlias = v"
  using assms by (simp add: alias_functions wire_roundtrips)

theorem wire_aliases_roundtrip_witness:
  "aliasFromWire (aliasToWire ''contribution'' nodeClassToAlias) nodeClassFromAlias = ''contribution''"
  using wire_aliases_roundtrip[of "''contribution''"] by simp

text \<open>
  A field map the builder accepts survives the alias pass over
  its keys and back: no two of its names share a wire name.
\<close>

theorem field_map_roundtrip:
  assumes "checkFields m = Inr ()" "distinct (keys m)"
  shows "unaliasFieldKeys (aliasFieldKeys m) = m"
  using assms by (intro unalias_alias undottedKeys_checked)

theorem field_map_roundtrip_witness:
  "unaliasFieldKeys (aliasFieldKeys [(''name'', ''main''), (''rev'', ''2'')]) =
     [(''name'', ''main''), (''rev'', ''2'')]"
proof (rule field_map_roundtrip)
  have "list_all (\<lambda>s. validFieldChars s) [''name'', ''rev'']" by code_simp
  then show "checkFields [(''name'', ''main''), (''rev'', ''2'')] = Inr ()"
    by (simp add: checkFields_ok_iff)
qed simp

text \<open>
  Decoding a record whose field map holds both a name and its alias
  keeps the value that comes last in the map, so that what \<open>delete_by\<close> reads after a
  decode depends on the order the map is iterated in.
\<close>

theorem alias_collision:
  "map_of (unaliasFieldKeys [(''.d'', a), (''delete_by'', b)]) ''delete_by'' = Some b \<and>
   map_of (unaliasFieldKeys [(''delete_by'', b), (''.d'', a)]) ''delete_by'' = Some a"
  by (simp add: unaliasFieldKeys_def aliasFromWire_def fieldNameFromAlias_def aliasVia_def
      fieldNameFromAliasTab_def)

text \<open>
  A branch name is accepted exactly when it is 1 to 128 bytes of
  lower-case letters, digits and underscores not led by an underscore, and a field map exactly
  when it has at most 256 entries, each named like a branch and valued within 64 KiB.
\<close>

theorem naming_rules:
  "(ValidateBranchName s = Inr () \<longleftrightarrow>
      s \<noteq> [] \<and> length s \<le> 128 \<and> hd s \<noteq> CHR ''_'' \<and> list_all (\<lambda>c. lowerOrDigit c \<or> c = CHR ''_'') s) \<and>
   (checkFields m = Inr () \<longleftrightarrow>
      length m \<le> 256 \<and>
      list_all (\<lambda>(k, v). ValidateBranchName k = Inr () \<and> length v \<le> 65536) m)"
  by (auto simp: ValidateBranchName_ok checkUserFieldName_ok checkFields_ok_iff validFieldChars_iff
      list_all_iff)

end
