(* ===== verification/GoTime.thy ===== *)
theory GoTime
  imports Taxonomy "HOL-Library.Monad_Syntax"
begin

text \<open>
  The part of Go's \<open>time\<close> package the program uses: the proleptic Gregorian calendar,
  \<open>time.Date\<close> with its normalisation of the month, \<open>UnixMilli\<close>, \<open>UnixNano\<close>,
  \<open>AddDate\<close>, the fixed-width layout \<open>iso8601Nano\<close> (format and parse) and
  \<open>RFC3339Nano\<close> (parse); then \<open>time_fields.go\<close>, which is built on them.

  A \<open>time.Time\<close> is the number of nanoseconds since the Unix epoch, as an unbounded integer.
  \<open>UnixMilli\<close> and \<open>UnixNano\<close> return an \<open>int64\<close>: their value wraps, as Go's does.
  \<open>time.Date\<close> is exact for the years the program can reach (Go computes it in 64 bits of
  seconds, so a year beyond about \<open>2.9 * 10^11\<close> would differ).
\<close>

section \<open>64-bit signed integers\<close>

definition s64 :: "int \<Rightarrow> int" where
  "s64 x = (x + 2 ^ 63) mod 2 ^ 64 - 2 ^ 63"

lemma s64_id: "- (2 ^ 63) \<le> x \<Longrightarrow> x < 2 ^ 63 \<Longrightarrow> s64 x = x"
  by (simp add: s64_def)

lemma s64_range: "- (2 ^ 63) \<le> s64 x" "s64 x < 2 ^ 63"
  using pos_mod_bound[of "2 ^ 64" "x + 2 ^ 63"] pos_mod_sign[of "2 ^ 64" "x + 2 ^ 63"]
  by (simp_all add: s64_def)

section \<open>The calendar\<close>

definition leap :: "int \<Rightarrow> bool" where
  "leap y = (y mod 4 = 0 \<and> (y mod 100 \<noteq> 0 \<or> y mod 400 = 0))"

text \<open>Days from 0000-01-01 to the first of January of year \<open>y\<close>.\<close>

definition daysBeforeYear :: "int \<Rightarrow> int" where
  "daysBeforeYear y = 365 * y + (y + 3) div 4 - (y + 99) div 100 + (y + 399) div 400"

definition monthDays :: "bool \<Rightarrow> int \<Rightarrow> int" where
  "monthDays l m =
     (if m = 2 then (if l then 29 else 28) else if m \<in> set [4, 6, 9, 11] then 30 else 31)"

text \<open>Days from the first of January to the first of month \<open>m\<close> (1 to 12).\<close>

definition daysBeforeMonth :: "bool \<Rightarrow> int \<Rightarrow> int" where
  "daysBeforeMonth l m =
     [0, 31, 59, 90, 120, 151, 181, 212, 243, 273, 304, 334] ! nat (m - 1) + (if l \<and> 2 < m then 1 else 0)"

text \<open>\<open>time.Date\<close>'s day number since 1970-01-01; the month normalises into the year.\<close>

definition epochDays :: int where "epochDays = 719528"

definition dateDays :: "int \<Rightarrow> int \<Rightarrow> int \<Rightarrow> int" where
  "dateDays year month day =
     (let y = year + (month - 1) div 12; m = (month - 1) mod 12 + 1
      in daysBeforeYear y + daysBeforeMonth (leap y) m + (day - 1) - epochDays)"

definition yearOfDay :: "int \<Rightarrow> int" where
  "yearOfDay n =
     (let g = n * 400 div 146097
      in if n < daysBeforeYear g then g - 1 else if daysBeforeYear (g + 1) \<le> n then g + 1 else g)"

definition monthOfDay :: "bool \<Rightarrow> int \<Rightarrow> int" where
  "monthOfDay l n = last (filter (\<lambda>m. daysBeforeMonth l m \<le> n) [1, 2, 3, 4, 5, 6, 7, 8, 9, 10, 11, 12])"

definition civil :: "int \<Rightarrow> int \<times> int \<times> int" where
  "civil days =
     (let n = days + epochDays; y = yearOfDay n; d = n - daysBeforeYear y; m = monthOfDay (leap y) d
      in (y, m, d - daysBeforeMonth (leap y) m + 1))"

lemma div_bounds:
  fixes z k :: int
  assumes "0 < k"
  shows "k * (z div k) \<le> z" "z < k * (z div k) + k"
  using assms pos_mod_sign[of k z] pos_mod_bound[of k z] mult_div_mod_eq[of k z] by linarith+

lemma div_unique_int:
  fixes z q k :: int
  assumes "k * q \<le> z" "z < k * q + k"
  shows "z div k = q"
  using assms by (intro int_div_pos_eq[where r = "z - k * q"]) auto

lemma div_succ:
  fixes y k j :: int
  assumes "0 < k" "k = j + 1"
  shows "(y + 1 + j) div k = (y + j) div k + of_bool (y mod k = 0)"
proof -
  obtain q r where y: "y = k * q + r" and r: "0 \<le> r" "r < k"
    using assms(1) by (metis mult_div_mod_eq pos_mod_bound pos_mod_sign)
  have 0: "y mod k = r"
    using r by (simp add: y)
  have 1: "(y + 1 + j) div k = q + 1"
    using r assms(2) by (intro div_unique_int) (simp_all add: y algebra_simps)
  have 2: "(y + j) div k = q + 1 - of_bool (r = 0)"
    using r assms(2) by (intro div_unique_int) (auto simp: y algebra_simps)
  show ?thesis unfolding 0 1 2 by simp
qed

lemma mod_100_4: "(y::int) mod 100 = 0 \<Longrightarrow> y mod 4 = 0"
  unfolding mod_eq_0_iff_dvd by (rule dvd_trans[of 4 100]) simp

lemma mod_400_100: "(y::int) mod 400 = 0 \<Longrightarrow> y mod 100 = 0"
  unfolding mod_eq_0_iff_dvd by (rule dvd_trans[of 100 400]) simp

lemma leap_count:
  "(p100 \<Longrightarrow> p4) \<Longrightarrow> (p400 \<Longrightarrow> p100) \<Longrightarrow>
     (of_bool p4 :: int) - of_bool p100 + of_bool p400 = of_bool (p4 \<and> (\<not> p100 \<or> p400))"
  by (cases p4; cases p100; cases p400; simp)

lemma daysBeforeYear_succ: "daysBeforeYear (y + 1) = daysBeforeYear y + (if leap y then 366 else 365)"
proof -
  define a b c :: int where abc: "a = of_bool (y mod 4 = 0)" "b = of_bool (y mod 100 = 0)"
    "c = of_bool (y mod 400 = 0)"
  have 1: "(y + 1 + 3) div 4 = (y + 3) div 4 + a"
    "(y + 1 + 99) div 100 = (y + 99) div 100 + b"
    "(y + 1 + 399) div 400 = (y + 399) div 400 + c"
    unfolding abc by (rule div_succ; simp)+
  have 2: "a - b + c = of_bool (leap y)"
    unfolding abc leap_def by (rule leap_count[OF mod_100_4 mod_400_100])
  have "daysBeforeYear (y + 1) = daysBeforeYear y + 365 + (a - b + c)"
    unfolding daysBeforeYear_def 1 by (simp only: distrib_left mult_1_right)
  then show ?thesis unfolding 2 by (simp split: if_splits)
qed

lemma daysBeforeYear_mono_succ: "daysBeforeYear y + 365 \<le> daysBeforeYear (y + 1)"
  by (simp add: daysBeforeYear_succ)

lemma daysBeforeYear_mono_nat: "daysBeforeYear y + 365 * int k \<le> daysBeforeYear (y + int k)"
proof (induction k)
  case (Suc k)
  then show ?case using daysBeforeYear_mono_succ[of "y + int k"] by (simp add: algebra_simps)
qed simp

lemma daysBeforeYear_mono:
  assumes "y \<le> z"
  shows "daysBeforeYear y + 365 * (z - y) \<le> daysBeforeYear z"
  using daysBeforeYear_mono_nat[of y "nat (z - y)"] assms by simp

lemma daysBeforeYear_le: "y \<le> z \<Longrightarrow> daysBeforeYear y \<le> daysBeforeYear z"
  using daysBeforeYear_mono[of y z] by simp

lemma daysBeforeYear_bounds:
  "146097 * y - 396 \<le> 400 * daysBeforeYear y" "400 * daysBeforeYear y \<le> 146097 * y + 699"
proof -
  have b: "4 * ((y + 3) div 4) \<le> y + 3" "y + 3 < 4 * ((y + 3) div 4) + 4"
    "100 * ((y + 99) div 100) \<le> y + 99" "y + 99 < 100 * ((y + 99) div 100) + 100"
    "400 * ((y + 399) div 400) \<le> y + 399" "y + 399 < 400 * ((y + 399) div 400) + 400"
    by (rule div_bounds, simp)+
  show "146097 * y - 396 \<le> 400 * daysBeforeYear y"
    using b unfolding daysBeforeYear_def by (simp add: algebra_simps)
  show "400 * daysBeforeYear y \<le> 146097 * y + 699"
    using b unfolding daysBeforeYear_def by (simp add: algebra_simps)
qed

lemma yearOfDay_correct:
  "daysBeforeYear (yearOfDay n) \<le> n \<and> n < daysBeforeYear (yearOfDay n + 1)"
proof -
  define g where "g = n * 400 div 146097"
  have g: "146097 * g \<le> 400 * n" "400 * n < 146097 * g + 146097"
    using div_bounds[of 146097 "n * 400"] by (simp_all add: g_def)
  have lo: "daysBeforeYear (g - 1) \<le> n"
    using daysBeforeYear_bounds(2)[of "g - 1"] g(1) by (simp add: algebra_simps)
  have hi: "n < daysBeforeYear (g + 2)"
    using daysBeforeYear_bounds(1)[of "g + 2"] g(2) by (simp add: algebra_simps)
  show ?thesis
    using lo hi by (auto simp: yearOfDay_def Let_def g_def[symmetric] algebra_simps)
qed

lemma yearOfDay_unique:
  assumes "daysBeforeYear y \<le> n" "n < daysBeforeYear (y + 1)"
  shows "yearOfDay n = y"
proof (rule ccontr)
  let ?z = "yearOfDay n"
  assume "?z \<noteq> y"
  then consider "?z + 1 \<le> y" | "y + 1 \<le> ?z" by linarith
  then show False
  proof cases
    case 1
    then show False using daysBeforeYear_le[OF 1] yearOfDay_correct[of n] assms(1) by simp
  next
    case 2
    then show False using daysBeforeYear_le[OF 2] yearOfDay_correct[of n] assms(2) by simp
  qed
qed

lemma month_cases:
  fixes m :: int
  assumes "1 \<le> m" "m \<le> 12"
  obtains "m = 1" | "m = 2" | "m = 3" | "m = 4" | "m = 5" | "m = 6" | "m = 7" | "m = 8"
    | "m = 9" | "m = 10" | "m = 11" | "m = 12"
proof -
  have "m \<in> {1..12}" using assms by simp
  also have "{1..12::int} = {1, 2, 3, 4, 5, 6, 7, 8, 9, 10, 11, 12}" by code_simp
  finally show ?thesis using that by blast
qed

lemma monthOfDay_correct:
  assumes "1 \<le> m" "m \<le> 12" "daysBeforeMonth l m \<le> d" "d < daysBeforeMonth l m + monthDays l m"
  shows "monthOfDay l d = m"
  using assms(1,2)
  by (cases rule: month_cases)
    (use assms(3,4) in \<open>auto simp: monthOfDay_def daysBeforeMonth_def monthDays_def split: if_splits\<close>)

lemma daysBeforeMonth_succ:
  "1 \<le> m \<Longrightarrow> m < 12 \<Longrightarrow> daysBeforeMonth l (m + 1) = daysBeforeMonth l m + monthDays l m"
  by (cases rule: month_cases[of m]; simp add: daysBeforeMonth_def monthDays_def)

lemma monthOfDay_total:
  assumes "0 \<le> d" "d < (if l then 366 else 365)"
  shows "\<exists>m. 1 \<le> m \<and> m \<le> 12 \<and> daysBeforeMonth l m \<le> d \<and> d < daysBeforeMonth l m + monthDays l m"
proof -
  let ?S = "{m \<in> {1..12}. daysBeforeMonth l m \<le> d}"
  define m where "m = Max ?S"
  have fin: "finite ?S" by (rule finite_subset[of _ "{1..12}"]) auto
  have one: "1 \<in> ?S" using assms(1) by (simp add: daysBeforeMonth_def)
  have m: "m \<in> ?S" unfolding m_def by (rule Max_in[OF fin]) (use one in blast)
  have top: "\<And>k. k \<in> ?S \<Longrightarrow> k \<le> m" unfolding m_def by (rule Max_ge[OF fin])
  show ?thesis
  proof (cases "m < 12")
    case True
    then have "m + 1 \<notin> ?S" using top[of "m + 1"] by auto
    then show ?thesis using m True daysBeforeMonth_succ[of m l] by auto
  next
    case False
    then have "m = 12" using m by auto
    then show ?thesis
      using m assms(2) by (intro exI[of _ 12]) (cases l; simp add: daysBeforeMonth_def monthDays_def)
  qed
qed

definition validDate :: "int \<Rightarrow> int \<Rightarrow> int \<Rightarrow> bool" where
  "validDate y m d = (1 \<le> m \<and> m \<le> 12 \<and> 1 \<le> d \<and> d \<le> monthDays (leap y) m)"

lemma daysBeforeMonth_end:
  assumes "1 \<le> m" "m \<le> 12"
  shows "0 \<le> daysBeforeMonth l m" "daysBeforeMonth l m + monthDays l m \<le> (if l then 366 else 365)"
  using assms by (cases rule: month_cases; simp add: daysBeforeMonth_def monthDays_def)+

lemma dateDays_valid:
  assumes "1 \<le> m" "m \<le> 12"
  shows "dateDays y m d = daysBeforeYear y + daysBeforeMonth (leap y) m + (d - 1) - epochDays"
  using assms by (simp add: dateDays_def Let_def div_pos_pos_trivial mod_pos_pos_trivial)

lemma civil_dateDays:
  assumes "validDate y m d"
  shows "civil (dateDays y m d) = (y, m, d)"
proof -
  have m: "1 \<le> m" "m \<le> 12" and d: "1 \<le> d" "d \<le> monthDays (leap y) m"
    using assms by (simp_all add: validDate_def)
  let ?n = "daysBeforeYear y + daysBeforeMonth (leap y) m + (d - 1)"
  have n: "dateDays y m d + epochDays = ?n" and n': "epochDays + dateDays y m d = ?n"
    by (simp_all add: dateDays_valid[OF m])
  have "yearOfDay ?n = y"
    using daysBeforeMonth_end[OF m, of "leap y"] d
    by (intro yearOfDay_unique) (auto simp: daysBeforeYear_succ)
  moreover have "monthOfDay (leap y) (daysBeforeMonth (leap y) m + (d - 1)) = m"
    using m d by (intro monthOfDay_correct) auto
  ultimately show ?thesis
    unfolding civil_def n by (simp add: Let_def algebra_simps)
qed

lemma civil_valid:
  assumes "civil n = (y, m, d)"
  shows "validDate y m d" "dateDays y m d = n"
proof -
  let ?n = "n + epochDays"
  have y: "y = yearOfDay ?n" using assms by (simp add: civil_def Let_def)
  let ?d = "?n - daysBeforeYear y"
  have r: "0 \<le> ?d" "?d < (if leap y then 366 else 365)"
    using yearOfDay_correct[of ?n] by (auto simp: y daysBeforeYear_succ)
  obtain k where k: "1 \<le> k" "k \<le> 12" "daysBeforeMonth (leap y) k \<le> ?d"
      "?d < daysBeforeMonth (leap y) k + monthDays (leap y) k"
    using monthOfDay_total[OF r] by blast
  have m: "m = k" and d: "d = ?d - daysBeforeMonth (leap y) k + 1"
    using assms monthOfDay_correct[OF k] by (auto simp: civil_def Let_def y)
  show "validDate y m d"
    using k by (simp add: validDate_def m d)
  show "dateDays y m d = n"
    using dateDays_valid[OF k(1,2), of y d] by (simp add: m d)
qed

section \<open>Instants\<close>

definition secsOf :: "int \<Rightarrow> int" where "secsOf t = t div 1000000000"
definition minsOf :: "int \<Rightarrow> int" where "minsOf t = secsOf t div 60"
definition hoursOf :: "int \<Rightarrow> int" where "hoursOf t = minsOf t div 60"
definition daysOf :: "int \<Rightarrow> int" where "daysOf t = hoursOf t div 24"

text \<open>\<open>time.Date(year, month, day, hour, min, sec, nsec, UTC)\<close>.\<close>

definition goDate :: "int \<Rightarrow> int \<Rightarrow> int \<Rightarrow> int \<Rightarrow> int \<Rightarrow> int \<Rightarrow> int \<Rightarrow> int" where
  "goDate year month day hour mins sec nsec =
     (((dateDays year month day * 24 + hour) * 60 + mins) * 60 + sec) * 1000000000 + nsec"

text \<open>The calendar date and the clock of an instant.\<close>

definition dateOf :: "int \<Rightarrow> int \<times> int \<times> int" where
  "dateOf t = civil (daysOf t)"

definition yearOf :: "int \<Rightarrow> int" where
  "yearOf t = fst (dateOf t)"

lemma goDate_dateOf:
  assumes "dateOf t = (y, m, d)"
  shows "goDate y m d (hoursOf t mod 24) (minsOf t mod 60) (secsOf t mod 60) (t mod 1000000000) = t"
proof -
  have "daysOf t * 24 + hoursOf t mod 24 = hoursOf t" "hoursOf t * 60 + minsOf t mod 60 = minsOf t"
    "minsOf t * 60 + secsOf t mod 60 = secsOf t" "secsOf t * 1000000000 + t mod 1000000000 = t"
    by (simp_all add: daysOf_def hoursOf_def minsOf_def secsOf_def)
  then show ?thesis
    using civil_valid(2)[of "daysOf t" y m d] assms by (simp add: goDate_def dateOf_def)
qed

definition UnixNano :: "int \<Rightarrow> int" where "UnixNano t = s64 t"
definition UnixMilli :: "int \<Rightarrow> int" where "UnixMilli t = s64 (t div 1000000)"

text \<open>\<open>time.UnixMilli(ms)\<close> and \<open>t.AddDate(years, months, days)\<close>.\<close>

definition ofUnixMilli :: "int \<Rightarrow> int" where "ofUnixMilli ms = ms * 1000000"

definition addDate :: "int \<Rightarrow> int \<Rightarrow> int \<Rightarrow> int \<Rightarrow> int" where
  "addDate years months days t =
     (let (y, m, d) = dateOf t
      in goDate (y + years) (m + months) (d + days)
           (hoursOf t mod 24) (minsOf t mod 60) (secsOf t mod 60) (t mod 1000000000))"

section \<open>Printing numbers\<close>

definition digit :: "int \<Rightarrow> char" where
  "digit d = char_of (nat (48 + d))"

function decDigits :: "int \<Rightarrow> string" where
  "decDigits n = (if n < 10 then [digit n] else decDigits (n div 10) @ [digit (n mod 10)])"
  by pat_completeness auto
termination by (relation "measure nat") auto

declare decDigits.simps [simp del]

text \<open>\<open>time.appendInt\<close>: a sign, and zero padding up to the width.\<close>

definition appendInt :: "int \<Rightarrow> nat \<Rightarrow> string" where
  "appendInt x width =
     (if x < 0 then ''-'' else []) @
     (let ds = decDigits \<bar>x\<bar> in replicate (width - length ds) (CHR ''0'') @ ds)"

fun fixedDigits :: "nat \<Rightarrow> int \<Rightarrow> string" where
  "fixedDigits 0 n = []"
| "fixedDigits (Suc w) n = fixedDigits w (n div 10) @ [digit (n mod 10)]"

lemma length_fixedDigits [simp]: "length (fixedDigits w n) = w"
  by (induction w arbitrary: n) auto

lemma digit_zero: "digit 0 = CHR ''0''"
  by code_simp

lemma fixedDigits_zero: "fixedDigits w 0 = replicate w (CHR ''0'')"
  by (induction w) (simp_all add: digit_zero replicate_append_same)

lemma div_ten_less: "n < 10 * m \<Longrightarrow> n div 10 < (m :: int)"
  by presburger

lemma pad_fixedDigits:
  "0 \<le> n \<Longrightarrow> n < 10 ^ Suc w \<Longrightarrow>
     replicate (Suc w - length (decDigits n)) (CHR ''0'') @ decDigits n = fixedDigits (Suc w) n
     \<and> length (decDigits n) \<le> Suc w"
proof (induction w arbitrary: n)
  case 0
  then show ?case by (simp add: decDigits.simps)
next
  case (Suc w)
  show ?case
  proof (cases "n < 10")
    case True
    then have "n div 10 = 0" "n mod 10 = n" using Suc.prems by simp_all
    then show ?thesis
      using True by (simp add: decDigits.simps[of n] fixedDigits_zero flip: fixedDigits.simps(2) del: fixedDigits.simps(2))
        (simp add: fixedDigits_zero)
  next
    case False
    have "n div 10 < 10 ^ Suc w" using Suc.prems(2) by (intro div_ten_less) simp
    then show ?thesis
      using Suc.IH[of "n div 10"] Suc.prems(1) False by (simp add: decDigits.simps[of n])
  qed
qed

lemma appendInt_fixed:
  "0 < w \<Longrightarrow> 0 \<le> n \<Longrightarrow> n < 10 ^ w \<Longrightarrow> appendInt n w = fixedDigits w n"
  using pad_fixedDigits[of n "w - 1"] by (simp add: appendInt_def Let_def)

section \<open>Reading numbers\<close>

definition decVal :: "string \<Rightarrow> int" where
  "decVal s = foldl (\<lambda>v c. v * 10 + digitVal c) 0 s"

text \<open>The \<open>atoi\<close> of package \<open>time\<close>: an optional sign and digits only.\<close>

definition goAtoi :: "string \<Rightarrow> int option" where
  "goAtoi s =
     (let neg = (s \<noteq> [] \<and> hd s = CHR ''-'');
          body = (if s \<noteq> [] \<and> (hd s = CHR ''-'' \<or> hd s = CHR ''+'') then tl s else s)
      in if list_all isDigit body then Some (if neg then - decVal body else decVal body) else None)"

lemma digit_props: "0 \<le> d \<Longrightarrow> d < 10 \<Longrightarrow> isDigit (digit d) \<and> digitVal (digit d) = d"
proof -
  assume "0 \<le> d" "d < 10"
  then have "d \<in> {0..9}" by simp
  also have "{0..9::int} = {0, 1, 2, 3, 4, 5, 6, 7, 8, 9}" by code_simp
  finally have "d = 0 \<or> d = 1 \<or> d = 2 \<or> d = 3 \<or> d = 4 \<or> d = 5 \<or> d = 6 \<or> d = 7 \<or> d = 8 \<or> d = 9"
    by blast
  then show ?thesis
    by (elim disjE; simp; code_simp)
qed

lemma isDigit_digit [simp]: "0 \<le> d \<Longrightarrow> d < 10 \<Longrightarrow> isDigit (digit d)"
  and digitVal_digit [simp]: "0 \<le> d \<Longrightarrow> d < 10 \<Longrightarrow> digitVal (digit d) = d"
  using digit_props by blast+

lemma fixedDigits_digits: "list_all isDigit (fixedDigits w n)"
  by (induction w arbitrary: n) auto

lemma decVal_fixedDigits: "0 \<le> n \<Longrightarrow> n < 10 ^ w \<Longrightarrow> decVal (fixedDigits w n) = n"
proof (induction w arbitrary: n)
  case (Suc w)
  have "n div 10 < 10 ^ w" using Suc.prems(2) by (intro div_ten_less) simp
  then show ?case
    using Suc.IH[of "n div 10"] Suc.prems(1) by (simp add: decVal_def)
qed (simp add: decVal_def)

lemma isDigit_nonsign: "isDigit c \<Longrightarrow> c \<noteq> CHR ''-'' \<and> c \<noteq> CHR ''+''"
  by (auto simp: isDigit_def less_eq_char_def)

lemma goAtoi_digits: "list_all isDigit s \<Longrightarrow> goAtoi s = Some (decVal s)"
  by (cases s) (auto simp: goAtoi_def Let_def dest: isDigit_nonsign)

lemma goAtoi_fixedDigits: "0 \<le> n \<Longrightarrow> n < 10 ^ w \<Longrightarrow> goAtoi (fixedDigits w n) = Some n"
  by (simp add: goAtoi_digits fixedDigits_digits decVal_fixedDigits)

section \<open>The layout \<open>iso8601Nano\<close>\<close>

text \<open>
  \<open>t.UTC().Format("2006-01-02T15:04:05.000000000Z")\<close>, which \<open>FormatTimestamp\<close>
  is.
\<close>

definition FormatTimestamp :: "int \<Rightarrow> string" where
  "FormatTimestamp t =
     (let (y, m, d) = dateOf t
      in appendInt y 4 @ ''-'' @ appendInt m 2 @ ''-'' @ appendInt d 2 @ ''T'' @
         appendInt (hoursOf t mod 24) 2 @ '':'' @ appendInt (minsOf t mod 60) 2 @ '':'' @
         appendInt (secsOf t mod 60) 2 @ ''.'' @ appendInt (t mod 1000000000) 9 @ ''Z'')"

text \<open>
  The pieces of \<open>time.Parse\<close>: a literal of the layout, a number of one or two digits
  (\<open>getnum\<close>; two when \<open>fixed\<close>), a number in a range.
\<close>

definition skipChar :: "char \<Rightarrow> string \<Rightarrow> string option" where
  "skipChar c v = (case v of [] \<Rightarrow> None | x # xs \<Rightarrow> if x = c then Some xs else None)"

fun getnum :: "string \<Rightarrow> bool \<Rightarrow> (int \<times> string) option" where
  "getnum [] fixed = None"
| "getnum [a] fixed = (if isDigit a \<and> \<not> fixed then Some (digitVal a, []) else None)"
| "getnum (a # b # r) fixed =
     (if \<not> isDigit a then None
      else if \<not> isDigit b then (if fixed then None else Some (digitVal a, b # r))
      else Some (digitVal a * 10 + digitVal b, r))"

definition numIn :: "int \<Rightarrow> int \<Rightarrow> string \<Rightarrow> bool \<Rightarrow> (int \<times> string) option" where
  "numIn lo hi v fixed =
     (case getnum v fixed of None \<Rightarrow> None
      | Some (n, r) \<Rightarrow> if lo \<le> n \<and> n \<le> hi then Some (n, r) else None)"

definition longYear :: "string \<Rightarrow> (int \<times> string) option" where
  "longYear v =
     (if length v < 4 \<or> \<not> isDigit (hd v) then None
      else do { y \<leftarrow> goAtoi (take 4 v); Some (y, drop 4 v) })"

text \<open>\<open>parseNanoseconds\<close>: the separator and at most nine digits, scaled to nanoseconds.\<close>

definition parseNanoseconds :: "string \<Rightarrow> nat \<Rightarrow> int option" where
  "parseNanoseconds v nbytes =
     (if v = [] \<or> \<not> (hd v = CHR ''.'' \<or> hd v = CHR '','') then None
      else let n = min nbytes 10 in do {
        ns \<leftarrow> goAtoi (take (n - 1) (tl v));
        if ns < 0 then None else Some (ns * 10 ^ (10 - n)) })"

text \<open>What the two layouts share: \<open>2006-01-02T15:04:05\<close>.\<close>

definition parseDateTime :: "string \<Rightarrow> (int \<times> int \<times> int \<times> int \<times> int \<times> int \<times> string) option" where
  "parseDateTime v = do {
     (y, v) \<leftarrow> longYear v; v \<leftarrow> skipChar (CHR ''-'') v;
     (mo, v) \<leftarrow> numIn 1 12 v True; v \<leftarrow> skipChar (CHR ''-'') v;
     (d, v) \<leftarrow> getnum v True; v \<leftarrow> skipChar (CHR ''T'') v;
     (h, v) \<leftarrow> numIn 0 23 v False; v \<leftarrow> skipChar (CHR '':'') v;
     (mi, v) \<leftarrow> numIn 0 59 v True; v \<leftarrow> skipChar (CHR '':'') v;
     (s, v) \<leftarrow> numIn 0 59 v True;
     Some (y, mo, d, h, mi, s, v) }"

text \<open>
  \<open>parseRFC3339Nano\<close>: \<open>time.Parse(iso8601Nano, s)\<close>. The fraction takes exactly nine
  bytes after its separator; the trailing \<open>Z\<close> is a literal of this layout, so the zone is
  UTC. The day is checked against its month at the end.
\<close>

definition parseRFC3339Nano :: "string \<Rightarrow> int option" where
  "parseRFC3339Nano v = do {
     (y, mo, d, h, mi, s, v) \<leftarrow> parseDateTime v;
     ns \<leftarrow> (if length v < 10 then None else parseNanoseconds v 10);
     v \<leftarrow> skipChar (CHR ''Z'') (drop 10 v);
     if v \<noteq> [] \<or> \<not> validDate y mo d then None
     else Some (goDate y mo d h mi s ns) }"

text \<open>
  \<open>time.Parse(time.RFC3339Nano, s)\<close>: the fraction is optional and of any length, and the
  zone is \<open>Z\<close> or an offset of at most 24 hours and 60 minutes.
\<close>

definition zoneOffset :: "string \<Rightarrow> (int \<times> string) option" where
  "zoneOffset v =
     (if v \<noteq> [] \<and> hd v = CHR ''Z'' then Some (0, tl v)
      else if length v < 6 \<or> v ! 3 \<noteq> CHR '':'' then None
      else do {
        (hr, _) \<leftarrow> getnum (take 2 (drop 1 v)) True;
        (mm, _) \<leftarrow> getnum (take 2 (drop 4 v)) True;
        if 24 < hr \<or> 60 < mm then None
        else if hd v = CHR ''+'' then Some ((hr * 60 + mm) * 60, drop 6 v)
        else if hd v = CHR ''-'' then Some (- ((hr * 60 + mm) * 60), drop 6 v)
        else None })"

definition parseRFC3339Any :: "string \<Rightarrow> int option" where
  "parseRFC3339Any v = do {
     (y, mo, d, h, mi, s, v) \<leftarrow> parseDateTime v;
     (ns, v) \<leftarrow>
       (if length v < 2 \<or> \<not> (hd v = CHR ''.'' \<or> hd v = CHR '','') \<or> \<not> isDigit (v ! 1)
        then Some (0, v)
        else let i = length (takeWhile isDigit (tl v)) in do {
          ns \<leftarrow> parseNanoseconds v (1 + i);
          Some (ns, drop (1 + i) v) });
     (off, v) \<leftarrow> zoneOffset v;
     if v \<noteq> [] \<or> \<not> validDate y mo d then None
     else Some (goDate y mo d h mi s ns - off * 1000000000) }"

lemma getnum_fixed2: "0 \<le> n \<Longrightarrow> n < 100 \<Longrightarrow> getnum (fixedDigits 2 n @ r) f = Some (n, r)"
  by (simp add: numeral_2_eq_2)

lemma numIn_fixed2:
  "0 \<le> n \<Longrightarrow> n < 100 \<Longrightarrow> lo \<le> n \<Longrightarrow> n \<le> hi \<Longrightarrow> numIn lo hi (fixedDigits 2 n @ r) f = Some (n, r)"
  by (simp add: numIn_def getnum_fixed2)

lemma hd_fixedDigits: "isDigit (hd (fixedDigits (Suc w) n))"
  using fixedDigits_digits[of "Suc w" n]
  by (cases "fixedDigits (Suc w) n") (auto simp del: fixedDigits.simps dest: arg_cong[of _ _ length])

lemma longYear_fixed4: "0 \<le> y \<Longrightarrow> y < 10000 \<Longrightarrow> longYear (fixedDigits 4 y @ r) = Some (y, r)"
  using hd_fixedDigits[of 3 y] goAtoi_fixedDigits[of y 4]
  by (simp add: longYear_def hd_append numeral_eq_Suc del: fixedDigits.simps)
    (auto simp: fixedDigits.simps)

lemma parseNanoseconds_fixed9:
  "0 \<le> n \<Longrightarrow> n < 1000000000 \<Longrightarrow> parseNanoseconds (CHR ''.'' # fixedDigits 9 n @ r) 10 = Some n"
  using goAtoi_fixedDigits[of n 9] by (simp add: parseNanoseconds_def Let_def)

lemma FormatTimestamp_fixed:
  assumes "dateOf t = (y, m, d)" "0 \<le> y" "y < 10000"
  shows "FormatTimestamp t = fixedDigits 4 y @ ''-'' @ fixedDigits 2 m @ ''-'' @ fixedDigits 2 d @ ''T'' @
     fixedDigits 2 (hoursOf t mod 24) @ '':'' @ fixedDigits 2 (minsOf t mod 60) @ '':'' @
     fixedDigits 2 (secsOf t mod 60) @ ''.'' @ fixedDigits 9 (t mod 1000000000) @ ''Z''"
proof -
  have v: "validDate y m d"
    using civil_valid(1) assms(1) by (simp add: dateOf_def)
  then have md: "0 \<le> m" "m < 100" "0 \<le> d" "d < 100"
    by (auto simp: validDate_def monthDays_def split: if_splits)
  have two: "0 \<le> x \<Longrightarrow> x < 100 \<Longrightarrow> appendInt x 2 = fixedDigits 2 x" for x
    by (rule appendInt_fixed) simp_all
  have four: "appendInt y 4 = fixedDigits 4 y"
    using assms by (intro appendInt_fixed) simp_all
  have nine: "appendInt (t mod 1000000000) 9 = fixedDigits 9 (t mod 1000000000)"
    by (rule appendInt_fixed) simp_all
  have h: "hoursOf t mod 24 < 100" "minsOf t mod 60 < 100" "secsOf t mod 60 < 100"
    by (rule order_less_trans[OF pos_mod_bound]; simp)+
  show ?thesis
    unfolding FormatTimestamp_def assms(1) Let_def prod.case
    using md h by (simp only: two four nine pos_mod_sign zero_less_numeral)
qed

lemma length_FormatTimestamp:
  assumes "0 \<le> yearOf t" "yearOf t < 10000"
  shows "length (FormatTimestamp t) = 30"
  using assms by (cases "dateOf t") (simp add: FormatTimestamp_fixed yearOf_def)

lemma parse_format:
  assumes "0 \<le> yearOf t" "yearOf t < 10000"
  shows "parseRFC3339Nano (FormatTimestamp t) = Some t"
proof -
  obtain y m d where D: "dateOf t = (y, m, d)" by (cases "dateOf t") auto
  have v: "validDate y m d" using civil_valid(1) D by (simp add: dateOf_def)
  then have md: "1 \<le> m" "m \<le> 12" "1 \<le> d" "d \<le> 31"
    by (auto simp: validDate_def monthDays_def split: if_splits)
  have y: "0 \<le> y" "y < 10000" using assms by (simp_all add: yearOf_def D)
  have hms: "hoursOf t mod 24 \<le> 23" "minsOf t mod 60 \<le> 59" "secsOf t mod 60 \<le> 59"
    using pos_mod_bound[of 24 "hoursOf t"] pos_mod_bound[of 60 "minsOf t"]
      pos_mod_bound[of 60 "secsOf t"] by simp_all
  have "parseDateTime (FormatTimestamp t) =
      Some (y, m, d, hoursOf t mod 24, minsOf t mod 60, secsOf t mod 60,
        ''.'' @ fixedDigits 9 (t mod 1000000000) @ ''Z'')"
    using md y hms
    by (simp add: parseDateTime_def FormatTimestamp_fixed[OF D y] longYear_fixed4 skipChar_def
        numIn_fixed2 getnum_fixed2 del: fixedDigits.simps)
  then show ?thesis
    using v goDate_dateOf[OF D] parseNanoseconds_fixed9[of "t mod 1000000000"]
    by (simp add: parseRFC3339Nano_def skipChar_def del: fixedDigits.simps)
qed

section \<open>Time fields (\<open>time_fields.go\<close>)\<close>

definition timeFields :: "string list" where
  "timeFields = [FieldDeleteBy, FieldPubkeyValidFrom, FieldPubkeyExpiresAfter]"

definition firstPossibleClaim :: int where
  "firstPossibleClaim = goDate 2026 5 3 0 0 0 0"

definition PredatesAnyClaim :: "int \<Rightarrow> bool" where
  "PredatesAnyClaim t = (t < firstPossibleClaim)"

definition checkTimestampFields :: "gomap \<Rightarrow> unit result" where
  "checkTimestampFields fields =
     checkAll (\<lambda>name. case map_of fields name of
         None \<Rightarrow> Inr ()
       | Some v \<Rightarrow> guard (parseRFC3339Nano v \<noteq> None) (ShapeErr ErrTimestampForm)) timeFields"

lemma checkTimestampFields_ok:
  "checkTimestampFields m = Inr () \<longleftrightarrow>
     (\<forall>f \<in> set timeFields. \<forall>v. map_of m f = Some v \<longrightarrow> parseRFC3339Nano v \<noteq> None)"
  by (auto simp: checkTimestampFields_def checkAll_Inr_iff split: option.splits)

lemma checkTimestampFields_error:
  "checkTimestampFields m = Inl e \<Longrightarrow> e = ShapeErr ErrTimestampForm"
  by (auto simp: checkTimestampFields_def dest!: checkAll_Inl split: option.splits)

section \<open>Properties\<close>

text \<open>
  Property C39 (timestamp_roundtrip): every instant of the years 0 to 9999 is written as thirty
  bytes, and reading them gives the instant back to the nanosecond.
\<close>

theorem timestamp_roundtrip:
  assumes "0 \<le> yearOf t" "yearOf t < 10000"
  shows "parseRFC3339Nano (FormatTimestamp t) = Some t \<and> length (FormatTimestamp t) = 30"
  using parse_format[OF assms] length_FormatTimestamp[OF assms] by simp

theorem timestamp_roundtrip_witness:
  "parseRFC3339Nano (FormatTimestamp 1777766400123456789) = Some 1777766400123456789"
proof -
  have "yearOf 1777766400123456789 = 2026" by code_simp
  then show ?thesis using timestamp_roundtrip[of 1777766400123456789] by simp
qed

end
