(* ===== verification/Edtf.thy ===== *)
theory Edtf
  imports GoTime "HOL-Library.Signed_Division"
begin

text \<open>
  \<open>edtf.go\<close>: the EDTF Level 1 parser behind a node's \<open>dated\<close>, the half-open
  millisecond span a value denotes, and its midpoint. Every function is total; a value outside
  the grammar is \<open>None\<close>. A year is an unbounded integer here, and so is the day count
  \<open>time.Date\<close> makes of it; Go's are 64-bit, so the two differ for a \<open>Y\<close>-prefixed year below
  about \<open>- 2.9 * 10 ^ 11\<close> or above about \<open>2.9 * 10 ^ 11\<close>, where Go's seconds wrap before
  the millisecond conversion does. Up to there the millisecond results wrap as \<open>UnixMilli\<close> does,
  which a year of more than nine digits, or close to it, meets: see the end of the theory.
\<close>

section \<open>Arithmetic on milliseconds\<close>

text \<open>Go's \<open>/\<close> and \<open>%\<close> truncate, which \<open>sdiv\<close> and \<open>smod\<close> do.\<close>

definition floorDivInt64 :: "int \<Rightarrow> int \<Rightarrow> int" where
  "floorDivInt64 a b =
     (let q = a sdiv b in if a smod b \<noteq> 0 \<and> (a < 0) \<noteq> (b < 0) then q - 1 else q)"

definition dateMs :: "int \<Rightarrow> int \<Rightarrow> int \<Rightarrow> int" where
  "dateMs year month day = UnixMilli (goDate year month day 0 0 0 0)"

definition timeShiftDaysMs :: "int \<Rightarrow> int \<Rightarrow> int" where
  "timeShiftDaysMs ms days = UnixMilli (addDate 0 0 days (ofUnixMilli ms))"

definition timeShiftYearsMs :: "int \<Rightarrow> int \<Rightarrow> int" where
  "timeShiftYearsMs ms years = UnixMilli (addDate years 0 0 (ofUnixMilli ms))"

section \<open>Points\<close>

record edtfPoint =
  year :: int
  hasMonth :: bool
  month :: int
  hasDay :: bool
  day :: int
  season :: int
  spanYears :: int
  instantMs :: int
  isInstant :: bool

definition zeroPoint :: edtfPoint where
  "zeroPoint = \<lparr>year = 0, hasMonth = False, month = 0, hasDay = False, day = 0, season = 0,
     spanYears = 0, instantMs = 0, isInstant = False\<rparr>"

definition allDigits :: "string \<Rightarrow> bool" where
  "allDigits s = (s \<noteq> [] \<and> list_all isDigit s)"

definition parseTwoDigits :: "string \<Rightarrow> int option" where
  "parseTwoDigits s = (if length s \<noteq> 2 \<or> \<not> allDigits s then None else Some (decVal s))"

text \<open>\<open>strconv.Atoi\<close> fails beyond the range of a 64-bit \<open>int\<close>.\<close>

definition parseSignedInt :: "string \<Rightarrow> int option" where
  "parseSignedInt s =
     (if s = [] then None
      else let neg = (hd s = CHR ''-''); ds = (if neg then tl s else s) in
        if \<not> allDigits ds then None
        else let n = decVal ds in
          if 2 ^ 63 - 1 < n then None else Some (if neg then - n else n))"

definition pow10 :: "nat \<Rightarrow> int" where
  "pow10 n = 10 ^ n"

definition parseUnspecifiedYear :: "string \<Rightarrow> edtfPoint option" where
  "parseUnspecifiedYear s =
     (let x = length (takeWhile (\<lambda>c. c = CHR ''X'') (rev s)) in
        if x = 0 \<or> length s \<le> x then None
        else let digits = take (length s - x) s in
          if \<not> allDigits digits then None
          else let mult = pow10 x in
            Some (zeroPoint\<lparr>year := decVal digits * mult, spanYears := mult\<rparr>))"

definition parseEDTFInstant :: "string \<Rightarrow> edtfPoint option" where
  "parseEDTFInstant s =
     (case parseRFC3339Any s of None \<Rightarrow> None
      | Some t \<Rightarrow>
          Some (zeroPoint\<lparr>instantMs := floorDivInt64 (UnixNano t) 1000000, isInstant := True\<rparr>))"

text \<open>The \<open>year[-month[-day]]\<close> form, after the year's sign is off.\<close>

definition parseCalendar :: "bool \<Rightarrow> string \<Rightarrow> edtfPoint option" where
  "parseCalendar neg rest =
     (let parts = splitOn (CHR ''-'') rest in
        if length (parts ! 0) \<noteq> 4 \<or> \<not> allDigits (parts ! 0) then None
        else let y = (if neg then - decVal (parts ! 0) else decVal (parts ! 0)) in
          if length parts = 1 then Some (zeroPoint\<lparr>year := y\<rparr>)
          else if length parts = 2 then do {
            mm \<leftarrow> parseTwoDigits (parts ! 1);
            if 21 \<le> mm \<and> mm \<le> 24 then Some (zeroPoint\<lparr>year := y, season := mm\<rparr>)
            else if mm < 1 \<or> 12 < mm then None
            else Some (zeroPoint\<lparr>year := y, hasMonth := True, month := mm\<rparr>) }
          else if length parts = 3 then do {
            mm \<leftarrow> parseTwoDigits (parts ! 1);
            if mm < 1 \<or> 12 < mm then None
            else do {
              dd \<leftarrow> parseTwoDigits (parts ! 2);
              if dd < 1 \<or> 31 < dd then None
              else Some (zeroPoint\<lparr>year := y, hasMonth := True, month := mm, hasDay := True, day := dd\<rparr>) } }
          else None)"

definition stripQualifier :: "string \<Rightarrow> string" where
  "stripQualifier s = (if s \<noteq> [] \<and> last s \<in> set ''?~%'' then butlast s else s)"

text \<open>One endpoint, its qualifier off.\<close>

definition parsePlainPoint :: "string \<Rightarrow> edtfPoint option" where
  "parsePlainPoint s =
     (if s = [] then None
      else if hd s = CHR ''Y'' then
        (case parseSignedInt (tl s) of None \<Rightarrow> None | Some y \<Rightarrow> Some (zeroPoint\<lparr>year := y\<rparr>))
      else if CHR ''T'' \<in> set s then parseEDTFInstant s
      else case (if length s = 4 then parseUnspecifiedYear s else None) of
          Some p \<Rightarrow> Some p
        | None \<Rightarrow>
            if hd s = CHR ''-'' then parseCalendar True (tl s) else parseCalendar False s)"

definition parseEDTFPoint :: "string \<Rightarrow> edtfPoint option" where
  "parseEDTFPoint s = (if s = [] then None else parsePlainPoint (stripQualifier s))"

definition pointSpanMs :: "edtfPoint \<Rightarrow> int \<times> int" where
  "pointSpanMs p =
     (if isInstant p then (instantMs p, instantMs p)
      else if 0 < spanYears p then (dateMs (year p) 1 1, dateMs (year p + spanYears p) 1 1)
      else if season p \<noteq> 0 then
        (if season p = 21 then (dateMs (year p) 3 1, dateMs (year p) 6 1)
         else if season p = 22 then (dateMs (year p) 6 1, dateMs (year p) 9 1)
         else if season p = 23 then (dateMs (year p) 9 1, dateMs (year p) 12 1)
         else (dateMs (year p) 12 1, dateMs (year p + 1) 3 1))
      else if hasDay p then
        (let start = dateMs (year p) (month p) (day p) in (start, timeShiftDaysMs start 1))
      else if hasMonth p then (dateMs (year p) (month p) 1, dateMs (year p) (month p + 1) 1)
      else (dateMs (year p) 1 1, dateMs (year p + 1) 1 1))"

section \<open>Values\<close>

definition parseEDTFSlashInterval :: "string \<Rightarrow> (int \<times> int) option" where
  "parseEDTFSlashInterval s =
     (let (left, right) = cutOn (CHR ''/'') s;
          openLeft = (left = [] \<or> left = ''..'');
          openRight = (right = [] \<or> right = ''..'')
      in do {
        (start, end') \<leftarrow>
          (if openLeft \<and> openRight then None
           else if openLeft then do {
             rp \<leftarrow> parseEDTFPoint right;
             Some (timeShiftYearsMs (fst (pointSpanMs rp)) (- 1), snd (pointSpanMs rp)) }
           else if openRight then do {
             lp \<leftarrow> parseEDTFPoint left;
             Some (fst (pointSpanMs lp), timeShiftYearsMs (snd (pointSpanMs lp)) 1) }
           else do {
             lp \<leftarrow> parseEDTFPoint left;
             rp \<leftarrow> parseEDTFPoint right;
             Some (fst (pointSpanMs lp), snd (pointSpanMs rp)) });
        if end' \<le> start then None else Some (start, end') })"

definition parseEDTFLevel1 :: "string \<Rightarrow> (int \<times> int) option" where
  "parseEDTFLevel1 s =
     (if s = [] then None
      else if CHR ''/'' \<in> set s then parseEDTFSlashInterval s
      else if startsWith ''..'' s \<and> 2 < length s then do {
        rp \<leftarrow> parseEDTFPoint (drop 2 s);
        Some (timeShiftYearsMs (fst (pointSpanMs rp)) (- 1), snd (pointSpanMs rp)) }
      else if endsWith ''..'' s \<and> 2 < length s then do {
        lp \<leftarrow> parseEDTFPoint (take (length s - 2) s);
        Some (fst (pointSpanMs lp), timeShiftYearsMs (snd (pointSpanMs lp)) 1) }
      else do { p \<leftarrow> parseEDTFPoint s; Some (pointSpanMs p) })"

definition edtfSpan :: "string \<Rightarrow> (int \<times> int) option" where
  "edtfSpan s = parseEDTFLevel1 s"

definition edtfMidpointMs :: "string \<Rightarrow> int option" where
  "edtfMidpointMs s =
     (case edtfSpan s of None \<Rightarrow> None
      | Some (start, end') \<Rightarrow> Some (floorDivInt64 (s64 (start + end')) 2))"

definition validateDated :: "string \<Rightarrow> unit result" where
  "validateDated s = guard (edtfSpan s \<noteq> None) (ShapeErr ErrDatedForm)"

section \<open>Calendar facts\<close>

lemma floorDivInt64_div: "0 < b \<Longrightarrow> floorDivInt64 a b = a div b"
proof -
  assume b: "0 < b"
  show ?thesis
  proof (cases "0 \<le> a")
    case True
    then show ?thesis using b by (simp add: floorDivInt64_def signed_divide_int_def sgn_if)
  next
    case False
    define q r where "q = (- a) div b" and "r = (- a) mod b"
    have a: "a = - (b * q + r)" and r: "0 \<le> r" "r < b"
      using b by (simp_all add: q_def r_def)
    have s: "a sdiv b = - q"
      using False b by (simp add: signed_divide_int_def q_def)
    have m: "a smod b = - r"
      using False b by (simp add: signed_modulo_int_def r_def)
    have "a div b = (if r = 0 then - q else - q - 1)"
      using r a by (intro div_unique_int) (auto simp: algebra_simps)
    then show ?thesis
      using False b by (simp add: floorDivInt64_def s m Let_def)
  qed
qed

lemma dateDays_day: "dateDays y m (d + k) = dateDays y m d + k"
  by (simp add: dateDays_def Let_def)

lemma addDate_days: "addDate 0 0 k t = t + k * 86400000000000"
proof (cases "dateOf t")
  case (fields y m d)
  then show ?thesis
    using goDate_dateOf[OF fields] by (simp add: addDate_def goDate_def dateDays_day algebra_simps)
qed

text \<open>Whole years forward never go back, and move by less than 367 days each.\<close>

lemma daysBeforeYear_step: "daysBeforeYear (y + 1) - daysBeforeYear y \<in> {365, 366}"
  by (simp add: daysBeforeYear_succ)

lemma daysBeforeMonth_leap:
  "daysBeforeMonth l m - daysBeforeMonth l' m \<in> {- 1, 0, 1}"
  by (simp add: daysBeforeMonth_def)

lemma dateDays_year:
  assumes "1 \<le> m" "m \<le> 12"
  shows "364 \<le> dateDays (y + 1) m d - dateDays y m d" "dateDays (y + 1) m d - dateDays y m d \<le> 367"
  using daysBeforeYear_step[of y] daysBeforeMonth_leap[of "leap (y + 1)" m "leap y"]
  by (auto simp: dateDays_valid[OF assms])

lemma addDate_year:
  assumes "k = 1 \<or> k = - 1"
  obtains e where "addDate k 0 0 t = t + k * e * 86400000000000" "364 \<le> e" "e \<le> 367"
proof (cases "dateOf t")
  case (fields y m d)
  then have m: "1 \<le> m" "m \<le> 12"
    using civil_valid(1)[of "daysOf t" y m d] by (auto simp: dateOf_def validDate_def)
  define e where "e = (dateDays (y + k) m d - dateDays y m d) * k"
  have "364 \<le> e \<and> e \<le> 367"
    using assms dateDays_year[OF m, of y d] dateDays_year[OF m, of "y - 1" d]
    by (auto simp: e_def)
  moreover have "k * e = dateDays (y + k) m d - dateDays y m d"
    using assms by (auto simp: e_def)
  then have "addDate k 0 0 t = t + k * e * 86400000000000"
    using goDate_dateOf[OF fields] fields by (simp add: addDate_def goDate_def algebra_simps)
  ultimately show ?thesis using that by blast
qed

section \<open>Spans are ordered\<close>

definition spanOk :: "int \<times> int \<Rightarrow> bool" where
  "spanOk se = (- (4608 * 10 ^ 15) \<le> fst se \<and> fst se \<le> snd se \<and> snd se \<le> 4608 * 10 ^ 15)"

text \<open>The largest year, in round millions, up to which twice a span's end stays a 64-bit integer.\<close>

definition yearMax :: int where "yearMax = 146000000"

definition pointOk :: "edtfPoint \<Rightarrow> bool" where
  "pointOk p =
     (if isInstant p then \<bar>instantMs p\<bar> \<le> 10 ^ 13
      else \<bar>year p\<bar> \<le> yearMax \<and> 0 \<le> spanYears p \<and> spanYears p \<le> 1000 \<and>
        (hasMonth p \<longrightarrow> 1 \<le> month p \<and> month p \<le> 12) \<and>
        (hasDay p \<longrightarrow> hasMonth p \<and> 1 \<le> day p \<and> day p \<le> 31))"

lemma digitVal_bounds: "isDigit c \<Longrightarrow> 0 \<le> digitVal c \<and> digitVal c \<le> 9"
  by (auto simp: isDigit_def digitVal_def less_eq_char_def)

lemma decVal_bounds: "list_all isDigit s \<Longrightarrow> 0 \<le> decVal s \<and> decVal s < 10 ^ length s"
proof (induction s rule: rev_induct)
  case (snoc c s)
  then have "0 \<le> decVal s" "decVal s + 1 \<le> 10 ^ length s" "0 \<le> digitVal c" "digitVal c \<le> 9"
    using digitVal_bounds[of c] by auto
  then show ?case by (simp add: decVal_def)
qed (simp add: decVal_def)

lemma dateDays_bounds:
  assumes "\<bar>y\<bar> \<le> 146001000" "1 \<le> m" "m \<le> 13" "1 \<le> d" "d \<le> 31"
  shows "\<bar>dateDays y m d\<bar> \<le> 53327000000"
proof -
  define z k where "z = y + (m - 1) div 12" and "k = (m - 1) mod 12 + 1"
  have k: "1 \<le> k" "k \<le> 12" by (simp_all add: k_def)
  have "(m - 1) div 12 = (if m = 13 then 1 else 0)"
    using assms(2,3) by (auto simp: div_pos_pos_trivial)
  then have z: "\<bar>z\<bar> \<le> 146001001" using assms(1) by (auto simp: z_def)
  have b: "0 \<le> daysBeforeMonth (leap z) k" "daysBeforeMonth (leap z) k \<le> 366"
    using daysBeforeMonth_end[OF k, of "leap z"] by (auto simp: monthDays_def split: if_splits)
  have "dateDays y m d = daysBeforeYear z + daysBeforeMonth (leap z) k + (d - 1) - 719528"
    by (simp add: dateDays_def Let_def z_def k_def epochDays_def)
  then show ?thesis
    using b z assms(4,5) daysBeforeYear_bounds[of z] by linarith
qed

lemma UnixMilli_small: "\<bar>t\<bar> \<le> 9 * 10 ^ 24 \<Longrightarrow> UnixMilli t = t div 1000000"
proof -
  assume t: "\<bar>t\<bar> \<le> 9 * 10 ^ 24"
  have "- (9 * 10 ^ 18) \<le> t div 1000000" "t div 1000000 \<le> 9 * 10 ^ 18"
    using t div_bounds[of 1000000 t] by (simp_all add: abs_le_iff)
  then show ?thesis by (simp add: UnixMilli_def s64_id)
qed

lemma dateMs_exact:
  assumes "\<bar>y\<bar> \<le> 146001000" "1 \<le> m" "m \<le> 13" "1 \<le> d" "d \<le> 31"
  shows "dateMs y m d = dateDays y m d * 86400000"
proof -
  have "goDate y m d 0 0 0 0 = dateDays y m d * 86400000 * 1000000"
    by (simp add: goDate_def)
  moreover have "\<bar>dateDays y m d * 86400000 * 1000000\<bar> \<le> 9 * 10 ^ 24"
    using dateDays_bounds[OF assms] by (simp add: abs_le_iff)
  ultimately show ?thesis
    unfolding dateMs_def by (simp add: UnixMilli_small)
qed

lemma dateMs_bounds:
  assumes "\<bar>y\<bar> \<le> 146001000" "1 \<le> m" "m \<le> 13" "1 \<le> d" "d \<le> 31"
  shows "\<bar>dateMs y m d\<bar> \<le> 4607500 * 10 ^ 12"
  unfolding dateMs_exact[OF assms] using dateDays_bounds[OF assms] by (simp add: abs_le_iff)

lemma dateDays_month:
  assumes "1 \<le> m" "m \<le> 12"
  shows "dateDays y m 1 \<le> dateDays y (m + 1) 1"
proof (cases "m = 12")
  case True
  then show ?thesis
    by (simp add: dateDays_def Let_def daysBeforeMonth_def daysBeforeYear_succ)
next
  case False
  then have "1 \<le> m + 1" "m + 1 \<le> 12" using assms by simp_all
  then show ?thesis
    using assms False daysBeforeMonth_succ[of m "leap y"]
    by (simp add: dateDays_valid[OF assms] dateDays_valid[of "m + 1"] monthDays_def)
qed

lemma dateDays_months:
  assumes "1 \<le> m" "m \<le> n" "n \<le> 12"
  shows "dateDays y m 1 \<le> dateDays y n 1"
  using assms(2,3)
proof (induction n rule: int_ge_induct)
  case (step i)
  then show ?case using dateDays_month[of i y] assms(1) by simp
qed simp

lemma dateDays_years: "dateDays y 1 1 \<le> dateDays (y + int n) 1 1"
proof (induction n)
  case (Suc n)
  then show ?case using dateDays_year(1)[of 1 "y + int n" 1] by (simp add: algebra_simps)
qed simp

lemma pointSpan_ok:
  assumes "pointOk p"
  shows "spanOk (pointSpanMs p)"
proof (cases "isInstant p")
  case True
  then show ?thesis using assms by (simp add: pointOk_def pointSpanMs_def spanOk_def abs_le_iff)
next
  case False
  define y where "y = year p"
  have y: "\<bar>y\<bar> \<le> 146001000" "\<bar>y + 1\<bar> \<le> 146001000" "\<bar>y + spanYears p\<bar> \<le> 146001000"
    and s: "0 \<le> spanYears p"
    using assms False by (auto simp: pointOk_def y_def yearMax_def)
  have ok: "spanOk (dateMs a m d, dateMs a' m' d')"
    if "\<bar>a\<bar> \<le> 146001000" "1 \<le> m" "m \<le> 13" "1 \<le> d" "d \<le> 31" "\<bar>a'\<bar> \<le> 146001000" "1 \<le> m'" "m' \<le> 13" "1 \<le> d'"
      "d' \<le> 31" "dateDays a m d \<le> dateDays a' m' d'" for a m d a' m' d'
    using dateMs_bounds[OF that(1-5)] dateMs_bounds[OF that(6-10)] dateMs_exact[OF that(1-5)]
      dateMs_exact[OF that(6-10)] that(11) by (simp add: spanOk_def abs_le_iff)
  have next_year: "dateDays y m 1 \<le> dateDays (y + 1) 1 1" if "1 \<le> m" "m \<le> 12" for m
    using dateDays_months[of m 12 y] dateDays_month[of 12 y] that
    by (simp add: dateDays_def Let_def)
  consider "0 < spanYears p" | "spanYears p = 0" "season p \<noteq> 0"
    | "spanYears p = 0" "season p = 0" "hasDay p"
    | "spanYears p = 0" "season p = 0" "\<not> hasDay p" "hasMonth p"
    | "spanYears p = 0" "season p = 0" "\<not> hasDay p" "\<not> hasMonth p"
    using s by linarith
  then show ?thesis
  proof cases
    case 1
    have "dateDays y 1 1 \<le> dateDays (y + spanYears p) 1 1"
      using dateDays_years[of y "nat (spanYears p)"] s by simp
    then show ?thesis using False 1 y by (simp add: pointSpanMs_def y_def[symmetric] ok)
  next
    case 2
    have "dateDays y 12 1 \<le> dateDays (y + 1) 3 1"
      using next_year[of 12] dateDays_months[of 1 3 "y + 1"] by simp
    then show ?thesis
      using False 2 y dateDays_months[of 3 6 y] dateDays_months[of 6 9 y] dateDays_months[of 9 12 y]
      by (simp add: pointSpanMs_def y_def[symmetric] ok)
  next
    case 3
    have md: "1 \<le> month p" "month p \<le> 12" "1 \<le> day p" "day p \<le> 31"
      using assms False 3 by (auto simp: pointOk_def)
    define ms where "ms = dateMs y (month p) (day p)"
    have b: "\<bar>ms\<bar> \<le> 4607500 * 10 ^ 12"
      unfolding ms_def using md y by (intro dateMs_bounds) simp_all
    have "timeShiftDaysMs ms 1 = ms + 86400000"
    proof -
      have "addDate 0 0 1 (ofUnixMilli ms) = (ms + 86400000) * 1000000"
        by (simp add: addDate_days ofUnixMilli_def)
      moreover have "\<bar>(ms + 86400000) * 1000000\<bar> \<le> 9 * 10 ^ 24"
        using b by (simp add: abs_le_iff)
      ultimately show ?thesis by (simp only: timeShiftDaysMs_def UnixMilli_small) simp
    qed
    then show ?thesis
      using False 3 b by (simp add: pointSpanMs_def Let_def spanOk_def ms_def y_def abs_le_iff)
  next
    case 4
    then have "1 \<le> month p" "month p \<le> 12" using assms False by (auto simp: pointOk_def)
    then show ?thesis
      using False 4 y dateDays_month[of "month p" y] by (simp add: pointSpanMs_def y_def[symmetric] ok)
  next
    case 5
    then show ?thesis
      using False y next_year[of 1] by (simp add: pointSpanMs_def y_def[symmetric] ok)
  qed
qed

lemma timeShiftYears_bounds:
  assumes "\<bar>ms\<bar> \<le> 4608 * 10 ^ 15"
  shows "ms \<le> timeShiftYearsMs ms 1" "timeShiftYearsMs ms 1 \<le> ms + 40000000000"
    "timeShiftYearsMs ms (- 1) \<le> ms" "ms - 40000000000 \<le> timeShiftYearsMs ms (- 1)"
proof -
  have *: "\<exists>e. timeShiftYearsMs ms k = ms + k * e * 86400000 \<and> 364 \<le> e \<and> e \<le> 367"
    if k: "k = 1 \<or> k = - 1" for k
  proof -
    obtain e where e: "addDate k 0 0 (ofUnixMilli ms) = ofUnixMilli ms + k * e * 86400000000000"
        "364 \<le> e" "e \<le> 367"
      using addDate_year[OF k] by blast
    then have "addDate k 0 0 (ofUnixMilli ms) = (ms + k * e * 86400000) * 1000000"
      by (simp add: ofUnixMilli_def)
    moreover have "\<bar>(ms + k * e * 86400000) * 1000000\<bar> \<le> 9 * 10 ^ 24"
      using assms e(2,3) k by (auto simp: abs_le_iff)
    ultimately have "timeShiftYearsMs ms k = ms + k * e * 86400000"
      by (simp only: timeShiftYearsMs_def UnixMilli_small) simp
    then show ?thesis using e(2,3) by blast
  qed
  show "ms \<le> timeShiftYearsMs ms 1" "timeShiftYearsMs ms 1 \<le> ms + 40000000000"
    using *[of 1] by auto
  show "timeShiftYearsMs ms (- 1) \<le> ms" "ms - 40000000000 \<le> timeShiftYearsMs ms (- 1)"
    using *[of "- 1"] by auto
qed

section \<open>What the parser yields\<close>

lemma parseTwoDigits_bounds: "parseTwoDigits s = Some n \<Longrightarrow> 0 \<le> n"
  using decVal_bounds[of s] by (auto simp: parseTwoDigits_def allDigits_def split: if_splits)

lemma parseUnspecifiedYear_ok:
  assumes "parseUnspecifiedYear s = Some p" "length s = 4"
  shows "pointOk p"
proof -
  define x where "x = length (takeWhile (\<lambda>c. c = CHR ''X'') (rev s))"
  define ds where "ds = take (length s - x) s"
  have x: "1 \<le> x" "x \<le> 3" and ds: "list_all isDigit ds" "length ds = 4 - x"
    and p: "p = zeroPoint\<lparr>year := decVal ds * pow10 x, spanYears := pow10 x\<rparr>"
    using assms by (auto simp: parseUnspecifiedYear_def Let_def x_def ds_def allDigits_def Suc_le_eq split: if_splits)
  have v: "0 \<le> decVal ds" "decVal ds < 10 ^ (4 - x)"
    using decVal_bounds[OF ds(1)] by (simp_all add: ds(2))
  have "x = 1 \<or> x = 2 \<or> x = 3" using x by linarith
  then show ?thesis
    using v by (elim disjE) (simp_all add: p pointOk_def zeroPoint_def pow10_def yearMax_def)
qed

lemma parseCalendar_ok:
  assumes "parseCalendar neg rest = Some p"
  shows "pointOk p"
proof -
  define ps where "ps = splitOn (CHR ''-'') rest"
  have "length (ps ! 0) = 4" "list_all isDigit (ps ! 0)"
    using assms by (auto simp: parseCalendar_def Let_def ps_def[symmetric] allDigits_def split: if_splits)
  then have v: "0 \<le> decVal (ps ! 0)" "decVal (ps ! 0) < 10000"
    using decVal_bounds[of "ps ! 0"] by simp_all
  then have y: "\<bar>if neg then - decVal (ps ! 0) else decVal (ps ! 0)\<bar> \<le> 9999" by simp
  then show ?thesis
    using assms
    by (auto simp: parseCalendar_def Let_def ps_def[symmetric] pointOk_def zeroPoint_def yearMax_def
        split: if_splits Option.bind_splits)
qed

lemma parseEDTFInstant_ok: "parseEDTFInstant s = Some p \<Longrightarrow> pointOk p"
proof -
  assume "parseEDTFInstant s = Some p"
  then obtain t where "p = zeroPoint\<lparr>instantMs := s64 t div 1000000, isInstant := True\<rparr>"
    by (auto simp: parseEDTFInstant_def floorDivInt64_div UnixNano_def split: option.splits)
  moreover have "- (10 ^ 13) \<le> s64 t div 1000000" "s64 t div 1000000 \<le> 10 ^ 13"
    using s64_range[of t] div_bounds[of 1000000 "s64 t"] by simp_all
  ultimately show ?thesis by (simp add: pointOk_def abs_le_iff)
qed

lemma parsePlainPoint_ok:
  assumes "parsePlainPoint s = Some p" "\<bar>year p\<bar> \<le> yearMax"
  shows "pointOk p"
proof (cases "s \<noteq> [] \<and> hd s = CHR ''Y''")
  case True
  then show ?thesis
    using assms by (auto simp: parsePlainPoint_def pointOk_def zeroPoint_def split: option.splits)
next
  case False
  then show ?thesis
    using assms(1) parseUnspecifiedYear_ok[of s p] parseCalendar_ok parseEDTFInstant_ok
    by (auto simp: parsePlainPoint_def split: if_splits option.splits)
qed

lemma parseEDTFPoint_ok:
  "parseEDTFPoint s = Some p \<Longrightarrow> \<bar>year p\<bar> \<le> yearMax \<Longrightarrow> pointOk p"
  by (auto simp: parseEDTFPoint_def intro: parsePlainPoint_ok split: if_splits)

text \<open>A year written without the letter prefix has four digits, so it is always within the bound.\<close>

lemma plain_year:
  assumes "parseEDTFPoint s = Some p" "hd s \<noteq> CHR ''Y''"
  shows "\<bar>year p\<bar> \<le> yearMax"
proof -
  have s: "s \<noteq> []" "parsePlainPoint (stripQualifier s) = Some p"
    using assms(1) by (simp_all add: parseEDTFPoint_def split: if_splits)
  then have "stripQualifier s \<noteq> []" by (auto simp: parsePlainPoint_def)
  then have "hd (stripQualifier s) = hd s"
    using s(1) by (cases s) (auto simp: stripQualifier_def split: if_splits)
  then have "pointOk p"
    using s(2) assms(2) parseUnspecifiedYear_ok[of "stripQualifier s" p] parseCalendar_ok parseEDTFInstant_ok
    by (auto simp: parsePlainPoint_def split: if_splits option.splits)
  moreover have "isInstant p \<Longrightarrow> year p = 0"
    using s(2) \<open>hd (stripQualifier s) = hd s\<close> assms(2)
    by (auto simp: parsePlainPoint_def parseEDTFInstant_def parseUnspecifiedYear_def parseCalendar_def zeroPoint_def Let_def
        split: if_splits option.splits Option.bind_splits)
  ultimately show ?thesis by (cases "isInstant p") (simp_all add: pointOk_def yearMax_def)
qed

text \<open>The endpoints a value names, and the bound on the years they name.\<close>

definition endpoints :: "string \<Rightarrow> string list" where
  "endpoints s =
     (if CHR ''/'' \<in> set s then filter (\<lambda>e. e \<noteq> [] \<and> e \<noteq> ''..'') [fst (cutOn (CHR ''/'') s), snd (cutOn (CHR ''/'') s)]
      else if startsWith ''..'' s \<and> 2 < length s then [drop 2 s]
      else if endsWith ''..'' s \<and> 2 < length s then [take (length s - 2) s]
      else [s])"

definition yearsWithin :: "int \<Rightarrow> string \<Rightarrow> bool" where
  "yearsWithin k s =
     list_all (\<lambda>e. case parseEDTFPoint e of None \<Rightarrow> True | Some p \<Rightarrow> \<bar>year p\<bar> \<le> k) (endpoints s)"

lemma parsed_span_ok:
  "parseEDTFPoint e = Some p \<Longrightarrow> e \<in> set (endpoints s) \<Longrightarrow> yearsWithin yearMax s \<Longrightarrow> spanOk (pointSpanMs p)"
  by (rule pointSpan_ok, rule parseEDTFPoint_ok) (auto simp: yearsWithin_def list_all_iff split: option.splits)

definition spanWide :: "int \<times> int \<Rightarrow> bool" where
  "spanWide se = (- (4609 * 10 ^ 15) \<le> fst se \<and> fst se \<le> snd se \<and> snd se \<le> 4609 * 10 ^ 15)"

lemma spanWide_cases:
  assumes "spanOk se"
  shows "spanWide se" "spanWide (timeShiftYearsMs (fst se) (- 1), snd se)"
    "spanWide (fst se, timeShiftYearsMs (snd se) 1)"
  using assms timeShiftYears_bounds[of "fst se"] timeShiftYears_bounds[of "snd se"]
  by (auto simp: spanOk_def spanWide_def abs_le_iff)

lemma spanWide_mix: "spanOk a \<Longrightarrow> spanOk b \<Longrightarrow> fst a < snd b \<Longrightarrow> spanWide (fst a, snd b)"
  by (simp add: spanOk_def spanWide_def)

lemma edtfSpan_wide:
  assumes "edtfSpan s = Some se" "yearsWithin yearMax s"
  shows "spanWide se"
proof (cases "CHR ''/'' \<in> set s")
  case False
  note ok = parsed_span_ok[OF _ _ assms(2)]
  have "s \<noteq> []" using assms(1) by (auto simp: edtfSpan_def parseEDTFLevel1_def)
  then consider (until) p where "parseEDTFPoint (drop 2 s) = Some p" "drop 2 s \<in> set (endpoints s)"
        "se = (timeShiftYearsMs (fst (pointSpanMs p)) (- 1), snd (pointSpanMs p))"
    | (since) p where "parseEDTFPoint (take (length s - 2) s) = Some p" "take (length s - 2) s \<in> set (endpoints s)"
        "se = (fst (pointSpanMs p), timeShiftYearsMs (snd (pointSpanMs p)) 1)"
    | (point) p where "parseEDTFPoint s = Some p" "s \<in> set (endpoints s)" "se = pointSpanMs p"
    using assms(1) False by (auto simp: edtfSpan_def parseEDTFLevel1_def endpoints_def bind_eq_Some_conv split: if_splits)
  then show ?thesis by cases (use ok spanWide_cases in simp_all)
next
  case True
  obtain l r where lr: "cutOn (CHR ''/'') s = (l, r)" by fastforce
  have ends: "l \<noteq> [] \<Longrightarrow> l \<noteq> ''..'' \<Longrightarrow> l \<in> set (endpoints s)" "r \<noteq> [] \<Longrightarrow> r \<noteq> ''..'' \<Longrightarrow> r \<in> set (endpoints s)"
    using True by (simp_all add: endpoints_def lr)
  have "s \<noteq> []" using True by auto
  then have p: "parseEDTFSlashInterval s = Some se"
    using assms(1) True by (simp add: edtfSpan_def parseEDTFLevel1_def)
  note ok = parsed_span_ok[OF _ _ assms(2)]
  show ?thesis
    using p unfolding parseEDTFSlashInterval_def lr prod.case Let_def
    by (auto simp: bind_eq_Some_conv ends split: if_splits
        dest!: ok[OF _ ends(1)] ok[OF _ ends(2)] intro: spanWide_cases spanWide_mix)
qed

lemma midpoint_inside:
  assumes "spanWide (a, b)"
  shows "a \<le> floorDivInt64 (s64 (a + b)) 2" "floorDivInt64 (s64 (a + b)) 2 \<le> b"
proof -
  have "s64 (a + b) = a + b" using assms by (intro s64_id) (simp_all add: spanWide_def)
  then show "a \<le> floorDivInt64 (s64 (a + b)) 2" "floorDivInt64 (s64 (a + b)) 2 \<le> b"
    using assms div_bounds[of 2 "a + b"] by (simp_all add: floorDivInt64_div spanWide_def)
qed

section \<open>Properties\<close>

text \<open>
  Property C40 (edtf_midpoint_inside): an EDTF value, a letter-prefixed year up to 146 million
  included, denotes an ordered span of milliseconds, and the point a temporal sort uses for it lies
  inside the span. A value whose endpoints carry no letter prefix always meets the bound
  (\<open>plain_year\<close>); beyond it the property fails (\<open>far_year_misplaced\<close>).
\<close>

theorem edtf_midpoint_inside:
  assumes "edtfSpan s = Some (a, b)" "yearsWithin yearMax s"
  shows "a \<le> b \<and> (\<exists>m. edtfMidpointMs s = Some m \<and> a \<le> m \<and> m \<le> b)"
  using edtfSpan_wide[OF assms] midpoint_inside[OF edtfSpan_wide[OF assms]] assms(1)
  by (simp add: edtfMidpointMs_def spanWide_def)

theorem edtf_midpoint_inside_witness:
  "\<exists>m. edtfMidpointMs ''Y-12345/2025-03'' = Some m \<and> - 451737734400000 \<le> m \<and> m \<le> 1743465600000"
proof -
  have "edtfSpan ''Y-12345/2025-03'' = Some (- 451737734400000, 1743465600000)" by code_simp
  moreover have "yearsWithin yearMax ''Y-12345/2025-03''" by code_simp
  ultimately show ?thesis using edtf_midpoint_inside[of "''Y-12345/2025-03''"] by auto
qed

text \<open>
  Beyond the bound an accepted value is misplaced: the sum of a span's ends leaves 64 bits first, and
  the midpoint of a year 147 million ahead falls before the span; from year 292278994 the end of the
  span itself wraps, and the value is accepted with its end before its start.
\<close>

theorem far_year_misplaced:
  "validateDated ''Y147000000'' = Inr () \<and>
     (case (edtfSpan ''Y147000000'', edtfMidpointMs ''Y147000000'') of (Some (a, b), Some m) \<Rightarrow> a < b \<and> m < a | _ \<Rightarrow> False) \<and>
   validateDated ''Y292278994'' = Inr () \<and>
     (case edtfSpan ''Y292278994'' of Some (a, b) \<Rightarrow> b < a | None \<Rightarrow> False)"
  by code_simp

end
