(* ===== verification/Model.thy ===== *)
theory Model
  imports Edtf
begin

text \<open>
  The data model: edges, nodes and claims (\<open>edge.go\<close>, \<open>node.go\<close>,
  \<open>claim.go\<close>, \<open>claim_helpers.go\<close>, \<open>filter.go\<close>) and the diff overlay a
  materialised read sees.

  An \<open>Id\<close> is its multihash bytes; the empty list is the id of a record not sealed yet
  (\<open>idBytes(nil)\<close>). A nil byte slice and an empty one are told apart (\<open>None\<close> and
  \<open>Some []\<close>), since the code tests \<open>content != nil\<close>. The overlay pointers
  \<open>diffNode\<close> and \<open>diffClaim\<close> point to older, finished values, so they are a
  recursive datatype. The cached \<open>contributor\<close> pointer of a claim is left out: it is a
  convenience for callers and none of the modelled operations reads it.
\<close>

type_synonym ident = bytes

section \<open>Records\<close>

record edge =
  eReference :: ident
  eTypeClass :: string
  eTypeSub :: string
  eEncodingClass :: string
  eEncodingSub :: string
  eContentHash :: "ident option"
  eContent :: "bytes option"
  eContentSize :: u64
  eRelationDirection :: int
  eFields :: gomap
  eId :: ident

record node =
  typeClass :: string
  typeSub :: string
  encodingClass :: string
  encodingSub :: string
  contentHash :: "ident option"
  content :: "bytes option"
  contentSize :: u64
  createdAt :: int
  dated :: string
  height :: u64
  edgeIds :: "ident list"
  nFields :: gomap
  nodeId :: ident

text \<open>A node with its diff overlay: the materialised predecessor and the merged fields.\<close>

datatype mnode = MNode (own: node) (overlay: "(mnode \<times> gomap) option")

text \<open>
  A claim: its node, its edges, the stored record it was decoded from, the diff overlay (the
  materialised predecessor and the merged edges) and the runtime tags.
\<close>

datatype claim =
  Claim (claimNode: mnode) (claimEdges: "edge list") (claimRaw: "bytes option")
    (claimOverlay: "(claim \<times> edge list) option") (claimTags: gomap)

definition ID :: "claim \<Rightarrow> ident" where
  "ID c = nodeId (own (claimNode c))"

definition claimHeight :: "claim \<Rightarrow> u64" where
  "claimHeight c = height (own (claimNode c))"

definition claimCreatedAt :: "claim \<Rightarrow> int" where
  "claimCreatedAt c = createdAt (own (claimNode c))"

section \<open>Reading a node through its overlay\<close>

definition fieldMap :: "mnode \<Rightarrow> gomap" where
  "fieldMap n = (case overlay n of None \<Rightarrow> nFields (own n) | Some (p, merged) \<Rightarrow> merged)"

text \<open>
  \<open>contentSource\<close>: the node supplying the content, its own when it sets any, else the
  predecessor's.
\<close>

fun contentSource :: "mnode \<Rightarrow> node" where
  "contentSource (MNode n ov) =
     (if content n \<noteq> None \<or> contentHash n \<noteq> None then n
      else case ov of None \<Rightarrow> n | Some (p, merged) \<Rightarrow> contentSource p)"

definition nodeType :: "node \<Rightarrow> string" where
  "nodeType n = typeClass n @ ''/'' @ typeSub n"

definition nodeEncoding :: "mnode \<Rightarrow> string" where
  "nodeEncoding n =
     (let cs = contentSource n in
        if encodingClass cs = [] \<and> encodingSub cs = [] then []
        else encodingClass cs @ ''/'' @ encodingSub cs)"

datatype content_kind = ContentNone | ContentInline | ContentExternal

definition nodeContentKind :: "mnode \<Rightarrow> content_kind" where
  "nodeContentKind n =
     (let cs = contentSource n in
        if contentHash cs \<noteq> None then ContentExternal
        else if content cs \<noteq> None \<or> 0 < contentSize cs then ContentInline
        else ContentNone)"

definition bytesLen :: "bytes option \<Rightarrow> u64" where
  "bytesLen b = (case b of None \<Rightarrow> 0 | Some bs \<Rightarrow> of_nat (length bs))"

definition nodeContentComplete :: "mnode \<Rightarrow> bool" where
  "nodeContentComplete n =
     (let cs = contentSource n in
        if contentHash cs \<noteq> None then False else bytesLen (content cs) = contentSize cs)"

definition nodeInlineContent :: "mnode \<Rightarrow> bytes option result" where
  "nodeInlineContent n =
     (let cs = contentSource n in
        if content cs = None \<and> contentHash cs \<noteq> None then Inl (FormErr errContentExternal)
        else Inr (content cs))"

definition nodeHasField :: "mnode \<Rightarrow> string \<Rightarrow> bool" where
  "nodeHasField n name = has (fieldMap n) name"

definition nodeGetField :: "mnode \<Rightarrow> string \<Rightarrow> string result" where
  "nodeGetField n name =
     (case map_of (fieldMap n) name of None \<Rightarrow> Inl (DetailErr errFieldNotSet) | Some v \<Rightarrow> Inr v)"

definition nodeFields :: "mnode \<Rightarrow> string list" where
  "nodeFields n = sort (keys (fieldMap n))"

text \<open>\<open>flattened\<close>: the overlay resolved into the node's own fields and content.\<close>

definition flattened :: "mnode \<Rightarrow> mnode" where
  "flattened n =
     (case overlay n of
        None \<Rightarrow> n
      | Some _ \<Rightarrow>
          let cs = contentSource n in
          MNode ((own n)\<lparr>nFields := fieldMap n, content := content cs, contentHash := contentHash cs,
             contentSize := contentSize cs, encodingClass := encodingClass cs,
             encodingSub := encodingSub cs\<rparr>) None)"

text \<open>\<open>computeDiffFields\<close> (\<open>V-DIFF\<close>): inherit, drop \<open>fields_diff_omit\<close>, overlay.\<close>

definition deleteAll :: "'k list \<Rightarrow> ('k \<times> 'v) list \<Rightarrow> ('k \<times> 'v) list" where
  "deleteAll ks m = fold AList.delete ks m"

definition computeDiffFields :: "node \<Rightarrow> mnode \<Rightarrow> gomap" where
  "computeDiffFields n pred =
     putAll (nFields n)
       (deleteAll (splitLines (getz (nFields n) FieldFieldsDiffOmit)) (putAll (fieldMap pred) []))"

section \<open>Reading an edge\<close>

definition edgeType :: "edge \<Rightarrow> string" where
  "edgeType e = eTypeClass e @ ''/'' @ eTypeSub e"

definition edgeEncoding :: "edge \<Rightarrow> string" where
  "edgeEncoding e =
     (if eEncodingClass e = [] \<and> eEncodingSub e = [] then []
      else eEncodingClass e @ ''/'' @ eEncodingSub e)"

definition edgeContentKind :: "edge \<Rightarrow> content_kind" where
  "edgeContentKind e =
     (if eContentHash e \<noteq> None then ContentExternal
      else if eContent e \<noteq> None \<or> 0 < eContentSize e then ContentInline
      else ContentNone)"

definition edgeContentComplete :: "edge \<Rightarrow> bool" where
  "edgeContentComplete e =
     (if eContentHash e \<noteq> None then False else bytesLen (eContent e) = eContentSize e)"

definition edgeInlineContent :: "edge \<Rightarrow> bytes option result" where
  "edgeInlineContent e =
     (if edgeContentKind e = ContentExternal then Inl (FormErr errContentExternal)
      else Inr (eContent e))"

definition edgeHasField :: "edge \<Rightarrow> string \<Rightarrow> bool" where
  "edgeHasField e name = has (eFields e) name"

definition edgeGetField :: "edge \<Rightarrow> string \<Rightarrow> string result" where
  "edgeGetField e name =
     (case map_of (eFields e) name of None \<Rightarrow> Inl (DetailErr errFieldNotSet) | Some v \<Rightarrow> Inr v)"

definition edgeFieldNames :: "edge \<Rightarrow> string list" where
  "edgeFieldNames e = sort (keys (eFields e))"

section \<open>Filters (\<open>filter.go\<close>)\<close>

datatype edge_filter =
    EdgeFilterFieldValue string string
  | EdgeFilterType string
  | EdgeFilterTypes "string list"

fun MatchEdge :: "edge_filter \<Rightarrow> edge \<Rightarrow> bool" where
  "MatchEdge (EdgeFilterFieldValue f v) e = (map_of (eFields e) f = Some v)"
| "MatchEdge (EdgeFilterType t) e = (edgeType e = t)"
| "MatchEdge (EdgeFilterTypes ts) e = (edgeType e \<in> set ts)"

definition matchAll :: "edge \<Rightarrow> edge_filter list \<Rightarrow> bool" where
  "matchAll e filters = list_all (\<lambda>f. MatchEdge f e) filters"

section \<open>Reading a claim through its overlay\<close>

definition effectiveEdges :: "claim \<Rightarrow> edge list" where
  "effectiveEdges c = (case claimOverlay c of None \<Rightarrow> claimEdges c | Some (p, merged) \<Rightarrow> merged)"

definition Edges :: "claim \<Rightarrow> edge_filter list \<Rightarrow> edge list" where
  "Edges c filters = filter (\<lambda>e. matchAll e filters) (effectiveEdges c)"

definition edgeName :: "edge \<Rightarrow> string option" where
  "edgeName e = map_of (eFields e) FieldName"

text \<open>
  \<open>computeDiffEdges\<close> (\<open>V-DIFFEDGE\<close>): inherit the predecessor's named edges, drop
  \<open>edges_diff_omit\<close>, overlay the claim's own named edges, append its own unnamed ones, and
  order by id.
\<close>

definition putNamed :: "edge list \<Rightarrow> (string \<times> edge) list \<Rightarrow> (string \<times> edge) list" where
  "putNamed es m =
     fold (\<lambda>e m. case edgeName e of Some n \<Rightarrow> AList.update n e m | None \<Rightarrow> m) es m"

definition inheritedEdges :: "gomap \<Rightarrow> edge list \<Rightarrow> (string \<times> edge) list" where
  "inheritedEdges fs pred =
     deleteAll (splitLines (getz fs FieldEdgesDiffOmit)) (putNamed pred [])"

definition computeDiffEdges :: "gomap \<Rightarrow> edge list \<Rightarrow> edge list \<Rightarrow> edge list" where
  "computeDiffEdges fs es pred =
     sort_key eId
       (filter (\<lambda>e. edgeName e = None) es @ map snd (putNamed es (inheritedEdges fs pred)))"

text \<open>The loader's step: a diff claim over its materialised predecessor.\<close>

definition overlayOn :: "claim \<Rightarrow> claim \<Rightarrow> claim" where
  "overlayOn c pred =
     Claim (MNode (own (claimNode c))
              (Some (claimNode pred, computeDiffFields (own (claimNode c)) (claimNode pred))))
       (claimEdges c) (claimRaw c)
       (Some (pred, computeDiffEdges (nFields (own (claimNode c))) (claimEdges c) (effectiveEdges pred)))
       (claimTags c)"

definition Tag :: "claim \<Rightarrow> string \<Rightarrow> string" where
  "Tag c key = getz (claimTags c) key"

definition HasTag :: "claim \<Rightarrow> string \<Rightarrow> bool" where
  "HasTag c key = has (claimTags c) key"

definition IsContributor :: "claim \<Rightarrow> bool" where
  "IsContributor c =
     (typeClass (own (claimNode c)) = ''contribution'' \<and> typeSub (own (claimNode c)) = ''contributor'')"

definition claimType :: "claim \<Rightarrow> string" where
  "claimType c = nodeType (own (claimNode c))"

text \<open>\<open>HeightOf\<close>: the running maximum, plus one, in 64 bits; a nil claim is skipped.\<close>

fun maxHeight :: "u64 \<Rightarrow> claim option list \<Rightarrow> u64" where
  "maxHeight m [] = m"
| "maxHeight m (None # rs) = maxHeight m rs"
| "maxHeight m (Some c # rs) = maxHeight (if m < claimHeight c then claimHeight c else m) rs"

definition HeightOf :: "claim option list \<Rightarrow> u64" where
  "HeightOf refs = (if refs = [] then 0 else maxHeight 0 refs + 1)"

section \<open>What the overlay means\<close>

definition wfMap :: "('k \<times> 'v) list \<Rightarrow> bool" where
  "wfMap m = distinct (keys m)"

lemma wfMap_Nil [simp]: "wfMap []"
  by (simp add: wfMap_def)

lemma map_of_deleteAll: "map_of (deleteAll ks m) k = (if k \<in> set ks then None else map_of m k)"
  unfolding deleteAll_def
  by (induction ks arbitrary: m) (auto simp: delete_conv')

lemma wfMap_deleteAll: "wfMap m \<Longrightarrow> wfMap (deleteAll ks m)"
  unfolding deleteAll_def wfMap_def keys_def
  by (induction ks arbitrary: m) (auto simp: distinct_delete)

lemma wfMap_putAll: "wfMap m \<Longrightarrow> wfMap (putAll new m)"
  by (simp add: wfMap_def distinct_keys_putAll)

lemma map_of_putAll_wf:
  "wfMap new \<Longrightarrow>
     map_of (putAll new m) k = (case map_of new k of Some v \<Rightarrow> Some v | None \<Rightarrow> map_of m k)"
  by (simp add: wfMap_def map_of_putAll)

lemma map_of_computeDiffFields:
  assumes "wfMap (nFields n)" "wfMap (fieldMap pred)"
  shows "map_of (computeDiffFields n pred) k =
    (case map_of (nFields n) k of
       Some v \<Rightarrow> Some v
     | None \<Rightarrow> if k \<in> set (splitLines (getz (nFields n) FieldFieldsDiffOmit)) then None
               else map_of (fieldMap pred) k)"
  using assms by (auto simp: computeDiffFields_def map_of_putAll_wf map_of_deleteAll split: option.split)

lemma wfMap_computeDiffFields: "wfMap (computeDiffFields n pred)"
  by (simp add: computeDiffFields_def wfMap_putAll wfMap_deleteAll)

text \<open>The named edge a list of edges gives: the last one of that name.\<close>

definition namedEdge :: "edge list \<Rightarrow> string \<Rightarrow> edge option" where
  "namedEdge es n =
     (case filter (\<lambda>e. edgeName e = Some n) es of [] \<Rightarrow> None | x # xs \<Rightarrow> Some (last (x # xs)))"

lemma namedEdge_Nil [simp]: "namedEdge [] n = None"
  by (simp add: namedEdge_def)

lemma namedEdge_Cons:
  "namedEdge (e # es) n =
     (case namedEdge es n of Some x \<Rightarrow> Some x | None \<Rightarrow> if edgeName e = Some n then Some e else None)"
  by (auto simp: namedEdge_def split: list.splits)

lemma namedEdge_name: "namedEdge es n = Some e \<Longrightarrow> edgeName e = Some n \<and> e \<in> set es"
  by (induction es) (auto simp: namedEdge_Cons split: option.splits if_splits)

lemma map_of_putNamed:
  "map_of (putNamed es m) n = (case namedEdge es n of Some e \<Rightarrow> Some e | None \<Rightarrow> map_of m n)"
  unfolding putNamed_def
  by (induction es arbitrary: m) (auto simp: namedEdge_Cons update_conv' split: option.split)

lemma wfMap_putNamed: "wfMap m \<Longrightarrow> wfMap (putNamed es m)"
  unfolding putNamed_def
  by (induction es arbitrary: m) (auto simp: wfMap_def distinct_keys_update split: option.split)

lemma map_of_inheritedEdges:
  "map_of (inheritedEdges fs pred) n =
     (if n \<in> set (splitLines (getz fs FieldEdgesDiffOmit)) then None else namedEdge pred n)"
  by (simp add: inheritedEdges_def map_of_deleteAll map_of_putNamed split: option.split)

lemma wfMap_inheritedEdges: "wfMap (inheritedEdges fs pred)"
  by (simp add: inheritedEdges_def wfMap_deleteAll wfMap_putNamed)

text \<open>The named edge a materialised claim shows under a name.\<close>

definition overlaidEdge :: "gomap \<Rightarrow> edge list \<Rightarrow> edge list \<Rightarrow> string \<Rightarrow> edge option" where
  "overlaidEdge fs es pred n =
     (case namedEdge es n of
        Some e \<Rightarrow> Some e
      | None \<Rightarrow> if n \<in> set (splitLines (getz fs FieldEdgesDiffOmit)) then None else namedEdge pred n)"

lemma overlaidEdge_name: "overlaidEdge fs es pred n = Some e \<Longrightarrow> edgeName e = Some n"
  by (auto simp: overlaidEdge_def dest: namedEdge_name split: option.splits if_splits)

lemma map_of_overlaid:
  "map_of (putNamed es (inheritedEdges fs pred)) n = overlaidEdge fs es pred n"
  by (cases "namedEdge es n") (simp_all add: map_of_putNamed map_of_inheritedEdges overlaidEdge_def)

lemma map_values: "wfMap m \<Longrightarrow> snd ` set m = {x. \<exists>k. map_of m k = Some x}"
  by (force simp: wfMap_def keys_def map_of_eq_Some_iff image_iff)

lemma set_computeDiffEdges:
  "set (computeDiffEdges fs es pred) =
     {e \<in> set es. edgeName e = None} \<union> {e. \<exists>n. overlaidEdge fs es pred n = Some e}"
  unfolding computeDiffEdges_def set_sort set_append set_map set_filter
    map_values[OF wfMap_putNamed[OF wfMap_inheritedEdges]] map_of_overlaid ..

lemma named_computeDiffEdges:
  "{e \<in> set (computeDiffEdges fs es pred). edgeName e = Some n} = set_option (overlaidEdge fs es pred n)"
  by (auto simp: set_computeDiffEdges dest: overlaidEdge_name) (metis option.inject overlaidEdge_name)

lemma unnamed_computeDiffEdges:
  "{e \<in> set (computeDiffEdges fs es pred). edgeName e = None} = {e \<in> set es. edgeName e = None}"
  by (auto simp: set_computeDiffEdges dest: overlaidEdge_name)

lemma sorted_computeDiffEdges: "sorted (map eId (computeDiffEdges fs es pred))"
  by (simp add: computeDiffEdges_def)

lemma overlayOn_simps [simp]:
  "ID (overlayOn c p) = ID c" "claimEdges (overlayOn c p) = claimEdges c"
  "claimRaw (overlayOn c p) = claimRaw c" "claimTags (overlayOn c p) = claimTags c"
  "claimHeight (overlayOn c p) = claimHeight c" "claimCreatedAt (overlayOn c p) = claimCreatedAt c"
  "own (claimNode (overlayOn c p)) = own (claimNode c)" "claimType (overlayOn c p) = claimType c"
  by (simp_all add: overlayOn_def ID_def claimHeight_def claimCreatedAt_def claimType_def)

lemma fieldMap_overlayOn:
  "fieldMap (claimNode (overlayOn c p)) = computeDiffFields (own (claimNode c)) (claimNode p)"
  by (simp add: overlayOn_def fieldMap_def)

lemma effectiveEdges_overlayOn:
  "effectiveEdges (overlayOn c p) =
     computeDiffEdges (nFields (own (claimNode c))) (claimEdges c) (effectiveEdges p)"
  by (simp add: overlayOn_def effectiveEdges_def)

lemma contentSource_overlayOn:
  "contentSource (claimNode (overlayOn c p)) =
     (let n = own (claimNode c) in
        if content n \<noteq> None \<or> contentHash n \<noteq> None then n else contentSource (claimNode p))"
  by (simp add: overlayOn_def Let_def)

text \<open>Flattening keeps what every accessor reads.\<close>

lemma contentSource_None:
  "overlay n = None \<Longrightarrow> contentSource n = own n"
  by (cases n) auto

lemma flattened_reads:
  "fieldMap (flattened n) = fieldMap n" "nodeEncoding (flattened n) = nodeEncoding n"
  "nodeContentKind (flattened n) = nodeContentKind n"
  "nodeContentComplete (flattened n) = nodeContentComplete n"
  "nodeInlineContent (flattened n) = nodeInlineContent n"
  "overlay (flattened n) = None" "nodeId (own (flattened n)) = nodeId (own n)"
  by (auto simp: flattened_def fieldMap_def nodeEncoding_def nodeContentKind_def
      nodeContentComplete_def nodeInlineContent_def Let_def contentSource_None split: option.split)

section \<open>Heights\<close>

lemma maxHeight_ge: "m \<le> maxHeight m rs"
  by (induction m rs rule: maxHeight.induct) (auto split: if_splits)

lemma maxHeight_bound: "Some c \<in> set rs \<Longrightarrow> claimHeight c \<le> maxHeight m rs"
proof (induction m rs rule: maxHeight.induct)
  case (3 m c' rs)
  then show ?case
    using maxHeight_ge[of "if m < claimHeight c' then claimHeight c' else m" rs]
    by (auto split: if_splits)
qed auto

lemma maxHeight_attained:
  "maxHeight m rs = m \<or> (\<exists>c. Some c \<in> set rs \<and> maxHeight m rs = claimHeight c)"
  by (induction m rs rule: maxHeight.induct) (auto split: if_splits)

lemma HeightOf_above:
  assumes "Some c \<in> set rs" "maxHeight 0 rs \<noteq> - 1"
  shows "claimHeight c < HeightOf rs"
proof -
  have "rs \<noteq> []" using assms(1) by auto
  then show ?thesis
    using maxHeight_bound[OF assms(1), of 0] u64_less_succ_iff[OF assms(2)] by (simp add: HeightOf_def)
qed

section \<open>Sample records\<close>

text \<open>The zero values of the structs, and a claim of one node: the inputs of the witnesses.\<close>

definition zeroEdge :: edge where
  "zeroEdge = \<lparr>eReference = [], eTypeClass = [], eTypeSub = [], eEncodingClass = [],
     eEncodingSub = [], eContentHash = None, eContent = None, eContentSize = 0,
     eRelationDirection = 0, eFields = [], eId = []\<rparr>"

definition zeroNode :: node where
  "zeroNode = \<lparr>typeClass = [], typeSub = [], encodingClass = [], encodingSub = [],
     contentHash = None, content = None, contentSize = 0, createdAt = 0, dated = [], height = 0,
     edgeIds = [], nFields = [], nodeId = []\<rparr>"

definition plainClaim :: "node \<Rightarrow> edge list \<Rightarrow> claim" where
  "plainClaim n es = Claim (MNode n None) es None None []"

section \<open>Properties\<close>

text \<open>
  Property C33 (diff_overlay): a diff claim read over its materialised predecessor shows its own
  fields first, then the predecessor's except those it omits; under each name its own last edge,
  else the predecessor's unless omitted; its own unnamed edges and nobody else's; edges in id
  order; and its own content when it sets any, else the predecessor's whole.
\<close>

theorem diff_overlay:
  assumes "wfMap (nFields (own (claimNode c)))" "wfMap (fieldMap (claimNode p))"
  shows "map_of (fieldMap (claimNode (overlayOn c p))) k =
      (case map_of (nFields (own (claimNode c))) k of
         Some v \<Rightarrow> Some v
       | None \<Rightarrow>
           if k \<in> set (splitLines (getz (nFields (own (claimNode c))) FieldFieldsDiffOmit)) then None
           else map_of (fieldMap (claimNode p)) k) \<and>
    {e \<in> set (effectiveEdges (overlayOn c p)). edgeName e = Some n} =
      set_option (overlaidEdge (nFields (own (claimNode c))) (claimEdges c) (effectiveEdges p) n) \<and>
    {e \<in> set (effectiveEdges (overlayOn c p)). edgeName e = None} =
      {e \<in> set (claimEdges c). edgeName e = None} \<and>
    sorted (map eId (effectiveEdges (overlayOn c p))) \<and>
    contentSource (claimNode (overlayOn c p)) =
      (if content (own (claimNode c)) \<noteq> None \<or> contentHash (own (claimNode c)) \<noteq> None
       then own (claimNode c) else contentSource (claimNode p))"
  using assms
  by (simp add: fieldMap_overlayOn effectiveEdges_overlayOn map_of_computeDiffFields
      named_computeDiffEdges unnamed_computeDiffEdges sorted_computeDiffEdges
      contentSource_overlayOn Let_def)

theorem diff_overlay_witness:
  "map_of (fieldMap (claimNode (overlayOn (plainClaim (zeroNode\<lparr>nFields := [(''rev'', ''2'')]\<rparr>) [])
     (plainClaim (zeroNode\<lparr>nFields := [(''rev'', ''1''), (''by'', ''ann'')]\<rparr>) [])))) ''by'' = Some ''ann''"
proof -
  let ?c = "plainClaim (zeroNode\<lparr>nFields := [(''rev'', ''2'')]\<rparr>) []"
  let ?p = "plainClaim (zeroNode\<lparr>nFields := [(''rev'', ''1''), (''by'', ''ann'')]\<rparr>) []"
  have "wfMap (nFields (own (claimNode ?c)))" "wfMap (fieldMap (claimNode ?p))"
    by (simp_all add: plainClaim_def fieldMap_def wfMap_def)
  from diff_overlay[OF this, of "''by''" "[]"] show ?thesis
    by (simp add: plainClaim_def fieldMap_def getz_def)
qed

text \<open>
  Resolving the overlay into a node's own slots, as a
  materialised encode does, leaves every accessor's answer as it was.
\<close>

theorem flattening_keeps_reads:
  "fieldMap (flattened n) = fieldMap n \<and> nodeEncoding (flattened n) = nodeEncoding n \<and>
   nodeContentKind (flattened n) = nodeContentKind n \<and>
   nodeContentComplete (flattened n) = nodeContentComplete n \<and>
   nodeInlineContent (flattened n) = nodeInlineContent n \<and> overlay (flattened n) = None"
  by (simp add: flattened_reads)

text \<open>
  A claim built at the height the helper computes stands
  above every claim it references, and no higher than one above the highest, as long as no
  referenced height is the last 64-bit value (from there the sum wraps to zero).
\<close>

theorem height_above_references:
  assumes "Some c \<in> set rs" "maxHeight 0 rs \<noteq> - 1"
  shows "claimHeight c < HeightOf rs \<and>
    (HeightOf rs = 1 \<or> (\<exists>d. Some d \<in> set rs \<and> HeightOf rs = claimHeight d + 1))"
proof -
  have "rs \<noteq> []" using assms(1) by auto
  then show ?thesis
    using HeightOf_above[OF assms] maxHeight_attained[of 0 rs] by (auto simp: HeightOf_def)
qed

theorem height_above_references_witness:
  "claimHeight (plainClaim (zeroNode\<lparr>height := 4\<rparr>) []) < HeightOf [None, Some (plainClaim (zeroNode\<lparr>height := 4\<rparr>) [])]"
  using height_above_references[of "plainClaim (zeroNode\<lparr>height := 4\<rparr>) []"
      "[None, Some (plainClaim (zeroNode\<lparr>height := 4\<rparr>) [])]"]
  by (simp add: plainClaim_def claimHeight_def)

end
