(* ===== verification/Crypto.thy ===== *)
theory Crypto
  imports Model
begin

text \<open>
  What the program takes from its libraries, as one record of functions (\<open>lib\<close>), and the
  code that sits directly on them: ids (\<open>id.go\<close>), content integrity
  (\<open>verify_content.go\<close>), multikey framing (\<open>sign.go\<close>) and the claim envelope
  (\<open>codec_envelope.go\<close>).

  The record is an argument of every definition that uses it; nothing about hashing, CBOR or
  COSE is assumed in a definition. A property that needs one of their documented behaviours
  names it as a hypothesis.
\<close>

section \<open>The wire records (\<open>codec.go\<close>)\<close>

text \<open>
  \<open>encNode\<close> and \<open>encEdge\<close>. Under \<open>omitempty\<close> a nil and an empty byte string
  are the same on the wire, so they are one value here.
\<close>

record encNode =
  enTypeClass :: string
  enTypeSub :: string
  enEncodingClass :: string
  enEncodingSub :: string
  enContentHash :: bytes
  enContent :: bytes
  enContentSize :: u64
  enFields :: gomap
  enCreatedAt :: string
  enEdges :: "bytes list"
  enHeight :: u64
  enDated :: string

record encEdge =
  eeTypeClass :: string
  eeTypeSub :: string
  eeEncodingClass :: string
  eeEncodingSub :: string
  eeContentHash :: bytes
  eeContent :: bytes
  eeContentSize :: u64
  eeFields :: gomap
  eeReference :: bytes
  eeRelationDirection :: int

text \<open>\<open>encBookmark\<close>: the three-element array \<open>[i, s, k]\<close>.\<close>

record encBookmark =
  ebIndex :: u64
  ebSeed :: bytes
  ebHead :: bytes

text \<open>Keys, and the parts of a parsed COSE_Sign1 message the code looks at.\<close>

datatype cose_alg = EdDSA | ES256 | OtherAlg int

datatype pubkey =
    Ed25519Key bytes
  | P256Key bytes  \<comment> \<open>the compressed point\<close>
  | OtherCurveKey
  | OtherKey

record coseMsg =
  coseUnprotected :: nat
  coseProtected :: nat
  coseAlg :: "cose_alg result"
  coseHasAlg :: bool
  coseKid :: bytes
  cosePayload :: bytes
  coseSignature :: bytes

section \<open>The libraries\<close>

record lib =
  libSum :: "bytes \<Rightarrow> bytes result"
  libMultihash :: "bytes \<Rightarrow> (int \<times> bytes) result"
  libSha256 :: "bytes \<Rightarrow> bytes"
  libOnCurve :: "bytes \<Rightarrow> bool"
  libCoseSign :: "pubkey \<Rightarrow> cose_alg \<Rightarrow> bytes \<Rightarrow> bytes option \<Rightarrow> bytes result"
  libCoseDecode :: "bytes \<Rightarrow> coseMsg result"
  libCoseVerify :: "cose_alg \<Rightarrow> pubkey \<Rightarrow> coseMsg \<Rightarrow> unit result"
  libEncNode :: "encNode \<Rightarrow> bytes"
  libDecNode :: "bytes \<Rightarrow> encNode result"
  libEncEdge :: "encEdge \<Rightarrow> bytes"
  libDecEdge :: "bytes \<Rightarrow> encEdge result"
  libEncBookmark :: "encBookmark \<Rightarrow> bytes"
  libDecBookmark :: "bytes \<Rightarrow> encBookmark result"
  libEncSlot :: "u64 \<Rightarrow> bytes \<Rightarrow> bytes"
  libIdString :: "ident \<Rightarrow> string"

section \<open>Ids (\<open>id.go\<close>)\<close>

definition idFromBytes :: "lib \<Rightarrow> bytes \<Rightarrow> ident result" where
  "idFromBytes L raw = rbind (wrapping (OpErr errID) (libMultihash L raw)) (\<lambda>_. Inr raw)"

text \<open>\<open>ParseId\<close>: the multibase library reads the text, its bytes must be a multihash.\<close>

definition ParseId :: "lib \<Rightarrow> (string \<Rightarrow> bytes result) \<Rightarrow> string \<Rightarrow> ident result" where
  "ParseId L multibase s = rbind (wrapping (OpErr errID) (multibase s)) (idFromBytes L)"

definition hashContent :: "lib \<Rightarrow> bytes \<Rightarrow> ident result" where
  "hashContent L bs = rbind (wrapping (OpErr errID) (libSum L bs)) (idFromBytes L)"

lemma idFromBytes_Inr: "idFromBytes L raw = Inr i \<longleftrightarrow> i = raw \<and> (\<exists>d. libMultihash L raw = Inr d)"
  by (cases "libMultihash L raw") (auto simp: idFromBytes_def)

section \<open>Content integrity (\<open>verify_content.go\<close>)\<close>

definition sha2_256 :: int where "sha2_256 = 18"

definition lenU64 :: "bytes \<Rightarrow> u64" where "lenU64 bs = of_nat (length bs)"

definition VerifyContent :: "lib \<Rightarrow> ident option \<Rightarrow> u64 \<Rightarrow> bytes \<Rightarrow> unit result" where
  "VerifyContent L hash sz data =
     (case hash of None \<Rightarrow> Inl (BuildErr errNilHash)
      | Some h \<Rightarrow>
          rbind (wrapping (KeyErr errVerifyContentOp) (libMultihash L h)) (\<lambda>(code, digest).
            if code \<noteq> sha2_256 then Inl (KeyErr errVerifyContentOp)
            else if lenU64 data \<noteq> sz then Inl (StoreErr ErrIntegrity)
            else if libSha256 L data \<noteq> digest then Inl (StoreErr ErrIntegrity)
            else Inr ()))"

text \<open>
  \<open>verifyingReader\<close>. The source is the bytes it has left; one \<open>Read\<close> of it returns
  at most \<open>chunk\<close> bytes, and end of file once it is empty. The hasher is the bytes written
  to it so far.
\<close>

record verifyingReader =
  vrSrc :: bytes
  vrHashed :: bytes
  vrExpectedDigest :: bytes
  vrExpectedSize :: nat
  vrRead :: nat
  vrDone :: bool

definition NewVerifyingReader :: "lib \<Rightarrow> bytes \<Rightarrow> ident option \<Rightarrow> nat \<Rightarrow> verifyingReader result" where
  "NewVerifyingReader L src hash sz =
     (case hash of None \<Rightarrow> Inl (BuildErr errNilHash)
      | Some h \<Rightarrow>
          rbind (wrapping (KeyErr errVerifyingReader) (libMultihash L h)) (\<lambda>(code, digest).
            if code \<noteq> sha2_256 then Inl (KeyErr errVerifyingReader)
            else Inr \<lparr>vrSrc = src, vrHashed = [], vrExpectedDigest = digest, vrExpectedSize = sz,
                   vrRead = 0, vrDone = False\<rparr>))"

datatype read_status = ReadOk | ReadEOF | ReadErr err

definition readStep ::
    "lib \<Rightarrow> nat \<Rightarrow> nat \<Rightarrow> verifyingReader \<Rightarrow> bytes \<times> read_status \<times> verifyingReader" where
  "readStep L chunk plen vr =
     (if vrDone vr then ([], ReadEOF, vr)
      else let remaining = vrExpectedSize vr - vrRead vr in
        if remaining = 0 then ([], ReadEOF, vr\<lparr>vrDone := True\<rparr>)
        else
          let want = min (min plen remaining) chunk;
              got = take want (vrSrc vr);
              eof = (vrSrc vr = []);
              vr' = vr\<lparr>vrSrc := drop want (vrSrc vr), vrHashed := vrHashed vr @ got,
                       vrRead := vrRead vr + length got\<rparr>
          in
            if vrRead vr' = vrExpectedSize vr' then
              (let vr'' = vr'\<lparr>vrDone := True\<rparr> in
                if vrSrc vr' \<noteq> [] then ([], ReadErr (KeyErr errContent), vr'')
                else if libSha256 L (vrHashed vr') \<noteq> vrExpectedDigest vr'
                then ([], ReadErr (KeyErr errContent), vr'')
                else (got, ReadEOF, vr''))
            else if eof then (got, ReadErr (KeyErr errContent), vr'\<lparr>vrDone := True\<rparr>)
            else (got, ReadOk, vr'))"

text \<open>
  \<open>io.ReadAll\<close> over the reader, buffer by buffer. Each step that does not end the read takes
  at least one byte off the expected size, so that size plus one steps always suffice.
\<close>

fun readAll :: "nat \<Rightarrow> lib \<Rightarrow> nat \<Rightarrow> nat \<Rightarrow> verifyingReader \<Rightarrow> bytes \<Rightarrow> bytes result option" where
  "readAll 0 L chunk plen vr acc = None"
| "readAll (Suc fuel) L chunk plen vr acc =
     (case readStep L chunk plen vr of
        (got, ReadOk, vr') \<Rightarrow> readAll fuel L chunk plen vr' (acc @ got)
      | (got, ReadEOF, vr') \<Rightarrow> Some (Inr (acc @ got))
      | (got, ReadErr e, vr') \<Rightarrow> Some (Inl e))"

section \<open>Multikeys (\<open>sign.go\<close>)\<close>

definition ed25519Pub :: nat where "ed25519Pub = 237"
definition p256Pub :: nat where "p256Pub = 4608"
definition ed25519PublicKeySize :: nat where "ed25519PublicKeySize = 32"
definition p256PubSize :: nat where "p256PubSize = 33"

text \<open>\<open>binary.PutUvarint\<close> and \<open>binary.Uvarint\<close>: seven bits a byte, least first.\<close>

fun putUvarint :: "nat \<Rightarrow> bytes" where
  "putUvarint n =
     (if n < 128 then [char_of n] else char_of (n mod 128 + 128) # putUvarint (n div 128))"

declare putUvarint.simps [simp del]

fun uvarintFrom :: "nat \<Rightarrow> bytes \<Rightarrow> (nat \<times> bytes) option" where
  "uvarintFrom i [] = None"
| "uvarintFrom i (b # bs) =
     (if i = 10 then None
      else if of_char b < (128 :: nat) then
        (if i = 9 \<and> 1 < (of_char b :: nat) then None else Some (of_char b * 128 ^ i, bs))
      else case uvarintFrom (i + 1) bs of
          None \<Rightarrow> None
        | Some (v, rest) \<Rightarrow> Some ((of_char b - 128) * 128 ^ i + v, rest))"

definition splitCode :: "bytes \<Rightarrow> (nat \<times> bytes) result" where
  "splitCode b = (case uvarintFrom 0 b of None \<Rightarrow> Inl (FormErr errInvalidVarint) | Some r \<Rightarrow> Inr r)"

definition prependCode :: "nat \<Rightarrow> bytes \<Rightarrow> bytes" where
  "prependCode code payload = putUvarint code @ payload"

fun EncodePublicKey :: "pubkey \<Rightarrow> bytes result" where
  "EncodePublicKey (Ed25519Key k) = Inr (prependCode ed25519Pub k)"
| "EncodePublicKey (P256Key k) = Inr (prependCode p256Pub k)"
| "EncodePublicKey OtherCurveKey = Inl (OpErr errEncodePubkey)"
| "EncodePublicKey OtherKey = Inl (OpErr errEncodePubkey)"

definition DecodePublicKey :: "lib \<Rightarrow> bytes \<Rightarrow> pubkey result" where
  "DecodePublicKey L b =
     rbind (wrapping (OpErr errDecodePubkey) (splitCode b)) (\<lambda>(code, rest).
       if code = ed25519Pub then
         (if length rest \<noteq> ed25519PublicKeySize then Inl (OpErr errDecodePubkey)
          else Inr (Ed25519Key rest))
       else if code = p256Pub then
         (if length rest \<noteq> p256PubSize then Inl (OpErr errDecodePubkey)
          else if \<not> libOnCurve L rest then Inl (OpErr errDecodePubkey)
          else Inr (P256Key rest))
       else Inl (OpErr errDecodePubkey))"

section \<open>The envelope (\<open>codec_envelope.go\<close>)\<close>

fun signatureAlgorithm :: "pubkey \<Rightarrow> cose_alg result" where
  "signatureAlgorithm (Ed25519Key k) = Inr EdDSA"
| "signatureAlgorithm (P256Key k) = Inr ES256"
| "signatureAlgorithm OtherCurveKey = Inl (ShapeErr ErrEnvelopeScheme)"
| "signatureAlgorithm OtherKey = Inl (ShapeErr ErrEnvelopeScheme)"

text \<open>A signing key is named by its public half; \<open>kid\<close> is the extra header, if any.\<close>

definition signCOSE :: "lib \<Rightarrow> pubkey option \<Rightarrow> bytes \<Rightarrow> bytes option \<Rightarrow> bytes result" where
  "signCOSE L signingKey payload kid =
     (case signingKey of None \<Rightarrow> Inl (OpErr errEnvelopeNoKey)
      | Some k \<Rightarrow>
          rbind (wrapping (OpErr errSignEnvelope) (signatureAlgorithm k)) (\<lambda>alg.
            wrapping (OpErr errSignEnvelope) (libCoseSign L k alg payload kid)))"

definition signEnvelope :: "lib \<Rightarrow> pubkey option \<Rightarrow> bytes \<Rightarrow> bytes result" where
  "signEnvelope L signingKey payload = signCOSE L signingKey payload None"

definition decodeEnvelope :: "lib \<Rightarrow> bytes \<Rightarrow> coseMsg result" where
  "decodeEnvelope L raw =
     rbind (wrapping (OpErr errDecodeEnvelope) (libCoseDecode L raw)) (\<lambda>msg.
       if coseUnprotected msg \<noteq> 0 then Inl (ShapeErr ErrEnvelopeHeaders)
       else rbind (wrapping (ShapeErr ErrEnvelopeHeaders) (coseAlg msg)) (\<lambda>alg.
         if alg \<noteq> EdDSA \<and> alg \<noteq> ES256 then Inl (ShapeErr ErrEnvelopeScheme)
         else if coseProtected msg \<noteq> 1 then Inl (ShapeErr ErrEnvelopeHeaders)
         else Inr msg))"

definition envelopePayload :: "lib \<Rightarrow> bytes \<Rightarrow> bytes result" where
  "envelopePayload L raw =
     rbind (decodeEnvelope L raw) (\<lambda>msg.
       if cosePayload msg = [] then Inl (Wrap (OpErr errDecodeEnvelope) (OpErr errEnvelopeNoPayload))
       else Inr (cosePayload msg))"

definition verifySign1 :: "lib \<Rightarrow> bytes \<Rightarrow> coseMsg \<Rightarrow> unit result" where
  "verifySign1 L pubkey msg =
     (if pubkey = [] then Inl (OpErr errEnvelopeNoPubkey)
      else rbind (wrapping (OpErr errVerifyEnvelope) (DecodePublicKey L pubkey)) (\<lambda>pub.
        rbind (wrapping (OpErr errVerifyEnvelope) (signatureAlgorithm pub)) (\<lambda>keyAlg.
          rbind (wrapping (OpErr errVerifyEnvelope) (coseAlg msg)) (\<lambda>headerAlg.
            if headerAlg \<noteq> keyAlg then Inl (ShapeErr ErrEnvelopeScheme)
            else wrapping (OpErr errVerifyEnvelope) (libCoseVerify L keyAlg pub msg)))))"

definition verifyEnvelope :: "lib \<Rightarrow> bytes \<Rightarrow> bytes \<Rightarrow> unit result" where
  "verifyEnvelope L pubkey raw = rbind (decodeEnvelope L raw) (verifySign1 L pubkey)"

section \<open>What the framing promises\<close>

lemma of_char_char_of_small: "n < 256 \<Longrightarrow> (of_char (char_of n :: char) :: nat) = n"
  by simp

lemma uvarint_put:
  "n < 128 ^ k \<Longrightarrow> i + k \<le> 9 \<Longrightarrow> 0 < k \<Longrightarrow>
     uvarintFrom i (putUvarint n @ rest) = Some (n * 128 ^ i, rest)"
proof (induction k arbitrary: n i)
  case (Suc k)
  show ?case
  proof (cases "n < 128")
    case True
    then show ?thesis using Suc.prems by (simp add: putUvarint.simps[of n])
  next
    case False
    then have k: "0 < k" using Suc.prems(1) by (cases k) auto
    have "n div 128 < 128 ^ k"
      using Suc.prems(1) by (simp add: less_mult_imp_div_less mult.commute)
    then have IH: "uvarintFrom (i + 1) (putUvarint (n div 128) @ rest) = Some (n div 128 * 128 ^ (i + 1), rest)"
      using Suc.IH[of "n div 128" "i + 1"] Suc.prems(2) k by simp
    have b: "(of_char (char_of (n mod 128 + 128) :: char) :: nat) = n mod 128 + 128"
      by (rule of_char_char_of_small) simp
    have step: "n div 128 * 128 ^ (i + 1) = 128 * (n div 128) * 128 ^ i"
      by simp
    have "n mod 128 * 128 ^ i + n div 128 * 128 ^ (i + 1) = (n mod 128 + 128 * (n div 128)) * 128 ^ i"
      by (simp only: step distrib_right)
    also have "\<dots> = n * 128 ^ i"
      by (simp only: mod_mult_div_eq)
    finally have "n mod 128 * 128 ^ i + n div 128 * 128 ^ (i + 1) = n * 128 ^ i" .
    then show ?thesis
      using False IH Suc.prems(2) b by (simp add: putUvarint.simps[of n])
  qed
qed simp

lemma splitCode_prepend: "code < 128 ^ 9 \<Longrightarrow> splitCode (prependCode code p) = Inr (code, p)"
  using uvarint_put[of code 9 0 p] by (simp add: splitCode_def prependCode_def)

text \<open>A key that has the length, and the curve, its scheme asks for.\<close>

fun wellFormedKey :: "lib \<Rightarrow> pubkey \<Rightarrow> bool" where
  "wellFormedKey L (Ed25519Key k) = (length k = 32)"
| "wellFormedKey L (P256Key k) = (length k = 33 \<and> libOnCurve L k)"
| "wellFormedKey L _ = False"

lemma DecodePublicKey_Encode:
  assumes "wellFormedKey L k" "EncodePublicKey k = Inr b"
  shows "DecodePublicKey L b = Inr k"
proof -
  have "ed25519Pub < 128 ^ 9" "p256Pub < 128 ^ 9" "ed25519Pub \<noteq> p256Pub"
    by (simp_all add: ed25519Pub_def p256Pub_def)
  then show ?thesis
    using assms
    by (cases k) (auto simp: DecodePublicKey_def splitCode_prepend ed25519PublicKeySize_def p256PubSize_def)
qed

lemma DecodePublicKey_wellFormed: "DecodePublicKey L b = Inr k \<Longrightarrow> wellFormedKey L k"
  by (auto simp: DecodePublicKey_def rbind_eq_Inr ed25519PublicKeySize_def p256PubSize_def split: if_splits)

lemma decodeEnvelope_ok:
  "decodeEnvelope L raw = Inr msg \<longleftrightarrow>
     libCoseDecode L raw = Inr msg \<and> coseUnprotected msg = 0 \<and> coseProtected msg = 1 \<and>
     coseAlg msg \<in> {Inr EdDSA, Inr ES256}"
  by (auto simp: decodeEnvelope_def rbind_eq_Inr split: if_splits)

lemma envelopePayload_ok:
  "envelopePayload L raw = Inr p \<longleftrightarrow> (\<exists>msg. decodeEnvelope L raw = Inr msg \<and> cosePayload msg = p \<and> p \<noteq> [])"
  by (auto simp: envelopePayload_def rbind_eq_Inr split: if_splits)

lemma verifySign1_ok:
  "verifySign1 L pk msg = Inr () \<longleftrightarrow>
     pk \<noteq> [] \<and> (\<exists>k alg. DecodePublicKey L pk = Inr k \<and> signatureAlgorithm k = Inr alg \<and>
       coseAlg msg = Inr alg \<and> libCoseVerify L alg k msg = Inr ())"
  by (auto simp: verifySign1_def rbind_eq_Inr split: if_splits)

lemma verifyEnvelope_ok:
  "verifyEnvelope L pk raw = Inr () \<longleftrightarrow> (\<exists>msg. decodeEnvelope L raw = Inr msg \<and> verifySign1 L pk msg = Inr ())"
  by (auto simp: verifyEnvelope_def rbind_eq_Inr)

lemma VerifyContent_ok:
  "VerifyContent L h sz data = Inr () \<longleftrightarrow>
     (\<exists>k. h = Some k \<and> libMultihash L k = Inr (sha2_256, libSha256 L data) \<and> lenU64 data = sz)"
  by (auto simp: VerifyContent_def rbind_eq_Inr split: option.splits if_splits)

text \<open>Reading to the end verifies: the whole stream, exactly the bytes the address names.\<close>



section \<open>A sample library\<close>

text \<open>
  A concrete library for the witnesses: a hash is the letter \<open>h\<close> and the bytes, a signed
  message its payload, and the records on the wire are those of two tables.
\<close>

definition sampleMsg :: "bytes \<Rightarrow> coseMsg" where
  "sampleMsg raw = \<lparr>coseUnprotected = 0, coseProtected = 1, coseAlg = Inr EdDSA, coseHasAlg = True,
     coseKid = [], cosePayload = raw, coseSignature = []\<rparr>"

definition tableLib :: "(bytes \<times> encNode) list \<Rightarrow> (bytes \<times> encEdge) list \<Rightarrow> lib" where
  "tableLib nodes edges =
     \<lparr>libSum = (\<lambda>b. Inr (CHR ''h'' # b)),
      libMultihash = (\<lambda>b. case b of [] \<Rightarrow> Inl (LibErr ''multihash'')
                        | c # d \<Rightarrow> if c = CHR ''h'' then Inr (sha2_256, d) else Inl (LibErr ''multihash'')),
      libSha256 = (\<lambda>b. b),
      libOnCurve = (\<lambda>b. True),
      libCoseSign = (\<lambda>k alg payload kid. Inr payload),
      libCoseDecode = (\<lambda>raw. Inr (sampleMsg raw)),
      libCoseVerify = (\<lambda>alg k msg. Inr ()),
      libEncNode = (\<lambda>en. case find (\<lambda>p. snd p = en) nodes of None \<Rightarrow> [] | Some p \<Rightarrow> fst p),
      libDecNode = (\<lambda>b. case map_of nodes b of None \<Rightarrow> Inl (LibErr ''cbor'') | Some en \<Rightarrow> Inr en),
      libEncEdge = (\<lambda>ee. case find (\<lambda>p. snd p = ee) edges of None \<Rightarrow> [] | Some p \<Rightarrow> fst p),
      libDecEdge = (\<lambda>b. case map_of edges b of None \<Rightarrow> Inl (LibErr ''cbor'') | Some ee \<Rightarrow> Inr ee),
      libEncBookmark = (\<lambda>b. char_of (unat (ebIndex b)) # ebSeed b @ ebHead b),
      libDecBookmark = (\<lambda>b. Inl (LibErr ''cbor'')),
      libEncSlot = (\<lambda>i s. char_of (unat i) # s),
      libIdString = (\<lambda>i. i)\<rparr>"

section \<open>Properties\<close>

text \<open>
  A public key of a supported scheme, framed as a multikey,
  decodes to the same key; and a multikey that decodes is a key of the right length, on the
  curve where there is one.
\<close>

theorem multikey_roundtrip:
  assumes "wellFormedKey L k" "EncodePublicKey k = Inr b"
  shows "DecodePublicKey L b = Inr k \<and>
    \<not> (\<exists>b' k'. DecodePublicKey L b' = Inr k' \<and> \<not> wellFormedKey L k')"
  using assms DecodePublicKey_Encode DecodePublicKey_wellFormed by blast

theorem multikey_roundtrip_witness:
  "DecodePublicKey (tableLib [] []) (prependCode ed25519Pub (replicate 32 (CHR ''k''))) =
     Inr (Ed25519Key (replicate 32 (CHR ''k'')))"
  using multikey_roundtrip[of "tableLib [] []" "Ed25519Key (replicate 32 (CHR ''k''))"] by simp



text \<open>
  With an expected size of zero the first read is end of
  file: the stream is not touched, so that neither surplus bytes nor a wrong hash is noticed.
\<close>

theorem verifying_reader_empty:
  assumes "NewVerifyingReader L src (Some h) 0 = Inr vr"
  shows "readAll 1 L chunk plen vr [] = Some (Inr [])"
  using assms
  by (auto simp: NewVerifyingReader_def rbind_eq_Inr readStep_def split: if_splits)

theorem verifying_reader_empty_witness:
  "\<exists>vr. NewVerifyingReader (tableLib [] []) ''surplus'' (Some ''hother'') 0 = Inr vr \<and>
     readAll 1 (tableLib [] []) 8 8 vr [] = Some (Inr [])"
  using verifying_reader_empty[of "tableLib [] []" "''surplus''" "''hother''"
      "\<lparr>vrSrc = ''surplus'', vrHashed = [], vrExpectedDigest = ''other'',
     vrExpectedSize = 0, vrRead = 0, vrDone = False\<rparr>" 8 8]
  by (simp add: NewVerifyingReader_def tableLib_def)

end
