(* ===== verification/Codec.thy ===== *)
theory Codec
  imports Crypto
begin

text \<open>
  \<open>codec.go\<close> and \<open>query_content.go\<close>: the record \<open>S(v)\<close> built from a claim and
  read back, the content budget an encode spends, the JSON projection, and
  \<open>DecodeClaim\<close>. The CBOR bytes themselves are the library's (\<open>libEncNode\<close>,
  \<open>libDecNode\<close>); what is modelled is everything that goes into them and everything that is
  checked on what comes out.
\<close>

section \<open>The content budget (\<open>query_content.go\<close>)\<close>

record contentBudget =
  cbLeft :: int
  cbCutoff :: bool
  cbStopped :: bool

text \<open>\<open>OutputContent\<close>: the cap, and whether the overflow is \<open>cutoff\<close>.\<close>

record outputContent =
  ocMax :: int
  ocOverflow :: string

type_synonym budget = "contentBudget option"

definition newContentBudget :: "outputContent option \<Rightarrow> budget" where
  "newContentBudget oc =
     (case oc of None \<Rightarrow> Some \<lparr>cbLeft = 0, cbCutoff = False, cbStopped = False\<rparr>
      | Some c \<Rightarrow>
          if ocMax c = 0 then None
          else Some \<lparr>cbLeft = ocMax c, cbCutoff = (ocOverflow c = ''cutoff''), cbStopped = False\<rparr>)"

definition inFull :: "budget \<Rightarrow> bool" where
  "inFull b = (b = None)"

text \<open>\<open>take\<close>: what the budget affords of one value, and the budget after it.\<close>

definition takeContent :: "budget \<Rightarrow> bytes option \<Rightarrow> bytes option \<times> budget" where
  "takeContent b val =
     (case b of None \<Rightarrow> (val, b)
      | Some cb \<Rightarrow>
          (case val of
             None \<Rightarrow> (val, b)
           | Some bs \<Rightarrow>
               if bs = [] then (val, b)
               else if cbStopped cb then (None, b)
               else if int (length bs) \<le> cbLeft cb
               then (val, Some (cb\<lparr>cbLeft := cbLeft cb - int (length bs)\<rparr>))
               else if cbCutoff cb \<and> 0 < cbLeft cb
               then (Some (take (nat (cbLeft cb)) bs), Some (cb\<lparr>cbStopped := True, cbLeft := 0\<rparr>))
               else (None, Some (cb\<lparr>cbStopped := True\<rparr>))))"

text \<open>The budget spent along a claim's content sequence.\<close>

fun takeSeq :: "budget \<Rightarrow> bytes option list \<Rightarrow> bytes option list \<times> budget" where
  "takeSeq b [] = ([], b)"
| "takeSeq b (x # xs) =
     (let (y, b') = takeContent b x; (ys, b'') = takeSeq b' xs in (y # ys, b''))"

section \<open>Building the records\<close>

definition wireBytes :: "bytes option \<Rightarrow> bytes" where
  "wireBytes b = (case b of None \<Rightarrow> [] | Some bs \<Rightarrow> bs)"

text \<open>The three content slots of a record, shared by node and edge: hash, bytes, size.\<close>

definition contentSlots ::
    "budget \<Rightarrow> bytes option \<Rightarrow> ident option \<Rightarrow> u64 \<Rightarrow> (bytes \<times> bytes \<times> u64) \<times> budget" where
  "contentSlots b val hash sz =
     (case val of
        Some _ \<Rightarrow> (let (kept, b') = takeContent b val in (([], wireBytes kept, sz), b'))
      | None \<Rightarrow>
          (case hash of
             Some h \<Rightarrow> ((h, [], sz), b)
           | None \<Rightarrow> if 0 < sz then (([], [], sz), b) else (([], [], 0), b)))"

definition buildEncEdge :: "budget \<Rightarrow> edge \<Rightarrow> encEdge \<times> budget" where
  "buildEncEdge b e =
     (let ((h, c, sz), b') = contentSlots b (eContent e) (eContentHash e) (eContentSize e)
      in (\<lparr>eeTypeClass = aliasToWire (eTypeClass e) edgeClassToAlias,
           eeTypeSub = aliasToWire (eTypeSub e) edgeSubtypeToAlias,
           eeEncodingClass = aliasToWire (eEncodingClass e) encodingClassToAlias,
           eeEncodingSub = aliasToWire (eEncodingSub e) encodingSubToAlias,
           eeContentHash = h, eeContent = c, eeContentSize = sz,
           eeFields = aliasFieldKeys (eFields e),
           eeReference = eReference e,
           eeRelationDirection = eRelationDirection e\<rparr>, b'))"

fun buildEncEdges :: "budget \<Rightarrow> edge list \<Rightarrow> encEdge list \<times> budget" where
  "buildEncEdges b [] = ([], b)"
| "buildEncEdges b (e # es) =
     (let (ee, b') = buildEncEdge b e; (ees, b'') = buildEncEdges b' es in (ee # ees, b''))"

text \<open>\<open>encodeEdge\<close>: \<open>S(e)\<close>, over which an edge's id is taken, comes of a nil budget.\<close>

definition encodeEdge :: "lib \<Rightarrow> edge \<Rightarrow> budget \<Rightarrow> bytes \<times> budget" where
  "encodeEdge L e b = (let (ee, b') = buildEncEdge b e in (libEncEdge L ee, b'))"

definition buildEncNode :: "lib \<Rightarrow> node \<Rightarrow> edge list \<Rightarrow> budget \<Rightarrow> encNode \<times> budget" where
  "buildEncNode L n edges b =
     (let (ees, b1) = buildEncEdges b edges;
          ((h, c, sz), b2) = contentSlots b1 (content n) (contentHash n) (contentSize n)
      in (\<lparr>enTypeClass = aliasToWire (typeClass n) nodeClassToAlias,
           enTypeSub = aliasToWire (typeSub n) nodeSubtypeToAlias,
           enEncodingClass = aliasToWire (encodingClass n) encodingClassToAlias,
           enEncodingSub = aliasToWire (encodingSub n) encodingSubToAlias,
           enContentHash = h, enContent = c, enContentSize = sz,
           enFields = aliasFieldKeys (nFields n),
           enCreatedAt = FormatTimestamp (createdAt n),
           enEdges = map (libEncEdge L) ees,
           enHeight = height n,
           enDated = dated n\<rparr>, b2))"

definition encodeNode :: "lib \<Rightarrow> node \<Rightarrow> edge list \<Rightarrow> budget \<Rightarrow> bytes" where
  "encodeNode L n edges b = libEncNode L (fst (buildEncNode L n edges b))"

section \<open>Encoding a claim\<close>

datatype form = FormMaterialized | FormOriginal

definition Envelope :: "claim \<Rightarrow> bytes result" where
  "Envelope c = (case claimRaw c of None \<Rightarrow> Inl (OpErr errNoEnvelope) | Some r \<Rightarrow> Inr r)"

definition encodeCBOR :: "lib \<Rightarrow> claim \<Rightarrow> form \<Rightarrow> budget \<Rightarrow> bytes result" where
  "encodeCBOR L c form b =
     (if form = FormMaterialized \<and> claimOverlay c \<noteq> None
      then Inr (encodeNode L (own (flattened (claimNode c))) (effectiveEdges c) b)
      else case claimRaw c of
          Some raw \<Rightarrow>
            if inFull b then envelopePayload L raw
            else Inr (encodeNode L (own (claimNode c)) (claimEdges c) b)
        | None \<Rightarrow> Inr (encodeNode L (own (claimNode c)) (claimEdges c) b))"

text \<open>
  The JSON projection, as the tree handed to \<open>json.Marshal\<close> (which sorts an object's keys and
  writes bytes as base64).
\<close>

datatype json =
    JStr string
  | JInt int
  | JBytes bytes
  | JObj "(string \<times> json) list"
  | JArr "json list"

definition jsonCarry ::
    "lib \<Rightarrow> string \<Rightarrow> content_kind \<Rightarrow> u64 \<Rightarrow> ident option \<Rightarrow> bytes option result \<Rightarrow> gomap \<Rightarrow> budget \<Rightarrow>
       (string \<times> json) list \<times> budget" where
  "jsonCarry L enc kind sz hash inline fs b =
     (let (kept, b') =
            (case inline of
               Inl e \<Rightarrow> (None, b)
             | Inr bs \<Rightarrow> if wireBytes bs \<noteq> [] then takeContent b bs else (None, b));
          m = (if enc \<noteq> [] then [(''encoding'', JStr enc)] else []) @
              (if kind \<noteq> ContentNone then [(''content_size'', JInt (uint sz))] else []) @
              (case hash of None \<Rightarrow> [] | Some h \<Rightarrow> [(''content_hash'', JStr (libIdString L h))]) @
              (if wireBytes kept \<noteq> [] then [(''content'', JBytes (wireBytes kept))] else []) @
              (if fs \<noteq> [] then [(''fields'', JObj (map (\<lambda>(k, v). (k, JStr v)) fs))] else [])
      in (m, b'))"

definition jsonEdge :: "lib \<Rightarrow> edge \<Rightarrow> budget \<Rightarrow> json \<times> budget" where
  "jsonEdge L e b =
     (let (m, b') = jsonCarry L (edgeEncoding e) (edgeContentKind e) (eContentSize e) (eContentHash e)
            (edgeInlineContent e) (eFields e) b
      in (JObj ([(''type'', JStr (edgeType e)), (''reference'', JStr (libIdString L (eReference e)))] @
            (if eRelationDirection e \<noteq> 0 then [(''relation_direction'', JInt (eRelationDirection e))] else []) @
            m), b'))"

fun jsonEdges :: "lib \<Rightarrow> edge list \<Rightarrow> budget \<Rightarrow> json list \<times> budget" where
  "jsonEdges L [] b = ([], b)"
| "jsonEdges L (e # es) b =
     (let (j, b') = jsonEdge L e b; (js, b'') = jsonEdges L es b' in (j # js, b''))"

definition encodeJSON :: "lib \<Rightarrow> claim \<Rightarrow> form \<Rightarrow> budget \<Rightarrow> json" where
  "encodeJSON L c form b =
     (let n = (if form = FormMaterialized then flattened (claimNode c) else claimNode c);
          edges = (if form = FormMaterialized then effectiveEdges c else claimEdges c);
          cs = contentSource n;
          (js, b1) = jsonEdges L edges b;
          (m, b2) = jsonCarry L (nodeEncoding n) (nodeContentKind n) (contentSize cs) (contentHash cs)
             (nodeInlineContent n) (fieldMap n) b1
      in JObj ([(''id'', JStr (libIdString L (ID c))), (''type'', JStr (nodeType (own n))),
           (''created_at'', JStr (FormatTimestamp (createdAt (own n)))),
           (''height'', JInt (uint (height (own n))))] @
          (if edges \<noteq> [] then [(''edges'', JArr js)] else []) @ m))"

section \<open>Decoding\<close>

definition decodeContent ::
    "lib \<Rightarrow> bytes \<Rightarrow> bytes \<Rightarrow> u64 \<Rightarrow> (bytes option \<times> ident option \<times> u64) result" where
  "decodeContent L val hash sz =
     (if val \<noteq> [] \<and> hash \<noteq> [] then Inl (ShapeErr ErrContentBothSlots)
      else if val \<noteq> [] then Inr (Some val, None, sz)
      else if hash \<noteq> [] then rbind (idFromBytes L hash) (\<lambda>h. Inr (None, Some h, sz))
      else Inr (None, None, sz))"

definition decodeNode :: "lib \<Rightarrow> encNode \<Rightarrow> node result" where
  "decodeNode L en =
     (case parseRFC3339Nano (enCreatedAt en) of
        None \<Rightarrow> Inl (Wrap (ShapeErr ErrTimestampForm) (LibErr ''time.Parse''))
      | Some t \<Rightarrow>
          let fs = unaliasFieldKeys (enFields en) in
          rbind (checkTimestampFields fs) (\<lambda>_.
          rbind (if enDated en \<noteq> [] then validateDated (enDated en) else Inr ()) (\<lambda>_.
          rbind (decodeContent L (enContent en) (enContentHash en) (enContentSize en)) (\<lambda>(c, h, sz).
            Inr \<lparr>typeClass = aliasFromWire (enTypeClass en) nodeClassFromAlias,
                 typeSub = aliasFromWire (enTypeSub en) nodeSubtypeFromAlias,
                 encodingClass = aliasFromWire (enEncodingClass en) encodingClassFromAlias,
                 encodingSub = aliasFromWire (enEncodingSub en) encodingSubFromAlias,
                 contentHash = h, content = c, contentSize = sz,
                 createdAt = t, dated = enDated en, height = enHeight en, edgeIds = [],
                 nFields = fs, nodeId = []\<rparr>))))"

definition decodeEdge :: "lib \<Rightarrow> encEdge \<Rightarrow> edge result" where
  "decodeEdge L ee =
     rbind (idFromBytes L (eeReference ee)) (\<lambda>ref.
       let fs = unaliasFieldKeys (eeFields ee) in
       rbind (checkTimestampFields fs) (\<lambda>_.
       rbind (decodeContent L (eeContent ee) (eeContentHash ee) (eeContentSize ee)) (\<lambda>(c, h, sz).
         Inr \<lparr>eReference = ref,
              eTypeClass = aliasFromWire (eeTypeClass ee) edgeClassFromAlias,
              eTypeSub = aliasFromWire (eeTypeSub ee) edgeSubtypeFromAlias,
              eEncodingClass = aliasFromWire (eeEncodingClass ee) encodingClassFromAlias,
              eEncodingSub = aliasFromWire (eeEncodingSub ee) encodingSubFromAlias,
              eContentHash = h, eContent = c, eContentSize = sz,
              eRelationDirection = eeRelationDirection ee, eFields = fs, eId = []\<rparr>)))"

text \<open>One inlined edge record: its id is the hash of the stored bytes.\<close>

definition decodeEdgeRecord :: "lib \<Rightarrow> bytes \<Rightarrow> edge result" where
  "decodeEdgeRecord L raw =
     wrapping (OpErr errDecodeClaim)
       (rbind (hashContent L raw) (\<lambda>eid.
        rbind (libDecEdge L raw) (\<lambda>ee.
        rbind (decodeEdge L ee) (\<lambda>e. Inr (e\<lparr>eId := eid\<rparr>)))))"

definition decodeSerializedClaim :: "lib \<Rightarrow> ident \<Rightarrow> bytes \<Rightarrow> claim result" where
  "decodeSerializedClaim L i payload =
     rbind (wrapping (OpErr errDecodeClaim) (libDecNode L payload)) (\<lambda>en.
     rbind (wrapping (OpErr errDecodeClaim) (decodeNode L en)) (\<lambda>n.
     rbind (mapM (decodeEdgeRecord L) (enEdges en)) (\<lambda>es.
       Inr (Claim (MNode (n\<lparr>nodeId := i, edgeIds := map eId es\<rparr>) None) es None None []))))"

definition withRaw :: "claim \<Rightarrow> bytes \<Rightarrow> claim" where
  "withRaw c raw = Claim (claimNode c) (claimEdges c) (Some raw) (claimOverlay c) (claimTags c)"

definition DecodeClaim :: "lib \<Rightarrow> ident \<Rightarrow> bytes \<Rightarrow> claim result" where
  "DecodeClaim L i b =
     rbind (envelopePayload L b) (\<lambda>payload.
     rbind (decodeSerializedClaim L i payload) (\<lambda>c. Inr (withRaw c b)))"

lemma DecodeClaim_shape:
  assumes "DecodeClaim L i b = Inr c"
  shows "ID c = i" "claimRaw c = Some b" "claimOverlay c = None" "claimTags c = []"
    "overlay (claimNode c) = None"
  using assms by (auto simp: DecodeClaim_def decodeSerializedClaim_def rbind_eq_Inr withRaw_def ID_def)

section \<open>What a decode has checked\<close>

lemma decodeContent_ok:
  "decodeContent L c h sz = Inr (c', h', sz') \<Longrightarrow>
     sz' = sz \<and> \<not> (c \<noteq> [] \<and> h \<noteq> []) \<and> c' = (if c = [] then None else Some c) \<and>
     h' = (if h = [] then None else Some h) \<and> (h \<noteq> [] \<longrightarrow> (\<exists>d. libMultihash L h = Inr d))"
  by (auto simp: decodeContent_def rbind_eq_Inr idFromBytes_Inr split: if_splits)

text \<open>The shape every decoded node has: its timestamps, its date and its content slots.\<close>

definition contentShape :: "bytes option \<Rightarrow> ident option \<Rightarrow> bool" where
  "contentShape c h = (c \<noteq> Some [] \<and> h \<noteq> Some [] \<and> \<not> (c \<noteq> None \<and> h \<noteq> None))"

definition nodeShape :: "node \<Rightarrow> bool" where
  "nodeShape n =
     (checkTimestampFields (nFields n) = Inr () \<and> (dated n = [] \<or> validateDated (dated n) = Inr ()) \<and>
      contentShape (content n) (contentHash n) \<and> wfMap (nFields n))"

definition edgeShape :: "edge \<Rightarrow> bool" where
  "edgeShape e =
     (checkTimestampFields (eFields e) = Inr () \<and> contentShape (eContent e) (eContentHash e) \<and>
      wfMap (eFields e))"

lemma wfMap_unalias: "wfMap (unaliasFieldKeys m)"
  by (simp add: unaliasFieldKeys_def wfMap_putAll)

lemma contentShape_decode: "decodeContent L c h sz = Inr (c', h', sz') \<Longrightarrow> contentShape c' h'"
  by (drule decodeContent_ok) (auto simp: contentShape_def)

lemma decodeNode_shape: "decodeNode L en = Inr n \<Longrightarrow> nodeShape n"
  by (auto simp: decodeNode_def nodeShape_def rbind_eq_Inr Let_def wfMap_unalias contentShape_decode
      split: option.splits if_splits)

lemma decodeEdge_shape: "decodeEdge L ee = Inr e \<Longrightarrow> edgeShape e"
  by (auto simp: decodeEdge_def edgeShape_def rbind_eq_Inr Let_def wfMap_unalias contentShape_decode)

lemma decodeEdgeRecord_ok:
  "decodeEdgeRecord L raw = Inr e \<Longrightarrow> edgeShape e \<and> hashContent L raw = Inr (eId e)"
  by (auto simp: decodeEdgeRecord_def rbind_eq_Inr dest!: decodeEdge_shape simp: edgeShape_def)

lemma decodeSerializedClaim_ok:
  assumes "decodeSerializedClaim L i payload = Inr c"
  shows "nodeShape (own (claimNode c))" "list_all edgeShape (claimEdges c)"
    "edgeIds (own (claimNode c)) = map eId (claimEdges c)"
    "\<exists>en. libDecNode L payload = Inr en \<and>
       list_all2 (\<lambda>raw e. hashContent L raw = Inr (eId e)) (enEdges en) (claimEdges c)"
proof -
  obtain en n es where en: "libDecNode L payload = Inr en" and n: "decodeNode L en = Inr n"
    and es: "mapM (decodeEdgeRecord L) (enEdges en) = Inr es"
    and c: "c = Claim (MNode (n\<lparr>nodeId := i, edgeIds := map eId es\<rparr>) None) es None None []"
    using assms by (auto simp: decodeSerializedClaim_def rbind_eq_Inr)
  show "nodeShape (own (claimNode c))"
    using decodeNode_shape[OF n] by (simp add: c nodeShape_def)
  show "list_all edgeShape (claimEdges c)"
    using es unfolding mapM_Inr_iff
    by (auto simp: c list_all_length list_all2_conv_all_nth dest: decodeEdgeRecord_ok)
  show "edgeIds (own (claimNode c)) = map eId (claimEdges c)" by (simp add: c)
  have "list_all2 (\<lambda>raw e. hashContent L raw = Inr (eId e)) (enEdges en) es"
    using es unfolding mapM_Inr_iff by (rule list_all2_mono) (auto dest: decodeEdgeRecord_ok)
  then show "\<exists>en. libDecNode L payload = Inr en \<and>
       list_all2 (\<lambda>raw e. hashContent L raw = Inr (eId e)) (enEdges en) (claimEdges c)"
    using en by (auto simp: c)
qed

section \<open>Decoding undoes encoding\<close>

definition wireContent :: "lib \<Rightarrow> bytes option \<Rightarrow> ident option \<Rightarrow> bool" where
  "wireContent L c h =
     (contentShape c h \<and> (case h of None \<Rightarrow> True | Some k \<Rightarrow> (\<exists>d. libMultihash L k = Inr d)))"

definition wireNode :: "lib \<Rightarrow> node \<Rightarrow> bool" where
  "wireNode L n =
     (\<not> dotted (typeClass n) \<and> \<not> dotted (typeSub n) \<and> \<not> dotted (encodingClass n) \<and>
      \<not> dotted (encodingSub n) \<and> wfMap (nFields n) \<and> undottedKeys (nFields n) \<and>
      0 \<le> yearOf (createdAt n) \<and> yearOf (createdAt n) < 10000 \<and>
      nodeShape n \<and> wireContent L (content n) (contentHash n))"

definition wireEdge :: "lib \<Rightarrow> edge \<Rightarrow> bool" where
  "wireEdge L e =
     (\<not> dotted (eTypeClass e) \<and> \<not> dotted (eTypeSub e) \<and> \<not> dotted (eEncodingClass e) \<and>
      \<not> dotted (eEncodingSub e) \<and> wfMap (eFields e) \<and> undottedKeys (eFields e) \<and>
      edgeShape e \<and> wireContent L (eContent e) (eContentHash e) \<and>
      (\<exists>d. libMultihash L (eReference e) = Inr d))"

lemma contentSlots_full:
  "contentSlots None c h sz =
     ((case c of Some bs \<Rightarrow> ([], bs, sz) | None \<Rightarrow> (case h of Some k \<Rightarrow> (k, [], sz) | None \<Rightarrow> ([], [], sz))), None)"
  by (auto simp: contentSlots_def takeContent_def wireBytes_def word_gt_0 split: option.split)

lemma decodeContent_slots:
  assumes "wireContent L c h" "contentSlots None c h sz = ((h', c', sz'), b')"
  shows "decodeContent L c' h' sz' = Inr (c, h, sz)"
  using assms
  by (auto simp: contentSlots_full decodeContent_def wireContent_def contentShape_def idFromBytes_Inr
      rbind_eq_Inr split: option.splits)

lemma wire_alias_back:
  "\<not> dotted v \<Longrightarrow> aliasFromWire (aliasToWire v nodeClassToAlias) nodeClassFromAlias = v"
  "\<not> dotted v \<Longrightarrow> aliasFromWire (aliasToWire v nodeSubtypeToAlias) nodeSubtypeFromAlias = v"
  "\<not> dotted v \<Longrightarrow> aliasFromWire (aliasToWire v edgeClassToAlias) edgeClassFromAlias = v"
  "\<not> dotted v \<Longrightarrow> aliasFromWire (aliasToWire v edgeSubtypeToAlias) edgeSubtypeFromAlias = v"
  "\<not> dotted v \<Longrightarrow> aliasFromWire (aliasToWire v encodingClassToAlias) encodingClassFromAlias = v"
  "\<not> dotted v \<Longrightarrow> aliasFromWire (aliasToWire v encodingSubToAlias) encodingSubFromAlias = v"
  by (simp_all add: alias_functions wire_roundtrips)

lemma fields_back: "wfMap m \<Longrightarrow> undottedKeys m \<Longrightarrow> unaliasFieldKeys (aliasFieldKeys m) = m"
  by (simp add: wfMap_def unalias_alias)

lemma decodeEdge_build:
  assumes "wireEdge L e"
  shows "decodeEdge L (fst (buildEncEdge None e)) = Inr (e\<lparr>eId := []\<rparr>)"
proof -
  obtain h c sz b where slots: "contentSlots None (eContent e) (eContentHash e) (eContentSize e) = ((h, c, sz), b)"
    by (metis prod.exhaust)
  have "decodeContent L c h sz = Inr (eContent e, eContentHash e, eContentSize e)"
    using assms slots by (intro decodeContent_slots) (auto simp: wireEdge_def)
  then show ?thesis
    using assms
    by (auto simp: buildEncEdge_def slots decodeEdge_def wireEdge_def edgeShape_def idFromBytes_Inr
        rbind_eq_Inr wire_alias_back fields_back)
qed

lemma decodeNode_build:
  assumes "wireNode L n"
  shows "decodeNode L (fst (buildEncNode L n es None)) = Inr (n\<lparr>edgeIds := [], nodeId := []\<rparr>)"
proof -
  obtain h c sz b where slots: "contentSlots None (content n) (contentHash n) (contentSize n) = ((h, c, sz), b)"
    by (metis prod.exhaust)
  have dec: "decodeContent L c h sz = Inr (content n, contentHash n, contentSize n)"
    using assms slots by (intro decodeContent_slots) (auto simp: wireNode_def)
  have full: "snd (buildEncEdges None es) = None"
    by (induction es) (auto simp: buildEncEdge_def contentSlots_full Let_def split: prod.splits)
  obtain ees where ees: "buildEncEdges None es = (ees, None)"
    using full by (metis prod.collapse)
  show ?thesis
    using assms dec
    by (auto simp: buildEncNode_def ees slots decodeNode_def wireNode_def nodeShape_def
        rbind_eq_Inr wire_alias_back fields_back parse_format Let_def)
qed

lemma buildEncEdges_full:
  "buildEncEdges None es = (map (\<lambda>e. fst (buildEncEdge None e)) es, None)"
proof (induction es)
  case (Cons e es)
  have "snd (buildEncEdge None e) = None"
    by (simp add: buildEncEdge_def contentSlots_full split: prod.splits)
  then show ?case using Cons by (simp split: prod.splits) (metis fst_conv snd_conv)
qed simp

text \<open>An edge sealed under its id, and the library law that its record decodes to itself.\<close>

definition sealedEdge :: "lib \<Rightarrow> edge \<Rightarrow> bool" where
  "sealedEdge L e = (hashContent L (fst (encodeEdge L e None)) = Inr (eId e))"

definition edgeCodecAt :: "lib \<Rightarrow> edge \<Rightarrow> bool" where
  "edgeCodecAt L e =
     (libDecEdge L (libEncEdge L (fst (buildEncEdge None e))) = Inr (fst (buildEncEdge None e)))"

definition nodeCodecAt :: "lib \<Rightarrow> node \<Rightarrow> edge list \<Rightarrow> bool" where
  "nodeCodecAt L n es =
     (libDecNode L (encodeNode L n es None) = Inr (fst (buildEncNode L n es None)))"

lemma encodeEdge_full: "fst (encodeEdge L e None) = libEncEdge L (fst (buildEncEdge None e))"
  by (simp add: encodeEdge_def split: prod.split)

lemma decodeEdgeRecord_encode:
  assumes "wireEdge L e" "sealedEdge L e" "edgeCodecAt L e"
  shows "decodeEdgeRecord L (libEncEdge L (fst (buildEncEdge None e))) = Inr e"
  using assms decodeEdge_build[OF assms(1)]
  by (simp add: decodeEdgeRecord_def sealedEdge_def edgeCodecAt_def encodeEdge_full)

lemma decode_encode:
  assumes "wireNode L n" "nodeCodecAt L n es"
    and "list_all (\<lambda>e. wireEdge L e \<and> sealedEdge L e \<and> edgeCodecAt L e) es"
  shows "decodeSerializedClaim L i (encodeNode L n es None) =
     Inr (Claim (MNode (n\<lparr>nodeId := i, edgeIds := map eId es\<rparr>) None) es None None [])"
proof -
  let ?en = "fst (buildEncNode L n es None)"
  have edges: "enEdges ?en = map (\<lambda>e. libEncEdge L (fst (buildEncEdge None e))) es"
    by (simp add: buildEncNode_def buildEncEdges_full comp_def split: prod.split)
  have "mapM (decodeEdgeRecord L) (enEdges ?en) = Inr es"
    unfolding edges mapM_Inr_iff using assms(3)
    by (auto simp: list_all2_conv_all_nth list_all_length intro: decodeEdgeRecord_encode)
  then show ?thesis
    using assms(2) decodeNode_build[OF assms(1), of es]
    by (simp add: decodeSerializedClaim_def nodeCodecAt_def)
qed

section \<open>What a budget lets through\<close>

definition flat :: "bytes option list \<Rightarrow> bytes" where
  "flat xs = concat (map wireBytes xs)"

lemma flat_simps [simp]: "flat [] = []" "flat (x # xs) = wireBytes x @ flat xs"
  "flat (xs @ ys) = flat xs @ flat ys"
  by (simp_all add: flat_def)

lemma takeSeq_full: "takeSeq None xs = (xs, None)"
  by (induction xs) (auto simp: takeContent_def)

lemma takeSeq_stopped:
  "cbStopped cb \<Longrightarrow> flat (fst (takeSeq (Some cb) xs)) = []"
proof (induction xs)
  case (Cons x xs)
  have "takeContent (Some cb) x = (fst (takeContent (Some cb) x), Some cb)"
    "wireBytes (fst (takeContent (Some cb) x)) = []"
    using Cons.prems by (auto simp: takeContent_def wireBytes_def split: option.splits)
  then show ?case using Cons by (cases "takeContent (Some cb) x") (auto split: prod.splits)
qed simp

text \<open>What arrives is a prefix of the claim's content sequence, at most the cap long.\<close>

lemma takeSeq_prefix:
  "\<not> cbStopped cb \<Longrightarrow> 0 \<le> cbLeft cb \<Longrightarrow>
     (\<exists>rest. flat xs = flat (fst (takeSeq (Some cb) xs)) @ rest) \<and>
     int (length (flat (fst (takeSeq (Some cb) xs)))) \<le> cbLeft cb"
proof (induction xs arbitrary: cb)
  case (Cons x xs)
  show ?case
  proof (cases "wireBytes x = []")
    case True
    then have "takeContent (Some cb) x = (x, Some cb)"
      by (auto simp: takeContent_def wireBytes_def split: option.splits)
    then show ?thesis using Cons True by (simp split: prod.split) (metis fst_conv)
  next
    case False
    then obtain bs where x: "x = Some bs" "bs \<noteq> []" by (auto simp: wireBytes_def split: option.splits)
    show ?thesis
    proof (cases "int (length bs) \<le> cbLeft cb")
      case True
      define cb' where "cb' = cb\<lparr>cbLeft := cbLeft cb - int (length bs)\<rparr>"
      have t: "takeContent (Some cb) x = (x, Some cb')"
        using True x Cons.prems by (simp add: takeContent_def cb'_def)
      have "\<not> cbStopped cb'" "0 \<le> cbLeft cb'" using Cons.prems True by (simp_all add: cb'_def)
      note IH = Cons.IH[OF this]
      obtain ys b' where ys: "takeSeq (Some cb') xs = (ys, b')" by fastforce
      have left: "cbLeft cb' = cbLeft cb - int (length bs)" by (simp add: cb'_def)
      show ?thesis
        using IH by (auto simp: x t[unfolded x] ys wireBytes_def left)
    next
      case False
      define y cb' where "y = fst (takeContent (Some cb) x)" and "cb' = the (snd (takeContent (Some cb) x))"
      have t: "takeContent (Some cb) x = (y, Some cb')" and s: "cbStopped cb'"
        and y: "\<exists>r. bs = wireBytes y @ r" "int (length (wireBytes y)) \<le> cbLeft cb"
        using False x Cons.prems
        by (auto simp: takeContent_def y_def cb'_def wireBytes_def split: if_splits
            intro: exI[of _ "drop (nat (cbLeft cb)) bs"])
      obtain ys b' where ys: "takeSeq (Some cb') xs = (ys, b')" by fastforce
      have "flat ys = []" using takeSeq_stopped[OF s, of xs] by (simp add: ys)
      then show ?thesis using y by (auto simp: x t[unfolded x] ys wireBytes_def)
    qed
  qed
qed simp

text \<open>The records an encode builds carry exactly the content the budget lets through.\<close>

lemma contentSlots_take:
  "contentSlots b c h sz = ((hh, cc, zz), b') \<Longrightarrow>
     cc = wireBytes (fst (takeContent b c)) \<and> b' = snd (takeContent b c)"
  by (auto simp: contentSlots_def takeContent_def wireBytes_def split: option.splits prod.splits if_splits)

lemma buildEncEdge_take:
  "buildEncEdge b e = (ee, b') \<Longrightarrow>
     eeContent ee = wireBytes (fst (takeContent b (eContent e))) \<and> b' = snd (takeContent b (eContent e))"
  by (auto simp: buildEncEdge_def dest: contentSlots_take split: prod.splits)

lemma buildEncEdges_take:
  "buildEncEdges b es = (ees, b') \<Longrightarrow>
     map eeContent ees = map wireBytes (fst (takeSeq b (map eContent es))) \<and>
     b' = snd (takeSeq b (map eContent es))"
proof (induction es arbitrary: b ees b')
  case (Cons e es)
  obtain ee b1 where 1: "buildEncEdge b e = (ee, b1)" by fastforce
  obtain ees' b2 where 2: "buildEncEdges b1 es = (ees', b2)" by fastforce
  have "ees = ee # ees'" "b' = b2" using Cons.prems by (auto simp: 1 2)
  then show ?case
    using buildEncEdge_take[OF 1] Cons.IH[OF 2] by (auto split: prod.split)
qed simp

lemma takeSeq_append:
  "takeSeq b (xs @ ys) =
     (let (us, b1) = takeSeq b xs; (vs, b2) = takeSeq b1 ys in (us @ vs, b2))"
  by (induction xs arbitrary: b) (auto split: prod.splits)

lemma buildEncNode_take:
  "concat (map eeContent (fst (buildEncEdges b es))) @ enContent (fst (buildEncNode L n es b)) =
     flat (fst (takeSeq b (map eContent es @ [content n])))"
proof -
  obtain ees b1 where 1: "buildEncEdges b es = (ees, b1)" by fastforce
  obtain h c z b2 where 2: "contentSlots b1 (content n) (contentHash n) (contentSize n) = ((h, c, z), b2)"
    by (metis prod.exhaust)
  obtain us b1' where 3: "takeSeq b (map eContent es) = (us, b1')" by fastforce
  have "map eeContent ees = map wireBytes us" "b1 = b1'"
    using buildEncEdges_take[OF 1] by (simp_all add: 3)
  moreover have "enContent (fst (buildEncNode L n es b)) = c"
    by (simp add: buildEncNode_def 1 2)
  moreover have "c = wireBytes (fst (takeContent b1 (content n)))"
    using contentSlots_take[OF 2] by simp
  ultimately show ?thesis
    by (simp add: 1 3 takeSeq_append flat_def split: prod.split)
qed

section \<open>Properties\<close>

text \<open>
  Property C8 (claim_codec_roundtrip): a claim encoded in full decodes to the same claim, node,
  fields, timestamp and edges included, given that the library decodes each record it encoded and
  that each edge's id is the hash of its record.
\<close>

theorem claim_codec_roundtrip:
  assumes "wireNode L n" "nodeCodecAt L n es"
    and "list_all (\<lambda>e. wireEdge L e \<and> sealedEdge L e \<and> edgeCodecAt L e) es"
  shows "decodeSerializedClaim L i (encodeNode L n es None) =
     Inr (plainClaim (n\<lparr>nodeId := i, edgeIds := map eId es\<rparr>) es)"
  using decode_encode[OF assms] by (simp add: plainClaim_def)

definition sampleEdge :: edge where
  "sampleEdge = zeroEdge\<lparr>eReference := ''hA'', eTypeClass := ''derivation'', eTypeSub := ''quote'',
     eFields := [(''name'', ''first'')], eId := ''hE''\<rparr>"

definition sampleNode :: node where
  "sampleNode = zeroNode\<lparr>typeClass := ''source'', typeSub := ''note'', encodingClass := ''text'',
     encodingSub := ''plain'', content := Some ''body'', contentSize := 4, height := 1,
     nFields := [(''name'', ''n1'')]\<rparr>"

definition sampleLib :: lib where
  "sampleLib =
     (let ee = fst (buildEncEdge None sampleEdge) in
        tableLib [(''N'', fst (buildEncNode (tableLib [] [(''E'', ee)]) sampleNode [sampleEdge] None))]
          [(''E'', ee)])"

lemma sample_ok:
  "wireNode sampleLib sampleNode" "nodeCodecAt sampleLib sampleNode [sampleEdge]"
  "wireEdge sampleLib sampleEdge" "sealedEdge sampleLib sampleEdge" "edgeCodecAt sampleLib sampleEdge"
proof -
  have y: "yearOf 0 = 1970" by code_simp
  have f: "undottedKeys [(''name'', ''first'')]" "undottedKeys [(''name'', ''n1'')]"
    by (simp_all add: undottedKeys_def)
  note d = sampleNode_def sampleEdge_def zeroNode_def zeroEdge_def sampleLib_def tableLib_def Let_def
  show "wireNode sampleLib sampleNode"
    by (simp add: wireNode_def y f nodeShape_def wireContent_def contentShape_def wfMap_def
        checkTimestampFields_ok timeFields_def d)
  show "wireEdge sampleLib sampleEdge"
    by (simp add: wireEdge_def f edgeShape_def wireContent_def contentShape_def wfMap_def
        checkTimestampFields_ok timeFields_def d)
  show "edgeCodecAt sampleLib sampleEdge"
    by (simp add: edgeCodecAt_def sampleLib_def tableLib_def Let_def)
  show "sealedEdge sampleLib sampleEdge"
    by (simp add: sealedEdge_def encodeEdge_full)
       (simp add: sampleLib_def tableLib_def Let_def hashContent_def idFromBytes_def sampleEdge_def)
  have "fst (buildEncNode sampleLib sampleNode [sampleEdge] None) =
      fst (buildEncNode (tableLib [] [(''E'', fst (buildEncEdge None sampleEdge))]) sampleNode [sampleEdge] None)"
    by (simp add: buildEncNode_def sampleLib_def tableLib_def Let_def split: prod.split)
  then show "nodeCodecAt sampleLib sampleNode [sampleEdge]"
    by (simp add: nodeCodecAt_def encodeNode_def) (simp add: sampleLib_def tableLib_def Let_def)
qed

theorem claim_codec_roundtrip_witness:
  "decodeSerializedClaim sampleLib ''hC'' (encodeNode sampleLib sampleNode [sampleEdge] None) =
     Inr (plainClaim (sampleNode\<lparr>nodeId := ''hC'', edgeIds := [''hE'']\<rparr>) [sampleEdge])"
  using claim_codec_roundtrip[of sampleLib sampleNode "[sampleEdge]" "''hC''"] sample_ok
  by (simp add: sampleEdge_def)

text \<open>
  Property C9 (decoded_claim_checked): a claim that decodes carries the id and the stored record it
  was decoded from, no overlay, content in at most one slot and never an empty one, timestamps and
  dates of the prescribed form, and edges under the hash of their stored records.
\<close>

theorem decoded_claim_checked:
  assumes "DecodeClaim L i b = Inr c"
  shows "ID c = i \<and> claimRaw c = Some b \<and> claimOverlay c = None \<and> overlay (claimNode c) = None \<and>
    nodeShape (own (claimNode c)) \<and> list_all edgeShape (claimEdges c) \<and>
    edgeIds (own (claimNode c)) = map eId (claimEdges c) \<and>
    (\<exists>p en. envelopePayload L b = Inr p \<and> libDecNode L p = Inr en \<and>
       list_all2 (\<lambda>raw e. hashContent L raw = Inr (eId e)) (enEdges en) (claimEdges c))"
proof -
  obtain p d where p: "envelopePayload L b = Inr p" "decodeSerializedClaim L i p = Inr d" "c = withRaw d b"
    using assms by (auto simp: DecodeClaim_def rbind_eq_Inr)
  then show ?thesis
    using decodeSerializedClaim_ok[OF p(2)] DecodeClaim_shape[OF assms]
    by (auto simp: withRaw_def)
qed

theorem decoded_claim_checked_witness:
  "\<exists>c. DecodeClaim sampleLib ''hC'' ''N'' = Inr c \<and> nodeShape (own (claimNode c)) \<and> claimEdges c = [sampleEdge]"
proof -
  have n: "encodeNode sampleLib sampleNode [sampleEdge] None = ''N''"
    by (simp add: encodeNode_def buildEncNode_def sampleLib_def tableLib_def Let_def split: prod.split)
  have "decodeSerializedClaim sampleLib ''hC'' ''N'' =
      Inr (plainClaim (sampleNode\<lparr>nodeId := ''hC'', edgeIds := [''hE'']\<rparr>) [sampleEdge])"
    using decode_encode[of sampleLib sampleNode "[sampleEdge]" "''hC''"] sample_ok
    by (simp add: n plainClaim_def) (simp add: sampleEdge_def)
  moreover have "envelopePayload sampleLib ''N'' = Inr ''N''"
    by (simp add: envelopePayload_def decodeEnvelope_def sampleLib_def tableLib_def sampleMsg_def Let_def)
  ultimately have D: "DecodeClaim sampleLib ''hC'' ''N'' =
      Inr (withRaw (plainClaim (sampleNode\<lparr>nodeId := ''hC'', edgeIds := [''hE'']\<rparr>) [sampleEdge]) ''N'')"
    by (simp add: DecodeClaim_def)
  have "claimEdges (withRaw (plainClaim (sampleNode\<lparr>nodeId := ''hC'', edgeIds := [''hE'']\<rparr>) [sampleEdge]) ''N'') = [sampleEdge]"
    by (simp add: withRaw_def plainClaim_def)
  then show ?thesis using D decoded_claim_checked[OF D] by blast
qed

text \<open>
  The content bytes of an encode under a cap, edges in order
  and then the node, are a prefix of the bytes an encode in full carries, and no longer than the
  cap; a query that states no content carries none.
\<close>

theorem content_budget_prefix:
  assumes "newContentBudget oc = Some cb" "\<not> (\<exists>c. oc = Some c \<and> ocMax c < 0)"
  shows "(\<exists>rest. flat (map eContent es @ [content n]) =
       (concat (map eeContent (fst (buildEncEdges (Some cb) es))) @
          enContent (fst (buildEncNode L n es (Some cb)))) @ rest) \<and>
    int (length (concat (map eeContent (fst (buildEncEdges (Some cb) es))) @
          enContent (fst (buildEncNode L n es (Some cb))))) \<le>
      (case oc of None \<Rightarrow> 0 | Some c \<Rightarrow> ocMax c)"
proof -
  have "\<not> cbStopped cb" "0 \<le> cbLeft cb" "cbLeft cb = (case oc of None \<Rightarrow> 0 | Some c \<Rightarrow> ocMax c)"
    using assms by (auto simp: newContentBudget_def split: option.splits if_splits)
  then show ?thesis
    unfolding buildEncNode_take using takeSeq_prefix[of cb "map eContent es @ [content n]"] by metis
qed

theorem content_budget_prefix_witness:
  "int (length (enContent (fst (buildEncNode sampleLib sampleNode [] (Some \<lparr>cbLeft = 2, cbCutoff = True, cbStopped = False\<rparr>))))) \<le> 2"
  using content_budget_prefix[of "Some \<lparr>ocMax = 2, ocOverflow = ''cutoff''\<rparr>"
      "\<lparr>cbLeft = 2, cbCutoff = True, cbStopped = False\<rparr>" "[]" sampleNode sampleLib]
  by (simp add: newContentBudget_def)

end
