(* ===== verification/GoPath.thy ===== *)
theory GoPath
  imports Prelude
begin

text \<open>
  \<open>path.Match\<close> of Go's standard library, which the program uses to match tag patterns and
  the type patterns of a query: \<open>*\<close> matches a run of bytes without a slash, \<open>?\<close> one
  character other than a slash, \<open>[...]\<close> a character class, and a backslash escapes. The
  program ignores the error of a malformed pattern, so a malformed pattern is one that does not
  match; the loops are Go's.
\<close>

definition byte :: "char \<Rightarrow> nat" where "byte c = of_char c"

definition cont :: "nat \<Rightarrow> bool" where "cont b = (128 \<le> b \<and> b < 192)"

text \<open>\<open>utf8.DecodeRuneInString\<close>: the code point and its width; invalid bytes are U+FFFD.\<close>

definition runeError :: nat where "runeError = 65533"

definition decodeRune :: "string \<Rightarrow> nat \<times> nat" where
  "decodeRune s =
     (case map byte (take 4 s) of
        [] \<Rightarrow> (runeError, 0)
      | b0 # r \<Rightarrow>
          if b0 < 128 then (b0, 1)
          else if 194 \<le> b0 \<and> b0 < 224 \<and> 1 \<le> length r \<and> cont (r ! 0)
          then ((b0 - 192) * 64 + (r ! 0 - 128), 2)
          else if 224 \<le> b0 \<and> b0 < 240 \<and> 2 \<le> length r \<and> cont (r ! 0) \<and> cont (r ! 1) \<and>
                  (b0 = 224 \<longrightarrow> 160 \<le> r ! 0) \<and> (b0 = 237 \<longrightarrow> r ! 0 < 160)
          then ((b0 - 224) * 4096 + (r ! 0 - 128) * 64 + (r ! 1 - 128), 3)
          else if 240 \<le> b0 \<and> b0 < 245 \<and> 3 \<le> length r \<and> cont (r ! 0) \<and> cont (r ! 1) \<and> cont (r ! 2) \<and>
                  (b0 = 240 \<longrightarrow> 144 \<le> r ! 0) \<and> (b0 = 244 \<longrightarrow> r ! 0 < 144)
          then ((b0 - 240) * 262144 + (r ! 0 - 128) * 4096 + (r ! 1 - 128) * 64 + (r ! 2 - 128), 4)
          else (runeError, 1))"

lemma decodeRune_pos: "s \<noteq> [] \<Longrightarrow> 0 < snd (decodeRune s)"
  by (cases s) (auto simp: decodeRune_def)

text \<open>\<open>scanChunk\<close>: the leading stars are dropped, then a chunk up to the next star.\<close>

fun scanBody :: "bool \<Rightarrow> string \<Rightarrow> string \<times> string" where
  "scanBody inrange [] = ([], [])"
| "scanBody inrange (c # cs) =
     (if c = CHR 0x5C then
        (case cs of [] \<Rightarrow> ([c], []) | d # ds \<Rightarrow> (let (a, b) = scanBody inrange ds in (c # d # a, b)))
      else if c = CHR ''*'' \<and> \<not> inrange then ([], c # cs)
      else
        let inr = (if c = CHR ''['' then True else if c = CHR '']'' then False else inrange);
            (a, b) = scanBody inr cs
        in (c # a, b))"

definition scanChunk :: "string \<Rightarrow> bool \<times> string \<times> string" where
  "scanChunk p =
     (let body = dropWhile (\<lambda>c. c = CHR ''*'') p; (chunk, rest) = scanBody False body
      in (body \<noteq> p, chunk, rest))"

definition getEsc :: "string \<Rightarrow> (nat \<times> string) option" where
  "getEsc chunk =
     (case chunk of [] \<Rightarrow> None
      | c # cs \<Rightarrow>
          if c = CHR ''-'' \<or> c = CHR '']'' then None
          else let chunk' = (if c = CHR 0x5C then cs else chunk) in
            if chunk' = [] then None
            else let (r, n) = decodeRune chunk' in
              if r = runeError \<and> n = 1 then None
              else if drop n chunk' = [] then None
              else Some (r, drop n chunk'))"

text \<open>The ranges of a character class, up to its closing bracket.\<close>

fun classRanges :: "nat \<Rightarrow> nat \<Rightarrow> nat \<Rightarrow> bool \<Rightarrow> string \<Rightarrow> (bool \<times> string) option" where
  "classRanges 0 r nrange m chunk = None"
| "classRanges (Suc fuel) r nrange m chunk =
     (if chunk \<noteq> [] \<and> hd chunk = CHR '']'' \<and> 0 < nrange then Some (m, tl chunk)
      else case getEsc chunk of None \<Rightarrow> None
        | Some (lo, chunk1) \<Rightarrow>
            (case (if hd chunk1 = CHR ''-'' then getEsc (tl chunk1) else Some (lo, chunk1)) of
               None \<Rightarrow> None
             | Some (hi, chunk2) \<Rightarrow>
                 classRanges fuel r (nrange + 1) (m \<or> (lo \<le> r \<and> r \<le> hi)) chunk2))"

text \<open>
  \<open>matchChunk\<close>. \<open>failed\<close> keeps scanning the chunk for its form without reading the
  name. Each step takes at least one byte of the chunk, so its length is enough fuel.
\<close>

fun matchChunk :: "nat \<Rightarrow> bool \<Rightarrow> string \<Rightarrow> string \<Rightarrow> (bool \<times> string) option" where
  "matchChunk fuel failed [] s = Some (\<not> failed, s)"
| "matchChunk 0 failed (c # cs) s = None"
| "matchChunk (Suc fuel) failed0 (c # cs) s =
     (let failed = (failed0 \<or> s = []) in
        if c = CHR ''['' then
          (let (r, n) = (if failed then (0, 0) else decodeRune s);
               s' = drop n s;
               negated = (cs \<noteq> [] \<and> hd cs = CHR ''^'');
               cs' = (if negated then tl cs else cs)
           in case classRanges (Suc (length cs')) r 0 False cs' of None \<Rightarrow> None
              | Some (m, rest) \<Rightarrow> matchChunk fuel (failed \<or> m = negated) rest s')
        else if c = CHR ''?'' then
          (if failed then matchChunk fuel failed cs s
           else matchChunk fuel (hd s = CHR ''/'') cs (drop (snd (decodeRune s)) s))
        else
          (let lit = (if c = CHR 0x5C then cs else c # cs) in
            if lit = [] then None
            else if failed then matchChunk fuel failed (tl lit) s
            else matchChunk fuel (hd lit \<noteq> hd s) (tl lit) (tl s)))"

definition runChunk :: "string \<Rightarrow> string \<Rightarrow> (bool \<times> string) option" where
  "runChunk chunk s = matchChunk (length chunk) False chunk s"

text \<open>The retry after a star: skip one more byte, never a slash.\<close>

fun starMatch :: "string \<Rightarrow> bool \<Rightarrow> string \<Rightarrow> (string option) option" where
  "starMatch chunk final [] = Some None"
| "starMatch chunk final (c # name) =
     (if c = CHR ''/'' then Some None
      else case runChunk chunk name of None \<Rightarrow> None
        | Some (ok, t) \<Rightarrow>
            if ok \<and> \<not> (final \<and> t \<noteq> []) then Some (Some t) else starMatch chunk final name)"

fun matchFrom :: "nat \<Rightarrow> string \<Rightarrow> string \<Rightarrow> bool" where
  "matchFrom fuel [] name = (name = [])"
| "matchFrom 0 (p # ps) name = False"
| "matchFrom (Suc fuel) (p # ps) name =
     (let (star, chunk, rest) = scanChunk (p # ps) in
        if star \<and> chunk = [] then CHR ''/'' \<notin> set name
        else case runChunk chunk name of None \<Rightarrow> False
          | Some (ok, t) \<Rightarrow>
              if ok \<and> (t = [] \<or> rest \<noteq> []) then matchFrom fuel rest t
              else if star then
                (case starMatch chunk (rest = []) name of
                   Some (Some t') \<Rightarrow> matchFrom fuel rest t'
                 | _ \<Rightarrow> False)
              else False)"

definition pathMatch :: "string \<Rightarrow> string \<Rightarrow> bool" where
  "pathMatch pattern name = matchFrom (length pattern) pattern name"

text \<open>A pattern without metacharacters matches itself and nothing else.\<close>

definition plainChar :: "char \<Rightarrow> bool" where
  "plainChar c = (c \<notin> {CHR ''*'', CHR ''?'', CHR ''['', CHR 0x5C})"

lemma scanBody_plain: "\<forall>c \<in> set p. plainChar c \<Longrightarrow> scanBody i p = (p, [])"
  by (induction p arbitrary: i) (auto simp: plainChar_def)

lemma matchChunk_failed_plain:
  "\<forall>c \<in> set p. plainChar c \<Longrightarrow> length p \<le> n \<Longrightarrow> matchChunk n True p s = Some (False, s)"
proof (induction p arbitrary: n)
  case (Cons c p)
  then show ?case by (cases n) (auto simp: plainChar_def)
qed simp

lemma matchChunk_plain:
  "\<forall>c \<in> set p. plainChar c \<Longrightarrow> length p \<le> n \<Longrightarrow>
     \<exists>b t. matchChunk n False p s = Some (b, t) \<and> (b \<and> t = [] \<longleftrightarrow> p = s)"
proof (induction p arbitrary: n s)
  case (Cons c p)
  then obtain m where n: "n = Suc m" by (cases n) auto
  have c: "plainChar c" and p: "\<forall>c \<in> set p. plainChar c" "length p \<le> m"
    using Cons.prems by (auto simp: n)
  show ?case
  proof (cases s)
    case Nil
    then show ?thesis using c matchChunk_failed_plain[OF p] by (auto simp: n plainChar_def)
  next
    case (Cons d s')
    then show ?thesis
      using c matchChunk_failed_plain[OF p] Cons.IH[OF p, of s']
      by (cases "c = d") (auto simp: n plainChar_def)
  qed
qed auto

lemma pathMatch_plain:
  assumes "\<forall>c \<in> set p. plainChar c"
  shows "pathMatch p s \<longleftrightarrow> p = s"
proof (cases p)
  case Nil
  then show ?thesis by (auto simp: pathMatch_def)
next
  case (Cons c p')
  then have "dropWhile (\<lambda>c. c = CHR ''*'') p = p"
    using assms by (simp add: plainChar_def)
  then have sc: "scanChunk p = (False, p, [])"
    using assms by (simp add: scanChunk_def scanBody_plain)
  obtain b t where bt: "runChunk p s = Some (b, t)" "b \<and> t = [] \<longleftrightarrow> p = s"
    using matchChunk_plain[OF assms, of "length p" s] by (auto simp: runChunk_def)
  have "matchFrom (Suc (length p')) p s = (b \<and> t = [])"
    unfolding Cons matchFrom.simps using sc bt(1) by (simp add: Cons)
  then show ?thesis using bt(2) by (simp add: pathMatch_def Cons)
qed

end
