(* ===== verification/Store.thy ===== *)
theory Store
  imports Codec GoPath
begin

text \<open>
  The storage interface and its reference implementation: \<open>universe.go\<close> (the bulk reads,
  their single-item forms, storage tiers), the materialising read of
  \<open>universe_default.go\<close>, and \<open>universe_memory.go\<close>, whose state is one record of
  maps.

  A map key in the code is \<open>id.String()\<close>; here it is the id itself. An operation that
  writes returns the state it leaves next to its result, since a bulk write that fails has
  already stored what came before.
\<close>

section \<open>Capabilities and tiers\<close>

datatype storageTier = TierAuthoritative | TierEager | TierBackground | TierLazy | TierOther string

record capabilities =
  capOverwrite :: bool
  capDelete :: bool
  capEnumerate :: bool
  capPersistent :: bool
  capReverseWalk :: bool
  capRawClaims :: bool
  capExternalContent :: bool
  capContentCap :: u64
  capTags :: bool
  capBookmarks :: bool
  capTier :: storageTier

fun AllowsTier :: "capabilities \<Rightarrow> storageTier \<Rightarrow> bool" where
  "AllowsTier c TierAuthoritative = (capRawClaims c \<and> capExternalContent c)"
| "AllowsTier c TierEager = True"
| "AllowsTier c TierBackground = True"
| "AllowsTier c TierLazy = True"
| "AllowsTier c (TierOther _) = False"

section \<open>What a reader sees of a Universe\<close>

text \<open>
  The read half of the interface. The first argument of \<open>uGetClaims\<close> is
  \<open>WithNotDiffMaterialized\<close>. \<open>uStored\<close> is a ghost: the ids the store holds.
\<close>

record contentRef =
  refHash :: "ident option"
  refSize :: u64

record uni =
  uStored :: "ident list"
  uGetClaims :: "bool \<Rightarrow> ident list \<Rightarrow> claim list result"
  uGetClaimsRaw :: "ident list \<Rightarrow> bytes list result"
  uHasClaims :: "ident list \<Rightarrow> bool list result"
  uGetClaimHeights :: "ident list \<Rightarrow> u64 list result"
  uGetContents :: "contentRef list \<Rightarrow> bytes list result"
  uHasContents :: "ident option list \<Rightarrow> bool list result"
  uStreamContent :: "ident option \<Rightarrow> u64 \<Rightarrow> bytes result"
  uGetClaimTags :: "ident list \<Rightarrow> gomap list result"

text \<open>The single-item forms. Indexing an empty answer panics.\<close>

definition first :: "'a list \<Rightarrow> 'a result" where
  "first xs = (case xs of [] \<Rightarrow> Inl (LibErr ''index out of range'') | x # _ \<Rightarrow> Inr x)"

lemma first_simps [simp]: "first [] = Inl (LibErr ''index out of range'')" "first (x # xs) = Inr x"
  by (simp_all add: first_def)

definition GetClaim :: "uni \<Rightarrow> bool \<Rightarrow> ident \<Rightarrow> claim result" where
  "GetClaim u delta i = rbind (uGetClaims u delta [i]) first"

definition HasClaim :: "uni \<Rightarrow> ident \<Rightarrow> bool result" where
  "HasClaim u i = rbind (uHasClaims u [i]) first"

definition GetClaimHeight :: "uni \<Rightarrow> ident \<Rightarrow> u64 result" where
  "GetClaimHeight u i = rbind (uGetClaimHeights u [i]) first"

definition HasContent :: "uni \<Rightarrow> ident option \<Rightarrow> bool result" where
  "HasContent u h = rbind (uHasContents u [h]) first"

definition GetTag :: "uni \<Rightarrow> ident \<Rightarrow> string \<Rightarrow> (bool \<times> string) result" where
  "GetTag u i tag =
     rbind (uGetClaimTags u [i]) (\<lambda>tags. rbind (first tags) (\<lambda>t. Inr (has t tag, getz t tag)))"

text \<open>Reading content: inline from the record, external from the Universe, dropped bytes re-read.\<close>

definition claimInlineReader :: "lib \<Rightarrow> uni \<Rightarrow> ident \<Rightarrow> bytes result" where
  "claimInlineReader L u i =
     rbind (uGetClaimsRaw u [i]) (\<lambda>raws.
     rbind (first raws) (\<lambda>raw.
     rbind (DecodeClaim L i raw) (\<lambda>c.
     rbind (nodeInlineContent (claimNode c)) (\<lambda>b. Inr (wireBytes b)))))"

definition nodeGetContent :: "lib \<Rightarrow> uni option \<Rightarrow> mnode \<Rightarrow> bytes result" where
  "nodeGetContent L u n =
     (let cs = contentSource n in
        case nodeContentKind n of
          ContentExternal \<Rightarrow>
            (case u of None \<Rightarrow> Inl (FormErr errNoUniverseForContent)
             | Some v \<Rightarrow> uStreamContent v (contentHash cs) (contentSize cs))
        | ContentInline \<Rightarrow>
            (case content cs of
               Some bs \<Rightarrow> Inr bs
             | None \<Rightarrow>
                 (case u of None \<Rightarrow> Inl (FormErr errNoUniverseForContent)
                  | Some v \<Rightarrow> claimInlineReader L v (nodeId cs)))
        | ContentNone \<Rightarrow> Inr [])"

definition edgeGetContent :: "uni option \<Rightarrow> edge \<Rightarrow> bytes result" where
  "edgeGetContent u e =
     (case eContent e of
        Some bs \<Rightarrow> Inr bs
      | None \<Rightarrow>
          if eContentHash e = None then Inr []
          else case u of None \<Rightarrow> Inl (FormErr errNoUniverseForContent)
            | Some v \<Rightarrow> uStreamContent v (eContentHash e) (eContentSize e))"

section \<open>Materialisation (\<open>DefaultMaterialize\<close>)\<close>

definition isDiffEdge :: "edge \<Rightarrow> bool" where
  "isDiffEdge e = (eTypeClass e = ''contribution'' \<and> eTypeSub e = ''diff'')"

text \<open>
  \<open>materializeOne\<close>. Each level loads one predecessor through \<open>GetClaim\<close>, which
  materialises it in turn; a chain of diffs that closes on itself recurses without end in the
  code, so that the depth is bounded here and running out of it is an error of its own. The
  bound a store uses is the number of claims it holds.
\<close>

definition errDiverges :: err where "errDiverges = LibErr ''stack overflow''"

fun materializeOne :: "nat \<Rightarrow> (ident \<Rightarrow> claim result) \<Rightarrow> claim \<Rightarrow> claim result" where
  "materializeOne depth load c =
     (if claimOverlay c \<noteq> None then Inr c
      else case find isDiffEdge (claimEdges c) of
          None \<Rightarrow> Inr c
        | Some diff \<Rightarrow>
            (case depth of
               0 \<Rightarrow> Inl errDiverges
             | Suc d \<Rightarrow>
                 rbind (load (eReference diff)) (\<lambda>p.
                 rbind (materializeOne d load p) (\<lambda>p'. Inr (overlayOn c p')))))"

declare materializeOne.simps [simp del]

definition DefaultMaterialize ::
    "nat \<Rightarrow> (ident \<Rightarrow> claim result) \<Rightarrow> bool \<Rightarrow> claim list \<Rightarrow> claim list result" where
  "DefaultMaterialize depth load delta claims =
     (if delta then Inr claims else mapM (materializeOne depth load) claims)"

definition DefaultGetClaimHeights :: "(bool \<Rightarrow> ident list \<Rightarrow> claim list result) \<Rightarrow> ident list \<Rightarrow> u64 list result" where
  "DefaultGetClaimHeights getClaims ids =
     rbind (getClaims True ids) (\<lambda>cs. Inr (map claimHeight cs))"

section \<open>The memory Universe\<close>

record memoryUniverse =
  mClaims :: "(ident \<times> bytes) list"
  mContent :: "(ident \<times> bytes) list"
  mTags :: "(ident \<times> gomap) list"
  mMarks :: "(ident \<times> bytes) list"

definition NewMemoryUniverse :: memoryUniverse where
  "NewMemoryUniverse = \<lparr>mClaims = [], mContent = [], mTags = [], mMarks = []\<rparr>"

definition getm :: "(ident \<times> gomap) list \<Rightarrow> ident \<Rightarrow> gomap" where
  "getm m k = (case map_of m k of None \<Rightarrow> [] | Some v \<Rightarrow> v)"

definition withTags :: "claim \<Rightarrow> gomap \<Rightarrow> claim" where
  "withTags c t = Claim (claimNode c) (claimEdges c) (claimRaw c) (claimOverlay c) t"

text \<open>One stored record, decoded, with its tags injected.\<close>

definition memLoad :: "lib \<Rightarrow> memoryUniverse \<Rightarrow> ident \<Rightarrow> claim result" where
  "memLoad L m i =
     (if i = [] then Inl (KeyErr errNilID)
      else case map_of (mClaims m) i of
          None \<Rightarrow> Inl (StoreErr ErrNotFound)
        | Some b \<Rightarrow>
            rbind (DecodeClaim L i b) (\<lambda>c.
              Inr (if getm (mTags m) i \<noteq> [] then withTags c (getm (mTags m) i) else c)))"

definition memGetClaims :: "lib \<Rightarrow> memoryUniverse \<Rightarrow> bool \<Rightarrow> ident list \<Rightarrow> claim list result" where
  "memGetClaims L m delta ids =
     rbind (mapM (memLoad L m) ids) (\<lambda>out.
       DefaultMaterialize (length (mClaims m)) (memLoad L m) delta out)"

definition memHasClaims :: "memoryUniverse \<Rightarrow> ident list \<Rightarrow> bool list result" where
  "memHasClaims m ids = Inr (map (\<lambda>i. i \<noteq> [] \<and> has (mClaims m) i) ids)"

definition memGetClaimsRaw :: "memoryUniverse \<Rightarrow> ident list \<Rightarrow> bytes list result" where
  "memGetClaimsRaw m ids =
     mapM (\<lambda>i. if i = [] then Inl (KeyErr errNilID)
               else case map_of (mClaims m) i of None \<Rightarrow> Inl (StoreErr ErrNotFound) | Some b \<Rightarrow> Inr b) ids"

definition memGetContents :: "memoryUniverse \<Rightarrow> contentRef list \<Rightarrow> bytes list result" where
  "memGetContents m refs =
     mapM (\<lambda>r. case refHash r of None \<Rightarrow> Inl (BuildErr errNilHash)
               | Some h \<Rightarrow> (case map_of (mContent m) h of
                     None \<Rightarrow> Inl (StoreErr ErrNotFound) | Some b \<Rightarrow> Inr b)) refs"

definition memHasContents :: "memoryUniverse \<Rightarrow> ident option list \<Rightarrow> bool list result" where
  "memHasContents m hs =
     Inr (map (\<lambda>h. case h of None \<Rightarrow> False | Some k \<Rightarrow> has (mContent m) k) hs)"

definition memStreamContent :: "memoryUniverse \<Rightarrow> ident option \<Rightarrow> u64 \<Rightarrow> bytes result" where
  "memStreamContent m h sz =
     rbind (memGetContents m [\<lparr>refHash = h, refSize = sz\<rparr>]) first"

definition memGetClaimTags :: "memoryUniverse \<Rightarrow> ident list \<Rightarrow> gomap list result" where
  "memGetClaimTags m ids =
     mapM (\<lambda>i. if i = [] then Inl (KeyErr errNilID) else Inr (getm (mTags m) i)) ids"

definition memUni :: "lib \<Rightarrow> memoryUniverse \<Rightarrow> uni" where
  "memUni L m =
     \<lparr>uStored = filter (\<lambda>i. i \<noteq> []) (keys (mClaims m)),
      uGetClaims = memGetClaims L m,
      uGetClaimsRaw = memGetClaimsRaw m,
      uHasClaims = memHasClaims m,
      uGetClaimHeights = DefaultGetClaimHeights (memGetClaims L m),
      uGetContents = memGetContents m,
      uHasContents = memHasContents m,
      uStreamContent = memStreamContent m,
      uGetClaimTags = memGetClaimTags m\<rparr>"

section \<open>Writes\<close>

text \<open>A nil claim is \<open>None\<close>. What precedes the failing item stays stored.\<close>

fun memPutClaims :: "memoryUniverse \<Rightarrow> claim option list \<Rightarrow> memoryUniverse \<times> unit result" where
  "memPutClaims m [] = (m, Inr ())"
| "memPutClaims m (None # cs) = (m, Inl (BuildErr errNilClaim))"
| "memPutClaims m (Some c # cs) =
     (if ID c = [] then (m, Inl (BuildErr errNilClaim))
      else case Envelope c of
          Inl e \<Rightarrow> (m, Inl e)
        | Inr b \<Rightarrow> memPutClaims (m\<lparr>mClaims := AList.update (ID c) b (mClaims m)\<rparr>) cs)"

fun memDeleteClaims :: "memoryUniverse \<Rightarrow> ident list \<Rightarrow> memoryUniverse \<times> unit result" where
  "memDeleteClaims m [] = (m, Inr ())"
| "memDeleteClaims m (i # ids) =
     (if i = [] then (m, Inl (KeyErr errNilID))
      else memDeleteClaims (m\<lparr>mClaims := AList.delete i (mClaims m),
                              mTags := AList.delete i (mTags m)\<rparr>) ids)"

fun memDeleteContents :: "memoryUniverse \<Rightarrow> ident option list \<Rightarrow> memoryUniverse \<times> unit result" where
  "memDeleteContents m [] = (m, Inr ())"
| "memDeleteContents m (None # hs) = (m, Inl (KeyErr errNilID))"
| "memDeleteContents m (Some h # hs) =
     memDeleteContents (m\<lparr>mContent := AList.delete h (mContent m)\<rparr>) hs"

fun memPutContents :: "memoryUniverse \<Rightarrow> (ident option \<times> bytes) list \<Rightarrow> memoryUniverse \<times> unit result" where
  "memPutContents m [] = (m, Inr ())"
| "memPutContents m ((None, b) # bs) = (m, Inl (BuildErr errNilHash))"
| "memPutContents m ((Some h, b) # bs) =
     memPutContents (m\<lparr>mContent := AList.update h b (mContent m)\<rparr>) bs"

text \<open>
  \<open>SetClaimsTags\<close>: per claim, drop the keys a clear pattern matches, then apply the pairs.
  A malformed pattern matches nothing.
\<close>

definition clearMatching :: "string list \<Rightarrow> gomap \<Rightarrow> gomap" where
  "clearMatching pats m = fold (\<lambda>pat. filter (\<lambda>(k, v). \<not> pathMatch pat k)) pats m"

fun memSetClaimsTags :: "memoryUniverse \<Rightarrow> string list \<Rightarrow> (ident \<times> gomap) list \<Rightarrow> memoryUniverse" where
  "memSetClaimsTags m clear [] = m"
| "memSetClaimsTags m clear ((i, kv) # tags) =
     memSetClaimsTags
       (m\<lparr>mTags := AList.update i (putAll kv (clearMatching clear (getm (mTags m) i))) (mTags m)\<rparr>)
       clear tags"

text \<open>\<open>SetTag\<close>: the claim's whole tag overlay, pushed to the store.\<close>

definition SetTag :: "memoryUniverse \<Rightarrow> claim \<Rightarrow> memoryUniverse" where
  "SetTag m c = memSetClaimsTags m [] [(ID c, claimTags c)]"

definition memCapabilities :: capabilities where
  "memCapabilities =
     \<lparr>capOverwrite = True, capDelete = True, capEnumerate = True, capPersistent = False,
      capReverseWalk = False, capRawClaims = True, capExternalContent = True, capContentCap = 0,
      capTags = True, capBookmarks = True, capTier = TierAuthoritative\<rparr>"

section \<open>The bookmark store of the memory Universe (\<open>bookmark_store.go\<close>)\<close>

definition marksGet :: "memoryUniverse \<Rightarrow> ident \<Rightarrow> bytes result" where
  "marksGet m k =
     (if k = [] then Inl (BookErr errBookmarkNilSlot)
      else case map_of (mMarks m) k of None \<Rightarrow> Inl (StoreErr ErrNotFound) | Some r \<Rightarrow> Inr r)"

definition marksPut :: "memoryUniverse \<Rightarrow> ident \<Rightarrow> bytes \<Rightarrow> memoryUniverse \<times> unit result" where
  "marksPut m k r =
     (if k = [] then (m, Inl (BookErr errBookmarkNilSlot))
      else (m\<lparr>mMarks := AList.update k r (mMarks m)\<rparr>, Inr ()))"

definition unsupportedGet :: "ident \<Rightarrow> bytes result" where
  "unsupportedGet k = Inl (StoreErr ErrUnsupported)"

definition unsupportedPut :: "ident \<Rightarrow> bytes \<Rightarrow> unit result" where
  "unsupportedPut k r = Inl (StoreErr ErrUnsupported)"

section \<open>The contract of a reader\<close>

text \<open>Two reads of one record, whatever overlay each carries.\<close>

definition sameRecord :: "claim \<Rightarrow> claim \<Rightarrow> bool" where
  "sameRecord c d =
     (own (claimNode c) = own (claimNode d) \<and> claimEdges c = claimEdges d \<and>
      claimRaw c = claimRaw d \<and> claimTags c = claimTags d)"

lemma sameRecord_refl [simp]: "sameRecord c c"
  by (simp add: sameRecord_def)

lemma sameRecord_overlayOn [simp]: "sameRecord (overlayOn c p) c"
  by (simp add: sameRecord_def)

lemma sameRecord_reads:
  "sameRecord c d \<Longrightarrow> ID c = ID d \<and> claimHeight c = claimHeight d \<and>
     claimCreatedAt c = claimCreatedAt d \<and> claimType c = claimType d"
  by (simp add: sameRecord_def ID_def claimHeight_def claimCreatedAt_def claimType_def)

text \<open>
  What a client of a Universe relies on: a bulk read is the positional product of single
  reads, a claim comes back under the id it was asked for and only when the store holds it, a
  delta read carries no overlay, and a materialised read is the same record.
\<close>

locale universe =
  fixes u :: uni
  assumes get_bulk: "uGetClaims u d ids = Inr cs \<longleftrightarrow> list_all2 (\<lambda>i c. GetClaim u d i = Inr c) ids cs"
    and get_id: "GetClaim u d i = Inr c \<Longrightarrow> ID c = i \<and> i \<noteq> [] \<and> i \<in> set (uStored u)"
    and get_delta: "GetClaim u True i = Inr c \<Longrightarrow> claimOverlay c = None \<and> overlay (claimNode c) = None"
    and get_same: "GetClaim u False i = Inr c \<Longrightarrow> \<exists>d. GetClaim u True i = Inr d \<and> sameRecord c d"
    and has_bulk: "uHasClaims u ids = Inr bs \<Longrightarrow> bs = map (\<lambda>i. i \<in> set (uStored u)) ids"
    and heights_bulk: "uGetClaimHeights u ids = Inr hs \<Longrightarrow>
      list_all2 (\<lambda>i h. \<exists>c. GetClaim u True i = Inr c \<and> h = claimHeight c) ids hs"

text \<open>A store of records verbatim: what a claim decoded from is what the store holds.\<close>

locale byte_store = universe +
  assumes get_raw: "GetClaim u True i = Inr c \<Longrightarrow>
      \<exists>b. claimRaw c = Some b \<and> uGetClaimsRaw u [i] = Inr [b]"

context universe
begin

lemma get_held: "GetClaim u d i = Inr c \<Longrightarrow> i \<in> set (uStored u)"
  using get_id by blast

lemma HasClaim_iff: "HasClaim u i = Inr b \<Longrightarrow> b \<longleftrightarrow> i \<in> set (uStored u)"
  by (auto simp: HasClaim_def rbind_eq_Inr dest: has_bulk)

lemma GetClaimHeight_is: "GetClaimHeight u i = Inr h \<Longrightarrow> \<exists>c. GetClaim u True i = Inr c \<and> h = claimHeight c"
  by (auto simp: GetClaimHeight_def rbind_eq_Inr dest!: heights_bulk simp: list_all2_Cons1)

text \<open>Both forms of a read agree on everything a record says of itself.\<close>

lemma forms_agree:
  assumes "GetClaim u d i = Inr c" "GetClaim u d' i = Inr c'"
  shows "sameRecord c c'"
proof -
  have "\<exists>e. GetClaim u True i = Inr e \<and> sameRecord x e" if "GetClaim u f i = Inr x" for f x
    using that get_same by (cases f) auto
  from this[OF assms(1)] this[OF assms(2)] show ?thesis by (auto simp: sameRecord_def)
qed

lemma get_bulk_ids: "uGetClaims u d ids = Inr cs \<Longrightarrow> map ID cs = ids"
  by (auto simp: get_bulk list_all2_conv_all_nth dest!: get_id intro: nth_equalityI)
     (metis get_id nth_equalityI length_map nth_map)

end

section \<open>The memory Universe keeps the contract\<close>

lemma materializeOne_same: "materializeOne n load c = Inr c' \<Longrightarrow> sameRecord c' c"
  by (cases n) (auto simp: materializeOne.simps[of _ _ c] rbind_eq_Inr split: option.splits if_splits)

lemma withTags_simps [simp]:
  "ID (withTags c t) = ID c" "claimOverlay (withTags c t) = claimOverlay c"
  "claimNode (withTags c t) = claimNode c" "claimRaw (withTags c t) = claimRaw c"
  "claimEdges (withTags c t) = claimEdges c" "claimTags (withTags c t) = t"
  by (simp_all add: withTags_def ID_def)

lemma memLoad_ok:
  assumes "memLoad L m i = Inr c"
  shows "i \<noteq> []" "ID c = i" "claimOverlay c = None" "overlay (claimNode c) = None"
    "\<exists>b. map_of (mClaims m) i = Some b \<and> claimRaw c = Some b"
  using assms
  by (auto simp: memLoad_def rbind_eq_Inr dest: DecodeClaim_shape split: if_splits option.splits)

text \<open>Two bulk passes that both succeed are one pass of the composed step.\<close>

lemma mapM_mapM_iff:
  "rbind (mapM f xs) (mapM g) = Inr zs \<longleftrightarrow>
     list_all2 (\<lambda>x z. rbind (f x) g = Inr z) xs zs"
  by (induction xs arbitrary: zs) (auto simp: rbind_eq_Inr list_all2_Cons1 mapM_Inr_iff, blast+)

definition memRead :: "lib \<Rightarrow> memoryUniverse \<Rightarrow> bool \<Rightarrow> ident \<Rightarrow> claim result" where
  "memRead L m delta i =
     rbind (memLoad L m i)
       (\<lambda>d. if delta then Inr d else materializeOne (length (mClaims m)) (memLoad L m) d)"

lemma memGetClaims_iff:
  "memGetClaims L m delta ids = Inr cs \<longleftrightarrow> list_all2 (\<lambda>i c. memRead L m delta i = Inr c) ids cs"
proof (cases delta)
  case True
  have "rbind (f :: claim result) Inr = f" for f by (cases f) auto
  then show ?thesis using True
    by (auto simp: memGetClaims_def DefaultMaterialize_def rbind_eq_Inr mapM_Inr_iff memRead_def)
next
  case False
  then show ?thesis
    by (simp add: memGetClaims_def DefaultMaterialize_def mapM_mapM_iff memRead_def)
qed

lemma GetClaim_memUni: "GetClaim (memUni L m) delta i = Inr c \<longleftrightarrow> memRead L m delta i = Inr c"
  by (auto simp: GetClaim_def memUni_def rbind_eq_Inr memGetClaims_iff list_all2_Cons1)

lemma memRead_ok:
  assumes "memRead L m delta i = Inr c"
  obtains d where "memLoad L m i = Inr d" "sameRecord c d" "delta \<Longrightarrow> c = d"
  using assms by (auto simp: memRead_def rbind_eq_Inr dest: materializeOne_same split: if_splits)

lemma memRead_delta [simp]: "memRead L m True i = memLoad L m i"
  by (cases "memLoad L m i") (auto simp: memRead_def)

interpretation mem: byte_store "memUni L m" for L m
proof (unfold_locales, goal_cases)
  case (1 d ids cs)
  then show ?case by (simp add: GetClaim_memUni) (simp add: memUni_def memGetClaims_iff)
next
  case (2 d i c)
  then obtain x where x: "memLoad L m i = Inr x" "sameRecord c x"
    by (auto simp: GetClaim_memUni elim: memRead_ok)
  have "i \<in> set (keys (mClaims m))" using memLoad_ok(5)[OF x(1)] by (auto simp: set_keys)
  then show ?case
    using memLoad_ok(1,2)[OF x(1)] sameRecord_reads[OF x(2)] by (simp add: memUni_def)
next
  case (3 i c)
  then show ?case by (auto simp: GetClaim_memUni dest: memLoad_ok)
next
  case (4 i c)
  then show ?case by (auto simp: GetClaim_memUni elim: memRead_ok)
next
  case (5 ids bs)
  then show ?case by (auto simp: memUni_def memHasClaims_def has_iff_keys)
next
  case (6 ids hs)
  then have "rbind (memGetClaims L m True ids) (\<lambda>cs. Inr (map claimHeight cs)) = Inr hs"
    by (simp add: memUni_def DefaultGetClaimHeights_def)
  then show ?case
    by (auto simp: GetClaim_memUni rbind_eq_Inr memGetClaims_iff list_all2_conv_all_nth)
next
  case (7 i c)
  then have c: "memLoad L m i = Inr c" by (simp add: GetClaim_memUni)
  obtain b where "map_of (mClaims m) i = Some b" "claimRaw c = Some b" "i \<noteq> []"
    using memLoad_ok[OF c] by auto
  then show ?case by (auto simp: memUni_def memGetClaimsRaw_def)
qed

section \<open>What a write leaves\<close>

text \<open>
  The abstract store: a partial map from ids to records. A bulk write that succeeds is one map
  update, the last record of an id winning; one that fails has done the same for the prefix it
  stored.
\<close>

definition records :: "memoryUniverse \<Rightarrow> ident \<rightharpoonup> bytes" where
  "records m = map_of (mClaims m)"

definition recordPair :: "claim option \<Rightarrow> (ident \<times> bytes) option" where
  "recordPair c =
     (case c of None \<Rightarrow> None
      | Some d \<Rightarrow> if ID d = [] then None else map_option (Pair (ID d)) (claimRaw d))"

definition stored :: "claim option list \<Rightarrow> (ident \<times> bytes) list" where
  "stored cs = map the (takeWhile (\<lambda>p. p \<noteq> None) (map recordPair cs))"

lemma stored_simps [simp]:
  "stored [] = []"
  "recordPair c = None \<Longrightarrow> stored (c # cs) = []"
  "recordPair c = Some p \<Longrightarrow> stored (c # cs) = p # stored cs"
  by (simp_all add: stored_def)

lemma memPutClaims_Cons:
  "memPutClaims m (c # cs) =
     (case recordPair c of
        Some (k, b) \<Rightarrow> memPutClaims (m\<lparr>mClaims := AList.update k b (mClaims m)\<rparr>) cs
      | None \<Rightarrow> (m, snd (memPutClaims m [c])))"
  by (cases c) (auto simp: recordPair_def Envelope_def split: option.splits)

lemma memPutClaims_fail: "recordPair c = None \<Longrightarrow> \<exists>e. memPutClaims m (c # cs) = (m, Inl e)"
  by (cases c) (auto simp: recordPair_def Envelope_def split: option.splits if_splits)

lemma memPutClaims_records:
  "records (fst (memPutClaims m cs)) = records m ++ map_of (rev (stored cs))"
proof (induction cs arbitrary: m)
  case (Cons c cs)
  show ?case
  proof (cases "recordPair c")
    case None
    then show ?thesis using memPutClaims_fail[OF None, of m cs] by auto
  next
    case (Some p)
    obtain k b where "p = (k, b)" by fastforce
    then show ?thesis
      using Some Cons by (simp add: memPutClaims_Cons records_def update_conv' map_add_def fun_eq_iff split: option.split)
  qed
qed (simp add: records_def)

lemma memPutClaims_ok: "snd (memPutClaims m cs) = Inr () \<longleftrightarrow> (\<forall>c \<in> set cs. recordPair c \<noteq> None)"
proof (induction cs arbitrary: m)
  case (Cons c cs)
  show ?case
  proof (cases "recordPair c")
    case None
    then show ?thesis using memPutClaims_fail[OF None, of m cs] by auto
  next
    case (Some p)
    then show ?thesis using Cons by (cases p) (simp add: memPutClaims_Cons)
  qed
qed simp

lemma memPutClaims_frame:
  "mTags (fst (memPutClaims m cs)) = mTags m \<and> mContent (fst (memPutClaims m cs)) = mContent m \<and>
   mMarks (fst (memPutClaims m cs)) = mMarks m"
  by (induction m cs rule: memPutClaims.induct) (auto split: sum.split)

text \<open>A stored key names a claim's id, never the nil id.\<close>

definition memOk :: "memoryUniverse \<Rightarrow> bool" where
  "memOk m =
     (wfMap (mClaims m) \<and> wfMap (mContent m) \<and> wfMap (mTags m) \<and> wfMap (mMarks m) \<and>
      [] \<notin> set (keys (mClaims m)) \<and> [] \<notin> set (keys (mMarks m)))"

lemma wfMap_update [simp]: "wfMap m \<Longrightarrow> wfMap (AList.update k v m)"
  by (simp add: wfMap_def distinct_keys_update)

lemma wfMap_delete [simp]: "wfMap m \<Longrightarrow> wfMap (AList.delete k m)"
  by (simp add: wfMap_def keys_def distinct_delete)

lemma memOk_New: "memOk NewMemoryUniverse"
  by (simp add: memOk_def NewMemoryUniverse_def)

lemma memOk_PutClaims: "memOk m \<Longrightarrow> memOk (fst (memPutClaims m cs))"
  by (induction m cs rule: memPutClaims.induct) (auto simp: memOk_def split: sum.split)

lemma memOk_DeleteClaims: "memOk m \<Longrightarrow> memOk (fst (memDeleteClaims m ids))"
  by (induction m ids rule: memDeleteClaims.induct) (auto simp: memOk_def)

lemma memOk_PutContents: "memOk m \<Longrightarrow> memOk (fst (memPutContents m bs))"
  by (induction m bs rule: memPutContents.induct) (auto simp: memOk_def)

lemma memOk_DeleteContents: "memOk m \<Longrightarrow> memOk (fst (memDeleteContents m hs))"
  by (induction m hs rule: memDeleteContents.induct) (auto simp: memOk_def)

lemma memOk_SetClaimsTags: "memOk m \<Longrightarrow> memOk (memSetClaimsTags m clear ts)"
  by (induction m clear ts rule: memSetClaimsTags.induct) (auto simp: memOk_def)

lemma memOk_marksPut: "memOk m \<Longrightarrow> memOk (fst (marksPut m k r))"
  by (auto simp: memOk_def marksPut_def)

text \<open>A delete removes what it names, with its tags, and nothing else.\<close>

lemma memDeleteClaims_records:
  assumes "[] \<notin> set ids"
  shows "snd (memDeleteClaims m ids) = Inr ()"
    "records (fst (memDeleteClaims m ids)) i = (if i \<in> set ids then None else records m i)"
    "getm (mTags (fst (memDeleteClaims m ids))) i = (if i \<in> set ids then [] else getm (mTags m) i)"
  using assms
  by (induction m ids rule: memDeleteClaims.induct) (auto simp: records_def delete_conv' getm_def)

text \<open>Tags: the cleared keys go, the written ones win, the other claims keep theirs.\<close>

lemma map_of_clearMatching:
  "map_of (clearMatching pats m) k =
     (if \<exists>p \<in> set pats. pathMatch p k then None else map_of m k)"
  unfolding clearMatching_def
proof (induction pats arbitrary: m)
  case (Cons p pats)
  have "map_of (filter (\<lambda>(k, v). \<not> pathMatch p k) m) k = (if pathMatch p k then None else map_of m k)"
    by (induction m) auto
  then show ?case using Cons by auto
qed simp

lemma memSetClaimsTags_other:
  "i \<notin> set (keys ts) \<Longrightarrow> getm (mTags (memSetClaimsTags m clear ts)) i = getm (mTags m) i"
  by (induction m clear ts rule: memSetClaimsTags.induct) (auto simp: getm_def update_conv' keys_def)

lemma memSetClaimsTags_at:
  assumes "wfMap ts" "map_of ts i = Some kv"
  shows "getm (mTags (memSetClaimsTags m clear ts)) i = putAll kv (clearMatching clear (getm (mTags m) i))"
  using assms
proof (induction m clear ts rule: memSetClaimsTags.induct)
  case (2 m clear j kv' ts)
  show ?case
  proof (cases "i = j")
    case True
    then have "i \<notin> set (keys ts)" using 2(2) by (auto simp: wfMap_def)
    then show ?thesis
      using True 2(3) by (simp add: memSetClaimsTags_other) (simp add: getm_def update_conv')
  next
    case False
    then have "wfMap ts" "map_of ts i = Some kv" using 2(2,3) by (auto simp: wfMap_def)
    then show ?thesis using 2(1) False by (simp add: getm_def update_conv')
  qed
qed simp

lemma memSetClaimsTags_frame:
  "mClaims (memSetClaimsTags m clear ts) = mClaims m"
  by (induction m clear ts rule: memSetClaimsTags.induct) auto

section \<open>The materialising read ends\<close>

text \<open>
  Where every diff sits above the claim it revises, the depth the store allows is never
  reached: any greater depth gives the same answer.
\<close>

definition diffsDescend :: "(ident \<Rightarrow> claim result) \<Rightarrow> bool" where
  "diffsDescend load =
     (\<forall>i c e p. load i = Inr c \<longrightarrow> find isDiffEdge (claimEdges c) = Some e \<longrightarrow>
        load (eReference e) = Inr p \<longrightarrow> claimHeight p < claimHeight c)"

lemma materializeOne_depth:
  assumes "finite K" "\<And>k p. load k = Inr p \<Longrightarrow> k \<in> K" "diffsDescend load" "load i = Inr c"
    and "card {k \<in> K. \<exists>p. load k = Inr p \<and> claimHeight p < claimHeight c} < d" "d \<le> d'"
  shows "materializeOne d load c = materializeOne d' load c"
  using assms(4-)
proof (induction d arbitrary: d' i c)
  case (Suc d)
  obtain n where d': "d' = Suc n" "d \<le> n" using Suc.prems(3) by (cases d') auto
  have "materializeOne d load p = materializeOne n load p"
    if e: "find isDiffEdge (claimEdges c) = Some e" and p: "load (eReference e) = Inr p" for e p
  proof (rule Suc.IH[OF p _ d'(2)])
    let ?below = "\<lambda>c. {k \<in> K. \<exists>p. load k = Inr p \<and> claimHeight p < claimHeight c}"
    have lt: "claimHeight p < claimHeight c"
      using assms(3) Suc.prems(1) e p by (auto simp: diffsDescend_def)
    then have "?below p \<subseteq> ?below c" by (auto intro: less_trans)
    moreover have "eReference e \<in> ?below c" "eReference e \<notin> ?below p"
      using lt p assms(2) by auto
    ultimately have "?below p \<subset> ?below c" by blast
    then have "card (?below p) < card (?below c)" using assms(1) by (simp add: psubset_card_mono)
    then show "card (?below p) < d" using Suc.prems(2) by simp
  qed
  then show ?case
    by (auto simp: materializeOne.simps[of _ _ c] d' rbind_def split: option.split sum.split)
qed simp

lemma memRead_depth:
  assumes "diffsDescend (memLoad L m)" "memLoad L m i = Inr c" "length (mClaims m) \<le> d"
  shows "memRead L m False i = materializeOne d (memLoad L m) c"
proof -
  let ?K = "set (keys (mClaims m))"
  let ?below = "{k \<in> ?K. \<exists>p. memLoad L m k = Inr p \<and> claimHeight p < claimHeight c}"
  have K: "k \<in> ?K" if "memLoad L m k = Inr p" for k p
    using memLoad_ok(5)[OF that] by (auto simp: set_keys)
  have "i \<in> ?K" "i \<notin> ?below" using K assms(2) by auto
  then have "?below \<subset> ?K" by blast
  then have "card ?below < card ?K" by (simp add: psubset_card_mono)
  also have "\<dots> \<le> length (mClaims m)" using card_length[of "keys (mClaims m)"] by (simp add: keys_def)
  finally have "materializeOne (length (mClaims m)) (memLoad L m) c = materializeOne d (memLoad L m) c"
    by (intro materializeOne_depth[OF _ K assms(1,2) _ assms(3)]) auto
  then show ?thesis using assms(2) by (simp add: memRead_def)
qed

text \<open>
  The chain a materialised read follows: from a stored claim to the claim its diff edge revises, as
  long as the claim loads.
\<close>

inductive diffChain :: "(ident \<Rightarrow> claim result) \<Rightarrow> ident \<Rightarrow> ident \<Rightarrow> bool" for load where
  here: "diffChain load i i"
| there: "load i = Inr c \<Longrightarrow> find isDiffEdge (claimEdges c) = Some e \<Longrightarrow> diffChain load (eReference e) k \<Longrightarrow>
    diffChain load i k"

inductive_cases diffChain_cases: "diffChain load i k"

lemma diffChain_end:
  "diffChain load i k \<Longrightarrow> load i = Inr c \<Longrightarrow> find isDiffEdge (claimEdges c) = None \<Longrightarrow> k = i"
  by (auto elim: diffChain_cases)

text \<open>The read is decided by the loads of its chain: it succeeds with all of them, or fails as one does.\<close>

definition endsOnChain :: "(ident \<Rightarrow> claim result) \<Rightarrow> ident \<Rightarrow> claim result \<Rightarrow> bool" where
  "endsOnChain load i r =
     ((\<exists>x. r = Inr x) \<and> (\<forall>k. diffChain load i k \<longrightarrow> (\<exists>p. load k = Inr p)) \<or>
      (\<exists>k e. diffChain load i k \<and> load k = Inl e \<and> r = Inl e))"

lemma endsOnChain_step:
  assumes "load i = Inr c" "find isDiffEdge (claimEdges c) = Some e" "endsOnChain load (eReference e) r"
  shows "endsOnChain load i (rbind r (\<lambda>p. Inr (f p)))"
proof -
  have "\<exists>p. load k = Inr p" if "\<forall>k. diffChain load (eReference e) k \<longrightarrow> (\<exists>p. load k = Inr p)" "diffChain load i k" for k
    using that(2) assms(1,2) that(1) by (auto elim: diffChain_cases)
  moreover have "diffChain load (eReference e) k \<Longrightarrow> diffChain load i k" for k
    using diffChain.there[of load, OF assms(1,2)] .
  ultimately show ?thesis using assms(3) by (fastforce simp: endsOnChain_def)
qed

lemma materializeOne_ends:
  assumes "finite K" "\<And>k p. load k = Inr p \<Longrightarrow> k \<in> K \<and> claimOverlay p = None" "diffsDescend load" "load i = Inr c"
    and "card {k \<in> K. \<exists>p. load k = Inr p \<and> claimHeight p < claimHeight c} < d"
  shows "endsOnChain load i (materializeOne d load c)"
  using assms(4-)
proof (induction d arbitrary: i c)
  case (Suc d)
  let ?below = "\<lambda>c. {k \<in> K. \<exists>p. load k = Inr p \<and> claimHeight p < claimHeight c}"
  have flat: "claimOverlay c = None" using assms(2)[OF Suc.prems(1)] by blast
  show ?case
  proof (cases "find isDiffEdge (claimEdges c)")
    case None
    then show ?thesis
      using Suc.prems(1) diffChain_end[of load i _ c] flat None
      by (auto simp: endsOnChain_def materializeOne.simps[of _ _ c])
  next
    case (Some e)
    have "endsOnChain load (eReference e) (rbind (load (eReference e)) (materializeOne d load))"
    proof (cases "load (eReference e)")
      case (Inl err)
      then show ?thesis using diffChain.here by (auto simp: endsOnChain_def)
    next
      case (Inr p)
      have lt: "claimHeight p < claimHeight c" using assms(3) Suc.prems(1) Some Inr by (auto simp: diffsDescend_def)
      then have "?below p \<subseteq> ?below c" by (auto intro: less_trans)
      moreover have "eReference e \<in> ?below c" "eReference e \<notin> ?below p" using lt Inr assms(2) by auto
      ultimately have "card (?below p) < card (?below c)" using assms(1) by (intro psubset_card_mono) auto
      then show ?thesis using Suc.IH[OF Inr] Suc.prems(2) Inr by simp
    qed
    then have "endsOnChain load i (rbind (rbind (load (eReference e)) (materializeOne d load)) (\<lambda>p. Inr (overlayOn c p)))"
      using Suc.prems(1) Some by (intro endsOnChain_step)
    moreover have "materializeOne (Suc d) load c =
        rbind (rbind (load (eReference e)) (materializeOne d load)) (\<lambda>p. Inr (overlayOn c p))"
      by (cases "load (eReference e)") (simp_all add: materializeOne.simps[of _ _ c] flat Some)
    ultimately show ?thesis by simp
  qed
qed simp

lemma GetClaim_memRead: "GetClaim (memUni L m) delta i = memRead L m delta i"
  by (cases "memLoad L m i")
     (simp_all add: GetClaim_def memUni_def memGetClaims_def DefaultMaterialize_def memRead_def rbind_def split: sum.split)

lemma memRead_ends:
  assumes "diffsDescend (memLoad L m)" "memLoad L m i = Inr c"
  shows "endsOnChain (memLoad L m) i (memRead L m False i)"
proof -
  let ?K = "set (keys (mClaims m))"
  let ?below = "{k \<in> ?K. \<exists>p. memLoad L m k = Inr p \<and> claimHeight p < claimHeight c}"
  have K: "k \<in> ?K \<and> claimOverlay p = None" if "memLoad L m k = Inr p" for k p
    using memLoad_ok(3,5)[OF that] by (auto simp: set_keys)
  have "i \<in> ?K" "i \<notin> ?below" using K[OF assms(2)] assms(2) by auto
  then have "?below \<subset> ?K" by blast
  then have "card ?below < card ?K" by (simp add: psubset_card_mono)
  also have "\<dots> \<le> length (mClaims m)" using card_length[of "keys (mClaims m)"] by (simp add: keys_def)
  finally show ?thesis
    using materializeOne_ends[OF _ K assms] assms(2) by (simp add: memRead_def)
qed

section \<open>Reachable states of the memory Universe\<close>

inductive memReach :: "memoryUniverse \<Rightarrow> bool" where
  new: "memReach NewMemoryUniverse"
| put: "memReach m \<Longrightarrow> memReach (fst (memPutClaims m cs))"
| delete: "memReach m \<Longrightarrow> memReach (fst (memDeleteClaims m ids))"
| putContents: "memReach m \<Longrightarrow> memReach (fst (memPutContents m bs))"
| deleteContents: "memReach m \<Longrightarrow> memReach (fst (memDeleteContents m hs))"
| tags: "memReach m \<Longrightarrow> memReach (memSetClaimsTags m clear ts)"
| mark: "memReach m \<Longrightarrow> memReach (fst (marksPut m k r))"

lemma GetClaim_memUni_delta: "GetClaim (memUni L m) True i = memLoad L m i"
  by (cases "memLoad L m i")
     (simp_all add: GetClaim_def memUni_def memGetClaims_def DefaultMaterialize_def)

lemma HasClaim_memUni: "HasClaim (memUni L m) i = Inr (i \<noteq> [] \<and> has (mClaims m) i)"
  by (simp add: HasClaim_def memUni_def memHasClaims_def)

section \<open>A sample store\<close>

text \<open>
  A small graph for the witnesses, as stored records: \<open>hA\<close> an initial claim, \<open>hB\<close>
  derived from it, \<open>hD\<close> a diff of \<open>hB\<close>, and \<open>hG\<close> referencing a claim the
  store lacks before it references \<open>hA\<close>.
\<close>

definition rawNode :: "string \<Rightarrow> string \<Rightarrow> bytes list \<Rightarrow> u64 \<Rightarrow> gomap \<Rightarrow> encNode" where
  "rawNode c s es h fs =
     \<lparr>enTypeClass = c, enTypeSub = s, enEncodingClass = [], enEncodingSub = [], enContentHash = [],
      enContent = [], enContentSize = 0, enFields = fs,
      enCreatedAt = ''2026-06-01T00:00:00.000000000Z'', enEdges = es, enHeight = h, enDated = []\<rparr>"

definition rawEdge :: "string \<Rightarrow> string \<Rightarrow> ident \<Rightarrow> gomap \<Rightarrow> encEdge" where
  "rawEdge c s ref fs =
     \<lparr>eeTypeClass = c, eeTypeSub = s, eeEncodingClass = [], eeEncodingSub = [], eeContentHash = [],
      eeContent = [], eeContentSize = 0, eeFields = fs, eeReference = ref, eeRelationDirection = 0\<rparr>"

definition graphLib :: lib where
  "graphLib = tableLib
     [(''A'', rawNode ''source'' ''note'' [] 0 []),
      (''B'', rawNode ''source'' ''note'' [''ba''] 1 [(''by'', ''ann'')]),
      (''D'', rawNode ''source'' ''note'' [''db''] 2 []),
      (''G'', rawNode ''source'' ''note'' [''gx'', ''ga''] 1 [])]
     [(''ba'', rawEdge ''derivation'' ''quote'' ''hA'' []),
      (''db'', rawEdge ''contribution'' ''diff'' ''hB'' []),
      (''gx'', rawEdge ''derivation'' ''quote'' ''hX'' []),
      (''ga'', rawEdge ''derivation'' ''quote'' ''hA'' [])]"

definition graphMem :: memoryUniverse where
  "graphMem = \<lparr>mClaims = [(''hA'', ''A''), (''hB'', ''B''), (''hD'', ''D''), (''hG'', ''G'')],
     mContent = [], mTags = [(''hB'', [(''_b_main'', ''3'')])], mMarks = []\<rparr>"

definition resultOf :: "('a \<Rightarrow> 'b) \<Rightarrow> 'a result \<Rightarrow> 'b option" where
  "resultOf f r = (case r of Inl e \<Rightarrow> None | Inr x \<Rightarrow> Some (f x))"

lemma resultOf_Some: "resultOf f r = Some y \<longleftrightarrow> (\<exists>x. r = Inr x \<and> f x = y)"
  by (auto simp: resultOf_def split: sum.split)

definition recordView :: "claim \<Rightarrow> (string \<times> ident) list \<times> u64" where
  "recordView c = (map (\<lambda>e. (edgeType e, eReference e)) (claimEdges c), claimHeight c)"

lemma graph_loads:
  "resultOf recordView (memLoad graphLib graphMem ''hA'') = Some ([], 0)"
  "resultOf recordView (memLoad graphLib graphMem ''hB'') = Some ([(''derivation/quote'', ''hA'')], 1)"
  "resultOf recordView (memLoad graphLib graphMem ''hD'') = Some ([(''contribution/diff'', ''hB'')], 2)"
  "resultOf recordView (memLoad graphLib graphMem ''hG'') =
     Some ([(''derivation/quote'', ''hX''), (''derivation/quote'', ''hA'')], 1)"
  by code_simp+

lemma graph_keys: "memLoad graphLib graphMem i = Inr c \<Longrightarrow> i \<in> {''hA'', ''hB'', ''hD'', ''hG''}"
  by (auto dest!: memLoad_ok(5) simp: graphMem_def split: if_splits)

section \<open>Properties\<close>

text \<open>
  Property C37 (memory_writes_refine): on the abstract store, a partial map from ids to records, a
  bulk put is one map update by the pairs of the longest prefix of storable claims, the last of an
  id winning; it succeeds exactly when every claim is storable, and tags, content and bookmarks
  stay as they were.
\<close>

theorem memory_writes_refine:
  "records (fst (memPutClaims m cs)) = records m ++ map_of (rev (stored cs)) \<and>
   (snd (memPutClaims m cs) = Inr () \<longleftrightarrow> list_all (\<lambda>c. recordPair c \<noteq> None) cs) \<and>
   mTags (fst (memPutClaims m cs)) = mTags m \<and> mContent (fst (memPutClaims m cs)) = mContent m \<and>
   mMarks (fst (memPutClaims m cs)) = mMarks m"
  by (simp add: memPutClaims_records memPutClaims_ok memPutClaims_frame list_all_iff)

text \<open>
  After a claim has been put, reading its id decodes the envelope it
  was stored as, with the tags the store keeps for it, and every other id reads as before.
\<close>

theorem memory_put_get:
  assumes "memPutClaims m [Some c] = (m', Inr ())"
  shows "(\<exists>b. claimRaw c = Some b \<and>
      GetClaim (memUni L m') True (ID c) =
        rbind (DecodeClaim L (ID c) b) (\<lambda>d.
          Inr (if getm (mTags m) (ID c) \<noteq> [] then withTags d (getm (mTags m) (ID c)) else d))) \<and>
    HasClaim (memUni L m') (ID c) = Inr True \<and>
    (j \<noteq> ID c \<longrightarrow> GetClaim (memUni L m') True j = GetClaim (memUni L m) True j \<and>
       HasClaim (memUni L m') j = HasClaim (memUni L m) j)"
proof -
  obtain b where b: "claimRaw c = Some b" "ID c \<noteq> []"
      and m': "m' = m\<lparr>mClaims := AList.update (ID c) b (mClaims m)\<rparr>"
    using assms by (auto simp: Envelope_def split: if_splits option.splits)
  have t: "mTags m' = mTags m" and cl: "map_of (mClaims m') = (map_of (mClaims m))(ID c \<mapsto> b)"
    by (simp_all add: m' update_conv')
  show ?thesis
    unfolding GetClaim_memUni_delta HasClaim_memUni memLoad_def has_def t cl using b by auto
qed

theorem memory_put_get_witness:
  "HasClaim (memUni graphLib (fst (memPutClaims graphMem
     [Some (Claim (MNode (zeroNode\<lparr>nodeId := ''hZ''\<rparr>) None) [] (Some ''A'') None [])]))) ''hZ'' = Inr True"
  using memory_put_get[of graphMem "Claim (MNode (zeroNode\<lparr>nodeId := ''hZ''\<rparr>) None) [] (Some ''A'') None []" _ graphLib]
  by (simp add: ID_def Envelope_def)

text \<open>
  In every state the operations of the memory Universe lead to, each
  map holds one entry per key, and no claim and no bookmark is stored under the nil id.
\<close>

theorem memory_state_ok:
  assumes "memReach m"
  shows "memOk m"
  using assms
  by (induction rule: memReach.induct)
     (auto intro: memOk_New memOk_PutClaims memOk_DeleteClaims memOk_PutContents memOk_DeleteContents
       memOk_SetClaimsTags memOk_marksPut)

theorem memory_state_ok_witness: "memOk (fst (marksPut NewMemoryUniverse ''k'' ''r''))"
  by (rule memory_state_ok) (intro memReach.intros)

text \<open>
  Property C38 (materialised_read_ends): where every stored diff sits above the claim it revises, a
  materialised read ends within the bound on the length of a diff chain: it succeeds, every claim of
  its chain loading, or it fails with the very error of a claim of the chain that does not load; and
  a deeper recursion would answer the same.
\<close>

theorem materialised_read_ends:
  assumes "diffsDescend (memLoad L m)" "GetClaim (memUni L m) True i = Inr c"
  shows "((\<exists>x. GetClaim (memUni L m) False i = Inr x) \<and>
      (\<forall>k. diffChain (memLoad L m) i k \<longrightarrow> (\<exists>p. memLoad L m k = Inr p)) \<or>
     (\<exists>k e. diffChain (memLoad L m) i k \<and> memLoad L m k = Inl e \<and> GetClaim (memUni L m) False i = Inl e)) \<and>
    (\<forall>d \<ge> length (mClaims m). materializeOne d (memLoad L m) c = GetClaim (memUni L m) False i)"
proof -
  have c: "memLoad L m i = Inr c" using assms(2) by (simp add: GetClaim_memUni_delta)
  show ?thesis
    using memRead_ends[OF assms(1) c] memRead_depth[OF assms(1) c]
    by (simp add: endsOnChain_def GetClaim_memRead)
qed

lemma graph_descends: "diffsDescend (memLoad graphLib graphMem)"
proof -
  have "claimHeight p < claimHeight c"
    if i: "memLoad graphLib graphMem i = Inr c" and e: "find isDiffEdge (claimEdges c) = Some e"
      and p: "memLoad graphLib graphMem (eReference e) = Inr p" for i c e p
  proof -
    have iD: "i = ''hD''"
    proof (rule ccontr)
      assume "i \<noteq> ''hD''"
      then have "resultOf (\<lambda>c. find isDiffEdge (claimEdges c)) (memLoad graphLib graphMem i) = Some None"
        using graph_keys[OF i] by (elim insertE) (simp_all, code_simp+)
      then show False using i e by (simp add: resultOf_def)
    qed
    have "resultOf (\<lambda>c. map_option eReference (find isDiffEdge (claimEdges c)))
        (memLoad graphLib graphMem ''hD'') = Some (Some ''hB'')" by code_simp
    then have "eReference e = ''hB''" using i e iD by (simp add: resultOf_def)
    then show ?thesis
      using graph_loads(2,3) i p iD by (simp add: resultOf_def recordView_def)
  qed
  then show ?thesis by (auto simp: diffsDescend_def)
qed

text \<open>The diff \<open>hD\<close> reads over \<open>hB\<close>; with \<open>hB\<close> gone it fails as the load of \<open>hB\<close> does.\<close>

definition cutMem :: memoryUniverse where
  "cutMem = graphMem\<lparr>mClaims := [(''hA'', ''A''), (''hD'', ''D''), (''hG'', ''G'')]\<rparr>"

lemma cut_load: "memLoad graphLib cutMem i = (if i = ''hB'' then Inl (StoreErr ErrNotFound) else memLoad graphLib graphMem i)"
proof (cases "i = ''hB''")
  case False
  then have "map_of (mClaims cutMem) i = map_of (mClaims graphMem) i" by (simp add: cutMem_def graphMem_def)
  moreover have "mTags cutMem = mTags graphMem" by (simp add: cutMem_def)
  ultimately show ?thesis using False by (simp only: memLoad_def if_False)
qed (simp add: memLoad_def cutMem_def)

lemma cut_descends: "diffsDescend (memLoad graphLib cutMem)"
  using graph_descends unfolding diffsDescend_def cut_load by (auto split: if_splits)

theorem materialised_read_ends_witness:
  "(\<exists>x. GetClaim (memUni graphLib graphMem) False ''hD'' = Inr x) \<and>
     (\<exists>k e. diffChain (memLoad graphLib cutMem) ''hD'' k \<and> memLoad graphLib cutMem k = Inl e \<and>
        GetClaim (memUni graphLib cutMem) False ''hD'' = Inl e)"
proof -
  obtain c where c: "memLoad graphLib graphMem ''hD'' = Inr c" "claimEdges c \<noteq> []"
    using graph_loads(3) by (auto simp: resultOf_Some recordView_def)
  have d: "resultOf (\<lambda>c. ()) (GetClaim (memUni graphLib graphMem) False ''hD'') = Some ()"
    "resultOf (\<lambda>c. ()) (GetClaim (memUni graphLib cutMem) False ''hD'') = None"
    by code_simp+
  have g: "GetClaim (memUni graphLib graphMem) True ''hD'' = Inr c" "GetClaim (memUni graphLib cutMem) True ''hD'' = Inr c"
    using c by (simp_all add: GetClaim_memUni_delta cut_load)
  show ?thesis
    using materialised_read_ends[OF graph_descends g(1)] materialised_read_ends[OF cut_descends g(2)] d
    by (auto simp: resultOf_def)
qed

end
