(* ===== verification/Walk.thy ===== *)
theory Walk
  imports Model
begin

text \<open>
  The closure walk. Every traversal of the program is the same loop: take the head of a queue,
  skip it when it is nil or has been seen, otherwise mark it seen, act on it, and append what
  the act found. \<open>drain\<close> is that loop; the act is its parameter.

  The loop ends because only a claim a store holds has references to append, and each is acted
  on once: \<open>held\<close> is the list of the ids the store holds, and successors are appended for
  those ids only. A walker of the program appends the references of a claim it has just read,
  so the restriction changes nothing for a store that answers only what it holds (the law
  \<open>get_held\<close> of the locale \<open>universe\<close>).
\<close>

section \<open>The loop\<close>

text \<open>What one act does: end the walk with a result, or go on with a new state and successors.\<close>

datatype ('r, 's, 'q) act = Halt 'r | More 's "'q list"

function drain ::
    "ident list \<Rightarrow> ('q \<Rightarrow> ident) \<Rightarrow> ('s \<Rightarrow> 'q \<Rightarrow> ('r, 's, 'q) act) \<Rightarrow> ident list \<Rightarrow> 's \<Rightarrow> 'q list \<Rightarrow>
       'r + ('s \<times> ident list)" where
  "drain held key body seen s [] = Inr (s, seen)"
| "drain held key body seen s (q # queue) =
     (if key q = [] \<or> key q \<in> set seen then drain held key body seen s queue
      else case body s q of
          Halt r \<Rightarrow> Inl r
        | More s' succ \<Rightarrow>
            drain held key body (key q # seen) s' (queue @ (if key q \<in> set held then succ else [])))"
  by pat_completeness auto
termination
proof (relation "measures [\<lambda>(held, key, body, seen, s, queue). card (set held - set seen),
    \<lambda>(held, key, body, seen, s, queue). length queue]", goal_cases)
  case (3 held key body seen s q queue s' succ)
  show ?case
  proof (cases "key q \<in> set held")
    case True
    then have "set held - set (key q # seen) \<subset> set held - set seen"
      using 3(1) by auto
    then show ?thesis by (simp add: psubset_card_mono)
  next
    case False
    then have "set held - set (key q # seen) = set held - set seen" by auto
    then show ?thesis using False by simp
  qed
qed simp_all

text \<open>The invariant rule: whatever each act preserves holds where the loop ends.\<close>

lemma drain_inv:
  assumes "I seen s queue"
    and "\<And>seen s q queue. I seen s (q # queue) \<Longrightarrow> key q = [] \<or> key q \<in> set seen \<Longrightarrow> I seen s queue"
    and "\<And>seen s q queue s' succ. I seen s (q # queue) \<Longrightarrow> key q \<noteq> [] \<Longrightarrow> key q \<notin> set seen \<Longrightarrow>
      body s q = More s' succ \<Longrightarrow> I (key q # seen) s' (queue @ (if key q \<in> set held then succ else []))"
    and "\<And>seen s q queue r. I seen s (q # queue) \<Longrightarrow> key q \<noteq> [] \<Longrightarrow> key q \<notin> set seen \<Longrightarrow>
      body s q = Halt r \<Longrightarrow> Q (Inl r)"
    and "\<And>seen s. I seen s [] \<Longrightarrow> Q (Inr (s, seen))"
  shows "Q (drain held key body seen s queue)"
  using assms
proof (induction held key body seen s queue rule: drain.induct)
  case (1 held key body seen s)
  then show ?case by simp
next
  case (2 held key body seen s q queue)
  show ?case
  proof (cases "key q = [] \<or> key q \<in> set seen")
    case True
    then show ?thesis
      using "2.IH"(1)[OF True "2.prems"(2)[OF "2.prems"(1) True] "2.prems"(2-5)] by auto
  next
    case False
    then have q: "key q \<noteq> []" "key q \<notin> set seen" by auto
    show ?thesis
    proof (cases "body s q")
      case (Halt r)
      then show ?thesis using "2.prems"(4)[OF "2.prems"(1) q Halt] q by simp
    next
      case (More s' succ)
      then show ?thesis
        using "2.IH"(2)[OF False More "2.prems"(3)[OF "2.prems"(1) q More] "2.prems"(2-5)] q by simp
    qed
  qed
qed

declare drain.simps [simp del]

section \<open>Reachability\<close>

text \<open>The closure of some roots under a successor function; nil ids lead nowhere.\<close>

inductive reach :: "(ident \<Rightarrow> ident list) \<Rightarrow> ident list \<Rightarrow> ident \<Rightarrow> bool" for f roots where
  root: "r \<in> set roots \<Longrightarrow> r \<noteq> [] \<Longrightarrow> reach f roots r"
| step: "reach f roots k \<Longrightarrow> r \<in> set (f k) \<Longrightarrow> r \<noteq> [] \<Longrightarrow> reach f roots r"

lemma reach_nonnil: "reach f roots k \<Longrightarrow> k \<noteq> []"
  by (induction rule: reach.induct) auto

lemma reach_least:
  assumes "reach f roots k" "\<And>r. r \<in> set roots \<Longrightarrow> r \<noteq> [] \<Longrightarrow> r \<in> S"
    and "\<And>k r. k \<in> S \<Longrightarrow> reach f roots k \<Longrightarrow> r \<in> set (f k) \<Longrightarrow> r \<noteq> [] \<Longrightarrow> r \<in> S"
  shows "k \<in> S"
  using assms(1) by (induction rule: reach.induct) (auto intro: assms)

lemma reach_trans: "reach f [a] b \<Longrightarrow> reach f roots a \<Longrightarrow> reach f roots b"
  by (induction rule: reach.induct) (auto intro: reach.step)

lemma reach_mono: "set roots \<subseteq> set roots' \<Longrightarrow> reach f roots k \<Longrightarrow> reach f roots' k"
  by (rotate_tac 1, induction rule: reach.induct) (auto intro: reach.intros)

text \<open>
  The walk visits exactly the closure. \<open>J\<close> is what the acts maintain about the state and the
  ids seen so far, \<open>K\<close> what the queued items satisfy; the successors an act appends are
  \<open>f\<close>'s.
\<close>

lemma drain_reach_items:
  assumes succ: "\<And>seen s q s' qs. J seen s \<Longrightarrow> key q \<notin> set seen \<Longrightarrow> K q \<Longrightarrow> body s q = More s' qs \<Longrightarrow>
        (\<lambda>q. key q) ` set (if key q \<in> set held then qs else []) - {[]} = set (f (key q)) - {[]}"
    and J0: "J [] s0"
    and J: "\<And>seen s q s' qs. J seen s \<Longrightarrow> key q \<notin> set seen \<Longrightarrow> reach f roots (key q) \<Longrightarrow> K q \<Longrightarrow>
        body s q = More s' qs \<Longrightarrow> J (key q # seen) s'"
    and K: "\<And>seen s q s' qs x. J seen s \<Longrightarrow> reach f roots (key q) \<Longrightarrow> K q \<Longrightarrow>
        body s q = More s' qs \<Longrightarrow> x \<in> set (if key q \<in> set held then qs else []) \<Longrightarrow> K x"
    and K0: "\<And>q. q \<in> set queue0 \<Longrightarrow> K q"
    and roots: "key ` set queue0 - {[]} = set roots - {[]}"
  shows "case drain held key body [] s0 queue0 of
      Inr (s, seen) \<Rightarrow> set seen = {k. reach f roots k} \<and> J seen s
    | Inl r \<Rightarrow> (\<exists>seen s q. J seen s \<and> set seen \<subseteq> {k. reach f roots k} \<and> key q \<notin> set seen \<and>
        reach f roots (key q) \<and> K q \<and> body s q = Halt r)"
proof (rule drain_inv[where I = "\<lambda>seen s queue. J seen s \<and> set seen \<subseteq> {k. reach f roots k} \<and>
      (\<forall>q \<in> set queue. key q = [] \<or> reach f roots (key q)) \<and> (\<forall>q \<in> set queue. K q) \<and>
      (\<forall>r \<in> set roots. r \<noteq> [] \<longrightarrow> r \<in> set seen \<union> key ` set queue) \<and>
      (\<forall>k \<in> set seen. \<forall>r \<in> set (f k). r \<noteq> [] \<longrightarrow> r \<in> set seen \<union> key ` set queue)"], goal_cases)
  case 1
  have "\<forall>q \<in> set queue0. key q = [] \<or> reach f roots (key q)"
    using roots by (auto intro: reach.root)
  moreover have "\<forall>r \<in> set roots. r \<noteq> [] \<longrightarrow> r \<in> key ` set queue0"
    using roots by auto
  ultimately show ?case using J0 K0 by simp
next
  case (2 seen s q queue)
  then show ?case by auto
next
  case (3 seen s q queue s' qs)
  let ?qs = "if key q \<in> set held then qs else []"
  have q: "reach f roots (key q)" using 3 by auto
  have new: "key ` set ?qs - {[]} = set (f (key q)) - {[]}"
    using succ[of seen s q s' qs] 3(1,3,4) by simp
  have J': "J (key q # seen) s'" using J[of seen s q s' qs] 3 q by auto
  have a: "\<forall>x \<in> set (queue @ ?qs). key x = [] \<or> reach f roots (key x)"
  proof
    fix x assume "x \<in> set (queue @ ?qs)"
    then consider "x \<in> set queue" | "x \<in> set ?qs" by auto
    then show "key x = [] \<or> reach f roots (key x)"
    proof cases
      case 1 then show ?thesis using 3(1) by auto
    next
      case 2
      then have "key x = [] \<or> key x \<in> set (f (key q))" using new by blast
      then show ?thesis using q reach.step by blast
    qed
  qed
  have b: "\<forall>k \<in> set (key q # seen). \<forall>r \<in> set (f k). r \<noteq> [] \<longrightarrow>
      r \<in> set (key q # seen) \<union> key ` set (queue @ ?qs)"
  proof (intro ballI impI)
    fix k r assume k: "k \<in> set (key q # seen)" "r \<in> set (f k)" "r \<noteq> []"
    show "r \<in> set (key q # seen) \<union> key ` set (queue @ ?qs)"
    proof (cases "k = key q")
      case True
      then have "r \<in> key ` set ?qs" using new k by blast
      then show ?thesis by (simp only: set_append image_Un) blast
    next
      case False
      then have "r \<in> set seen \<union> key ` set (q # queue)" using 3(1) k by auto
      then show ?thesis by (simp only: set_append image_Un) auto
    qed
  qed
  have c: "\<forall>r \<in> set roots. r \<noteq> [] \<longrightarrow> r \<in> set (key q # seen) \<union> key ` set (queue @ ?qs)"
    using 3(1) by (simp only: set_append image_Un) auto
  have k: "\<forall>x \<in> set (queue @ ?qs). K x" using K[of seen s q s' qs] 3 q by auto
  show ?case using J' a b c k q 3(1) by auto
next
  case (4 seen s q queue r)
  then have "reach f roots (key q)" by auto
  with 4 show ?case by auto
next
  case (5 seen s)
  have "reach f roots k \<Longrightarrow> k \<in> set seen" for k
    by (erule reach_least) (use 5 in auto)
  then show ?case using 5 by auto
qed

text \<open>The rule without a condition on the items.\<close>

lemma drain_reach:
  assumes "\<And>seen s q s' qs. J seen s \<Longrightarrow> key q \<notin> set seen \<Longrightarrow> body s q = More s' qs \<Longrightarrow>
        (\<lambda>q. key q) ` set (if key q \<in> set held then qs else []) - {[]} = set (f (key q)) - {[]}"
    and "J [] s0"
    and "\<And>seen s q s' qs. J seen s \<Longrightarrow> key q \<notin> set seen \<Longrightarrow> reach f roots (key q) \<Longrightarrow>
        body s q = More s' qs \<Longrightarrow> J (key q # seen) s'"
    and "key ` set queue0 - {[]} = set roots - {[]}"
  shows "case drain held key body [] s0 queue0 of
      Inr (s, seen) \<Rightarrow> set seen = {k. reach f roots k} \<and> J seen s
    | Inl r \<Rightarrow> (\<exists>seen s q. J seen s \<and> set seen \<subseteq> {k. reach f roots k} \<and> key q \<notin> set seen \<and>
        reach f roots (key q) \<and> body s q = Halt r)"
proof -
  have "case drain held key body [] s0 queue0 of
      Inr (s, seen) \<Rightarrow> set seen = {k. reach f roots k} \<and> J seen s
    | Inl r \<Rightarrow> (\<exists>seen s q. J seen s \<and> set seen \<subseteq> {k. reach f roots k} \<and> key q \<notin> set seen \<and>
        reach f roots (key q) \<and> True \<and> body s q = Halt r)"
  proof (rule drain_reach_items, goal_cases)
    case 1 then show ?case using assms(1) by blast
  next
    case 2 show ?case by (rule assms(2))
  next
    case 3 then show ?case using assms(3) by blast
  next
    case 6 show ?case by (rule assms(4))
  qed simp_all
  then show ?thesis by (auto split: sum.splits)
qed

end
