(* ===== verification/Closure.thy ===== *)
theory Closure
  imports Store Walk
begin

text \<open>
  Closure membership and lookup, the height cache and the copy walkers:
  \<open>universe_default.go\<close>, \<open>universe_taxonomy.go\<close> and the closure half of
  \<open>query_default.go\<close>. Each walk is an instance of \<open>drain\<close>; what it visits is
  \<open>reach (refs u) heads\<close>, the claims reachable along the stored references.
\<close>

section \<open>Reserved tag keys (\<open>universe_taxonomy.go\<close>)\<close>

definition ReservedPrefix :: string where "ReservedPrefix = ''_''"
definition SpineRevKey :: string where "SpineRevKey = ''_br''"
definition ArchiveTagKey :: string where "ArchiveTagKey = ''_ba''"

definition BranchTagKey :: "string \<Rightarrow> string" where
  "BranchTagKey branch = ''_b_'' @ branch"

definition BranchArchive :: string where "BranchArchive = ''$archive''"
definition BranchUniverse :: string where "BranchUniverse = ''$universe''"

definition namedBranch :: "string \<Rightarrow> bool" where
  "namedBranch b = (b \<noteq> [] \<and> b \<noteq> BranchUniverse \<and> b \<noteq> BranchArchive)"

section \<open>The reference relation\<close>

definition refsOf :: "claim \<Rightarrow> ident list" where
  "refsOf c = map eReference (Edges c [])"

lemma refsOf_delta: "claimOverlay c = None \<Longrightarrow> refsOf c = map eReference (claimEdges c)"
  by (simp add: refsOf_def Edges_def matchAll_def effectiveEdges_def)

definition refs :: "uni \<Rightarrow> ident \<Rightarrow> ident list" where
  "refs u i = (case GetClaim u True i of Inl e \<Rightarrow> [] | Inr c \<Rightarrow> refsOf c)"

text \<open>No claim of the closure is missing or unreadable.\<close>

definition gapFree :: "uni \<Rightarrow> ident list \<Rightarrow> bool" where
  "gapFree u heads = (\<forall>k. reach (refs u) heads k \<longrightarrow> (\<exists>c. GetClaim u True k = Inr c))"

section \<open>Lookup (\<open>GetFromClosure\<close>, \<open>InClosure\<close>)\<close>

definition lookupStep :: "uni \<Rightarrow> ident \<Rightarrow> unit \<Rightarrow> ident \<Rightarrow> (claim result, unit, ident) act" where
  "lookupStep u i s cur =
     (if cur = i then Halt (GetClaim u False i)
      else case GetClaim u True cur of
          Inl e \<Rightarrow> Halt (Inl e)
        | Inr c \<Rightarrow> More () (refsOf c))"

definition lookupWalk :: "uni \<Rightarrow> ident list \<Rightarrow> ident \<Rightarrow> claim result" where
  "lookupWalk u heads i =
     (case drain (uStored u) (\<lambda>k. k) (lookupStep u i) [] () heads of
        Inl r \<Rightarrow> r
      | Inr _ \<Rightarrow> Inl (StoreErr ErrNotFound))"

text \<open>The tagged claim of a named branch, the fast path.\<close>

definition tagged :: "uni \<Rightarrow> string \<Rightarrow> ident \<Rightarrow> claim option" where
  "tagged u branch i =
     (if namedBranch branch then
        (case GetClaim u False i of
           Inr c \<Rightarrow> if Tag c (BranchTagKey branch) \<noteq> [] then Some c else None
         | Inl e \<Rightarrow> None)
      else None)"

definition GetFromClosure :: "uni \<Rightarrow> string \<Rightarrow> ident list \<Rightarrow> ident \<Rightarrow> claim result" where
  "GetFromClosure u branch heads i =
     (if i = [] then Inl (KeyErr errNilID)
      else case tagged u branch i of
          Some c \<Rightarrow> Inr c
        | None \<Rightarrow> lookupWalk u (filter (\<lambda>h. h \<noteq> []) heads) i)"

definition InClosure :: "uni \<Rightarrow> string \<Rightarrow> ident list \<Rightarrow> ident \<Rightarrow> bool result" where
  "InClosure u branch heads i =
     (case GetFromClosure u branch heads i of
        Inl e \<Rightarrow> if errorsIs e (StoreErr ErrNotFound) then Inr False else Inl e
      | Inr c \<Rightarrow> Inr True)"

section \<open>Branch membership in bulk (\<open>DefaultClaimsInBranches\<close>)\<close>

text \<open>
  \<open>want\<close> maps an id to its position in the answer; \<open>out\<close> is the answer so far. The
  map of branches is a list in its iteration order.
\<close>

type_synonym marking = "(ident \<times> nat) list \<times> bool list"

definition wantMap :: "ident list \<Rightarrow> (ident \<times> nat) list" where
  "wantMap ids =
     fold (\<lambda>(i, k) m. if i \<noteq> [] then AList.update i k m else m) (zip ids [0..<length ids]) []"

definition markStep :: "uni \<Rightarrow> marking \<Rightarrow> ident \<Rightarrow> (marking, marking, ident) act" where
  "markStep u wo cur =
     (let (want, out) = wo;
          hit = map_of want cur;
          want' = (case hit of None \<Rightarrow> want | Some k \<Rightarrow> AList.delete cur want);
          out' = (case hit of None \<Rightarrow> out | Some k \<Rightarrow> out[k := True])
      in if hit \<noteq> None \<and> want' = [] then Halt (want', out')
         else case GetClaim u True cur of
             Inl e \<Rightarrow> More (want', out') []
           | Inr c \<Rightarrow> More (want', out') (refsOf c))"

definition markClosure :: "uni \<Rightarrow> ident \<Rightarrow> marking \<Rightarrow> marking" where
  "markClosure u head wo =
     (case drain (uStored u) (\<lambda>k. k) (markStep u) [] wo [head] of
        Inl wo' \<Rightarrow> wo'
      | Inr (wo', _) \<Rightarrow> wo')"

fun markBranches :: "uni \<Rightarrow> ident list \<Rightarrow> marking \<Rightarrow> marking" where
  "markBranches u [] wo = wo"
| "markBranches u (h # hs) wo =
     (if fst wo = [] then wo else markBranches u hs (markClosure u h wo))"

definition DefaultClaimsInBranches :: "uni \<Rightarrow> (string \<times> ident) list \<Rightarrow> ident list \<Rightarrow> bool list result" where
  "DefaultClaimsInBranches u branches ids =
     Inr (snd (markBranches u (map snd branches) (wantMap ids, replicate (length ids) False)))"

section \<open>The scope of a read (\<open>confine\<close>)\<close>

record scope =
  scBranch :: string
  scHead :: ident
  scHeight :: u64
  scRevision :: int

record confinement =
  cfRoot :: ident
  cfTagKey :: string
  cfHeight :: u64
  cfMembers :: "ident list"

text \<open>\<open>strconv.ParseUint(v, 10, 64)\<close>: decimal digits only, within 64 bits.\<close>

definition parseUint :: "string \<Rightarrow> u64 option" where
  "parseUint s =
     (if s = [] \<or> \<not> list_all isDigit s then None
      else if decVal s < 2 ^ 64 then Some (word_of_int (decVal s)) else None)"

definition admits :: "confinement option \<Rightarrow> claim \<Rightarrow> bool" where
  "admits conf c =
     (case conf of None \<Rightarrow> True
      | Some cf \<Rightarrow>
          if cfTagKey cf = [] then ID c \<in> set (cfMembers cf)
          else
            let v = Tag c (cfTagKey cf) in
              if v = [] then False
              else case parseUint v of None \<Rightarrow> False | Some at \<Rightarrow> at \<le> cfHeight cf)"

text \<open>The tags capability of the Universe is an argument.\<close>

definition tagConfinement :: "uni \<Rightarrow> bool \<Rightarrow> scope \<Rightarrow> confinement option result" where
  "tagConfinement u tagsKept sc =
     (if \<not> namedBranch (scBranch sc) \<or> \<not> tagsKept then Inr None
      else
        let key = BranchTagKey (scBranch sc) in
        rbind (GetTag u (scHead sc) key) (\<lambda>(found, _).
          Inr (if found then Some \<lparr>cfRoot = scHead sc, cfTagKey = key, cfHeight = scHeight sc, cfMembers = []\<rparr>
               else None)))"

definition sweepStep :: "uni \<Rightarrow> unit \<Rightarrow> ident \<Rightarrow> (err, unit, ident) act" where
  "sweepStep u s cur =
     (case GetClaim u False cur of
        Inl e \<Rightarrow> Halt (Wrap (QueryErr errQuery) e)
      | Inr c \<Rightarrow> More () (refsOf c))"

definition confine :: "uni \<Rightarrow> bool \<Rightarrow> scope \<Rightarrow> confinement option result" where
  "confine u tagsKept sc =
     (if scHead sc = [] then Inr None
      else rbind (tagConfinement u tagsKept sc) (\<lambda>t.
        case t of Some cf \<Rightarrow> Inr (Some cf)
        | None \<Rightarrow>
            (case drain (uStored u) (\<lambda>k. k) (sweepStep u) [] () [scHead sc] of
               Inl e \<Rightarrow> Inl e
             | Inr (_, members) \<Rightarrow>
                 Inr (Some \<lparr>cfRoot = scHead sc, cfTagKey = [], cfHeight = 0, cfMembers = members\<rparr>))))"

section \<open>The height cache\<close>

text \<open>A nil cache is \<open>None\<close>: it misses and keeps nothing.\<close>

type_synonym heightCache = "(ident \<times> u64) list option"

definition hcNote :: "heightCache \<Rightarrow> ident \<Rightarrow> u64 \<Rightarrow> heightCache" where
  "hcNote c i h =
     (case c of None \<Rightarrow> None
      | Some m \<Rightarrow> if i = [] then c else if has m i then c else Some (AList.update i h m))"

definition hcNoteClaims :: "heightCache \<Rightarrow> claim option list \<Rightarrow> heightCache" where
  "hcNoteClaims c cs =
     fold (\<lambda>cl c. case cl of None \<Rightarrow> c | Some x \<Rightarrow> hcNote c (ID x) (claimHeight x)) cs c"

definition hcGet :: "heightCache \<Rightarrow> ident \<Rightarrow> u64 option" where
  "hcGet c i = (case c of None \<Rightarrow> None | Some m \<Rightarrow> if i = [] then None else map_of m i)"

text \<open>The hits in place, the loaded heights in the places that missed.\<close>

fun fillMisses :: "heightCache \<Rightarrow> ident list \<Rightarrow> u64 list \<Rightarrow> u64 list" where
  "fillMisses c [] hs = []"
| "fillMisses c (i # ids) hs =
     (case hcGet c i of
        Some h \<Rightarrow> h # fillMisses c ids hs
      | None \<Rightarrow> (case hs of [] \<Rightarrow> 0 # fillMisses c ids [] | h # hs' \<Rightarrow> h # fillMisses c ids hs'))"

definition hcGetClaimHeights :: "heightCache \<Rightarrow> uni \<Rightarrow> ident list \<Rightarrow> u64 list result \<times> heightCache" where
  "hcGetClaimHeights c u ids =
     (let misses = filter (\<lambda>i. hcGet c i = None) ids in
        if misses = [] then (Inr (fillMisses c ids []), c)
        else case DefaultGetClaimHeights (uGetClaims u) misses of
            Inl e \<Rightarrow> (Inl e, c)
          | Inr hs \<Rightarrow>
              (Inr (fillMisses c ids hs), fold (\<lambda>(i, h) c. hcNote c i h) (zip misses hs) c))"

section \<open>Copying (\<open>DefaultCopyClaims\<close>, \<open>DefaultCopyContents\<close>, \<open>DefaultSync\<close>)\<close>

text \<open>
  The receiving Universe, as the operations the walkers call on it. The progress callback is
  left out; the copy options are the two flags.
\<close>

record 's sink =
  kHasClaim :: "'s \<Rightarrow> ident \<Rightarrow> bool result"
  kPutClaim :: "'s \<Rightarrow> claim \<Rightarrow> 's \<times> unit result"
  kHasContent :: "'s \<Rightarrow> ident \<Rightarrow> bool result"
  kPutContent :: "'s \<Rightarrow> ident \<Rightarrow> bytes \<Rightarrow> 's \<times> unit result"

definition memSink :: "lib \<Rightarrow> memoryUniverse sink" where
  "memSink L =
     \<lparr>kHasClaim = (\<lambda>m i. HasClaim (memUni L m) i),
      kPutClaim = (\<lambda>m c. memPutClaims m [Some c]),
      kHasContent = (\<lambda>m h. HasContent (memUni L m) (Some h)),
      kPutContent = (\<lambda>m h b. memPutContents m [(Some h, b)])\<rparr>"

record copyConfig =
  ccClosure :: bool
  ccContent :: bool

text \<open>One blob fetched from the source and stored, an error keeping the state it left.\<close>

definition copyBlob :: "err \<Rightarrow> 's sink \<Rightarrow> uni \<Rightarrow> 's \<Rightarrow> ident \<Rightarrow> u64 \<Rightarrow> 's \<times> unit result" where
  "copyBlob op k src s h sz =
     (case rbind (uGetContents src [\<lparr>refHash = Some h, refSize = sz\<rparr>]) first of
        Inl e \<Rightarrow> (s, Inl (Wrap op e))
      | Inr b \<Rightarrow> (let (s', r) = kPutContent k s h b in (s', wrapping op r)))"

definition copyStep :: "'s sink \<Rightarrow> uni \<Rightarrow> copyConfig \<Rightarrow> 's \<Rightarrow> ident \<Rightarrow> (err \<times> 's, 's, ident) act" where
  "copyStep k src cfg s cur =
     (case kHasClaim k s cur of
        Inl e \<Rightarrow> Halt (Wrap (QueryErr errCopyClaims) e, s)
      | Inr True \<Rightarrow> More s []
      | Inr False \<Rightarrow>
          (case GetClaim src False cur of
             Inl e \<Rightarrow> Halt (Wrap (QueryErr errCopyClaims) e, s)
           | Inr c \<Rightarrow>
               (case kPutClaim k s c of
                  (s1, Inl e) \<Rightarrow> Halt (Wrap (QueryErr errCopyClaims) e, s1)
                | (s1, Inr _) \<Rightarrow>
                    (case (if ccContent cfg \<and> nodeContentKind (claimNode c) = ContentExternal
                           then copyBlob (QueryErr errCopyClaims) k src s1
                                  (the (contentHash (contentSource (claimNode c))))
                                  (contentSize (contentSource (claimNode c)))
                           else (s1, Inr ())) of
                       (s2, Inl e) \<Rightarrow> Halt (e, s2)
                     | (s2, Inr _) \<Rightarrow> More s2 (if ccClosure cfg then refsOf c else [])))))"

definition DefaultCopyClaims ::
    "'s sink \<Rightarrow> uni option \<Rightarrow> copyConfig \<Rightarrow> 's \<Rightarrow> ident list \<Rightarrow> 's \<times> unit result" where
  "DefaultCopyClaims k src cfg s ids =
     (case src of None \<Rightarrow> (s, Inl (QueryErr errCopyClaims))
      | Some u \<Rightarrow>
          if [] \<in> set ids then (s, Inl (QueryErr errCopyClaims))
          else case drain (uStored u) (\<lambda>q. q) (copyStep k u cfg) [] s ids of
              Inl (e, s') \<Rightarrow> (s', Inl e)
            | Inr (s', _) \<Rightarrow> (s', Inr ()))"

fun copyRefs :: "'s sink \<Rightarrow> uni \<Rightarrow> 's \<Rightarrow> contentRef list \<Rightarrow> 's \<times> unit result" where
  "copyRefs k src s [] = (s, Inr ())"
| "copyRefs k src s (r # rs) =
     (case refHash r of None \<Rightarrow> (s, Inl (QueryErr errCopyContents))
      | Some h \<Rightarrow>
          (case kHasContent k s h of
             Inl e \<Rightarrow> (s, Inl (Wrap (QueryErr errCopyContents) e))
           | Inr True \<Rightarrow> copyRefs k src s rs
           | Inr False \<Rightarrow>
               (case copyBlob (QueryErr errCopyContents) k src s h (refSize r) of
                  (s', Inl e) \<Rightarrow> (s', Inl e)
                | (s', Inr _) \<Rightarrow> copyRefs k src s' rs)))"

definition DefaultCopyContents :: "'s sink \<Rightarrow> uni option \<Rightarrow> 's \<Rightarrow> contentRef list \<Rightarrow> 's \<times> unit result" where
  "DefaultCopyContents k src s rs =
     (case src of None \<Rightarrow> (s, Inl (QueryErr errCopyContents)) | Some u \<Rightarrow> copyRefs k u s rs)"

definition DefaultSync :: "'s sink \<Rightarrow> uni option \<Rightarrow> 's \<Rightarrow> ident \<Rightarrow> 's \<times> ident result" where
  "DefaultSync k src s i =
     (case src of None \<Rightarrow> (s, Inr i)
      | Some u \<Rightarrow>
          (case DefaultCopyClaims k (Some u) \<lparr>ccClosure = True, ccContent = True\<rparr> s [i] of
             (s', Inl e) \<Rightarrow> (s', Inl e)
           | (s', Inr _) \<Rightarrow> (s', Inr i)))"

section \<open>What a lookup answers\<close>

context universe
begin

lemma refs_delta: "GetClaim u True k = Inr c \<Longrightarrow> refs u k = refsOf c"
  by (simp add: refs_def)

lemma lookupStep_succ:
  "lookupStep u i s q = More s' qs \<Longrightarrow>
     (\<lambda>q. q) ` set (if q \<in> set (uStored u) then qs else []) - {[]} = set (refs u q) - {[]}"
  by (auto simp: lookupStep_def refs_delta split: if_splits sum.splits dest: get_held)

lemma lookupWalk_cases:
  "case drain (uStored u) (\<lambda>k. k) (lookupStep u i) [] () heads of
      Inr (s, seen) \<Rightarrow> \<not> reach (refs u) heads i
    | Inl r \<Rightarrow> \<exists>q. reach (refs u) heads q \<and> lookupStep u i () q = Halt r"
proof -
  have "case drain (uStored u) (\<lambda>k. k) (lookupStep u i) [] () heads of
      Inr (s, seen) \<Rightarrow> set seen = {k. reach (refs u) heads k} \<and> i \<notin> set seen
    | Inl r \<Rightarrow> (\<exists>seen s q. i \<notin> set seen \<and> set seen \<subseteq> {k. reach (refs u) heads k} \<and> q \<notin> set seen \<and>
        reach (refs u) heads q \<and> lookupStep u i s q = Halt r)"
    by (rule drain_reach[where J = "\<lambda>seen s. i \<notin> set seen"])
       (auto simp: lookupStep_succ[simplified], auto simp: lookupStep_def split: if_splits)
  then show ?thesis by (auto split: sum.splits prod.splits)
qed

lemma lookupStep_Halt:
  "lookupStep u i s q = Halt r \<longleftrightarrow>
     (if q = i then r = GetClaim u False i else \<exists>e. GetClaim u True q = Inl e \<and> r = Inl e)"
  by (auto simp: lookupStep_def split: sum.split)

lemma lookupWalk_sound:
  assumes "lookupWalk u heads i = Inr c"
  shows "reach (refs u) heads i \<and> GetClaim u False i = Inr c"
  using assms lookupWalk_cases[of heads i]
  by (auto simp: lookupWalk_def lookupStep_Halt split: sum.splits prod.splits split del: if_split)
     (auto split: if_splits)

lemma lookupWalk_complete:
  assumes "gapFree u heads"
  shows "lookupWalk u heads i =
    (if reach (refs u) heads i then GetClaim u False i else Inl (StoreErr ErrNotFound))"
proof (cases "drain (uStored u) (\<lambda>k. k) (lookupStep u i) [] () heads")
  case (Inl r)
  then obtain q where q: "reach (refs u) heads q" "lookupStep u i () q = Halt r"
    using lookupWalk_cases[of heads i] by auto
  then have "q = i" "r = GetClaim u False i"
    using assms by (auto simp: lookupStep_Halt gapFree_def split: if_splits)
  then show ?thesis using q(1) Inl by (simp add: lookupWalk_def)
next
  case (Inr x)
  then show ?thesis
    using lookupWalk_cases[of heads i] by (cases x) (simp add: lookupWalk_def)
qed

lemma reach_filter_nil: "reach f (filter (\<lambda>h. h \<noteq> []) heads) k \<longleftrightarrow> reach f heads k"
proof
  show "reach f heads k \<Longrightarrow> reach f (filter (\<lambda>h. h \<noteq> []) heads) k"
    by (induction rule: reach.induct) (auto intro: reach.intros)
qed (rule reach_mono, auto)

lemma GetFromClosure_sound:
  assumes "GetFromClosure u branch heads i = Inr c"
  shows "GetClaim u False i = Inr c \<and>
    (reach (refs u) heads i \<or> namedBranch branch \<and> Tag c (BranchTagKey branch) \<noteq> [])"
  using assms
  by (auto simp: GetFromClosure_def tagged_def reach_filter_nil dest!: lookupWalk_sound
      split: if_splits option.splits sum.splits)

lemma gapFree_filter: "gapFree u (filter (\<lambda>h. h \<noteq> []) heads) \<longleftrightarrow> gapFree u heads"
  by (simp add: gapFree_def reach_filter_nil)

lemma InClosure_exact:
  assumes "gapFree u heads" "GetClaim u False i = Inr c" "tagged u branch i = None"
  shows "InClosure u branch heads i = Inr (reach (refs u) heads i)"
proof -
  have "i \<noteq> []" using get_id[OF assms(2)] by simp
  then show ?thesis
    using assms lookupWalk_complete[of "filter (\<lambda>h. h \<noteq> []) heads" i]
    by (simp add: InClosure_def GetFromClosure_def gapFree_filter reach_filter_nil)
qed

section \<open>What the bulk membership answers\<close>

text \<open>
  \<open>marked0 hs out0\<close>: position \<open>k\<close> is set when it was, or when the id that asks for it
  is in a closure walked so far; the ids still wanted are those in none of them.
\<close>

definition markInv :: "(ident \<times> nat) list \<Rightarrow> bool list \<Rightarrow> (ident \<Rightarrow> bool) \<Rightarrow> marking \<Rightarrow> bool" where
  "markInv want0 out0 P wo =
     (wfMap (fst wo) \<and> length (snd wo) = length out0 \<and>
      (\<forall>i. map_of (fst wo) i = (if P i then None else map_of want0 i)) \<and>
      (\<forall>k < length out0. snd wo ! k \<longleftrightarrow> out0 ! k \<or> (\<exists>i. map_of want0 i = Some k \<and> P i)))"

lemma markStep_inv:
  assumes "markInv want0 out0 P wo" "\<forall>i k. map_of want0 i = Some k \<longrightarrow> k < length out0"
  shows "case markStep u wo q of
      Halt wo' \<Rightarrow> markInv want0 out0 (\<lambda>i. P i \<or> i = q) wo' \<and> fst wo' = []
    | More wo' qs \<Rightarrow> markInv want0 out0 (\<lambda>i. P i \<or> i = q) wo'"
proof -
  obtain want out where wo: "wo = (want, out)" by fastforce
  have hit: "map_of want q = (if P q then None else map_of want0 q)"
    using assms(1) by (simp add: markInv_def wo)
  let ?w = "case map_of want q of None \<Rightarrow> want | Some k \<Rightarrow> AList.delete q want"
  let ?o = "case map_of want q of None \<Rightarrow> out | Some k \<Rightarrow> out[k := True]"
  have new: "markInv want0 out0 (\<lambda>i. P i \<or> i = q) (?w, ?o)"
  proof (cases "map_of want q")
    case None
    then have "P q \<or> map_of want0 q = None" using hit by (auto split: if_splits)
    then show ?thesis using assms(1) None by (auto simp: markInv_def wo)
  next
    case (Some k)
    then have k: "map_of want0 q = Some k" using hit by (auto split: if_splits)
    then have "k < length out0" using assms(2) by blast
    then show ?thesis
      using assms(1) Some k
      by (auto simp: markInv_def wo delete_conv' nth_list_update split: if_splits)
  qed
  then show ?thesis
    by (auto simp: markStep_def wo Let_def split: sum.split)
qed

lemma markInv_empty:
  "markInv want0 out0 P wo \<Longrightarrow> fst wo = [] \<Longrightarrow> (\<And>i. P i \<Longrightarrow> Q i) \<Longrightarrow> markInv want0 out0 Q wo"
  unfolding markInv_def by (auto split: if_splits)

lemma markInv_cong: "(\<And>i. P i = Q i) \<Longrightarrow> markInv want0 out0 P wo \<longleftrightarrow> markInv want0 out0 Q wo"
  by (simp add: markInv_def)

lemma markStep_succ:
  "markStep u wo q = More wo' qs \<Longrightarrow>
     (\<lambda>q. q) ` set (if q \<in> set (uStored u) then qs else []) - {[]} = set (refs u q) - {[]}"
  by (auto simp: markStep_def refs_def Let_def split: if_splits sum.splits prod.splits dest: get_held)

lemma markClosure_inv:
  assumes "markInv want0 out0 P wo" "\<forall>i k. map_of want0 i = Some k \<longrightarrow> k < length out0"
  shows "markInv want0 out0 (\<lambda>i. P i \<or> reach (refs u) [h] i) (markClosure u h wo)"
proof -
  define J where "J seen wo = markInv want0 out0 (\<lambda>i. P i \<or> i \<in> set seen) wo" for seen wo
  have d: "case drain (uStored u) (\<lambda>k. k) (markStep u) [] wo [h] of
      Inr (wo', seen) \<Rightarrow> set seen = {k. reach (refs u) [h] k} \<and> J seen wo'
    | Inl r \<Rightarrow> (\<exists>seen s q. J seen s \<and> set seen \<subseteq> {k. reach (refs u) [h] k} \<and> q \<notin> set seen \<and>
        reach (refs u) [h] q \<and> markStep u s q = Halt r)"
  proof (rule drain_reach[where key = "\<lambda>k. k" and J = J], goal_cases)
    case (1 seen s q s' qs)
    then show ?case using markStep_succ by blast
  next
    case 2
    then show ?case using assms(1) by (simp add: J_def)
  next
    case (3 seen s q s' qs)
    then show ?case
      using markStep_inv[of want0 out0 "\<lambda>i. P i \<or> i \<in> set seen" s q] assms(2)
      by (simp add: J_def) (erule markInv_cong[THEN iffD1, rotated], auto)
  qed simp
  show ?thesis
  proof (cases "drain (uStored u) (\<lambda>k. k) (markStep u) [] wo [h]")
    case (Inr x)
    obtain wo' seen where x: "x = (wo', seen)" by fastforce
    have s: "set seen = {k. reach (refs u) [h] k}" and J: "J seen wo'" using d by (auto simp: Inr x)
    show ?thesis using J by (simp add: markClosure_def Inr x J_def s)
  next
    case (Inl r)
    then obtain seen s q where q: "J seen s" "set seen \<subseteq> {k. reach (refs u) [h] k}"
        "reach (refs u) [h] q" "markStep u s q = Halt r"
      using d by auto
    have "markInv want0 out0 (\<lambda>i. (P i \<or> i \<in> set seen) \<or> i = q) r \<and> fst r = []"
      using markStep_inv[OF q(1)[unfolded J_def] assms(2), of q] by (simp add: q(4))
    then have "markInv want0 out0 (\<lambda>i. P i \<or> reach (refs u) [h] i) r"
      using q(2,3) by (auto elim!: markInv_empty)
    then show ?thesis by (simp add: markClosure_def Inl)
  qed
qed

lemma markBranches_inv:
  assumes "markInv want0 out0 P wo" "\<forall>i k. map_of want0 i = Some k \<longrightarrow> k < length out0"
  shows "markInv want0 out0 (\<lambda>i. P i \<or> (\<exists>h \<in> set hs. reach (refs u) [h] i)) (markBranches u hs wo)"
  using assms(1)
proof (induction hs arbitrary: P wo)
  case (Cons h hs)
  show ?case
  proof (cases "fst wo = []")
    case True
    then show ?thesis using Cons.prems by (auto elim: markInv_empty)
  next
    case False
    show ?thesis
      using Cons.IH[OF markClosure_inv[OF Cons.prems assms(2), of h]] False
      by (simp add: disj_assoc)
  qed
qed simp

end

text \<open>The position an id is answered at: its last one.\<close>

lemma wantMap_fold:
  "map_of (fold (\<lambda>(i, k) m. if i \<noteq> [] then AList.update i k m else m) ps m) i =
     (case map_of (rev ps) i of Some k \<Rightarrow> if i \<noteq> [] then Some k else map_of m i | None \<Rightarrow> map_of m i)"
  by (induction ps arbitrary: m)
     (auto simp: update_conv' map_add_def map_add_Some_iff split: option.splits if_splits)

lemma wantMap_wf: "wfMap m \<Longrightarrow>
    wfMap (fold (\<lambda>(i, k) m. if i \<noteq> [] then AList.update i k m else m) ps m)"
  by (induction ps arbitrary: m) auto

lemma map_of_rev_zip:
  "map_of (rev (zip xs [0..<length xs])) x = Some k \<longleftrightarrow>
     k < length xs \<and> xs ! k = x \<and> (\<forall>j. k < j \<longrightarrow> j < length xs \<longrightarrow> xs ! j \<noteq> x)"
proof (induction xs rule: rev_induct)
  case (snoc y xs)
  then show ?case
    by (auto simp: nth_append less_Suc_eq split: if_splits)
qed simp

lemma map_of_wantMap:
  "map_of (wantMap ids) i = Some k \<longleftrightarrow>
     i \<noteq> [] \<and> k < length ids \<and> ids ! k = i \<and> (\<forall>j. k < j \<longrightarrow> j < length ids \<longrightarrow> ids ! j \<noteq> i)"
proof -
  have "map_of (wantMap ids) i = (if i \<noteq> [] then map_of (rev (zip ids [0..<length ids])) i else None)"
    by (auto simp: wantMap_def wantMap_fold split: option.split)
  then show ?thesis by (auto simp: map_of_rev_zip)
qed

context universe
begin

lemma DefaultClaimsInBranches_exact:
  assumes "DefaultClaimsInBranches u branches ids = Inr out"
  shows "length out = length ids"
    "k < length ids \<Longrightarrow> out ! k \<longleftrightarrow>
       ids ! k \<noteq> [] \<and> (\<forall>j. k < j \<longrightarrow> j < length ids \<longrightarrow> ids ! j \<noteq> ids ! k) \<and>
       (\<exists>p \<in> set branches. reach (refs u) [snd p] (ids ! k))"
proof -
  let ?w = "wantMap ids" and ?o = "replicate (length ids) False"
  have "markInv ?w ?o (\<lambda>i. False) (?w, ?o)"
    by (simp add: markInv_def wantMap_def wantMap_wf)
  from markBranches_inv[OF this, of "map snd branches"]
  have m: "markInv ?w ?o (\<lambda>i. \<exists>h \<in> set (map snd branches). reach (refs u) [h] i)
      (markBranches u (map snd branches) (?w, ?o))"
    by (auto simp: map_of_wantMap)
  have out: "out = snd (markBranches u (map snd branches) (?w, ?o))"
    using assms by (simp add: DefaultClaimsInBranches_def)
  show "length out = length ids" using m by (simp add: out markInv_def)
  show "out ! k \<longleftrightarrow> ids ! k \<noteq> [] \<and> (\<forall>j. k < j \<longrightarrow> j < length ids \<longrightarrow> ids ! j \<noteq> ids ! k) \<and>
       (\<exists>p \<in> set branches. reach (refs u) [snd p] (ids ! k))" if "k < length ids"
    using m that by (auto simp: out markInv_def map_of_wantMap)
qed

end

section \<open>The scope of a read is the closure of its head\<close>

definition refsM :: "uni \<Rightarrow> ident \<Rightarrow> ident list" where
  "refsM u i = (case GetClaim u False i of Inl e \<Rightarrow> [] | Inr c \<Rightarrow> refsOf c)"

lemma tagConfinement_tagged:
  "tagConfinement u b sc = Inr (Some cf) \<Longrightarrow> cfTagKey cf \<noteq> []"
  by (auto simp: tagConfinement_def rbind_eq_Inr BranchTagKey_def Let_def split: if_splits)

context universe
begin

lemma sweep_exact:
  assumes "drain (uStored u) (\<lambda>k. k) (sweepStep u) [] () heads = Inr (s, seen)"
  shows "set seen = {k. reach (refsM u) heads k} \<and> (\<forall>k \<in> set seen. \<exists>c. GetClaim u False k = Inr c)"
proof -
  have "case drain (uStored u) (\<lambda>k. k) (sweepStep u) [] () heads of
      Inr (s, seen) \<Rightarrow> set seen = {k. reach (refsM u) heads k} \<and>
        (\<forall>k \<in> set seen. \<exists>c. GetClaim u False k = Inr c)
    | Inl r \<Rightarrow> (\<exists>seen s q. (\<forall>k \<in> set seen. \<exists>c. GetClaim u False k = Inr c) \<and>
        set seen \<subseteq> {k. reach (refsM u) heads k} \<and> q \<notin> set seen \<and>
        reach (refsM u) heads q \<and> sweepStep u s q = Halt r)"
  proof (rule drain_reach[where key = "\<lambda>k. k" and
        J = "\<lambda>seen s. \<forall>k \<in> set seen. \<exists>c. GetClaim u False k = Inr c"], goal_cases)
    case (1 seen s q s' qs)
    then show ?case by (auto simp: sweepStep_def refsM_def split: sum.splits dest: get_held)
  next
    case (3 seen s q s' qs)
    then show ?case by (auto simp: sweepStep_def split: sum.splits)
  qed simp_all
  then show ?thesis by (simp add: assms)
qed

lemma confine_exact:
  assumes "confine u tagsKept sc = Inr (Some cf)" "cfTagKey cf = []"
  shows "admits (Some cf) c \<longleftrightarrow> reach (refsM u) [scHead sc] (ID c)"
proof -
  obtain s where "drain (uStored u) (\<lambda>k. k) (sweepStep u) [] () [scHead sc] = Inr (s, cfMembers cf)"
    using assms
    by (auto simp: confine_def rbind_eq_Inr dest: tagConfinement_tagged split: if_splits option.splits sum.splits)
  from sweep_exact[OF this] show ?thesis using assms(2) by (auto simp: admits_def)
qed

lemma confine_none: "confine u tagsKept sc = Inr None \<longleftrightarrow> scHead sc = []"
  by (auto simp: confine_def rbind_eq_Inr split: if_splits option.splits sum.splits)

end

section \<open>The height cache answers what the store would\<close>

definition hcOk :: "uni \<Rightarrow> heightCache \<Rightarrow> bool" where
  "hcOk u c = (\<forall>i h d. hcGet c i = Some h \<longrightarrow> GetClaim u True i = Inr d \<longrightarrow> h = claimHeight d)"

lemma hcGet_Note: "hcGet (hcNote c i h) j = (if c \<noteq> None \<and> j = i \<and> i \<noteq> [] \<and> hcGet c i = None then Some h else hcGet c j)"
  by (auto simp: hcGet_def hcNote_def has_def update_conv' split: option.splits)

lemma hcOk_Note: "hcOk u c \<Longrightarrow> (\<And>d. GetClaim u True i = Inr d \<Longrightarrow> h = claimHeight d) \<Longrightarrow> hcOk u (hcNote c i h)"
  by (auto simp: hcOk_def hcGet_Note split: if_splits)

lemma hcOk_empty: "hcOk u None" "hcOk u (Some [])"
  by (auto simp: hcOk_def hcGet_def)

context universe
begin

lemma hcOk_fold:
  assumes "hcOk u c" "list_all2 (\<lambda>i h. \<exists>d. GetClaim u True i = Inr d \<and> h = claimHeight d) ks hs"
  shows "hcOk u (fold (\<lambda>(i, h) c. hcNote c i h) (zip ks hs) c)"
  using assms(2,1)
proof (induction arbitrary: c rule: list_all2_induct)
  case (Cons i ks h hs)
  have "hcOk u (hcNote c i h)"
    by (rule hcOk_Note) (use Cons.prems Cons.hyps(1) in auto)
  then show ?case using Cons.IH by simp
qed simp

lemma DefaultGetClaimHeights_ok:
  "DefaultGetClaimHeights (uGetClaims u) ids = Inr hs \<Longrightarrow>
     list_all2 (\<lambda>i h. \<exists>d. GetClaim u True i = Inr d \<and> h = claimHeight d) ids hs"
  by (auto simp: DefaultGetClaimHeights_def rbind_eq_Inr get_bulk list_all2_conv_all_nth)

lemma fillMisses_ok:
  assumes "hcOk u c"
    "list_all2 (\<lambda>i h. \<exists>d. GetClaim u True i = Inr d \<and> h = claimHeight d) (filter (\<lambda>i. hcGet c i = None) ids) hs"
  shows "list_all2 (\<lambda>i h. \<forall>d. GetClaim u True i = Inr d \<longrightarrow> h = claimHeight d) ids (fillMisses c ids hs)"
  using assms(2)
proof (induction ids arbitrary: hs)
  case (Cons i ids)
  show ?case
  proof (cases "hcGet c i")
    case None
    then show ?thesis using Cons by (auto simp: list_all2_Cons1)
  next
    case (Some h)
    then show ?thesis using Cons assms(1) by (auto simp: hcOk_def)
  qed
qed simp

lemma hcGetClaimHeights_ok:
  assumes "hcOk u c" "hcGetClaimHeights c u ids = (r, c')"
  shows "hcOk u c' \<and> (\<forall>hs. r = Inr hs \<longrightarrow>
    list_all2 (\<lambda>i h. \<forall>d. GetClaim u True i = Inr d \<longrightarrow> h = claimHeight d) ids hs)"
  using assms fillMisses_ok[OF assms(1)] hcOk_fold[OF assms(1)] DefaultGetClaimHeights_ok
  by (auto simp: hcGetClaimHeights_def Let_def split: if_splits sum.splits)

end

section \<open>What a copy leaves\<close>

text \<open>
  The contract of a receiver: what it holds, and what a put adds. A failed put promises
  nothing.
\<close>

locale receiver =
  fixes k :: "'s sink" and held :: "'s \<Rightarrow> ident set" and blobs :: "'s \<Rightarrow> ident set"
  assumes has_claim: "kHasClaim k s i = Inr b \<Longrightarrow> b \<longleftrightarrow> i \<in> held s"
    and put_claim: "kPutClaim k s c = (s', Inr v) \<Longrightarrow> held s' = insert (ID c) (held s) \<and> blobs s' = blobs s"
    and has_blob: "kHasContent k s h = Inr b \<Longrightarrow> b \<longleftrightarrow> h \<in> blobs s"
    and put_blob: "kPutContent k s h bs = (s', Inr v) \<Longrightarrow> held s' = held s \<and> blobs s' = insert h (blobs s)"

definition memHeld :: "memoryUniverse \<Rightarrow> ident set" where
  "memHeld m = set (keys (mClaims m)) - {[]}"

interpretation memRecv: receiver "memSink L" memHeld "\<lambda>m. set (keys (mContent m))" for L
proof (unfold_locales, goal_cases)
  case (1 s i b)
  then show ?case
    by (auto simp: memSink_def HasClaim_def memUni_def memHasClaims_def memHeld_def has_iff_keys)
next
  case (2 s c s' v)
  then show ?case
    by (auto simp: memSink_def memHeld_def split: if_splits sum.splits)
next
  case (3 s h b)
  then show ?case by (auto simp: memSink_def HasContent_def memUni_def memHasContents_def has_iff_keys)
next
  case (4 s h bs s' v)
  then show ?case by (auto simp: memSink_def memHeld_def)
qed

text \<open>The external content a claim's node carries.\<close>

definition externalHash :: "claim \<Rightarrow> ident option" where
  "externalHash c =
     (if nodeContentKind (claimNode c) = ContentExternal then contentHash (contentSource (claimNode c))
      else None)"

locale copying = universe u + receiver k held blobs
  for u :: uni and k :: "'s sink" and held :: "'s \<Rightarrow> ident set" and blobs :: "'s \<Rightarrow> ident set"

context copying
begin

lemma copyBlob_ok:
  "copyBlob op k u s h sz = (s', Inr v) \<Longrightarrow> held s' = held s \<and> blobs s' = insert h (blobs s)"
  by (auto simp: copyBlob_def split: sum.splits prod.splits dest: put_blob)

lemma copyStep_More:
  assumes "copyStep k u cfg t cur = More t' qs"
  shows "if cur \<in> held t then t' = t \<and> qs = []
    else \<exists>c. GetClaim u False cur = Inr c \<and> held t' = insert cur (held t) \<and> blobs t \<subseteq> blobs t' \<and>
      qs = (if ccClosure cfg then refsOf c else []) \<and>
      (ccContent cfg \<longrightarrow> set_option (externalHash c) \<subseteq> blobs t')"
proof -
  obtain b where b: "kHasClaim k t cur = Inr b" "b \<longleftrightarrow> cur \<in> held t"
    using assms has_claim[of t cur] by (cases "kHasClaim k t cur") (simp_all add: copyStep_def)
  show ?thesis
  proof (cases b)
    case True
    then show ?thesis using assms b by (auto simp: copyStep_def)
  next
    case False
    then obtain c where c: "GetClaim u False cur = Inr c"
      using assms b(1) by (cases "GetClaim u False cur") (simp_all add: copyStep_def)
    obtain t1 r where "kPutClaim k t c = (t1, r)" by fastforce
    then have p: "kPutClaim k t c = (t1, Inr ())"
      using assms b(1) False c by (cases r) (simp_all add: copyStep_def)
    have t1: "held t1 = insert cur (held t)" "blobs t1 = blobs t"
      using put_claim[OF p] get_id[OF c] by auto
    show ?thesis
    proof (cases "ccContent cfg \<and> nodeContentKind (claimNode c) = ContentExternal")
      case True
      let ?b = "copyBlob (QueryErr errCopyClaims) k u t1 (the (contentHash (contentSource (claimNode c))))
          (contentSize (contentSource (claimNode c)))"
      obtain v where v: "?b = (t', Inr v)" and qs: "qs = (if ccClosure cfg then refsOf c else [])"
        using assms b False c p True by (auto simp: copyStep_def split: sum.splits prod.splits)
      have "set_option (externalHash c) \<subseteq> blobs t'"
        using True copyBlob_ok[OF v] by (auto simp: externalHash_def)
      then show ?thesis using copyBlob_ok[OF v] t1 c qs b(2) False by auto
    next
      case no: False
      have "t' = t1" "qs = (if ccClosure cfg then refsOf c else [])"
        using assms b False c p no by (auto simp: copyStep_def split: sum.splits prod.splits)
      moreover have "ccContent cfg \<longrightarrow> externalHash c = None" using no by (simp add: externalHash_def)
      ultimately show ?thesis using t1 c b(2) False by auto
    qed
  qed
qed

definition copyRefsOf :: "copyConfig \<Rightarrow> 's \<Rightarrow> ident \<Rightarrow> ident list" where
  "copyRefsOf cfg s i = (if i \<in> held s \<or> \<not> ccClosure cfg then [] else refsM u i)"

lemma copy_exact:
  assumes "DefaultCopyClaims k (Some u) cfg s ids = (s', Inr ())"
  shows "held s' = held s \<union> {i. reach (copyRefsOf cfg s) ids i}"
    and "ccContent cfg \<Longrightarrow> i \<in> held s' - held s \<Longrightarrow> GetClaim u False i = Inr c \<Longrightarrow>
      set_option (externalHash c) \<subseteq> blobs s'"
proof -
  define J where "J seen t \<longleftrightarrow> held t = held s \<union> set seen \<and>
      (ccContent cfg \<longrightarrow> (\<forall>i \<in> set seen - held s. \<forall>c. GetClaim u False i = Inr c \<longrightarrow>
         set_option (externalHash c) \<subseteq> blobs t))" for seen t
  obtain seen where d: "drain (uStored u) (\<lambda>q. q) (copyStep k u cfg) [] s ids = Inr (s', seen)"
    using assms by (auto simp: DefaultCopyClaims_def split: if_splits sum.splits prod.splits)
  have "case drain (uStored u) (\<lambda>q. q) (copyStep k u cfg) [] s ids of
      Inr (t, seen) \<Rightarrow> set seen = {i. reach (copyRefsOf cfg s) ids i} \<and> J seen t
    | Inl r \<Rightarrow> (\<exists>seen t q. J seen t \<and> set seen \<subseteq> {i. reach (copyRefsOf cfg s) ids i} \<and> q \<notin> set seen \<and>
        reach (copyRefsOf cfg s) ids q \<and> copyStep k u cfg t q = Halt r)"
  proof (rule drain_reach[where key = "\<lambda>q. q" and J = J], goal_cases)
    case (1 seen t q t' qs)
    then have q: "q \<in> held t \<longleftrightarrow> q \<in> held s" by (simp add: J_def)
    show ?case
    proof (cases "q \<in> held s")
      case True
      then show ?thesis using copyStep_More[OF 1(3)] q by (simp add: copyRefsOf_def)
    next
      case False
      then obtain c where "GetClaim u False q = Inr c" "qs = (if ccClosure cfg then refsOf c else [])"
        using copyStep_More[OF 1(3)] q by auto
      then show ?thesis using False by (auto simp: copyRefsOf_def refsM_def dest: get_held)
    qed
  next
    case (3 seen t q t' qs)
    then have q: "q \<in> held t \<longleftrightarrow> q \<in> held s" by (simp add: J_def)
    have seen: "i \<in> set seen - held s \<Longrightarrow> GetClaim u False i = Inr c \<Longrightarrow> ccContent cfg \<Longrightarrow>
        set_option (externalHash c) \<subseteq> blobs t" for i c
      using 3(1) by (simp add: J_def)
    show ?case
    proof (cases "q \<in> held s")
      case True
      then show ?thesis using copyStep_More[OF 3(4)] 3(1) q by (auto simp: J_def)
    next
      case False
      then obtain c where c: "GetClaim u False q = Inr c" "held t' = insert q (held t)"
          "blobs t \<subseteq> blobs t'" "ccContent cfg \<longrightarrow> set_option (externalHash c) \<subseteq> blobs t'"
        using copyStep_More[OF 3(4)] q by auto
      have "set_option (externalHash d) \<subseteq> blobs t'"
        if "i \<in> set (q # seen) - held s" "GetClaim u False i = Inr d" "ccContent cfg" for i d
        using that c seen[of i d] by (cases "i = q") auto
      then show ?thesis using c(2) 3(1) by (simp add: J_def)
    qed
  qed (simp_all add: J_def)
  then have J: "J seen s'" and s: "set seen = {i. reach (copyRefsOf cfg s) ids i}" by (simp_all add: d)
  show "held s' = held s \<union> {i. reach (copyRefsOf cfg s) ids i}" using J s by (simp add: J_def)
  show "set_option (externalHash c) \<subseteq> blobs s'"
    if "ccContent cfg" "i \<in> held s' - held s" "GetClaim u False i = Inr c"
    using J that by (auto simp: J_def)
qed

text \<open>A receiver that holds the closure of what it holds still does after a closure copy.\<close>

definition closedUnder :: "'s \<Rightarrow> bool" where
  "closedUnder s = (\<forall>i \<in> held s. \<forall>r \<in> set (refsM u i). r \<noteq> [] \<longrightarrow> r \<in> held s)"

lemma copy_closed:
  assumes "DefaultCopyClaims k (Some u) cfg s ids = (s', Inr ())" "ccClosure cfg" "closedUnder s"
  shows "closedUnder s'" "{i. reach (refsM u) ids i} \<subseteq> held s'"
proof -
  note h = copy_exact(1)[OF assms(1)]
  show c: "closedUnder s'"
    unfolding closedUnder_def h
  proof (intro ballI impI)
    fix i r assume i: "i \<in> held s \<union> {i. reach (copyRefsOf cfg s) ids i}" "r \<in> set (refsM u i)" "r \<noteq> []"
    then show "r \<in> held s \<union> {i. reach (copyRefsOf cfg s) ids i}"
      using assms(2,3) reach.step[of "copyRefsOf cfg s" ids i r]
      by (cases "i \<in> held s") (auto simp: closedUnder_def copyRefsOf_def)
  qed
  show "{i. reach (refsM u) ids i} \<subseteq> held s'"
  proof
    fix i assume "i \<in> {i. reach (refsM u) ids i}"
    then have "reach (refsM u) ids i" by simp
    then show "i \<in> held s'"
    proof (rule reach_least)
      show "r \<in> held s'" if "r \<in> set ids" "r \<noteq> []" for r
        using that h by (auto intro: reach.root)
      show "r \<in> held s'" if "a \<in> held s'" "r \<in> set (refsM u a)" "r \<noteq> []" for a r
        using that c by (auto simp: closedUnder_def)
    qed
  qed
qed

end

interpretation memCopy: copying "memUni L m" "memSink L'" memHeld "\<lambda>m. set (keys (mContent m))" for L m L'
  by unfold_locales

section \<open>The sample store, walked\<close>

lemma reach_edge: "h \<noteq> [] \<Longrightarrow> r \<in> set (f h) \<Longrightarrow> r \<noteq> [] \<Longrightarrow> reach f [h] r"
  by (rule reach.step[of f "[h]" h]) (auto intro: reach.root)

lemma stored_memUni: "set (uStored (memUni L m)) = memHeld m"
  by (auto simp: memUni_def memHeld_def)

lemma memRead_raw: "GetClaim (memUni L m) d i = Inr c \<Longrightarrow> \<exists>b. claimRaw c = Some b"
  by (auto simp: GetClaim_memUni sameRecord_def elim!: memRead_ok dest!: memLoad_ok(5))

lemma refs_memUni: "refs (memUni L m) i = (case memLoad L m i of Inl e \<Rightarrow> [] | Inr c \<Rightarrow> refsOf c)"
  by (simp add: refs_def GetClaim_memUni_delta)

lemma graph_refs:
  "resultOf refsOf (memLoad graphLib graphMem ''hA'') = Some []"
  "resultOf refsOf (memLoad graphLib graphMem ''hB'') = Some [''hA'']"
  "resultOf refsOf (memLoad graphLib graphMem ''hG'') = Some [''hX'', ''hA'']"
  by code_simp+

lemma graph_reach_B: "reach (refs (memUni graphLib graphMem)) [''hB''] k \<Longrightarrow> k \<in> {''hA'', ''hB''}"
proof (erule reach_least)
  fix k r assume "k \<in> {''hA'', ''hB''}" "r \<in> set (refs (memUni graphLib graphMem) k)"
  then show "r \<in> {''hA'', ''hB''}"
    using graph_refs(1,2) by (auto simp: refs_memUni resultOf_Some)
qed simp

lemma graph_gapFree: "gapFree (memUni graphLib graphMem) [''hB'']"
  using graph_reach_B graph_refs(1,2) by (fastforce simp: gapFree_def GetClaim_memUni_delta resultOf_Some)

lemma graph_hA: "\<exists>c. GetClaim (memUni graphLib graphMem) False ''hA'' = Inr c"
proof -
  have "resultOf (\<lambda>c. ()) (GetClaim (memUni graphLib graphMem) False ''hA'') = Some ()" by code_simp
  then show ?thesis by (auto simp: resultOf_Some)
qed

section \<open>Properties\<close>

text \<open>
  Property C34 (closure_lookup_exact): in a closure without gaps, a lookup with no named branch
  returns the materialised claim for exactly the ids reachable from the heads along stored
  references, and not-found for the others.
\<close>

theorem closure_lookup_exact:
  assumes "gapFree (memUni L m) heads" "\<not> namedBranch branch" "i \<noteq> []"
  shows "GetFromClosure (memUni L m) branch heads i =
    (if reach (refs (memUni L m)) heads i then GetClaim (memUni L m) False i
     else Inl (StoreErr ErrNotFound))"
  using assms mem.lookupWalk_complete[of L m "filter (\<lambda>h. h \<noteq> []) heads" i]
  by (simp add: GetFromClosure_def tagged_def mem.gapFree_filter mem.reach_filter_nil)

theorem closure_lookup_exact_witness:
  "GetFromClosure (memUni graphLib graphMem) BranchUniverse [''hB''] ''hA'' =
     GetClaim (memUni graphLib graphMem) False ''hA''"
proof -
  have "''hA'' \<in> set (refs (memUni graphLib graphMem) ''hB'')"
    using graph_refs(2) by (auto simp: refs_memUni resultOf_Some)
  then have "reach (refs (memUni graphLib graphMem)) [''hB''] ''hA''"
    by (intro reach_edge) simp_all
  then show ?thesis
    using closure_lookup_exact[OF graph_gapFree, of BranchUniverse "''hA''"]
    by (simp add: namedBranch_def)
qed

text \<open>
  A membership test meets a reference the store lacks before it
  reaches the claim asked for, and answers \<open>false\<close> with no error although the claim is
  stored and referenced by the head itself.
\<close>

theorem closure_gap_denies:
  assumes "GetClaim (memUni L m) True h = Inr c" "refsOf c = [x, i]" "distinct [h, x, i]"
    and "x \<noteq> []" "i \<noteq> []" "x \<notin> memHeld m" "\<not> namedBranch branch"
  shows "InClosure (memUni L m) branch [h] i = Inr False \<and> reach (refs (memUni L m)) [h] i"
proof -
  have h: "h \<in> set (uStored (memUni L m))" "h \<noteq> []" using mem.get_id[OF assms(1)] by auto
  have x: "GetClaim (memUni L m) True x = Inl (StoreErr ErrNotFound)"
    using assms(4,6) by (auto simp: GetClaim_memUni_delta memLoad_def memHeld_def set_keys split: option.split)
  have "refs (memUni L m) h = [x, i]" using assms(1,2) by (simp add: refs_def)
  then have "reach (refs (memUni L m)) [h] i"
    using h(2) assms(5) by (intro reach_edge) simp_all
  moreover have "GetFromClosure (memUni L m) branch [h] i = Inl (StoreErr ErrNotFound)"
    using assms h x not_sym[of h x] not_sym[of h i]
    by (simp add: GetFromClosure_def tagged_def lookupWalk_def lookupStep_def drain.simps)
  ultimately show ?thesis by (simp add: InClosure_def)
qed

theorem closure_gap_denies_witness:
  "InClosure (memUni graphLib graphMem) [] [''hG''] ''hA'' = Inr False"
proof -
  obtain c where c: "GetClaim (memUni graphLib graphMem) True ''hG'' = Inr c" "refsOf c = [''hX'', ''hA'']"
    using graph_refs(3) by (auto simp: resultOf_Some GetClaim_memUni_delta)
  show ?thesis
    using closure_gap_denies[OF c, of "[]"] by (simp add: memHeld_def graphMem_def namedBranch_def)
qed

text \<open>
  For a named branch, a claim carrying that branch's tag
  is reported a member whatever the heads are: the walk, and with it the revision the heads stand
  for, is not consulted, so that a claim that joined the branch later reads as a member of an
  earlier snapshot.
\<close>

theorem branch_tag_overrides_heads:
  assumes "GetClaim (memUni L m) False i = Inr c" "namedBranch branch" "Tag c (BranchTagKey branch) \<noteq> []"
  shows "InClosure (memUni L m) branch heads i = Inr True"
  using assms mem.get_id[OF assms(1)] by (simp add: InClosure_def GetFromClosure_def tagged_def)

theorem branch_tag_overrides_heads_witness:
  "InClosure (memUni graphLib graphMem) ''main'' [] ''hB'' = Inr True"
proof -
  have "resultOf (\<lambda>c. Tag c (BranchTagKey ''main'')) (GetClaim (memUni graphLib graphMem) False ''hB'') = Some ''3''"
    by code_simp
  then obtain c where "GetClaim (memUni graphLib graphMem) False ''hB'' = Inr c"
      "Tag c (BranchTagKey ''main'') = ''3''"
    by (auto simp: resultOf_Some)
  then show ?thesis
    using branch_tag_overrides_heads[of graphLib graphMem "''hB''" c "''main''" "[]"]
    by (simp add: namedBranch_def BranchUniverse_def BranchArchive_def)
qed

text \<open>
  The bulk membership test answers, at each position,
  whether some branch's closure reaches the id, for the last position of each id; an earlier
  position of a repeated id is always answered \<open>false\<close>. A gap in a closure ends only the path
  through it.
\<close>

theorem branch_membership_exact:
  assumes "DefaultClaimsInBranches (memUni L m) branches ids = Inr out" "k < length ids"
  shows "length out = length ids \<and>
    (out ! k \<longleftrightarrow> ids ! k \<noteq> [] \<and> (\<forall>j. k < j \<longrightarrow> j < length ids \<longrightarrow> ids ! j \<noteq> ids ! k) \<and>
       (\<exists>p \<in> set branches. reach (refs (memUni L m)) [snd p] (ids ! k)))"
  using mem.DefaultClaimsInBranches_exact[OF assms(1)] assms(2) by blast

theorem branch_membership_exact_witness:
  "\<exists>out. DefaultClaimsInBranches (memUni graphLib graphMem) [(''main'', ''hB'')] [''hB'', ''hB''] = Inr out \<and>
     \<not> out ! 0 \<and> out ! 1"
proof -
  obtain out where o: "DefaultClaimsInBranches (memUni graphLib graphMem) [(''main'', ''hB'')] [''hB'', ''hB''] = Inr out"
    by (simp add: DefaultClaimsInBranches_def)
  have "reach (refs (memUni graphLib graphMem)) [''hB''] ''hB''" by (auto intro: reach.root)
  then show ?thesis
    using branch_membership_exact[OF o, of 0] branch_membership_exact[OF o, of 1] o
    by (auto simp: less_Suc_eq)
qed

text \<open>
  When tags do not decide it, the scope of a read admits exactly the
  claims reachable from its head along the references a materialised read shows.
\<close>

theorem scope_is_closure:
  assumes "confine (memUni L m) tagsKept sc = Inr (Some cf)" "cfTagKey cf = []"
  shows "admits (Some cf) c \<longleftrightarrow> reach (refsM (memUni L m)) [scHead sc] (ID c)"
  using mem.confine_exact[OF assms] .

theorem scope_is_closure_witness:
  "admits (Some \<lparr>cfRoot = ''hA'', cfTagKey = [], cfHeight = 0, cfMembers = [''hA'']\<rparr>)
     (plainClaim (zeroNode\<lparr>nodeId := ''hA''\<rparr>) [])"
proof -
  have "resultOf (map_option (\<lambda>cf. (cfRoot cf, cfTagKey cf, cfHeight cf, cfMembers cf)))
      (confine (memUni graphLib graphMem) False \<lparr>scBranch = [], scHead = ''hA'', scHeight = 0, scRevision = 0\<rparr>) =
      Some (Some (''hA'', [], 0, [''hA'']))"
    by code_simp
  then have c: "confine (memUni graphLib graphMem) False \<lparr>scBranch = [], scHead = ''hA'', scHeight = 0, scRevision = 0\<rparr> =
      Inr (Some \<lparr>cfRoot = ''hA'', cfTagKey = [], cfHeight = 0, cfMembers = [''hA'']\<rparr>)"
    by (auto simp: resultOf_Some)
  have "reach (refsM (memUni graphLib graphMem)) [''hA''] ''hA''" by (auto intro: reach.root)
  then show ?thesis
    using scope_is_closure[OF c, of "plainClaim (zeroNode\<lparr>nodeId := ''hA''\<rparr>) []"]
    by (simp add: ID_def plainClaim_def)
qed

text \<open>
  A cache whose entries are committed heights answers with
  committed heights, positionally, whichever of them it had to load, and what it holds afterwards
  is again committed heights.
\<close>

theorem height_cache_sound:
  assumes "hcOk (memUni L m) c" "hcGetClaimHeights c (memUni L m) ids = (r, c')"
  shows "hcOk (memUni L m) c' \<and> (\<forall>hs. r = Inr hs \<longrightarrow>
    list_all2 (\<lambda>i h. \<forall>d. GetClaim (memUni L m) True i = Inr d \<longrightarrow> h = claimHeight d) ids hs)"
  using mem.hcGetClaimHeights_ok[OF assms] .

theorem height_cache_sound_witness:
  "hcOk (memUni graphLib graphMem) (snd (hcGetClaimHeights (Some []) (memUni graphLib graphMem) [''hB'', ''hA'']))"
proof -
  obtain r c where "hcGetClaimHeights (Some []) (memUni graphLib graphMem) [''hB'', ''hA''] = (r, c)"
    by fastforce
  from height_cache_sound[OF hcOk_empty(2) this] this show ?thesis by simp
qed

text \<open>
  Property C35 (closure_copy_merges): a closure copy that succeeds adds exactly the claims reachable
  from its roots through claims the receiver lacked; a receiver that held the closure of all it
  held still does, and then holds the whole closure of the roots.
\<close>

theorem closure_copy_merges:
  assumes "DefaultCopyClaims (memSink L') (Some (memUni L m)) cfg s ids = (s', Inr ())" "ccClosure cfg"
  shows "memHeld s' = memHeld s \<union>
      {i. reach (\<lambda>i. if i \<in> memHeld s then [] else refsM (memUni L m) i) ids i} \<and>
    ((\<forall>i \<in> memHeld s. set (refsM (memUni L m) i) - {[]} \<subseteq> memHeld s) \<longrightarrow>
       (\<forall>i \<in> memHeld s'. set (refsM (memUni L m) i) - {[]} \<subseteq> memHeld s') \<and>
       {i. reach (refsM (memUni L m)) ids i} \<subseteq> memHeld s')"
proof -
  have r: "memCopy.copyRefsOf L m cfg s = (\<lambda>i. if i \<in> memHeld s then [] else refsM (memUni L m) i)"
    using assms(2) by (auto simp: memCopy.copyRefsOf_def fun_eq_iff)
  have c: "memCopy.closedUnder L m t \<longleftrightarrow> (\<forall>i \<in> memHeld t. set (refsM (memUni L m) i) - {[]} \<subseteq> memHeld t)" for t
    by (auto simp: memCopy.closedUnder_def)
  show ?thesis
    using memCopy.copy_exact(1)[OF assms(1)] memCopy.copy_closed[OF assms] unfolding r c by simp
qed

theorem closure_copy_merges_witness:
  "memHeld (fst (DefaultCopyClaims (memSink graphLib) (Some (memUni graphLib graphMem))
     \<lparr>ccClosure = True, ccContent = True\<rparr> NewMemoryUniverse [''hB''])) \<supseteq> {''hA'', ''hB''}"
proof -
  let ?r = "DefaultCopyClaims (memSink graphLib) (Some (memUni graphLib graphMem))
     \<lparr>ccClosure = True, ccContent = True\<rparr> NewMemoryUniverse [''hB'']"
  have "snd ?r = Inr ()" by code_simp
  then have r: "?r = (fst ?r, Inr ())" by (metis prod.collapse)
  have "resultOf refsOf (GetClaim (memUni graphLib graphMem) False ''hB'') = Some [''hA'']" by code_simp
  then have "refsM (memUni graphLib graphMem) ''hB'' = [''hA'']" by (auto simp: refsM_def resultOf_Some)
  then have "reach (refsM (memUni graphLib graphMem)) [''hB''] ''hA''"
    by (intro reach_edge) simp_all
  moreover have "reach (refsM (memUni graphLib graphMem)) [''hB''] ''hB''" by (auto intro: reach.root)
  ultimately show ?thesis
    using closure_copy_merges[OF r] by (auto simp: memHeld_def NewMemoryUniverse_def)
qed

text \<open>
  A closure copy stores a claim before it has its
  references. Interrupted between the two, it leaves the claim behind without them, and every
  later copy of that claim succeeds at once and brings nothing, since a claim present counts as
  fully copied.
\<close>

theorem interrupted_copy_sticks:
  assumes "GetClaim (memUni L m) False i = Inr c" "refsOf c = x # rest" "x \<noteq> []" "x \<noteq> i"
    and "x \<notin> memHeld m" "x \<notin> memHeld s" "i \<notin> memHeld s"
  shows "\<exists>s' e. DefaultCopyClaims (memSink L) (Some (memUni L m)) \<lparr>ccClosure = True, ccContent = False\<rparr> s [i] =
      (s', Inl e) \<and> i \<in> memHeld s' \<and> x \<notin> memHeld s' \<and>
    DefaultCopyClaims (memSink L) (Some (memUni L m')) \<lparr>ccClosure = True, ccContent = cc\<rparr> s' [i] = (s', Inr ())"
proof -
  have i: "i \<noteq> []" "i \<in> set (uStored (memUni L m))" "ID c = i" using mem.get_id[OF assms(1)] by auto
  obtain b where b: "claimRaw c = Some b"
    using memRead_raw[OF assms(1)] by blast
  define s' where "s' = s\<lparr>mClaims := AList.update i b (mClaims s)\<rparr>"
  have put: "memPutClaims s [Some c] = (s', Inr ())" by (simp add: i b Envelope_def s'_def)
  have has: "HasClaim (memUni L t) k = Inr (k \<in> memHeld t)" for t k
    by (simp add: HasClaim_memUni memHeld_def has_iff_keys conj_commute)
  have held: "i \<in> memHeld s'" "x \<notin> memHeld s'" using assms i by (auto simp: memHeld_def s'_def)
  have "\<not> (\<exists>d. GetClaim (memUni L m) False x = Inr d)"
    using mem.get_id[of L m False x] assms(5) by (auto simp: stored_memUni)
  then obtain e where x: "GetClaim (memUni L m) False x = Inl e"
    by (cases "GetClaim (memUni L m) False x") auto
  have "DefaultCopyClaims (memSink L) (Some (memUni L m)) \<lparr>ccClosure = True, ccContent = False\<rparr> s [i] =
      (s', Inl (Wrap (QueryErr errCopyClaims) e))"
    using assms i put held x
    by (simp add: DefaultCopyClaims_def drain.simps copyStep_def memSink_def has)
  moreover have "DefaultCopyClaims (memSink L) (Some (memUni L m')) \<lparr>ccClosure = True, ccContent = cc\<rparr> s' [i] = (s', Inr ())"
    using i held by (simp add: DefaultCopyClaims_def drain.simps copyStep_def memSink_def has)
  ultimately show ?thesis using held by blast
qed

theorem interrupted_copy_sticks_witness:
  "\<exists>s'. ''hG'' \<in> memHeld s' \<and> ''hX'' \<notin> memHeld s' \<and>
     DefaultCopyClaims (memSink graphLib) (Some (memUni graphLib graphMem)) \<lparr>ccClosure = True, ccContent = True\<rparr>
       s' [''hG''] = (s', Inr ())"
proof -
  have "resultOf refsOf (GetClaim (memUni graphLib graphMem) False ''hG'') = Some [''hX'', ''hA'']" by code_simp
  then obtain c where c: "GetClaim (memUni graphLib graphMem) False ''hG'' = Inr c" "refsOf c = [''hX'', ''hA'']"
    by (auto simp: resultOf_Some)
  show ?thesis
    using interrupted_copy_sticks[OF c, of NewMemoryUniverse graphMem True]
    by (auto simp: memHeld_def graphMem_def NewMemoryUniverse_def)
qed

end
