(* ===== verification/Builder.thy ===== *)
theory Builder
  imports Closure
begin

text \<open>
  Making records: \<open>newEdge\<close> (\<open>edge.go\<close>), contributors
  (\<open>claim_type_contributor.go\<close>, \<open>Claim.AsContributor\<close>), the claim builder
  (\<open>claim_builder.go\<close>, \<open>claim_helpers.go\<close>) and \<open>AssembleClaim\<close>
  (\<open>claim_assemble.go\<close>). A signing key is named by its public half; a nil key, typed or
  not, is \<open>None\<close>. The clock is an argument.
\<close>

section \<open>Which claims may schedule their removal (\<open>contribution.go\<close>)\<close>

definition undeletableSubtype :: "string list" where
  "undeletableSubtype = [''contributor'', ''branches'', ''delete'', ''expiry'']"

definition CheckDeletable :: "string \<Rightarrow> string \<Rightarrow> gomap \<Rightarrow> unit result" where
  "CheckDeletable class sub fs =
     (if class \<noteq> ''contribution'' \<or> sub \<notin> set undeletableSubtype then Inr ()
      else if has fs FieldDeleteBy then Inl (VerifyErr ErrStructureNotDeletable)
      else Inr ())"

section \<open>Edges (\<open>newEdge\<close>)\<close>

definition maxInlineContent :: int where "maxInlineContent = 1048576"

record edgeConfig =
  ecReference :: ident
  ecReferenced :: "claim option"
  ecType :: string
  ecTypeClass :: string
  ecTypeSub :: string
  ecEncoding :: string
  ecInlineContent :: "bytes option"
  ecContentHash :: "ident option"
  ecContentSize :: u64
  ecRelationDirection :: int
  ecFields :: gomap

text \<open>The schedule an edge copies from its target, unless it states one itself.\<close>

definition edgeFields :: "edgeConfig \<Rightarrow> gomap" where
  "edgeFields cfg =
     (case ecReferenced cfg of None \<Rightarrow> ecFields cfg
      | Some c \<Rightarrow>
          (case nodeGetField (claimNode c) FieldDeleteBy of
             Inl e \<Rightarrow> ecFields cfg
           | Inr due \<Rightarrow>
               if has (ecFields cfg) FieldDeleteBy then ecFields cfg
               else AList.update FieldDeleteBy due (ecFields cfg)))"

definition checkRelation :: "string \<Rightarrow> int \<Rightarrow> unit result" where
  "checkRelation class dir =
     (if class = ''relation'' then
        (if dir \<noteq> 1 \<and> dir \<noteq> - 1 then Inl (FormErr errEdgeRelationDir) else Inr ())
      else if dir \<noteq> 0 then Inl (QueryErr errRelationDirNonRel) else Inr ())"

definition edgeClassSub :: "edgeConfig \<Rightarrow> (string \<times> string) result" where
  "edgeClassSub cfg =
     rbind (if ecType cfg \<noteq> [] then wrapping (QueryErr errNewEdge) (splitType (ecType cfg))
            else Inr (ecTypeClass cfg, ecTypeSub cfg))
       (\<lambda>(class, sub).
         if class = [] \<or> sub = [] then Inl (FormErr errEdgeTypeRequired)
         else if \<not> validEdgeClass class then Inl (DetailErr errUnknownEdgeClass)
         else rbind (checkSubtype sub) (\<lambda>_. Inr (class, sub)))"

definition newEdge :: "lib \<Rightarrow> edgeConfig \<Rightarrow> edge result" where
  "newEdge L cfg =
     (if ecReference cfg = [] then Inl (FormErr errEdgeRefRequired)
      else
        rbind (edgeClassSub cfg) (\<lambda>(class, sub).
        if ecInlineContent cfg \<noteq> None \<and> ecContentHash cfg \<noteq> None then Inl (FormErr errEdgeContentXOR)
        else if maxInlineContent < int (length (wireBytes (ecInlineContent cfg)))
        then Inl (DetailErr errInlineContentTooLarge)
        else
          rbind (resolveContentEncoding (ecEncoding cfg)
                   (ecInlineContent cfg \<noteq> None \<or> ecContentHash cfg \<noteq> None)) (\<lambda>(encClass, encSub).
          rbind (checkRelation class (ecRelationDirection cfg)) (\<lambda>_.
          let fs = edgeFields cfg in
          rbind (checkFields fs) (\<lambda>_.
          let e = \<lparr>eReference = ecReference cfg, eTypeClass = class, eTypeSub = sub,
                   eEncodingClass = encClass, eEncodingSub = encSub,
                   eContentHash = (if ecInlineContent cfg = None then ecContentHash cfg else None),
                   eContent = ecInlineContent cfg,
                   eContentSize =
                     (case ecInlineContent cfg of Some b \<Rightarrow> lenU64 b
                      | None \<Rightarrow> if ecContentHash cfg \<noteq> None then ecContentSize cfg else 0),
                   eRelationDirection = ecRelationDirection cfg, eFields = fs, eId = []\<rparr>
          in rbind (wrapping (QueryErr errNewEdge) (hashContent L (fst (encodeEdge L e None)))) (\<lambda>i.
               Inr (e\<lparr>eId := i\<rparr>)))))))"

section \<open>Contributors\<close>

text \<open>
  A contributor is its claim, the session key if any, and the public key cached by
  \<open>AsContributor\<close>; \<open>Pubkey\<close> falls back on the claim's own inline content.
\<close>

record contributor =
  ctClaim :: claim
  ctKey :: "pubkey option"
  ctPubkey :: "bytes option"

definition Pubkey :: "contributor \<Rightarrow> bytes" where
  "Pubkey c =
     (case ctPubkey c of Some b \<Rightarrow> b | None \<Rightarrow> wireBytes (content (own (claimNode (ctClaim c)))))"

definition AsContributor :: "lib \<Rightarrow> uni option \<Rightarrow> claim \<Rightarrow> pubkey option \<Rightarrow> contributor result" where
  "AsContributor L u c key =
     (if \<not> IsContributor c then Inl (DetailErr errNotContributorClaim)
      else
        rbind (wrapping (FormErr errResolveContributorPubkey) (nodeGetContent L u (claimNode c))) (\<lambda>pk.
        case key of
          None \<Rightarrow> Inr \<lparr>ctClaim = c, ctKey = None, ctPubkey = Some pk\<rparr>
        | Some k \<Rightarrow>
            if pk = [] then Inl (FormErr errSigningKeyNoPubkey)
            else rbind (wrapping (KeyErr errEncodeSigningKey) (EncodePublicKey k)) (\<lambda>enc.
              if enc \<noteq> pk then Inl (FormErr errSigningKeyMismatch)
              else Inr \<lparr>ctClaim = c, ctKey = Some k, ctPubkey = Some pk\<rparr>)))"

section \<open>The builder\<close>

definition zeroTime :: int where "zeroTime = goDate 1 1 1 0 0 0 0"

record claimBuilder =
  blType :: string
  blTypeClass :: string
  blTypeSub :: string
  blEncoding :: string
  blEncodingClass :: string
  blEncodingSub :: string
  blInlineContent :: "bytes option"
  blContentHash :: "ident option"
  blContentSize :: u64
  blCreatedAt :: int
  blDated :: string
  blContributor :: "contributor option"
  blDiffOf :: ident
  blEdges :: "edge option list"
  blFields :: gomap
  blHeight :: "(ident list \<Rightarrow> u64 result) option"
  blSigningKey :: "pubkey option"
  blAllowInvalid :: bool

definition NewClaim :: "string \<Rightarrow> contributor option \<Rightarrow> claimBuilder" where
  "NewClaim typ c =
     \<lparr>blType = typ, blTypeClass = [], blTypeSub = [], blEncoding = [], blEncodingClass = [],
      blEncodingSub = [], blInlineContent = None, blContentHash = None, blContentSize = 0,
      blCreatedAt = zeroTime, blDated = [], blContributor = c, blDiffOf = [], blEdges = [],
      blFields = [], blHeight = None, blSigningKey = None, blAllowInvalid = False\<rparr>"

text \<open>Height resolvers.\<close>

definition maxHeights :: "u64 list \<Rightarrow> u64" where
  "maxHeights hs = fold (\<lambda>h m. if m < h then h else m) hs 0"

definition FixedHeight :: "u64 \<Rightarrow> ident list \<Rightarrow> u64 result" where
  "FixedHeight h rs = Inr h"

definition HeightsIn :: "uni \<Rightarrow> ident list \<Rightarrow> u64 result" where
  "HeightsIn u rs =
     (if rs = [] then Inr 0
      else rbind (uGetClaimHeights u rs) (\<lambda>hs.
        if length hs \<noteq> length rs then Inl (StoreErr ErrNotFound)
        else Inr (maxHeights hs + 1)))"

definition heightsById :: "claim option list \<Rightarrow> (ident \<times> u64) list" where
  "heightsById cs =
     fold (\<lambda>c m. case c of None \<Rightarrow> m | Some x \<Rightarrow> AList.update (ID x) (claimHeight x) m) cs []"

definition HeightsFrom :: "claim option list \<Rightarrow> ident list \<Rightarrow> u64 result" where
  "HeightsFrom cs rs =
     (if rs = [] then Inr 0
      else rbind (mapM (\<lambda>r. if r = [] then Inl (StoreErr ErrNotFound)
                            else case map_of (heightsById cs) r of
                                None \<Rightarrow> Inl (StoreErr ErrNotFound) | Some h \<Rightarrow> Inr h) rs)
             (\<lambda>hs. Inr (maxHeights hs + 1)))"

text \<open>The chained setters. \<open>WithDated\<close> keeps the calendar day of an instant.\<close>

definition WithType :: "claimBuilder \<Rightarrow> string \<Rightarrow> claimBuilder" where
  "WithType b t = b\<lparr>blType := t\<rparr>"

definition WithEncoding :: "claimBuilder \<Rightarrow> string \<Rightarrow> claimBuilder" where
  "WithEncoding b e = b\<lparr>blEncoding := e\<rparr>"

definition WithDiff :: "claimBuilder \<Rightarrow> ident \<Rightarrow> claimBuilder" where
  "WithDiff b i = b\<lparr>blDiffOf := i\<rparr>"

definition WithInlineContent :: "claimBuilder \<Rightarrow> bytes option \<Rightarrow> claimBuilder" where
  "WithInlineContent b c = b\<lparr>blInlineContent := c\<rparr>"

definition WithExternalContent :: "claimBuilder \<Rightarrow> ident option \<Rightarrow> u64 \<Rightarrow> claimBuilder" where
  "WithExternalContent b h sz = b\<lparr>blContentHash := h, blContentSize := sz\<rparr>"

definition WithCreatedAt :: "claimBuilder \<Rightarrow> int \<Rightarrow> claimBuilder" where
  "WithCreatedAt b t = b\<lparr>blCreatedAt := t\<rparr>"

definition WithDated :: "claimBuilder \<Rightarrow> int \<Rightarrow> claimBuilder" where
  "WithDated b t =
     (let (y, m, d) = dateOf t
      in b\<lparr>blDated := appendInt y 4 @ ''-'' @ appendInt m 2 @ ''-'' @ appendInt d 2\<rparr>)"

definition WithDatedEDTF :: "claimBuilder \<Rightarrow> string \<Rightarrow> claimBuilder" where
  "WithDatedEDTF b d = b\<lparr>blDated := d\<rparr>"

definition WithHeight :: "claimBuilder \<Rightarrow> u64 \<Rightarrow> claimBuilder" where
  "WithHeight b h = b\<lparr>blHeight := Some (FixedHeight h)\<rparr>"

definition WithHeightResolver :: "claimBuilder \<Rightarrow> (ident list \<Rightarrow> u64 result) option \<Rightarrow> claimBuilder" where
  "WithHeightResolver b f = b\<lparr>blHeight := f\<rparr>"

definition WithAutoHeight :: "claimBuilder \<Rightarrow> uni option \<Rightarrow> claimBuilder" where
  "WithAutoHeight b u =
     (case u of None \<Rightarrow> WithHeightResolver b None | Some v \<Rightarrow> WithHeightResolver b (Some (HeightsIn v)))"

definition WithContributor :: "claimBuilder \<Rightarrow> contributor option \<Rightarrow> claimBuilder" where
  "WithContributor b c = b\<lparr>blContributor := c\<rparr>"

definition WithSigningKey :: "claimBuilder \<Rightarrow> pubkey option \<Rightarrow> claimBuilder" where
  "WithSigningKey b k = b\<lparr>blSigningKey := k\<rparr>"

definition AllowInvalid :: "claimBuilder \<Rightarrow> claimBuilder" where
  "AllowInvalid b = b\<lparr>blAllowInvalid := True\<rparr>"

definition WithEdges :: "claimBuilder \<Rightarrow> edge option list \<Rightarrow> claimBuilder" where
  "WithEdges b es = b\<lparr>blEdges := blEdges b @ es\<rparr>"

definition WithField :: "claimBuilder \<Rightarrow> string \<Rightarrow> string \<Rightarrow> claimBuilder" where
  "WithField b k v = b\<lparr>blFields := AList.update k v (blFields b)\<rparr>"

text \<open>Type, content and encoding.\<close>

definition resolveType :: "claimBuilder \<Rightarrow> claimBuilder result" where
  "resolveType cfg =
     rbind (if blType cfg \<noteq> [] then wrapping (QueryErr errNewClaim) (splitType (blType cfg))
            else Inr (blTypeClass cfg, blTypeSub cfg))
       (\<lambda>(class, sub).
         if class = [] \<or> sub = [] then Inl (BuildErr errClaimTypeRequired)
         else Inr (cfg\<lparr>blTypeClass := class, blTypeSub := sub\<rparr>))"

definition hasInline :: "claimBuilder \<Rightarrow> bool" where
  "hasInline cfg = (blInlineContent cfg \<noteq> None)"

definition hasExternal :: "claimBuilder \<Rightarrow> bool" where
  "hasExternal cfg = (blContentHash cfg \<noteq> None)"

definition checkContentState :: "claimBuilder \<Rightarrow> unit result" where
  "checkContentState cfg =
     (if hasInline cfg \<and> hasExternal cfg then Inl (BuildErr errClaimContentXOR)
      else if hasInline cfg \<and> maxInlineContent < int (length (wireBytes (blInlineContent cfg)))
      then Inl (DetailErr errInlineContentTooLarge)
      else Inr ())"

definition resolveEncoding :: "claimBuilder \<Rightarrow> claimBuilder result" where
  "resolveEncoding cfg =
     (let enc = (if blEncoding cfg = [] \<and> (blEncodingClass cfg \<noteq> [] \<or> blEncodingSub cfg \<noteq> [])
                 then blEncodingClass cfg @ ''/'' @ blEncodingSub cfg else blEncoding cfg)
      in rbind (resolveContentEncoding enc (hasInline cfg \<or> hasExternal cfg)) (\<lambda>(class, sub).
           Inr (cfg\<lparr>blEncodingClass := class, blEncodingSub := sub\<rparr>)))"

definition checkType :: "claimBuilder \<Rightarrow> unit result" where
  "checkType cfg =
     (if \<not> validNodeClass (blTypeClass cfg) then Inl (DetailErr errUnknownNodeClass)
      else checkSubtype (blTypeSub cfg))"

text \<open>The edge set.\<close>

definition plainEdge :: "ident \<Rightarrow> string \<Rightarrow> string \<Rightarrow> edgeConfig" where
  "plainEdge ref class sub =
     \<lparr>ecReference = ref, ecReferenced = None, ecType = [], ecTypeClass = class, ecTypeSub = sub,
      ecEncoding = [], ecInlineContent = None, ecContentHash = None, ecContentSize = 0,
      ecRelationDirection = 0, ecFields = []\<rparr>"

definition buildContributorEdge :: "lib \<Rightarrow> contributor option \<Rightarrow> edge result" where
  "buildContributorEdge L c =
     (case c of None \<Rightarrow> Inl (FormErr errNilContributor)
      | Some x \<Rightarrow> newEdge L (plainEdge (ID (ctClaim x)) ''contribution'' ''contributor''))"

definition isContributorEdge :: "edge \<Rightarrow> bool" where
  "isContributorEdge e = (eTypeClass e = ''contribution'' \<and> eTypeSub e = ''contributor'')"

fun checkDiffEdgeNames :: "string list \<Rightarrow> edge list \<Rightarrow> unit result" where
  "checkDiffEdgeNames seen [] = Inr ()"
| "checkDiffEdgeNames seen (e # es) =
     (if isContributorEdge e \<or> isDiffEdge e then checkDiffEdgeNames seen es
      else case map_of (eFields e) FieldName of
          None \<Rightarrow> Inl (BuildErr errDiffEdgeUnnamed)
        | Some name \<Rightarrow>
            if name = [] then Inl (BuildErr errDiffEdgeUnnamed)
            else if name \<in> set seen then Inl (BuildErr errDiffEdgeDupName)
            else checkDiffEdgeNames (name # seen) es)"

definition checkEdgeCardinality :: "edge list \<Rightarrow> unit result" where
  "checkEdgeCardinality es =
     (if 1 < length (filter isContributorEdge es) then Inl (BuildErr errTwoContributors)
      else if 1 < length (filter isDiffEdge es) then Inl (BuildErr errTwoDiffEdges)
      else Inr ())"

definition asConcreteEdge :: "edge option \<Rightarrow> edge result" where
  "asConcreteEdge e = (case e of None \<Rightarrow> Inl (FormErr errNilEdge) | Some x \<Rightarrow> Inr x)"

definition assembleEdges :: "lib \<Rightarrow> claimBuilder \<Rightarrow> bool \<Rightarrow> edge list result" where
  "assembleEdges L cfg isRoot =
     rbind (wrapping (QueryErr errNewClaim) (mapM asConcreteEdge (blEdges cfg))) (\<lambda>given.
     rbind (if isRoot then Inr []
            else rbind (wrapping (QueryErr errNewClaim) (buildContributorEdge L (blContributor cfg)))
                   (\<lambda>e. Inr [e])) (\<lambda>ce.
     rbind (if blDiffOf cfg = [] then Inr (given @ ce)
            else rbind (wrapping (QueryErr errNewClaim) (newEdge L (plainEdge (blDiffOf cfg) ''contribution'' ''diff'')))
                   (\<lambda>de. rbind (checkDiffEdgeNames [] (given @ ce @ [de])) (\<lambda>_. Inr (given @ ce @ [de])))) (\<lambda>es.
     rbind (if blAllowInvalid cfg then Inr () else checkEdgeCardinality es) (\<lambda>_.
       Inr (sort_key eId es)))))"

definition checkClaim :: "claimBuilder \<Rightarrow> unit result" where
  "checkClaim cfg =
     (if blAllowInvalid cfg then Inr ()
      else
        rbind (checkType cfg) (\<lambda>_.
        rbind (checkFields (blFields cfg)) (\<lambda>_.
        rbind (if blDated cfg \<noteq> [] then validateDated (blDated cfg) else Inr ()) (\<lambda>_.
          if blCreatedAt cfg \<noteq> zeroTime \<and> PredatesAnyClaim (blCreatedAt cfg)
          then Inl (VerifyErr ErrCreatedAtPredatesRanke)
          else CheckDeletable (blTypeClass cfg) (blTypeSub cfg) (blFields cfg)))))"

text \<open>Keys.\<close>

definition checkKeyAgainstPubkey :: "pubkey option \<Rightarrow> bytes \<Rightarrow> unit result" where
  "checkKeyAgainstPubkey key pk =
     (case key of
        None \<Rightarrow> if pk = [] then Inl (OpErr errEnvelopeNoKey) else Inl (FormErr errResolvedNoKey)
      | Some k \<Rightarrow>
          if pk = [] then Inl (FormErr errResolvedNoPubkey)
          else rbind (wrapping (KeyErr errEncodeSigningKey) (EncodePublicKey k)) (\<lambda>enc.
            if enc \<noteq> pk then Inl (FormErr errResolvedMismatch) else Inr ()))"

definition checkSigningConsistency :: "lib \<Rightarrow> claimBuilder \<Rightarrow> bool \<Rightarrow> unit result" where
  "checkSigningConsistency L cfg isRoot =
     (if \<not> isRoot then
        checkKeyAgainstPubkey (blSigningKey cfg)
          (case blContributor cfg of None \<Rightarrow> [] | Some c \<Rightarrow> Pubkey c)
      else case blInlineContent cfg of
          Some b \<Rightarrow> checkKeyAgainstPubkey (blSigningKey cfg) b
        | None \<Rightarrow>
            (case blContentHash cfg of
               Some h \<Rightarrow>
                 (case blSigningKey cfg of
                    None \<Rightarrow> Inl (FormErr errResolvedNoKey)
                  | Some k \<Rightarrow>
                      rbind (wrapping (KeyErr errEncodeSigningKey) (EncodePublicKey k)) (\<lambda>enc.
                      rbind (hashContent L enc) (\<lambda>h'.
                        if h' \<noteq> h then Inl (FormErr errResolvedMismatch) else Inr ())))
             | None \<Rightarrow>
                 (case blSigningKey cfg of
                    Some k \<Rightarrow> Inl (FormErr errResolvedNoPubkey)
                  | None \<Rightarrow> Inl (OpErr errEnvelopeNoKey))))"

text \<open>\<open>resolveHeight\<close>, \<open>signNode\<close> and \<open>buildClaim\<close>.\<close>

definition resolveHeight :: "claimBuilder \<Rightarrow> edge list \<Rightarrow> u64 result" where
  "resolveHeight cfg es =
     (let rs = map eReference es in
        case blHeight cfg of
          None \<Rightarrow> if rs = [] then Inr 0 else Inl (BuildErr errHeightRequired)
        | Some f \<Rightarrow>
            rbind (wrapping (VerifyErr errHeightResolve) (f rs)) (\<lambda>h.
              if rs = [] \<and> h \<noteq> 0 then Inl (BuildErr errHeightOnInitial) else Inr h))"

definition signNode :: "lib \<Rightarrow> node \<Rightarrow> edge list \<Rightarrow> claimBuilder \<Rightarrow> bool \<Rightarrow> (bytes \<times> ident) result" where
  "signNode L n es cfg0 isRoot =
     (let key = (case blSigningKey cfg0 of
                   Some k \<Rightarrow> Some k
                 | None \<Rightarrow> (case blContributor cfg0 of None \<Rightarrow> None | Some c \<Rightarrow> ctKey c));
          cfg = cfg0\<lparr>blSigningKey := key\<rparr> in
        rbind (if blAllowInvalid cfg then Inr ()
               else wrapping (QueryErr errNewClaim) (checkSigningConsistency L cfg isRoot)) (\<lambda>_.
        rbind (wrapping (QueryErr errNewClaim) (signEnvelope L key (encodeNode L n es None))) (\<lambda>env.
        rbind (wrapping (QueryErr errNewClaim) (hashContent L env)) (\<lambda>i.
          Inr (env, i)))))"

definition builtNode :: "int \<Rightarrow> claimBuilder \<Rightarrow> edge list \<Rightarrow> u64 \<Rightarrow> node" where
  "builtNode now cfg es h =
     \<lparr>typeClass = blTypeClass cfg, typeSub = blTypeSub cfg,
      encodingClass = blEncodingClass cfg, encodingSub = blEncodingSub cfg,
      contentHash = (if hasInline cfg then None else blContentHash cfg),
      content = blInlineContent cfg,
      contentSize =
        (case blInlineContent cfg of Some b \<Rightarrow> lenU64 b
         | None \<Rightarrow> if hasExternal cfg then blContentSize cfg else 0),
      createdAt = (if blCreatedAt cfg = zeroTime then now else blCreatedAt cfg),
      dated = blDated cfg, height = h, edgeIds = map eId es, nFields = blFields cfg, nodeId = []\<rparr>"

definition isRootContributor :: "claimBuilder \<Rightarrow> bool" where
  "isRootContributor cfg =
     (blTypeClass cfg = ''contribution'' \<and> blTypeSub cfg = ''contributor'' \<and> blContributor cfg = None)"

definition buildClaim :: "lib \<Rightarrow> int \<Rightarrow> claimBuilder \<Rightarrow> claim result" where
  "buildClaim L now cfg0 =
     rbind (resolveType cfg0) (\<lambda>cfg1.
     rbind (if blAllowInvalid cfg1 then Inr () else checkContentState cfg1) (\<lambda>_.
     rbind (resolveEncoding cfg1) (\<lambda>cfg.
       let isRoot = isRootContributor cfg in
       if \<not> isRoot \<and> blContributor cfg = None then Inl (BuildErr errClaimContributorRequired)
       else
         rbind (assembleEdges L cfg isRoot) (\<lambda>es.
         rbind (checkClaim cfg) (\<lambda>_.
         rbind (resolveHeight cfg es) (\<lambda>h.
         rbind (signNode L (builtNode now cfg es h) es cfg isRoot) (\<lambda>(env, i).
           Inr (Claim (MNode ((builtNode now cfg es h)\<lparr>nodeId := i\<rparr>) None) es (Some env) None []))))))))"

definition Sign :: "lib \<Rightarrow> int \<Rightarrow> claimBuilder \<Rightarrow> pubkey option \<Rightarrow> claim result" where
  "Sign L now b key =
     buildClaim L now (case key of None \<Rightarrow> b | Some k \<Rightarrow> b\<lparr>blSigningKey := Some k\<rparr>)"

section \<open>Rebuilding from parts (\<open>AssembleClaim\<close>)\<close>

record edgeParts =
  epId :: ident
  epReference :: ident
  epType :: string
  epEncoding :: string
  epRelationDirection :: int
  epContentHash :: "ident option"
  epContentSize :: u64
  epInlineContent :: "bytes option"
  epFields :: gomap

record claimParts =
  cpId :: ident
  cpType :: string
  cpEncoding :: string
  cpCreatedAt :: int
  cpHeight :: u64
  cpDated :: string
  cpContentHash :: "ident option"
  cpContentSize :: u64
  cpInlineContent :: "bytes option"
  cpFields :: gomap
  cpEdges :: "edgeParts list"
  cpTags :: gomap

definition asm :: "'a result \<Rightarrow> 'a result" where
  "asm r = wrapping (OpErr errAssemble) r"

definition assembleEncoding :: "string \<Rightarrow> (string \<times> string) result" where
  "assembleEncoding enc = (if enc = [] then Inr ([], []) else asm (splitType enc))"

definition assembleEdge :: "edgeParts \<Rightarrow> edge result" where
  "assembleEdge ep =
     (if epReference ep = [] then Inl (Wrap (OpErr errAssemble) (FormErr errEdgeRefRequired))
      else
        rbind (asm (splitType (epType ep))) (\<lambda>(class, sub).
        if wireBytes (epInlineContent ep) \<noteq> [] \<and> epContentHash ep \<noteq> None
        then Inl (Wrap (OpErr errAssemble) (ShapeErr ErrContentBothSlots))
        else
          rbind (asm (checkTimestampFields (epFields ep))) (\<lambda>_.
          rbind (assembleEncoding (epEncoding ep)) (\<lambda>(ec, es).
            if epId ep = [] then Inl (OpErr errAssemble)
            else Inr \<lparr>eReference = epReference ep, eTypeClass = class, eTypeSub = sub,
                   eEncodingClass = ec, eEncodingSub = es, eContentHash = epContentHash ep,
                   eContent = epInlineContent ep, eContentSize = epContentSize ep,
                   eRelationDirection = epRelationDirection ep, eFields = epFields ep,
                   eId = epId ep\<rparr>))))"

definition AssembleClaim :: "claimParts \<Rightarrow> claim result" where
  "AssembleClaim p =
     (if cpId p = [] then Inl (KeyErr errNilID)
      else
        rbind (asm (splitType (cpType p))) (\<lambda>(class, sub).
        if wireBytes (cpInlineContent p) \<noteq> [] \<and> cpContentHash p \<noteq> None
        then Inl (Wrap (OpErr errAssemble) (ShapeErr ErrContentBothSlots))
        else
          rbind (asm (checkTimestampFields (cpFields p))) (\<lambda>_.
          if PredatesAnyClaim (cpCreatedAt p)
          then Inl (Wrap (OpErr errAssemble) (VerifyErr ErrCreatedAtPredatesRanke))
          else
            rbind (if cpDated p \<noteq> [] then asm (validateDated (cpDated p)) else Inr ()) (\<lambda>_.
            rbind (assembleEncoding (cpEncoding p)) (\<lambda>(ec, es).
            rbind (mapM assembleEdge (cpEdges p)) (\<lambda>edges.
              let sorted = sort_key eId edges in
              Inr (Claim
                (MNode \<lparr>typeClass = class, typeSub = sub, encodingClass = ec, encodingSub = es,
                   contentHash = cpContentHash p, content = cpInlineContent p,
                   contentSize = cpContentSize p, createdAt = cpCreatedAt p, dated = cpDated p,
                   height = cpHeight p, edgeIds = map eId sorted, nFields = cpFields p,
                   nodeId = cpId p\<rparr> None)
                sorted None None (cpTags p)))))))) "

section \<open>What a built edge is\<close>

lemma resolveContentEncoding_ok:
  "resolveContentEncoding enc b = Inr (c, s) \<Longrightarrow>
     if b then validEncodingClass c \<and> validEncodingSubtypeChars s \<and> c \<noteq> [] else c = [] \<and> s = []"
  by (auto simp: resolveContentEncoding_def rbind_eq_Inr checkEncodingSubtype_def split: if_splits)

lemma checkRelation_ok:
  "checkRelation c d = Inr () \<longleftrightarrow> (if c = ''relation'' then d = 1 \<or> d = - 1 else d = 0)"
  by (auto simp: checkRelation_def)

lemma encodeEdge_id [simp]: "encodeEdge L (e\<lparr>eId := i\<rparr>) b = encodeEdge L e b"
  by (simp add: encodeEdge_def buildEncEdge_def)

text \<open>The rules an edge satisfies whoever made it, and what else \<open>newEdge\<close> establishes.\<close>

definition edgeRules :: "edge \<Rightarrow> bool" where
  "edgeRules e =
     (validEdgeClass (eTypeClass e) \<and>
      (if eTypeClass e = ''relation'' then eRelationDirection e = 1 \<or> eRelationDirection e = - 1
       else eRelationDirection e = 0) \<and>
      (edgeContentKind e \<noteq> ContentNone \<longrightarrow> edgeEncoding e \<noteq> []) \<and>
      \<not> (eContent e \<noteq> None \<and> eContentHash e \<noteq> None))"

lemma newEdge_ok:
  assumes "newEdge L cfg = Inr e"
  shows "edgeRules e" "sealedEdge L e" "eReference e = ecReference cfg" "eReference e \<noteq> []"
    "checkFields (eFields e) = Inr ()" "eFields e = edgeFields cfg" "validFieldChars (eTypeSub e)"
    "ecType cfg = [] \<Longrightarrow> eTypeClass e = ecTypeClass cfg \<and> eTypeSub e = ecTypeSub cfg"
    "eContent e = ecInlineContent cfg"
proof -
  obtain cl sub ec es i where r: "ecReference cfg \<noteq> []" "edgeClassSub cfg = Inr (cl, sub)"
      "\<not> (ecInlineContent cfg \<noteq> None \<and> ecContentHash cfg \<noteq> None)"
      "resolveContentEncoding (ecEncoding cfg) (ecInlineContent cfg \<noteq> None \<or> ecContentHash cfg \<noteq> None) = Inr (ec, es)"
      "checkRelation cl (ecRelationDirection cfg) = Inr ()" "checkFields (edgeFields cfg) = Inr ()"
    and e: "e = \<lparr>eReference = ecReference cfg, eTypeClass = cl, eTypeSub = sub,
                   eEncodingClass = ec, eEncodingSub = es,
                   eContentHash = (if ecInlineContent cfg = None then ecContentHash cfg else None),
                   eContent = ecInlineContent cfg,
                   eContentSize =
                     (case ecInlineContent cfg of Some b \<Rightarrow> lenU64 b
                      | None \<Rightarrow> if ecContentHash cfg \<noteq> None then ecContentSize cfg else 0),
                   eRelationDirection = ecRelationDirection cfg, eFields = edgeFields cfg, eId = []\<rparr>\<lparr>eId := i\<rparr>"
    and s: "hashContent L (fst (encodeEdge L e None)) = Inr i"
  proof -
    have ref: "ecReference cfg \<noteq> []" using assms by (auto simp: newEdge_def)
    obtain cl sub where 1: "edgeClassSub cfg = Inr (cl, sub)"
      using assms ref by (auto simp: newEdge_def rbind_eq_Inr)
    have 2: "\<not> (ecInlineContent cfg \<noteq> None \<and> ecContentHash cfg \<noteq> None)"
        "\<not> maxInlineContent < int (length (wireBytes (ecInlineContent cfg)))"
      using assms ref 1 by (auto simp: newEdge_def split: if_splits)
    obtain ec es where 3: "resolveContentEncoding (ecEncoding cfg) (ecInlineContent cfg \<noteq> None \<or> ecContentHash cfg \<noteq> None) = Inr (ec, es)"
      using assms ref 1 2 by (auto simp: newEdge_def rbind_eq_Inr simp del: not_None_eq)
    have 4: "checkRelation cl (ecRelationDirection cfg) = Inr ()" "checkFields (edgeFields cfg) = Inr ()"
      using assms ref 1 2 3 by (simp_all add: newEdge_def rbind_eq_Inr Let_def del: not_None_eq)
    let ?r = "\<lparr>eReference = ecReference cfg, eTypeClass = cl, eTypeSub = sub,
                   eEncodingClass = ec, eEncodingSub = es,
                   eContentHash = (if ecInlineContent cfg = None then ecContentHash cfg else None),
                   eContent = ecInlineContent cfg,
                   eContentSize =
                     (case ecInlineContent cfg of Some b \<Rightarrow> lenU64 b
                      | None \<Rightarrow> if ecContentHash cfg \<noteq> None then ecContentSize cfg else 0),
                   eRelationDirection = ecRelationDirection cfg, eFields = edgeFields cfg, eId = []\<rparr>"
    obtain i where "hashContent L (fst (encodeEdge L ?r None)) = Inr i" "e = ?r\<lparr>eId := i\<rparr>"
      using assms ref 1 2 3 4 by (auto simp: newEdge_def Let_def rbind_eq_Inr simp del: not_None_eq)
    then show thesis
      by (intro that[OF ref 1 2(1) 3 4]) (simp_all only: encodeEdge_id)
  qed
  have cs: "validEdgeClass cl" "validFieldChars sub"
      "ecType cfg = [] \<Longrightarrow> cl = ecTypeClass cfg \<and> sub = ecTypeSub cfg"
    using r(2) by (auto simp: edgeClassSub_def rbind_eq_Inr checkSubtype_def split: if_splits)
  show "edgeRules e"
    using r cs resolveContentEncoding_ok[OF r(4)]
    by (auto simp: edgeRules_def e checkRelation_ok edgeContentKind_def edgeEncoding_def
        split: if_splits option.splits)
  have "eId e = i" by (simp add: e)
  then show "sealedEdge L e" using s by (simp add: sealedEdge_def)
  show "eReference e = ecReference cfg" "eReference e \<noteq> []" "checkFields (eFields e) = Inr ()"
    "eFields e = edgeFields cfg" "validFieldChars (eTypeSub e)" "eContent e = ecInlineContent cfg"
    "ecType cfg = [] \<Longrightarrow> eTypeClass e = ecTypeClass cfg \<and> eTypeSub e = ecTypeSub cfg"
    using r cs by (simp_all add: e)
qed

section \<open>What a built claim is\<close>

lemma encodeNode_ids [simp]:
  "encodeNode L (n\<lparr>nodeId := i\<rparr>) es b = encodeNode L n es b"
  by (simp add: encodeNode_def buildEncNode_def)

lemma buildClaim_elim:
  assumes "buildClaim L now cfg0 = Inr c"
  obtains cfg1 cfg es h key env i where
    "resolveType cfg0 = Inr cfg1" "blAllowInvalid cfg0 \<or> checkContentState cfg1 = Inr ()"
    "resolveEncoding cfg1 = Inr cfg" "isRootContributor cfg \<or> blContributor cfg \<noteq> None"
    "assembleEdges L cfg (isRootContributor cfg) = Inr es" "checkClaim cfg = Inr ()"
    "resolveHeight cfg es = Inr h"
    "key = (case blSigningKey cfg of Some k \<Rightarrow> Some k
       | None \<Rightarrow> (case blContributor cfg of None \<Rightarrow> None | Some c \<Rightarrow> ctKey c))"
    "blAllowInvalid cfg0 \<or> checkSigningConsistency L (cfg\<lparr>blSigningKey := key\<rparr>) (isRootContributor cfg) = Inr ()"
    "signEnvelope L key (encodeNode L (builtNode now cfg es h) es None) = Inr env"
    "hashContent L env = Inr i"
    "c = Claim (MNode ((builtNode now cfg es h)\<lparr>nodeId := i\<rparr>) None) es (Some env) None []"
proof -
  have ai: "blAllowInvalid cfg1 = blAllowInvalid cfg0" if "resolveType cfg0 = Inr cfg1" for cfg1
    using that by (auto simp: resolveType_def rbind_eq_Inr split: if_splits)
  have ai2: "blAllowInvalid cfg = blAllowInvalid cfg1" if "resolveEncoding cfg1 = Inr cfg" for cfg cfg1
    using that by (auto simp: resolveEncoding_def rbind_eq_Inr Let_def)
  obtain cfg1 where 1: "resolveType cfg0 = Inr cfg1"
    using assms by (auto simp: buildClaim_def rbind_eq_Inr)
  have 2: "blAllowInvalid cfg1 \<or> checkContentState cfg1 = Inr ()"
    using assms by (auto simp: buildClaim_def rbind_eq_Inr 1 split: if_splits)
  obtain cfg where 3: "resolveEncoding cfg1 = Inr cfg"
    using assms by (auto simp: buildClaim_def rbind_eq_Inr 1)
  note a = ai[OF 1] ai2[OF 3]
  have 4: "isRootContributor cfg \<or> blContributor cfg \<noteq> None"
    using assms by (auto simp: buildClaim_def rbind_eq_Inr 1 3 Let_def split: if_splits)
  obtain es h env i where 5: "assembleEdges L cfg (isRootContributor cfg) = Inr es"
      "checkClaim cfg = Inr ()" "resolveHeight cfg es = Inr h"
      "signNode L (builtNode now cfg es h) es cfg (isRootContributor cfg) = Inr (env, i)"
      "c = Claim (MNode ((builtNode now cfg es h)\<lparr>nodeId := i\<rparr>) None) es (Some env) None []"
    using assms by (auto simp: buildClaim_def rbind_eq_Inr 1 3 Let_def split: if_splits)
  show ?thesis
    by (rule that[OF 1 _ 3 4 5(1-3) refl _ _ _ 5(5)])
       (use 2 5(4) a in \<open>auto simp: signNode_def rbind_eq_Inr Let_def split: if_splits\<close>)
qed


text \<open>The fields the later stages leave alone.\<close>

lemma resolveType_ok:
  "resolveType cfg0 = Inr cfg \<Longrightarrow>
     cfg = cfg0\<lparr>blTypeClass := blTypeClass cfg, blTypeSub := blTypeSub cfg\<rparr> \<and>
     blTypeClass cfg \<noteq> [] \<and> blTypeSub cfg \<noteq> []"
  by (auto simp: resolveType_def rbind_eq_Inr split: if_splits)

lemma resolveEncoding_ok:
  assumes "resolveEncoding cfg0 = Inr cfg"
  shows "cfg = cfg0\<lparr>blEncodingClass := blEncodingClass cfg, blEncodingSub := blEncodingSub cfg\<rparr>"
    "if hasInline cfg \<or> hasExternal cfg
     then validEncodingClass (blEncodingClass cfg) \<and> validEncodingSubtypeChars (blEncodingSub cfg) \<and>
       blEncodingClass cfg \<noteq> []
     else blEncodingClass cfg = [] \<and> blEncodingSub cfg = []"
proof -
  obtain enc c e where "resolveContentEncoding enc (hasInline cfg0 \<or> hasExternal cfg0) = Inr (c, e)"
      "cfg = cfg0\<lparr>blEncodingClass := c, blEncodingSub := e\<rparr>"
    using assms unfolding resolveEncoding_def Let_def rbind_eq_Inr by auto
  then show "cfg = cfg0\<lparr>blEncodingClass := blEncodingClass cfg, blEncodingSub := blEncodingSub cfg\<rparr>"
    "if hasInline cfg \<or> hasExternal cfg
     then validEncodingClass (blEncodingClass cfg) \<and> validEncodingSubtypeChars (blEncodingSub cfg) \<and>
       blEncodingClass cfg \<noteq> []
     else blEncodingClass cfg = [] \<and> blEncodingSub cfg = []"
    using resolveContentEncoding_ok[of enc "hasInline cfg0 \<or> hasExternal cfg0" c e]
    by (simp_all add: hasInline_def hasExternal_def)
qed

lemma resolved_same:
  assumes "resolveType cfg0 = Inr cfg1" "resolveEncoding cfg1 = Inr cfg"
  shows "blContributor cfg = blContributor cfg0" "blAllowInvalid cfg = blAllowInvalid cfg0"
    "blInlineContent cfg = blInlineContent cfg0" "blContentHash cfg = blContentHash cfg0"
    "blInlineContent cfg1 = blInlineContent cfg0" "blContentHash cfg1 = blContentHash cfg0"
    "blEdges cfg = blEdges cfg0" "blDiffOf cfg = blDiffOf cfg0" "blHeight cfg = blHeight cfg0"
    "blSigningKey cfg = blSigningKey cfg0"
  by (subst resolveEncoding_ok(1)[OF assms(2)] refl,
      (subst resolveType_ok[OF assms(1), THEN conjunct1])?, simp)+

text \<open>The edge set.\<close>

lemma asConcrete_given:
  "mapM asConcreteEdge es = Inr given \<longleftrightarrow> es = map Some given"
  by (induction es arbitrary: given) (auto simp: asConcreteEdge_def rbind_eq_Inr split: option.splits)

lemma plainEdge_built:
  assumes "newEdge L (plainEdge r cl sub) = Inr e"
  shows "edgeRules e" "sealedEdge L e" "eReference e = r" "eTypeClass e = cl" "eTypeSub e = sub"
  using newEdge_ok[OF assms] by (simp_all add: plainEdge_def)

lemma assembleEdges_ok:
  assumes "assembleEdges L cfg isRoot = Inr es"
  obtains given ce de where
    "blEdges cfg = map Some given" "es = sort_key eId (given @ ce @ de)"
    "if isRoot then ce = []
     else \<exists>ct e. blContributor cfg = Some ct \<and> ce = [e] \<and>
       newEdge L (plainEdge (ID (ctClaim ct)) ''contribution'' ''contributor'') = Inr e"
    "if blDiffOf cfg = [] then de = []
     else \<exists>e. de = [e] \<and> newEdge L (plainEdge (blDiffOf cfg) ''contribution'' ''diff'') = Inr e \<and>
       checkDiffEdgeNames [] (given @ ce @ de) = Inr ()"
    "blAllowInvalid cfg \<or> checkEdgeCardinality es = Inr ()"
proof -
  have card: "checkEdgeCardinality (sort_key eId xs) = checkEdgeCardinality xs" for xs
    by (simp add: checkEdgeCardinality_def filter_sort)
  obtain given ce where 1: "blEdges cfg = map Some given"
      "(if isRoot then Inr []
        else rbind (wrapping (QueryErr errNewClaim) (buildContributorEdge L (blContributor cfg)))
               (\<lambda>e. Inr [e])) = Inr ce"
      "rbind (if blDiffOf cfg = [] then Inr (given @ ce)
            else rbind (wrapping (QueryErr errNewClaim) (newEdge L (plainEdge (blDiffOf cfg) ''contribution'' ''diff'')))
                   (\<lambda>de. rbind (checkDiffEdgeNames [] (given @ ce @ [de])) (\<lambda>_. Inr (given @ ce @ [de])))) (\<lambda>es.
     rbind (if blAllowInvalid cfg then Inr () else checkEdgeCardinality es) (\<lambda>_.
       Inr (sort_key eId es))) = Inr es"
    using assms unfolding assembleEdges_def rbind_eq_Inr[of "wrapping _ (mapM _ _)"]
      rbind_eq_Inr[of "if isRoot then _ else _"] wrapping_eq_Inr asConcrete_given by blast
  have ce: "if isRoot then ce = []
     else \<exists>ct e. blContributor cfg = Some ct \<and> ce = [e] \<and>
       newEdge L (plainEdge (ID (ctClaim ct)) ''contribution'' ''contributor'') = Inr e"
    using 1(2) by (auto simp: rbind_eq_Inr buildContributorEdge_def split: if_splits option.splits)
  show thesis
  proof (cases "blDiffOf cfg = []")
    case True
    then show thesis using 1 ce card by (intro that[of given ce "[]"]) (auto simp: rbind_eq_Inr split: if_splits)
  next
    case False
    then obtain e where "newEdge L (plainEdge (blDiffOf cfg) ''contribution'' ''diff'') = Inr e"
        "checkDiffEdgeNames [] (given @ ce @ [e]) = Inr ()" "es = sort_key eId (given @ ce @ [e])"
        "blAllowInvalid cfg \<or> checkEdgeCardinality (given @ ce @ [e]) = Inr ()"
      using 1(3) by (auto simp: rbind_eq_Inr split: if_splits)
    then show thesis using 1(1) ce card False by (intro that[of given ce "[e]"]) auto
  qed
qed

lemma checkEdgeCardinality_ok:
  "checkEdgeCardinality es = Inr () \<longleftrightarrow>
     length (filter isContributorEdge es) \<le> 1 \<and> length (filter isDiffEdge es) \<le> 1"
  by (auto simp: checkEdgeCardinality_def)

text \<open>Every edge but the contributor's and the diff's carries a name of its own.\<close>

lemma checkDiffEdgeNames_ok:
  "checkDiffEdgeNames seen es = Inr () \<Longrightarrow>
     (let ns = map (\<lambda>e. map_of (eFields e) FieldName) (filter (\<lambda>e. \<not> isContributorEdge e \<and> \<not> isDiffEdge e) es)
      in distinct ns \<and> None \<notin> set ns \<and> Some [] \<notin> set ns \<and> set ns \<inter> Some ` set seen = {})"
  by (induction seen es rule: checkDiffEdgeNames.induct)
     (auto simp: Let_def split: if_splits option.splits)

text \<open>Keys.\<close>

lemma checkKeyAgainstPubkey_ok:
  "checkKeyAgainstPubkey key pk = Inr () \<longleftrightarrow> pk \<noteq> [] \<and> (\<exists>k. key = Some k \<and> EncodePublicKey k = Inr pk)"
  by (auto simp: checkKeyAgainstPubkey_def rbind_eq_Inr split: option.splits if_splits)

text \<open>
  The public keys a claim declares: its contributor's, or, for a root contributor, its own
  content, inline or by hash.
\<close>

definition declares :: "lib \<Rightarrow> claimBuilder \<Rightarrow> bytes \<Rightarrow> bool" where
  "declares L cfg pk =
     (case blContributor cfg of Some x \<Rightarrow> pk = Pubkey x
      | None \<Rightarrow> (case blInlineContent cfg of Some b \<Rightarrow> pk = b
                | None \<Rightarrow> (\<exists>h. blContentHash cfg = Some h \<and> hashContent L pk = Inr h)))"

lemma checkSigningConsistency_ok:
  assumes "checkSigningConsistency L cfg (isRootContributor cfg) = Inr ()"
    and "isRootContributor cfg \<or> blContributor cfg \<noteq> None"
  obtains k pk where "blSigningKey cfg = Some k" "EncodePublicKey k = Inr pk" "declares L cfg pk"
  using assms
  by (auto simp: checkSigningConsistency_def checkKeyAgainstPubkey_ok declares_def isRootContributor_def
      rbind_eq_Inr split: if_splits option.splits intro: that)

section \<open>Properties\<close>

text \<open>
  What the builder relies on in go-cose: a message it signs decodes, with the payload it was given
  and the algorithm as its only protected header, and verifies under the same key.
\<close>

definition coseSigns :: "lib \<Rightarrow> pubkey \<Rightarrow> bool" where
  "coseSigns L k =
     (\<forall>alg p b. signatureAlgorithm k = Inr alg \<longrightarrow> libCoseSign L k alg p None = Inr b \<longrightarrow>
        (\<exists>msg. libCoseDecode L b = Inr msg \<and> coseUnprotected msg = 0 \<and> coseProtected msg = 1 \<and>
           coseAlg msg = Inr alg \<and> cosePayload msg = p \<and> libCoseVerify L alg k msg = Inr ()))"

lemma signEnvelope_verifies:
  assumes "signEnvelope L (Some k) p = Inr env" "coseSigns L k" "wellFormedKey L k"
    and "EncodePublicKey k = Inr pk"
  obtains msg where "decodeEnvelope L env = Inr msg" "cosePayload msg = p" "verifyEnvelope L pk env = Inr ()"
proof -
  obtain alg where a: "signatureAlgorithm k = Inr alg" "libCoseSign L k alg p None = Inr env"
    using assms(1) by (auto simp: signEnvelope_def signCOSE_def rbind_eq_Inr)
  then obtain msg where m: "libCoseDecode L env = Inr msg" "coseUnprotected msg = 0" "coseProtected msg = 1"
      "coseAlg msg = Inr alg" "cosePayload msg = p" "libCoseVerify L alg k msg = Inr ()"
    using assms(2) unfolding coseSigns_def by blast
  have "alg \<in> {EdDSA, ES256}" using a(1) by (cases k) auto
  then have d: "decodeEnvelope L env = Inr msg" using m by (auto simp: decodeEnvelope_ok)
  have dk: "DecodePublicKey L pk = Inr k" by (rule DecodePublicKey_Encode[OF assms(3,4)])
  have "pk \<noteq> []" using assms(3,4) by (cases k) (auto simp: prependCode_def)
  then have "verifySign1 L pk msg = Inr ()" using dk a m by (auto simp: verifySign1_ok)
  then show thesis using d m(5) by (intro that) (auto simp: verifyEnvelope_ok)
qed

definition signingKey :: "claimBuilder \<Rightarrow> pubkey option" where
  "signingKey cfg =
     (case blSigningKey cfg of Some k \<Rightarrow> Some k
      | None \<Rightarrow> (case blContributor cfg of None \<Rightarrow> None | Some c \<Rightarrow> ctKey c))"

text \<open>
  Property C5 (built_claim_verifies): a claim the builder returns is stored under the hash of its
  envelope, the envelope carries the record of exactly its node and edges, and it verifies under
  the public key the claim declares (its contributor's, or its own for a root contributor); the
  builder given an inconsistent key fails. Signing is the library's, named by its law.
\<close>

theorem built_claim_verifies:
  assumes "buildClaim L now cfg = Inr c" "\<not> blAllowInvalid cfg"
    and "\<forall>k. signingKey cfg = Some k \<longrightarrow> wellFormedKey L k \<and> coseSigns L k"
  shows "\<exists>env msg pk. claimRaw c = Some env \<and> hashContent L env = Inr (ID c) \<and>
    decodeEnvelope L env = Inr msg \<and>
    cosePayload msg = encodeNode L (own (claimNode c)) (claimEdges c) None \<and>
    declares L cfg pk \<and> verifyEnvelope L pk env = Inr ()"
  using assms(1)
proof (rule buildClaim_elim)
  fix cfg1 cfg' es h key env i
  assume b: "resolveType cfg = Inr cfg1" "resolveEncoding cfg1 = Inr cfg'"
      "isRootContributor cfg' \<or> blContributor cfg' \<noteq> None"
      "key = (case blSigningKey cfg' of Some k \<Rightarrow> Some k
         | None \<Rightarrow> (case blContributor cfg' of None \<Rightarrow> None | Some c \<Rightarrow> ctKey c))"
      "blAllowInvalid cfg \<or> checkSigningConsistency L (cfg'\<lparr>blSigningKey := key\<rparr>) (isRootContributor cfg') = Inr ()"
      "signEnvelope L key (encodeNode L (builtNode now cfg' es h) es None) = Inr env"
      "hashContent L env = Inr i"
      "c = Claim (MNode ((builtNode now cfg' es h)\<lparr>nodeId := i\<rparr>) None) es (Some env) None []"
  note same = resolved_same[OF b(1,2)]
  have key: "signingKey cfg = key" using b(4) same by (simp add: signingKey_def split: option.split)
  let ?s = "cfg'\<lparr>blSigningKey := key\<rparr>"
  have "isRootContributor ?s = isRootContributor cfg'" by (simp add: isRootContributor_def)
  then obtain k pk where k: "key = Some k" "EncodePublicKey k = Inr pk" "declares L ?s pk"
    using checkSigningConsistency_ok[of L ?s] b(3,5) assms(2) by auto
  have "declares L cfg pk" using k(3) by (simp add: declares_def same split: option.splits)
  moreover obtain msg where "decodeEnvelope L env = Inr msg"
      "cosePayload msg = encodeNode L (builtNode now cfg' es h) es None" "verifyEnvelope L pk env = Inr ()"
    using signEnvelope_verifies[OF b(6)[unfolded k(1)]] k(1,2) key assms(3) by metis
  ultimately show ?thesis using b(7,8) by (auto simp: ID_def)
qed

definition sampleRootKey :: pubkey where
  "sampleRootKey = Ed25519Key (replicate 32 (CHR ''k''))"

definition sampleRootBuilder :: claimBuilder where
  "sampleRootBuilder = (NewClaim ''contribution/contributor'' None)
     \<lparr>blInlineContent := Some (prependCode ed25519Pub (replicate 32 (CHR ''k''))),
      blEncoding := ''application/multikey'', blSigningKey := Some sampleRootKey,
      blFields := [(''name'', ''alice'')]\<rparr>"

theorem built_claim_verifies_witness:
  "\<exists>c env msg pk. buildClaim (tableLib [] []) 1800000000000000000 sampleRootBuilder = Inr c \<and>
     claimRaw c = Some env \<and> declares (tableLib [] []) sampleRootBuilder pk \<and>
     verifyEnvelope (tableLib [] []) pk env = Inr ()"
proof -
  have "\<not> isl (buildClaim (tableLib [] []) 1800000000000000000 sampleRootBuilder)"
    by code_simp
  then obtain c where c: "buildClaim (tableLib [] []) 1800000000000000000 sampleRootBuilder = Inr c"
    by (cases "buildClaim (tableLib [] []) 1800000000000000000 sampleRootBuilder") auto
  have "\<not> blAllowInvalid sampleRootBuilder" by (simp add: sampleRootBuilder_def NewClaim_def)
  moreover have "\<forall>k. signingKey sampleRootBuilder = Some k \<longrightarrow>
      wellFormedKey (tableLib [] []) k \<and> coseSigns (tableLib [] []) k"
    by (simp add: signingKey_def sampleRootBuilder_def NewClaim_def sampleRootKey_def coseSigns_def
        tableLib_def sampleMsg_def)
  ultimately show ?thesis using built_claim_verifies[OF c] c by blast
qed

text \<open>
  Property C6 (built_claim_rules): whatever a builder is given, the claim it returns has a known
  node class, a checked subtype, checked fields, a date of the prescribed form, a schedule only
  where one is allowed, at most one content slot, an encoding exactly when there is content, its
  edges in id order and each under the rules and the hash of its own record, exactly one
  contributor edge to its contributor (none being needed for a root contributor only), the diff
  edge asked for and no other, and the height its resolver gave (zero without references).
\<close>

definition recordRules :: "claim \<Rightarrow> bool" where
  "recordRules c =
     (let n = own (claimNode c) in
       validNodeClass (typeClass n) \<and> checkSubtype (typeSub n) = Inr () \<and> checkFields (nFields n) = Inr () \<and>
       (dated n = [] \<or> validateDated (dated n) = Inr ()) \<and>
       CheckDeletable (typeClass n) (typeSub n) (nFields n) = Inr () \<and>
       \<not> (content n \<noteq> None \<and> contentHash n \<noteq> None) \<and>
       ((content n \<noteq> None \<or> contentHash n \<noteq> None) = (encodingClass n \<noteq> [])) \<and>
       edgeIds n = map eId (claimEdges c) \<and> sorted (map eId (claimEdges c)))"

lemma filter_sort_one:
  assumes "length (filter P (sort_key f xs)) \<le> 1" "x \<in> set xs" "P x"
  shows "filter P (sort_key f xs) = [x]"
proof -
  have "x \<in> set (filter P (sort_key f xs))" using assms(2,3) by simp
  then show ?thesis using assms(1) by (cases "filter P (sort_key f xs)") auto
qed

theorem built_claim_rules:
  assumes "buildClaim L now cfg = Inr c" "\<not> blAllowInvalid cfg"
    and "\<forall>e. Some e \<in> set (blEdges cfg) \<longrightarrow> edgeRules e \<and> sealedEdge L e"
  shows "recordRules c \<and> list_all (\<lambda>e. edgeRules e \<and> sealedEdge L e) (claimEdges c) \<and>
    (case blContributor cfg of
       None \<Rightarrow> IsContributor c
     | Some ct \<Rightarrow> map eReference (filter isContributorEdge (claimEdges c)) = [ID (ctClaim ct)]) \<and>
    (blDiffOf cfg \<noteq> [] \<longrightarrow> map eReference (filter isDiffEdge (claimEdges c)) = [blDiffOf cfg]) \<and>
    (claimEdges c = [] \<longrightarrow> claimHeight c = 0) \<and>
    (\<forall>f. blHeight cfg = Some f \<longrightarrow> f (map eReference (claimEdges c)) = Inr (claimHeight c))"
  using assms(1)
proof (rule buildClaim_elim)
  fix cfg1 cfg' es h key env i
  assume b: "resolveType cfg = Inr cfg1" "blAllowInvalid cfg \<or> checkContentState cfg1 = Inr ()"
      "resolveEncoding cfg1 = Inr cfg'" "isRootContributor cfg' \<or> blContributor cfg' \<noteq> None"
      "assembleEdges L cfg' (isRootContributor cfg') = Inr es" "checkClaim cfg' = Inr ()"
      "resolveHeight cfg' es = Inr h"
      "c = Claim (MNode ((builtNode now cfg' es h)\<lparr>nodeId := i\<rparr>) None) es (Some env) None []"
  note same = resolved_same[OF b(1,3)]
  obtain given ce de where es: "blEdges cfg' = map Some given" "es = sort_key eId (given @ ce @ de)"
    and ce: "if isRootContributor cfg' then ce = []
     else \<exists>ct e. blContributor cfg' = Some ct \<and> ce = [e] \<and>
       newEdge L (plainEdge (ID (ctClaim ct)) ''contribution'' ''contributor'') = Inr e"
    and de: "if blDiffOf cfg' = [] then de = []
     else \<exists>e. de = [e] \<and> newEdge L (plainEdge (blDiffOf cfg') ''contribution'' ''diff'') = Inr e \<and>
       checkDiffEdgeNames [] (given @ ce @ de) = Inr ()"
    and card: "blAllowInvalid cfg' \<or> checkEdgeCardinality es = Inr ()"
    using b(5) by (rule assembleEdges_ok)
  have one: "length (filter isContributorEdge es) \<le> 1" "length (filter isDiffEdge es) \<le> 1"
    using card assms(2) by (simp_all add: same checkEdgeCardinality_ok)
  have "edgeRules e \<and> sealedEdge L e" if "e \<in> set es" for e
    using that assms(3) es ce de by (auto simp: same dest: plainEdge_built split: if_splits)
  then have 1: "list_all (\<lambda>e. edgeRules e \<and> sealedEdge L e) es" by (simp add: list_all_iff)
  have 2: "case blContributor cfg of None \<Rightarrow> IsContributor c
     | Some ct \<Rightarrow> map eReference (filter isContributorEdge es) = [ID (ctClaim ct)]"
  proof (cases "blContributor cfg")
    case None
    then show ?thesis using b(4) by (simp add: same b(8) isRootContributor_def IsContributor_def builtNode_def)
  next
    case (Some ct)
    then obtain e where e: "ce = [e]" "newEdge L (plainEdge (ID (ctClaim ct)) ''contribution'' ''contributor'') = Inr e"
      using ce by (auto simp: same isRootContributor_def split: if_splits)
    have "isContributorEdge e" using plainEdge_built[OF e(2)] by (simp add: isContributorEdge_def)
    then have "filter isContributorEdge es = [e]"
      using one(1) unfolding es(2) by (intro filter_sort_one) (simp_all add: e(1))
    then show ?thesis using Some plainEdge_built(3)[OF e(2)] by simp
  qed
  have 3: "map eReference (filter isDiffEdge es) = [blDiffOf cfg]" if d: "blDiffOf cfg \<noteq> []"
  proof -
    obtain e where e: "de = [e]" "newEdge L (plainEdge (blDiffOf cfg) ''contribution'' ''diff'') = Inr e"
      using de d by (auto simp: same)
    have "isDiffEdge e" using plainEdge_built[OF e(2)] by (simp add: isDiffEdge_def)
    then have "filter isDiffEdge es = [e]"
      using one(2) unfolding es(2) by (intro filter_sort_one) (simp_all add: e(1))
    then show ?thesis using plainEdge_built(3)[OF e(2)] by simp
  qed
  have 4: "es = [] \<longrightarrow> h = 0" "\<forall>f. blHeight cfg = Some f \<longrightarrow> f (map eReference es) = Inr h"
    using b(7) by (auto simp: resolveHeight_def rbind_eq_Inr same split: option.splits if_splits)
  have "recordRules c"
    using b(6) b(2) assms(2) resolveEncoding_ok(2)[OF b(3)] es(2)
    by (auto simp: recordRules_def b(8) builtNode_def checkClaim_def checkType_def rbind_eq_Inr same
        checkContentState_def hasInline_def hasExternal_def split: if_splits)
  moreover have c: "claimEdges c = es" "claimHeight c = h"
    by (simp_all add: b(8) claimHeight_def builtNode_def)
  ultimately show ?thesis unfolding c using 1 2 3 4 by (intro conjI) simp_all
qed

definition sampleContributor :: contributor where
  "sampleContributor =
     \<lparr>ctClaim = plainClaim (zeroNode\<lparr>nodeId := ''hK''\<rparr>) [], ctKey = Some sampleRootKey,
      ctPubkey = Some (prependCode ed25519Pub (replicate 32 (CHR ''k'')))\<rparr>"

definition sampleDiffBuilder :: claimBuilder where
  "sampleDiffBuilder = (NewClaim ''source/note'' (Some sampleContributor))
     \<lparr>blDiffOf := ''hP'', blEdges := [Some (sampleEdge\<lparr>eId := ''h''\<rparr>)], blHeight := Some (FixedHeight 3),
      blFields := [(''delete_by'', ''soon'')]\<rparr>"

lemma sampleDiff_built:
  "\<not> isl (buildClaim (tableLib [] []) 1800000000000000000 sampleDiffBuilder)"
  by code_simp

theorem built_claim_rules_witness:
  "\<exists>c. buildClaim (tableLib [] []) 1800000000000000000 sampleDiffBuilder = Inr c \<and> recordRules c \<and>
     map eReference (filter isDiffEdge (claimEdges c)) = [''hP'']"
proof -
  obtain c where c: "buildClaim (tableLib [] []) 1800000000000000000 sampleDiffBuilder = Inr c"
    using sampleDiff_built by (cases "buildClaim (tableLib [] []) 1800000000000000000 sampleDiffBuilder") auto
  have "edgeRules (sampleEdge\<lparr>eId := ''h''\<rparr>)" "sealedEdge (tableLib [] []) (sampleEdge\<lparr>eId := ''h''\<rparr>)"
    by code_simp+
  then have "\<forall>e. Some e \<in> set (blEdges sampleDiffBuilder) \<longrightarrow> edgeRules e \<and> sealedEdge (tableLib [] []) e"
    by (simp add: sampleDiffBuilder_def)
  moreover have "\<not> blAllowInvalid sampleDiffBuilder" "blDiffOf sampleDiffBuilder = ''hP''"
    by (simp_all add: sampleDiffBuilder_def NewClaim_def)
  ultimately show ?thesis using built_claim_rules[OF c] c by simp
qed

text \<open>
  The builder does not run the decoder's check of the
  timestamps among the fields, so that a claim whose schedule is not a timestamp is built, signed
  and named, and no reader can decode the record it is stored as.
\<close>

theorem undecodable_schedule:
  assumes "nodeCodecAt L (own (claimNode c)) (claimEdges c)" "wfMap (nFields (own (claimNode c)))"
    and "buildClaim L now cfg = Inr c" "\<not> blAllowInvalid cfg"
    and "checkTimestampFields (nFields (own (claimNode c))) \<noteq> Inr ()"
  shows "\<exists>e. decodeSerializedClaim L (ID c) (encodeNode L (own (claimNode c)) (claimEdges c) None) = Inl e"
proof -
  let ?n = "own (claimNode c)"
  have "checkFields (nFields ?n) = Inr ()"
    using assms(3)
  proof (rule buildClaim_elim)
    fix cfg1 cfg' es h key env i
    assume "resolveType cfg = Inr cfg1" "resolveEncoding cfg1 = Inr cfg'" "checkClaim cfg' = Inr ()"
      "c = Claim (MNode ((builtNode now cfg' es h)\<lparr>nodeId := i\<rparr>) None) es (Some env) None []"
    then show ?thesis
      using assms(4) resolved_same(2)[of cfg cfg1 cfg']
      by (simp add: builtNode_def) (simp add: checkClaim_def rbind_eq_Inr)
  qed
  then have "unaliasFieldKeys (aliasFieldKeys (nFields ?n)) = nFields ?n"
    using assms(2) fields_back undottedKeys_checked by blast
  then have "\<exists>e. decodeNode L (fst (buildEncNode L ?n (claimEdges c) None)) = Inl e"
    using assms(5)
    by (cases "checkTimestampFields (nFields ?n)")
       (auto simp: decodeNode_def buildEncNode_def Let_def split: prod.splits option.splits)
  then show ?thesis
    using assms(1) by (auto simp: decodeSerializedClaim_def nodeCodecAt_def)
qed

definition scheduleLib :: lib where
  "scheduleLib =
     (let b = sampleDiffBuilder\<lparr>blDiffOf := [], blEdges := []\<rparr> in
       (case buildClaim (tableLib [] []) 1800000000000000000 b of
          Inl e \<Rightarrow> tableLib [] []
        | Inr c \<Rightarrow> tableLib [([], fst (buildEncNode (tableLib [] []) (own (claimNode c)) (claimEdges c) None))] []))"

definition scheduledBuilder :: claimBuilder where
  "scheduledBuilder = sampleDiffBuilder\<lparr>blDiffOf := [], blEdges := []\<rparr>"

lemma schedule_built:
  "case buildClaim scheduleLib 1800000000000000000 scheduledBuilder of
     Inl e \<Rightarrow> False
   | Inr c \<Rightarrow>
       libDecNode scheduleLib (encodeNode scheduleLib (own (claimNode c)) (claimEdges c) None) =
         Inr (fst (buildEncNode scheduleLib (own (claimNode c)) (claimEdges c) None)) \<and>
       wfMap (nFields (own (claimNode c))) \<and>
       checkTimestampFields (nFields (own (claimNode c))) \<noteq> Inr ()"
  by code_simp

theorem undecodable_schedule_witness:
  "\<exists>c e. buildClaim scheduleLib 1800000000000000000 scheduledBuilder = Inr c \<and>
     decodeSerializedClaim scheduleLib (ID c) (encodeNode scheduleLib (own (claimNode c)) (claimEdges c) None) = Inl e"
proof (cases "buildClaim scheduleLib 1800000000000000000 scheduledBuilder")
  case (Inl e)
  then show ?thesis using schedule_built by simp
next
  case (Inr c)
  have "\<not> blAllowInvalid scheduledBuilder"
    by (simp add: scheduledBuilder_def sampleDiffBuilder_def NewClaim_def)
  then show ?thesis
    using undecodable_schedule[OF _ _ Inr] schedule_built unfolding Inr
    by (auto simp: nodeCodecAt_def)
qed

end
