(* ===== verification/Verify.thy ===== *)
theory Verify
  imports Builder
begin

text \<open>
  The verifier: its rules (\<open>verify.go\<close>, \<open>verify_shape.go\<close>,
  \<open>verify_reference.go\<close>), the search for revoked keys (\<open>verify_expiry.go\<close>) and the
  run over a closure (\<open>verify_run.go\<close>). A run is modelled by the state it leaves: the
  goroutine it works in, the lock around its counters, the callback per failure and the
  cancellation of its context are not.
\<close>

section \<open>Configuration\<close>

record verifyConfig =
  vcMaxDepth :: int
  vcMaxClaims :: int
  vcCreatedAfter :: int
  vcTrusted :: "(ident \<Rightarrow> bool) option"
  vcExternal :: bool
  vcStopAfter :: int
  vcSkip :: "string list"
  vcExpiry :: "ident list option"

definition newVerifyConfig :: "(verifyConfig \<Rightarrow> verifyConfig) list \<Rightarrow> verifyConfig" where
  "newVerifyConfig opts =
     fold (\<lambda>f c. f c) opts
       \<lparr>vcMaxDepth = 0, vcMaxClaims = 0, vcCreatedAfter = zeroTime, vcTrusted = None,
        vcExternal = False, vcStopAfter = 0, vcSkip = [], vcExpiry = None\<rparr>"

definition WithMaxDepth :: "int \<Rightarrow> verifyConfig \<Rightarrow> verifyConfig" where
  "WithMaxDepth n c = c\<lparr>vcMaxDepth := n\<rparr>"

definition WithMaxClaims :: "int \<Rightarrow> verifyConfig \<Rightarrow> verifyConfig" where
  "WithMaxClaims n c = c\<lparr>vcMaxClaims := n\<rparr>"

definition WithCreatedAfter :: "int \<Rightarrow> verifyConfig \<Rightarrow> verifyConfig" where
  "WithCreatedAfter t c = c\<lparr>vcCreatedAfter := t\<rparr>"

definition WithTrusted :: "(ident \<Rightarrow> bool) option \<Rightarrow> verifyConfig \<Rightarrow> verifyConfig" where
  "WithTrusted f c = c\<lparr>vcTrusted := f\<rparr>"

definition WithExternal :: "verifyConfig \<Rightarrow> verifyConfig" where
  "WithExternal c = c\<lparr>vcExternal := True\<rparr>"

definition WithStopAfter :: "int \<Rightarrow> verifyConfig \<Rightarrow> verifyConfig" where
  "WithStopAfter n c = c\<lparr>vcStopAfter := n\<rparr>"

definition WithSkipRules :: "string list \<Rightarrow> verifyConfig \<Rightarrow> verifyConfig" where
  "WithSkipRules ns c = c\<lparr>vcSkip := vcSkip c @ ns\<rparr>"

section \<open>What a rule inspects\<close>

record verifyTarget =
  tClaim :: claim
  tRaw :: bytes
  tPubkey :: bytes
  tSigner :: "claim option"
  tCfg :: verifyConfig
  tU :: uni

text \<open>The content slots shared by a node and an edge.\<close>

datatype carrier = NodeCarrier mnode | EdgeCarrier edge

fun carrierKind :: "carrier \<Rightarrow> content_kind" where
  "carrierKind (NodeCarrier n) = nodeContentKind n"
| "carrierKind (EdgeCarrier e) = edgeContentKind e"

fun carrierHash :: "carrier \<Rightarrow> ident option" where
  "carrierHash (NodeCarrier n) = contentHash (contentSource n)"
| "carrierHash (EdgeCarrier e) = eContentHash e"

fun carrierSize :: "carrier \<Rightarrow> u64" where
  "carrierSize (NodeCarrier n) = contentSize (contentSource n)"
| "carrierSize (EdgeCarrier e) = eContentSize e"

fun carrierEncoding :: "carrier \<Rightarrow> string" where
  "carrierEncoding (NodeCarrier n) = nodeEncoding n"
| "carrierEncoding (EdgeCarrier e) = edgeEncoding e"

section \<open>The rules of a claim by itself\<close>

definition verr :: "verify_err \<Rightarrow> 'a result" where "verr e = Inl (VerifyErr e)"

definition ruleID :: "lib \<Rightarrow> verifyTarget \<Rightarrow> unit result" where
  "ruleID L t =
     rbind (wrapping (VerifyErr errVerify) (hashContent L (tRaw t))) (\<lambda>recomputed.
       if recomputed \<noteq> ID (tClaim t) then Inl (ShapeErr ErrIDMismatch) else Inr ())"

definition ruleSignature :: "lib \<Rightarrow> verifyTarget \<Rightarrow> unit result" where
  "ruleSignature L t = verifyEnvelope L (tPubkey t) (tRaw t)"

definition ruleArchiveFirstTableHeight :: "lib \<Rightarrow> verifyTarget \<Rightarrow> unit result" where
  "ruleArchiveFirstTableHeight L t =
     (let es = effectiveEdges (tClaim t) in
        if claimType (tClaim t) \<noteq> NodeBranches \<or> length es \<noteq> 1 \<or> edgeType (hd es) \<noteq> EdgeTypeContributor
        then Inr ()
        else if claimHeight (tClaim t) \<noteq> 1 then Inl (ShapeErr ErrArchiveFirstTableHeight)
        else Inr ())"

definition ruleCreatedAtStated :: "lib \<Rightarrow> verifyTarget \<Rightarrow> unit result" where
  "ruleCreatedAtStated L t =
     (if PredatesAnyClaim (claimCreatedAt (tClaim t)) then verr ErrCreatedAtPredatesRanke else Inr ())"

definition ruleTypeClasses :: "lib \<Rightarrow> verifyTarget \<Rightarrow> unit result" where
  "ruleTypeClasses L t =
     (if \<not> validNodeClass (typeClass (own (claimNode (tClaim t)))) then Inl (ShapeErr ErrUnknownTypeClass)
      else checkAll (\<lambda>e. if \<not> validEdgeClass (eTypeClass e) then Inl (ShapeErr ErrUnknownTypeClass) else Inr ())
             (effectiveEdges (tClaim t)))"

fun edgesAscend :: "edge list \<Rightarrow> bool" where
  "edgesAscend (d # e # es) = (eId d \<le> eId e \<and> edgesAscend (e # es))"
| "edgesAscend es = True"

definition ruleEdgeOrder :: "lib \<Rightarrow> verifyTarget \<Rightarrow> unit result" where
  "ruleEdgeOrder L t = (if edgesAscend (claimEdges (tClaim t)) then Inr () else Inl (ShapeErr ErrEdgeOrder))"

definition ruleDeleteMarkShape :: "lib \<Rightarrow> verifyTarget \<Rightarrow> unit result" where
  "ruleDeleteMarkShape L t =
     (if claimType (tClaim t) \<noteq> NodeDelete then Inr ()
      else if \<exists>e \<in> set (effectiveEdges (tClaim t)). edgeType e = EdgeTypeDelete then Inr ()
      else Inl (ShapeErr ErrDeleteMarkNoTarget))"

definition ruleStructureNotDeletable :: "lib \<Rightarrow> verifyTarget \<Rightarrow> unit result" where
  "ruleStructureNotDeletable L t =
     (let n = claimNode (tClaim t) in
        CheckDeletable (typeClass (own n)) (typeSub (own n))
          (case nodeGetField n FieldDeleteBy of Inl e \<Rightarrow> [] | Inr due \<Rightarrow> [(FieldDeleteBy, due)]))"

definition ruleArchiveHead :: "lib \<Rightarrow> verifyTarget \<Rightarrow> unit result" where
  "ruleArchiveHead L t =
     (if claimType (tClaim t) \<noteq> NodeBranches then verr errNotBranchTable else Inr ())"

section \<open>The rules of a content carrier and of an edge\<close>

text \<open>
  \<open>io.Copy\<close> reads the verifying reader to its end in buffers of 32 KiB; one read more than
  the expected size always ends it (\<open>verifying_reader_exact\<close>), which \<open>None\<close> would say.
\<close>

definition verifyContentRef :: "lib \<Rightarrow> carrier \<Rightarrow> verifyConfig \<Rightarrow> uni \<Rightarrow> unit result" where
  "verifyContentRef L cc cfg u =
     (case carrierHash cc of None \<Rightarrow> Inr ()
      | Some h \<Rightarrow>
          if \<not> vcExternal cfg then Inr ()
          else
            rbind (uStreamContent u (Some h) (carrierSize cc)) (\<lambda>src.
            rbind (NewVerifyingReader L src (Some h) (unat (carrierSize cc))) (\<lambda>vr.
              case readAll (Suc (unat (carrierSize cc))) L 32768 32768 vr [] of
                None \<Rightarrow> Inl errDiverges
              | Some (Inl e) \<Rightarrow> Inl e
              | Some (Inr b) \<Rightarrow> Inr ())))"

definition ruleContent :: "lib \<Rightarrow> carrier \<Rightarrow> verifyTarget \<Rightarrow> unit result" where
  "ruleContent L cc t = verifyContentRef L cc (tCfg t) (tU t)"

definition ruleContentEncoding :: "lib \<Rightarrow> carrier \<Rightarrow> verifyTarget \<Rightarrow> unit result" where
  "ruleContentEncoding L cc t =
     (if carrierKind cc = ContentNone then Inr ()
      else if carrierEncoding cc = [] then Inl (BuildErr errContentWithoutEncoding)
      else Inr ())"

definition ruleRelationDirection :: "lib \<Rightarrow> edge \<Rightarrow> verifyTarget \<Rightarrow> unit result" where
  "ruleRelationDirection L e t =
     (let dir = eRelationDirection e in
        if eTypeClass e = ''relation'' then
          (if dir \<noteq> 1 \<and> dir \<noteq> - 1 then Inl (ShapeErr ErrRelationDirection) else Inr ())
        else if dir \<noteq> 0 then Inl (ShapeErr ErrRelationDirection) else Inr ())"

definition ruleBranchTableReference :: "lib \<Rightarrow> edge \<Rightarrow> verifyTarget \<Rightarrow> unit result" where
  "ruleBranchTableReference L e t =
     (if claimType (tClaim t) = NodeBranches \<and> (edgeType e = EdgeTypeDiff \<or> edgeType e = EdgeTypeBranches)
      then Inr ()
      else case GetClaim (tU t) False (eReference e) of
          Inl err \<Rightarrow> if errorsIs err (StoreErr ErrNotFound) then Inr () else Inl err
        | Inr ref \<Rightarrow> if claimType ref = NodeBranches then verr ErrRefsBranchTable else Inr ())"

definition stated :: "string result \<Rightarrow> string" where
  "stated r = (case r of Inl e \<Rightarrow> [] | Inr v \<Rightarrow> v)"

definition ruleDeleteByCopied :: "lib \<Rightarrow> edge \<Rightarrow> verifyTarget \<Rightarrow> unit result" where
  "ruleDeleteByCopied L e t =
     (case GetClaim (tU t) False (eReference e) of
        Inl err \<Rightarrow> if errorsIs err (StoreErr ErrNotFound) then Inr () else Inl err
      | Inr ref \<Rightarrow>
          if stated (edgeGetField e FieldDeleteBy) \<noteq> stated (nodeGetField (claimNode ref) FieldDeleteBy)
          then verr ErrDeleteByNotCopied else Inr ())"

section \<open>Heights and dates against the references\<close>

definition referenceIds :: "claim \<Rightarrow> ident list" where
  "referenceIds c = map eReference (effectiveEdges c)"

text \<open>The ids a presence answer says are held.\<close>

definition heldOf :: "ident list \<Rightarrow> bool list \<Rightarrow> ident list" where
  "heldOf ids present = map fst (filter snd (zip ids present))"

text \<open>\<open>want = max + 1\<close> is a sum of 64-bit words: above the last one it is zero.\<close>

definition verifyHeight :: "claim \<Rightarrow> uni \<Rightarrow> unit result" where
  "verifyHeight c u =
     (let ids = referenceIds c; got = claimHeight c in
        rbind
          (if ids = [] then Inr (0, True)
           else
             rbind (wrapping (VerifyErr errVerify) (uHasClaims u ids)) (\<lambda>present.
               let held = heldOf ids present in
               rbind (if held = [] then Inr 0
                      else rbind (wrapping (VerifyErr errVerify) (uGetClaimHeights u held))
                             (\<lambda>hs. Inr (maxHeights hs))) (\<lambda>m.
                 Inr (m + 1, list_all id present))))
          (\<lambda>(want, complete).
            if complete \<and> got \<noteq> want then verr ErrHeightMismatch
            else if \<not> complete \<and> got < want then verr ErrHeightMismatch
            else Inr ()))"

definition ruleHeight :: "lib \<Rightarrow> verifyTarget \<Rightarrow> unit result" where
  "ruleHeight L t = verifyHeight (tClaim t) (tU t)"

definition presentReferences :: "claim \<Rightarrow> uni \<Rightarrow> ident list result" where
  "presentReferences c u =
     (let ids = referenceIds c in
        if ids = [] then Inr []
        else rbind (wrapping (VerifyErr errVerify) (uHasClaims u ids)) (\<lambda>present. Inr (heldOf ids present)))"

definition verifyCreatedAtMonotone :: "claim \<Rightarrow> uni \<Rightarrow> unit result" where
  "verifyCreatedAtMonotone c u =
     rbind (presentReferences c u) (\<lambda>ids.
       if ids = [] then Inr ()
       else
         rbind (wrapping (VerifyErr errVerify) (uGetClaims u True ids)) (\<lambda>rs.
           if length rs \<noteq> length ids then verr errVerify
           else checkAll (\<lambda>r. if claimCreatedAt c < claimCreatedAt r then verr ErrCreatedAtNotMonotone
                             else Inr ()) rs))"

definition ruleCreatedAtMonotone :: "lib \<Rightarrow> verifyTarget \<Rightarrow> unit result" where
  "ruleCreatedAtMonotone L t = verifyCreatedAtMonotone (tClaim t) (tU t)"

section \<open>Key windows and revocations\<close>

definition timeBound :: "string result \<Rightarrow> int option result" where
  "timeBound field =
     (case field of Inl e \<Rightarrow> Inr None
      | Inr v \<Rightarrow>
          (case parseRFC3339Nano v of
             None \<Rightarrow> Inl (Wrap (VerifyErr ErrKeyWindowField) (LibErr ''time.Parse''))
           | Some t \<Rightarrow> Inr (Some t)))"

definition keyBound :: "claim \<Rightarrow> string \<Rightarrow> int option result" where
  "keyBound signer field = timeBound (nodeGetField (claimNode signer) field)"

definition edgeBound :: "edge \<Rightarrow> string \<Rightarrow> int option result" where
  "edgeBound e field = timeBound (edgeGetField e field)"

definition earlier :: "int option \<Rightarrow> int option \<Rightarrow> int option" where
  "earlier best at =
     (case at of None \<Rightarrow> best
      | Some t \<Rightarrow> (case best of None \<Rightarrow> at | Some b \<Rightarrow> if t < b then at else best))"

text \<open>One claim of the sweep: its expiry edges against the contributor, in order.\<close>

fun expiryOf :: "ident \<Rightarrow> int option \<Rightarrow> edge list \<Rightarrow> int option result" where
  "expiryOf contributor best [] = Inr best"
| "expiryOf contributor best (e # es) =
     (if edgeType e \<noteq> EdgeTypeExpiry \<or> eReference e \<noteq> contributor then expiryOf contributor best es
      else rbind (edgeBound e FieldPubkeyExpiresAfter) (\<lambda>at. expiryOf contributor (earlier best at) es))"

definition expiryStep :: "uni \<Rightarrow> ident \<Rightarrow> int option \<Rightarrow> ident \<Rightarrow> (err, int option, ident) act" where
  "expiryStep u contributor best cur =
     (case GetClaim u True cur of
        Inl e \<Rightarrow> More best []
      | Inr c \<Rightarrow>
          (case expiryOf contributor best (effectiveEdges c) of
             Inl e \<Rightarrow> Halt e
           | Inr best' \<Rightarrow> More best' (referenceIds c)))"

definition sweepForExpiry :: "uni \<Rightarrow> ident list \<Rightarrow> ident \<Rightarrow> int option result" where
  "sweepForExpiry u roots contributor =
     (case drain (uStored u) id (expiryStep u contributor) [] None roots of
        Inl e \<Rightarrow> Inl e | Inr (best, seen) \<Rightarrow> Inr best)"

text \<open>
  The index: the sweep's answer per contributor, computed once. A rule reads the answer; that
  the cache does not change it is \<open>endFor_exact\<close>.
\<close>

record expiryIndex =
  xRoots :: "ident list"
  xBy :: "(ident \<times> int option) list"

definition newExpiryIndex :: "ident list \<Rightarrow> expiryIndex" where
  "newExpiryIndex roots = \<lparr>xRoots = roots, xBy = []\<rparr>"

definition endFor :: "expiryIndex option \<Rightarrow> uni \<Rightarrow> ident \<Rightarrow> int option result \<times> expiryIndex option" where
  "endFor x u contributor =
     (case x of None \<Rightarrow> (Inr None, x)
      | Some ix \<Rightarrow>
          if contributor = [] then (Inr None, x)
          else case map_of (xBy ix) contributor of
              Some e \<Rightarrow> (Inr e, x)
            | None \<Rightarrow>
                (case sweepForExpiry u (xRoots ix) contributor of
                   Inl err \<Rightarrow> (Inl err, x)
                 | Inr e \<Rightarrow> (Inr e, Some (ix\<lparr>xBy := (contributor, e) # xBy ix\<rparr>))))"

definition revokedAt :: "ident list option \<Rightarrow> uni \<Rightarrow> ident \<Rightarrow> int option result" where
  "revokedAt roots u contributor =
     fst (endFor (map_option newExpiryIndex roots) u contributor)"

definition verifyKeyWindow :: "claim \<Rightarrow> claim option \<Rightarrow> uni \<Rightarrow> ident list option \<Rightarrow> unit result" where
  "verifyKeyWindow c signer u roots =
     (case signer of None \<Rightarrow> Inr ()
      | Some s \<Rightarrow>
          if ID s = ID c then Inr ()
          else
            rbind (keyBound s FieldPubkeyValidFrom) (\<lambda>from.
            if (case from of None \<Rightarrow> False | Some f \<Rightarrow> claimCreatedAt c < f) then verr ErrKeyNotYetValid
            else
              rbind (keyBound s FieldPubkeyExpiresAfter) (\<lambda>until.
              rbind (revokedAt roots u (ID s)) (\<lambda>revoked.
                case earlier until revoked of
                  None \<Rightarrow> Inr ()
                | Some e \<Rightarrow> if e < claimCreatedAt c then verr ErrKeyExpired else Inr ()))))"

definition ruleKeyWindow :: "lib \<Rightarrow> verifyTarget \<Rightarrow> unit result" where
  "ruleKeyWindow L t = verifyKeyWindow (tClaim t) (tSigner t) (tU t) (vcExpiry (tCfg t))"

section \<open>The rule set\<close>

record verifyRule =
  vrName :: string
  vrClaim :: "(lib \<Rightarrow> verifyTarget \<Rightarrow> unit result) option"
  vrContent :: "(lib \<Rightarrow> carrier \<Rightarrow> verifyTarget \<Rightarrow> unit result) option"
  vrEdge :: "(lib \<Rightarrow> edge \<Rightarrow> verifyTarget \<Rightarrow> unit result) option"
  vrArchive :: "(lib \<Rightarrow> verifyTarget \<Rightarrow> unit result) option"

definition claimRule :: "string \<Rightarrow> (lib \<Rightarrow> verifyTarget \<Rightarrow> unit result) \<Rightarrow> verifyRule" where
  "claimRule n f = \<lparr>vrName = n, vrClaim = Some f, vrContent = None, vrEdge = None, vrArchive = None\<rparr>"

definition contentRule :: "string \<Rightarrow> (lib \<Rightarrow> carrier \<Rightarrow> verifyTarget \<Rightarrow> unit result) \<Rightarrow> verifyRule" where
  "contentRule n f = \<lparr>vrName = n, vrClaim = None, vrContent = Some f, vrEdge = None, vrArchive = None\<rparr>"

definition edgeRule :: "string \<Rightarrow> (lib \<Rightarrow> edge \<Rightarrow> verifyTarget \<Rightarrow> unit result) \<Rightarrow> verifyRule" where
  "edgeRule n f = \<lparr>vrName = n, vrClaim = None, vrContent = None, vrEdge = Some f, vrArchive = None\<rparr>"

definition archiveRule :: "string \<Rightarrow> (lib \<Rightarrow> verifyTarget \<Rightarrow> unit result) \<Rightarrow> verifyRule" where
  "archiveRule n f = \<lparr>vrName = n, vrClaim = None, vrContent = None, vrEdge = None, vrArchive = Some f\<rparr>"

text \<open>A section sign is two bytes of UTF-8.\<close>

definition heightRuleName :: string where
  "heightRuleName = [CHR 0xC2, CHR 0xA7] @ ''4.1 height''"

definition verifyRules :: "verifyRule list" where
  "verifyRules =
     [claimRule ''id'' ruleID,
      claimRule ''signature'' ruleSignature,
      claimRule ''first branch-table height'' ruleArchiveFirstTableHeight,
      claimRule heightRuleName ruleHeight,
      claimRule ''created_at stated'' ruleCreatedAtStated,
      claimRule ''created_at monotonicity'' ruleCreatedAtMonotone,
      claimRule ''type classes'' ruleTypeClasses,
      edgeRule ''relation direction'' ruleRelationDirection,
      claimRule ''edge order'' ruleEdgeOrder,
      claimRule ''delete mark target'' ruleDeleteMarkShape,
      contentRule ''content integrity'' ruleContent,
      contentRule ''content encoding'' ruleContentEncoding,
      edgeRule ''branch-table reference'' ruleBranchTableReference,
      archiveRule ''archive head'' ruleArchiveHead,
      claimRule ''key validity'' ruleKeyWindow,
      edgeRule ''delete_by carried'' ruleDeleteByCopied,
      claimRule ''structure not deletable'' ruleStructureNotDeletable]"

definition VerifyRuleSet :: "string list" where
  "VerifyRuleSet = map vrName verifyRules"

section \<open>One claim\<close>

definition resolveSigner :: "claim \<Rightarrow> uni \<Rightarrow> claim result" where
  "resolveSigner c u =
     (if effectiveEdges c = [] then Inr c
      else case find isContributorEdge (effectiveEdges c) of
          None \<Rightarrow> Inl (BuildErr errNoContributorEdge)
        | Some e \<Rightarrow> wrapping (VerifyErr ErrContributorUnresolved) (GetClaim u False (eReference e)))"

definition resolveClaimPubkey :: "lib \<Rightarrow> claim \<Rightarrow> bool \<Rightarrow> uni \<Rightarrow> bytes result" where
  "resolveClaimPubkey L signer self u =
     (if self then nodeGetContent L (Some u) (claimNode signer)
      else wrapping (VerifyErr ErrContributorUnresolved) (nodeGetContent L (Some u) (claimNode signer)))"

definition runRule :: "('a \<Rightarrow> unit result) option \<Rightarrow> 'a \<Rightarrow> unit result" where
  "runRule r x = (case r of None \<Rightarrow> Inr () | Some f \<Rightarrow> wrapping (VerifyErr errVerify) (f x))"

definition claimChecks :: "lib \<Rightarrow> verifyTarget \<Rightarrow> verifyRule \<Rightarrow> unit result" where
  "claimChecks L t r =
     rbind (runRule (map_option (\<lambda>f. f L) (vrClaim r)) t) (\<lambda>_.
       runRule (map_option (\<lambda>f cc. f L cc t) (vrContent r)) (NodeCarrier (claimNode (tClaim t))))"

definition edgeChecks :: "lib \<Rightarrow> verifyTarget \<Rightarrow> edge \<Rightarrow> verifyRule \<Rightarrow> unit result" where
  "edgeChecks L t e r =
     rbind (runRule (map_option (\<lambda>f cc. f L cc t) (vrContent r)) (EdgeCarrier e)) (\<lambda>_.
       runRule (map_option (\<lambda>f e. f L e t) (vrEdge r)) e)"

definition activeRules :: "verifyConfig \<Rightarrow> verifyRule list" where
  "activeRules cfg = filter (\<lambda>r. vrName r \<notin> set (vcSkip cfg)) verifyRules"

text \<open>The signer is the claim itself exactly when it has no edges.\<close>

definition verifyClaim :: "lib \<Rightarrow> claim \<Rightarrow> bytes \<Rightarrow> verifyConfig \<Rightarrow> uni \<Rightarrow> unit result" where
  "verifyClaim L c raw cfg u =
     rbind (wrapping (VerifyErr errVerify) (resolveSigner c u)) (\<lambda>signer.
     rbind (wrapping (VerifyErr errVerify) (resolveClaimPubkey L signer (effectiveEdges c = []) u)) (\<lambda>pk.
       let t = \<lparr>tClaim = c, tRaw = raw, tPubkey = pk, tSigner = Some signer, tCfg = cfg, tU = u\<rparr> in
       rbind (checkAll (claimChecks L t) (activeRules cfg)) (\<lambda>_.
         checkAll (\<lambda>e. checkAll (edgeChecks L t e) (activeRules cfg)) (effectiveEdges c))))"

definition verifyArchiveHead :: "lib \<Rightarrow> claim \<Rightarrow> uni \<Rightarrow> verifyConfig \<Rightarrow> unit result" where
  "verifyArchiveHead L head u cfg =
     (let t = \<lparr>tClaim = head, tRaw = [], tPubkey = [], tSigner = None, tCfg = cfg, tU = u\<rparr> in
        checkAll (\<lambda>r. runRule (map_option (\<lambda>f. f L) (vrArchive r)) t) (activeRules cfg))"

section \<open>The run\<close>

record failure =
  fId :: ident
  fDepth :: int
  fErr :: err

record vrun =
  vVerified :: nat
  vFailures :: "failure list"
  vGaps :: "(ident \<times> failure) list"
  vMarked :: "ident list"
  vProcessed :: int

definition newRun :: vrun where
  "newRun = \<lparr>vVerified = 0, vFailures = [], vGaps = [], vMarked = [], vProcessed = 0\<rparr>"

definition vPass :: "vrun \<Rightarrow> vrun" where
  "vPass s = s\<lparr>vVerified := vVerified s + 1\<rparr>"

definition vFail :: "failure \<Rightarrow> vrun \<Rightarrow> vrun" where
  "vFail f s = s\<lparr>vFailures := vFailures s @ [f]\<rparr>"

definition stops :: "verifyConfig \<Rightarrow> vrun \<Rightarrow> bool" where
  "stops cfg s = (0 < vcStopAfter cfg \<and> vcStopAfter cfg \<le> int (length (vFailures s)))"

text \<open>An item of the queue: an id, its depth, and whether the edge to it carried a schedule.\<close>

type_synonym item = "ident \<times> int \<times> bool"

definition failStep :: "verifyConfig \<Rightarrow> vrun \<Rightarrow> failure \<Rightarrow> (vrun, vrun, item) act" where
  "failStep cfg s f = (if stops cfg (vFail f s) then Halt (vFail f s) else More (vFail f s) [])"

text \<open>Marks a delete claim leaves, and the references it queues.\<close>

definition marksOf :: "claim \<Rightarrow> ident list" where
  "marksOf c =
     (if claimType c = NodeDelete
      then map eReference (filter (\<lambda>e. edgeType e = EdgeTypeDelete) (effectiveEdges c)) else [])"

definition nextItems :: "verifyConfig \<Rightarrow> int \<Rightarrow> claim \<Rightarrow> item list" where
  "nextItems cfg depth c =
     (if vcMaxDepth cfg = 0 \<or> depth < vcMaxDepth cfg
      then map (\<lambda>e. (eReference e, depth + 1, edgeHasField e FieldDeleteBy)) (effectiveEdges c)
      else [])"

text \<open>A loaded claim inside the window: the root check, the rules, and what follows from it.\<close>

definition rootFailure :: "(claim \<Rightarrow> unit result) option \<Rightarrow> int \<Rightarrow> claim \<Rightarrow> failure list" where
  "rootFailure rootCheck depth c =
     (case rootCheck of None \<Rightarrow> []
      | Some check \<Rightarrow>
          if depth = 0
          then (case check c of Inr _ \<Rightarrow> [] | Inl e \<Rightarrow> [\<lparr>fId = ID c, fDepth = 0, fErr = e\<rparr>])
          else [])"

definition visitClaim ::
    "lib \<Rightarrow> uni \<Rightarrow> verifyConfig \<Rightarrow> (claim \<Rightarrow> unit result) option \<Rightarrow> vrun \<Rightarrow> claim \<Rightarrow> bytes \<Rightarrow> int \<Rightarrow>
       (vrun, vrun, item) act" where
  "visitClaim L u cfg rootCheck s c raw depth =
     (let rf = rootFailure rootCheck depth c; s1 = fold vFail rf s in
      if rf \<noteq> [] \<and> stops cfg s1 then Halt s1
      else
        let (s2, halted) =
              (case verifyClaim L c raw cfg u of
                 Inr _ \<Rightarrow> (vPass s1, False)
               | Inl e \<Rightarrow>
                   let s' = vFail \<lparr>fId = ID c, fDepth = depth, fErr = e\<rparr> s1 in (s', stops cfg s'));
            s3 = s2\<lparr>vProcessed := vProcessed s2 + 1\<rparr>
        in if halted then Halt s2
           else if 0 < vcMaxClaims cfg \<and> vcMaxClaims cfg \<le> vProcessed s3 then Halt s3
           else More (s3\<lparr>vMarked := marksOf c @ vMarked s3\<rparr>) (nextItems cfg depth c))"

text \<open>The bytes the id was signed over.\<close>

definition rawOf :: "uni \<Rightarrow> ident \<Rightarrow> bytes result" where
  "rawOf u i = rbind (uGetClaimsRaw u [i]) first"

definition verifyStep ::
    "lib \<Rightarrow> uni \<Rightarrow> verifyConfig \<Rightarrow> (claim \<Rightarrow> unit result) option \<Rightarrow> vrun \<Rightarrow> item \<Rightarrow> (vrun, vrun, item) act" where
  "verifyStep L u cfg rootCheck s q =
     (case q of (cur, depth, due) \<Rightarrow>
        if (case vcTrusted cfg of None \<Rightarrow> False | Some f \<Rightarrow> f cur) then More s []
        else case rawOf u cur of
            Inl e \<Rightarrow>
              if errorsIs e (StoreErr ErrNotFound) then
                More (if due then s
                      else s\<lparr>vGaps := AList.update cur
                               \<lparr>fId = cur, fDepth = depth, fErr = Wrap (BookErr ErrUnexplainedGap) e\<rparr> (vGaps s)\<rparr>) []
              else failStep cfg s \<lparr>fId = cur, fDepth = depth, fErr = e\<rparr>
          | Inr raw \<Rightarrow>
              (case DecodeClaim L cur raw of
                 Inl e \<Rightarrow> failStep cfg s \<lparr>fId = cur, fDepth = depth, fErr = e\<rparr>
               | Inr c \<Rightarrow>
                   if vcCreatedAfter cfg \<noteq> zeroTime \<and> claimCreatedAt c < vcCreatedAfter cfg then More s []
                   else visitClaim L u cfg rootCheck s c raw depth))"

text \<open>
  The gaps are settled when the closure is exhausted; Go visits the map of gaps in no fixed
  order, the model in the order they were found.
\<close>

fun settle :: "verifyConfig \<Rightarrow> vrun \<Rightarrow> (ident \<times> failure) list \<Rightarrow> vrun" where
  "settle cfg s [] = s"
| "settle cfg s ((k, f) # gaps) =
     (if k \<in> set (vMarked s) then settle cfg s gaps
      else if stops cfg (vFail f s) then vFail f s
      else settle cfg (vFail f s) gaps)"

definition runVerification ::
    "lib \<Rightarrow> ident list \<Rightarrow> uni \<Rightarrow> verifyConfig \<Rightarrow> (claim \<Rightarrow> unit result) option \<Rightarrow> vrun" where
  "runVerification L roots u cfg0 rootCheck =
     (let cfg = cfg0\<lparr>vcExpiry := Some roots\<rparr> in
        case drain (uStored u) fst (verifyStep L u cfg rootCheck) [] newRun (map (\<lambda>i. (i, 0, False)) roots) of
          Inl s \<Rightarrow> s
        | Inr (s, seen) \<Rightarrow> settle cfg s (vGaps s))"

definition archiveVerify :: "lib \<Rightarrow> ident \<Rightarrow> uni \<Rightarrow> verifyConfig \<Rightarrow> vrun" where
  "archiveVerify L head u cfg =
     runVerification L [head] u cfg
       (Some (\<lambda>c. verifyArchiveHead L c u (cfg\<lparr>vcExpiry := Some [head]\<rparr>)))"

definition branchVerify :: "lib \<Rightarrow> ident \<Rightarrow> uni \<Rightarrow> verifyConfig \<Rightarrow> vrun" where
  "branchVerify L reference u cfg = runVerification L [reference] u cfg None"

section \<open>What a clean run has seen\<close>

definition rawRefs :: "lib \<Rightarrow> uni \<Rightarrow> ident \<Rightarrow> ident list" where
  "rawRefs L u i =
     (case rbind (rawOf u i) (DecodeClaim L i) of Inl e \<Rightarrow> [] | Inr c \<Rightarrow> map eReference (claimEdges c))"

definition passes :: "lib \<Rightarrow> uni \<Rightarrow> verifyConfig \<Rightarrow> ident \<Rightarrow> bool" where
  "passes L u cfg i =
     (case rawOf u i of Inl e \<Rightarrow> False
      | Inr raw \<Rightarrow> (case DecodeClaim L i raw of Inl e \<Rightarrow> False | Inr c \<Rightarrow> verifyClaim L c raw cfg u = Inr ()))"

definition absent :: "uni \<Rightarrow> ident \<Rightarrow> bool" where
  "absent u i = (case rawOf u i of Inl e \<Rightarrow> errorsIs e (StoreErr ErrNotFound) | Inr raw \<Rightarrow> False)"

text \<open>A claim says of a gap that it is one: it marks it for deletion, or dates its edge to it.\<close>

definition explains :: "claim \<Rightarrow> ident \<Rightarrow> bool" where
  "explains c i =
     (i \<in> set (marksOf c) \<or>
      (\<exists>e \<in> set (claimEdges c). eReference e = i \<and> edgeHasField e FieldDeleteBy))"

definition explained :: "lib \<Rightarrow> uni \<Rightarrow> ident list \<Rightarrow> ident \<Rightarrow> bool" where
  "explained L u roots i =
     (\<exists>k raw c. reach (rawRefs L u) roots k \<and> rawOf u k = Inr raw \<and> DecodeClaim L k raw = Inr c \<and> explains c i)"

text \<open>A run that prunes nothing and has no cap on its work.\<close>

definition fullRun :: "verifyConfig \<Rightarrow> bool" where
  "fullRun cfg =
     (vcTrusted cfg = None \<and> vcMaxDepth cfg = 0 \<and> vcMaxClaims cfg \<le> 0 \<and> vcCreatedAfter cfg = zeroTime)"

lemma Decode_effective: "DecodeClaim L i raw = Inr c \<Longrightarrow> effectiveEdges c = claimEdges c"
  by (drule DecodeClaim_shape(3)) (simp add: effectiveEdges_def)

lemma fold_vFail [simp]:
  "vFailures (fold vFail fs s) = vFailures s @ fs" "vGaps (fold vFail fs s) = vGaps s"
  "vMarked (fold vFail fs s) = vMarked s" "vVerified (fold vFail fs s) = vVerified s"
  "vProcessed (fold vFail fs s) = vProcessed s"
  by (induction fs arbitrary: s) (auto simp: vFail_def)

lemma vFail_simps [simp]:
  "vFailures (vFail f s) = vFailures s @ [f]" "vGaps (vFail f s) = vGaps s"
  "vMarked (vFail f s) = vMarked s" "vVerified (vFail f s) = vVerified s"
  by (simp_all add: vFail_def)

lemma vPass_simps [simp]:
  "vFailures (vPass s) = vFailures s" "vGaps (vPass s) = vGaps s"
  "vMarked (vPass s) = vMarked s" "vVerified (vPass s) = vVerified s + 1"
  by (simp_all add: vPass_def)

lemma stops_failures: "stops cfg s \<Longrightarrow> vFailures s \<noteq> []"
  by (auto simp: stops_def)

lemma visitClaim_halts:
  assumes "fullRun cfg" "visitClaim L u cfg rc s c raw d = Halt s'"
  shows "vFailures s' \<noteq> []"
  using assms
  by (auto simp: visitClaim_def Let_def fullRun_def dest: stops_failures split: if_splits sum.splits)

lemma visitClaim_goes:
  assumes "fullRun cfg" "visitClaim L u cfg rc s c raw d = More s' qs"
  shows "qs = nextItems cfg d c" "vMarked s' = marksOf c @ vMarked s" "vGaps s' = vGaps s"
    "vFailures s' = vFailures s @ rootFailure rc d c @
       (case verifyClaim L c raw cfg u of Inr _ \<Rightarrow> [] | Inl e \<Rightarrow> [\<lparr>fId = ID c, fDepth = d, fErr = e\<rparr>])"
    "verifyClaim L c raw cfg u = Inr () \<Longrightarrow> vVerified s' = vVerified s + 1"
  using assms
  by (auto simp: visitClaim_def Let_def fullRun_def split: if_splits sum.splits)

lemma verifyStep_halts:
  assumes "fullRun cfg" "verifyStep L u cfg rc s q = Halt s'"
  shows "vFailures s' \<noteq> []"
  using assms visitClaim_halts[OF assms(1)]
  by (auto simp: verifyStep_def failStep_def split: if_splits sum.splits prod.splits option.splits)

lemma fst_update: "fst ` set (AList.update k v m) = insert k (fst ` set m)"
  by (induction m) auto

text \<open>One step that goes on, by what the store answered.\<close>

lemma verifyStep_goes:
  assumes "fullRun cfg" "verifyStep L u cfg rc s (i, d, due) = More s' qs"
  obtains
    (gap) "absent u i" "qs = []" "vFailures s' = vFailures s" "vMarked s' = vMarked s" "vVerified s' = vVerified s"
      "if due then vGaps s' = vGaps s else fst ` set (vGaps s') = insert i (fst ` set (vGaps s))"
  | (bad) "vFailures s' \<noteq> []" "qs = []" "rawRefs L u i = []"
  | (claim) raw c where "rawOf u i = Inr raw" "DecodeClaim L i raw = Inr c"
      "visitClaim L u cfg rc s c raw d = More s' qs"
proof (cases "rawOf u i")
  case (Inl e)
  show thesis
  proof (cases "errorsIs e (StoreErr ErrNotFound)")
    case True
    define s'' where "s'' = (if due then s else s\<lparr>vGaps := AList.update i
        \<lparr>fId = i, fDepth = d, fErr = Wrap (BookErr ErrUnexplainedGap) e\<rparr> (vGaps s)\<rparr>)"
    have s': "s' = s''" "qs = []"
      using assms Inl True by (auto simp: verifyStep_def fullRun_def s''_def split: if_splits)
    have "absent u i" using Inl True by (simp add: absent_def)
    then show thesis
      unfolding s' by (rule gap[unfolded s']) (simp_all add: s''_def fst_update)
  next
    case False
    then show thesis
      using assms Inl
      by (intro bad) (auto simp: verifyStep_def fullRun_def failStep_def rawRefs_def split: if_splits)
  qed
next
  case (Inr raw)
  show thesis
  proof (cases "DecodeClaim L i raw")
    case D: (Inl e)
    then show thesis
      using assms Inr
      by (intro bad) (auto simp: verifyStep_def fullRun_def failStep_def rawRefs_def split: if_splits)
  next
    case D: (Inr c)
    then show thesis
      using assms Inr by (intro claim[of raw c]) (auto simp: verifyStep_def fullRun_def)
  qed
qed

lemma settle_clean:
  "vFailures (settle cfg s gaps) = [] \<longleftrightarrow> vFailures s = [] \<and> (\<forall>(k, f) \<in> set gaps. k \<in> set (vMarked s))"
  by (induction cfg s gaps rule: settle.induct) auto

text \<open>The items of the queue: a dated one is explained by the claim that led to it.\<close>

locale raw_store = byte_store u for u +
  fixes L :: lib
  assumes raw_held: "rawOf u i = Inr raw \<Longrightarrow> i \<in> set (uStored u)"
    and raw_decodes: "rawOf u i = Inr raw \<Longrightarrow> DecodeClaim L i raw = Inr d \<Longrightarrow>
      \<exists>c. GetClaim u True i = Inr c \<and> own (claimNode c) = own (claimNode d) \<and> claimEdges c = claimEdges d"
    and get_decodes: "GetClaim u True i = Inr c \<Longrightarrow> \<exists>raw d. rawOf u i = Inr raw \<and> DecodeClaim L i raw = Inr d"

context raw_store
begin

lemma step_refs:
  assumes "fullRun cfg" "verifyStep L u cfg rc s q = More s' qs"
  shows "fst ` set (if fst q \<in> set (uStored u) then qs else []) - {[]} = set (rawRefs L u (fst q)) - {[]}"
proof -
  obtain i d due where q: "q = (i, d, due)" by (cases q)
  from assms[unfolded q] show ?thesis
  proof (cases rule: verifyStep_goes)
    case gap
    then show ?thesis by (auto simp: q absent_def rawRefs_def split: sum.splits)
  next
    case bad
    then show ?thesis by (simp add: q)
  next
    case (claim raw c)
    then show ?thesis
      using visitClaim_goes(1)[OF assms(1) claim(3)] raw_held[OF claim(1)] assms(1) Decode_effective[OF claim(2)]
      by (auto simp: q rawRefs_def nextItems_def fullRun_def image_image)
  qed
qed

lemma step_dated:
  assumes "fullRun cfg" "verifyStep L u cfg rc s q = More s' qs" "reach (rawRefs L u) roots (fst q)"
    and "x \<in> set qs" "snd (snd x)"
  shows "explained L u roots (fst x)"
proof -
  obtain i d due where q: "q = (i, d, due)" by (cases q)
  from assms(1,2)[unfolded q] show ?thesis
  proof (cases rule: verifyStep_goes)
    case (claim raw c)
    have "explains c (fst x)"
      using visitClaim_goes(1)[OF assms(1) claim(3)] assms(1,4,5) Decode_effective[OF claim(2)]
      by (auto simp: nextItems_def fullRun_def explains_def)
    then show ?thesis using assms(3) claim(1,2) by (auto simp: explained_def q)
  qed (use assms(4) in simp_all)
qed

text \<open>What the run knows as long as it has found no failure.\<close>

definition sound :: "verifyConfig \<Rightarrow> ident list \<Rightarrow> ident list \<Rightarrow> vrun \<Rightarrow> bool" where
  "sound cfg roots seen s =
     (vFailures s = [] \<longrightarrow>
        (\<forall>i \<in> set seen. passes L u cfg i \<or>
           (absent u i \<and> (explained L u roots i \<or> i \<in> fst ` set (vGaps s)))) \<and>
        (\<forall>k \<in> set (vMarked s). explained L u roots k))"

lemma step_sound:
  assumes "fullRun cfg" "verifyStep L u cfg rc s q = More s' qs" "reach (rawRefs L u) roots (fst q)"
    and "snd (snd q) \<longrightarrow> explained L u roots (fst q)" "sound cfg roots seen s"
  shows "sound cfg roots (fst q # seen) s'"
proof -
  obtain i d due where q: "q = (i, d, due)" by (cases q)
  from assms(1,2)[unfolded q] show ?thesis
  proof (cases rule: verifyStep_goes)
    case gap
    then show ?thesis using assms(4,5) by (auto simp: sound_def q split: if_splits)
  next
    case bad
    then show ?thesis by (simp add: sound_def)
  next
    case (claim raw c)
    note v = visitClaim_goes[OF assms(1) claim(3)]
    have "passes L u cfg i" if "vFailures s' = []"
      using that claim v(4) by (auto simp: passes_def split: sum.splits)
    moreover have "\<forall>k \<in> set (marksOf c). explained L u roots k"
      using assms(3) claim(1,2) by (auto simp: explained_def explains_def q)
    moreover have "vFailures s' = [] \<Longrightarrow> vFailures s = []" using v(4) by simp
    ultimately show ?thesis using assms(5) v(2,3) by (auto simp: sound_def q)
  qed
qed

lemma clean_run:
  assumes "fullRun cfg" "vFailures (runVerification L roots u cfg rc) = []"
    and "reach (rawRefs L u) roots i"
  shows "passes L u (cfg\<lparr>vcExpiry := Some roots\<rparr>) i \<or> (absent u i \<and> explained L u roots i)"
proof -
  let ?cfg = "cfg\<lparr>vcExpiry := Some roots\<rparr>"
  have full: "fullRun ?cfg" using assms(1) by (simp add: fullRun_def)
  have "case drain (uStored u) fst (verifyStep L u ?cfg rc) [] newRun (map (\<lambda>i. (i, 0, False)) roots) of
      Inr (s, seen) \<Rightarrow> set seen = {k. reach (rawRefs L u) roots k} \<and> sound ?cfg roots seen s
    | Inl r \<Rightarrow> (\<exists>seen s q. sound ?cfg roots seen s \<and> set seen \<subseteq> {k. reach (rawRefs L u) roots k} \<and>
        fst q \<notin> set seen \<and> reach (rawRefs L u) roots (fst q) \<and>
        (snd (snd q) \<longrightarrow> explained L u roots (fst q)) \<and> verifyStep L u ?cfg rc s q = Halt r)"
  proof (rule drain_reach_items, goal_cases)
    case 1 then show ?case using step_refs[OF full] by blast
  next
    case 2 show ?case by (simp add: sound_def newRun_def)
  next
    case (3 seen s q s' qs) then show ?case using step_sound[OF full] by blast
  next
    case (4 seen s q s' qs x) then show ?case using step_dated[OF full] by (auto split: if_splits)
  next
    case (5 q) then show ?case by auto
  next
    case 6 show ?case by (auto simp: image_image)
  qed
  then consider s seen where "drain (uStored u) fst (verifyStep L u ?cfg rc) [] newRun
        (map (\<lambda>i. (i, 0, False)) roots) = Inr (s, seen)"
      "set seen = {k. reach (rawRefs L u) roots k}" "sound ?cfg roots seen s"
    | r where "drain (uStored u) fst (verifyStep L u ?cfg rc) [] newRun
        (map (\<lambda>i. (i, 0, False)) roots) = Inl r" "vFailures r \<noteq> []"
    using verifyStep_halts[OF full] by (auto split: sum.splits)
  then show ?thesis
  proof cases
    case (1 s seen)
    then have c: "vFailures s = []" "\<forall>(k, f) \<in> set (vGaps s). k \<in> set (vMarked s)"
      using assms(2) by (simp_all add: runVerification_def settle_clean)
    then have "\<forall>k \<in> fst ` set (vGaps s). explained L u roots k"
      using 1(3) by (auto simp: sound_def)
    then show ?thesis using 1(2,3) c(1) assms(3) by (auto simp: sound_def)
  next
    case (2 r)
    then show ?thesis using assms(2) by (simp add: runVerification_def)
  qed
qed

text \<open>Conversely, a closure that passes leaves no failure and is counted in full.\<close>

lemma passing_run:
  assumes "fullRun cfg" "\<And>i. reach (rawRefs L u) roots i \<Longrightarrow> passes L u (cfg\<lparr>vcExpiry := Some roots\<rparr>) i"
  shows "vFailures (runVerification L roots u cfg None) = [] \<and>
    vVerified (runVerification L roots u cfg None) = card {i. reach (rawRefs L u) roots i}"
proof -
  let ?cfg = "cfg\<lparr>vcExpiry := Some roots\<rparr>"
  let ?J = "\<lambda>seen s. vFailures s = [] \<and> vGaps s = [] \<and> distinct seen \<and> vVerified s = length seen"
  have full: "fullRun ?cfg" using assms(1) by (simp add: fullRun_def)
  have step: "?J (fst q # seen) s'"
    if p: "passes L u ?cfg (fst q)" "?J seen s" "fst q \<notin> set seen" "verifyStep L u ?cfg None s q = More s' qs"
    for q seen s s' qs
  proof -
    obtain i d due where q: "q = (i, d, due)" by (cases q)
    obtain raw c where c: "rawOf u i = Inr raw" "DecodeClaim L i raw = Inr c" "verifyClaim L c raw ?cfg u = Inr ()"
      using p(1) by (auto simp: q passes_def split: sum.splits)
    have "visitClaim L u ?cfg None s c raw d = More s' qs"
      using p(4) c full by (auto simp: q verifyStep_def fullRun_def)
    from visitClaim_goes[OF full this] show ?thesis
      using p(2,3) c(3) by (simp add: q rootFailure_def)
  qed
  have halt: "verifyStep L u ?cfg None s q \<noteq> Halt r" if "passes L u ?cfg (fst q)" for s q r
    using that full
    by (auto simp: passes_def verifyStep_def visitClaim_def Let_def rootFailure_def fullRun_def
        split: sum.splits prod.splits)
  have "case drain (uStored u) fst (verifyStep L u ?cfg None) [] newRun (map (\<lambda>i. (i, 0, False)) roots) of
      Inr (s, seen) \<Rightarrow> set seen = {k. reach (rawRefs L u) roots k} \<and> ?J seen s
    | Inl r \<Rightarrow> (\<exists>seen s q. ?J seen s \<and> set seen \<subseteq> {k. reach (rawRefs L u) roots k} \<and>
        fst q \<notin> set seen \<and> reach (rawRefs L u) roots (fst q) \<and> verifyStep L u ?cfg None s q = Halt r)"
  proof (rule drain_reach, goal_cases)
    case 1 then show ?case using step_refs[OF full] by blast
  next
    case 2 show ?case by (simp add: newRun_def)
  next
    case (3 seen s q s' qs) then show ?case using step assms(2) by blast
  next
    case 4 show ?case by (auto simp: image_image)
  qed
  then obtain s seen where d: "drain (uStored u) fst (verifyStep L u ?cfg None) [] newRun
      (map (\<lambda>i. (i, 0, False)) roots) = Inr (s, seen)" "set seen = {k. reach (rawRefs L u) roots k}" "?J seen s"
    using halt assms(2) by (auto split: sum.splits)
  have "card {k. reach (rawRefs L u) roots k} = vVerified s"
    using d(2,3) distinct_card by metis
  then show ?thesis using d(1,3) by (simp add: runVerification_def Let_def)
qed

end

section \<open>The memory Universe under the run\<close>

lemma rawOf_memUni:
  "rawOf (memUni L m) i =
     (if i = [] then Inl (KeyErr errNilID)
      else case map_of (mClaims m) i of None \<Rightarrow> Inl (StoreErr ErrNotFound) | Some b \<Rightarrow> Inr b)"
  by (auto simp: rawOf_def memUni_def memGetClaimsRaw_def split: option.splits)

lemma GetClaim_memUni_load: "GetClaim (memUni L m) True i = Inr c \<longleftrightarrow> memLoad L m i = Inr c"
  by (simp add: GetClaim_memUni)

interpretation memRaw: raw_store "memUni L m" L for L m
proof (unfold_locales, goal_cases)
  case (1 i raw)
  then have "i \<in> set (keys (mClaims m)) \<and> i \<noteq> []"
    by (auto simp: rawOf_memUni set_keys split: if_splits option.splits)
  then show ?case by (simp add: memUni_def)
next
  case (2 i raw d)
  then show ?case
    by (auto simp: rawOf_memUni GetClaim_memUni_load memLoad_def split: if_splits option.splits)
next
  case (3 i c)
  then show ?case
    by (auto simp: rawOf_memUni GetClaim_memUni_load memLoad_def rbind_eq_Inr split: if_splits option.splits)
qed

section \<open>The rules together\<close>

text \<open>
  What the rules say of a claim, stated once, without the order they are tried in or the errors
  they report.
\<close>

definition edgeValid :: "lib \<Rightarrow> verifyTarget \<Rightarrow> edge \<Rightarrow> bool" where
  "edgeValid L t e =
     ((eTypeClass e = ''relation'' \<longrightarrow> eRelationDirection e = 1 \<or> eRelationDirection e = - 1) \<and>
      (eTypeClass e \<noteq> ''relation'' \<longrightarrow> eRelationDirection e = 0) \<and>
      (edgeContentKind e \<noteq> ContentNone \<longrightarrow> edgeEncoding e \<noteq> []) \<and>
      verifyContentRef L (EdgeCarrier e) (tCfg t) (tU t) = Inr () \<and>
      ruleBranchTableReference L e t = Inr () \<and> ruleDeleteByCopied L e t = Inr ())"

definition claimValid :: "lib \<Rightarrow> verifyTarget \<Rightarrow> bool" where
  "claimValid L t =
     (let c = tClaim t; n = claimNode c in
      hashContent L (tRaw t) = Inr (ID c) \<and> verifyEnvelope L (tPubkey t) (tRaw t) = Inr () \<and>
      (claimType c = NodeBranches \<and> map edgeType (effectiveEdges c) = [EdgeTypeContributor] \<longrightarrow> claimHeight c = 1) \<and>
      verifyHeight c (tU t) = Inr () \<and> \<not> PredatesAnyClaim (claimCreatedAt c) \<and>
      verifyCreatedAtMonotone c (tU t) = Inr () \<and>
      validNodeClass (typeClass (own n)) \<and> (\<forall>e \<in> set (effectiveEdges c). validEdgeClass (eTypeClass e)) \<and>
      sorted (map eId (claimEdges c)) \<and>
      (claimType c = NodeDelete \<longrightarrow> (\<exists>e \<in> set (effectiveEdges c). edgeType e = EdgeTypeDelete)) \<and>
      verifyContentRef L (NodeCarrier n) (tCfg t) (tU t) = Inr () \<and>
      (nodeContentKind n \<noteq> ContentNone \<longrightarrow> nodeEncoding n \<noteq> []) \<and>
      verifyKeyWindow c (tSigner t) (tU t) (vcExpiry (tCfg t)) = Inr () \<and>
      \<not> (typeClass (own n) = ''contribution'' \<and> typeSub (own n) \<in> set undeletableSubtype \<and>
         nodeHasField n FieldDeleteBy) \<and>
      (\<forall>e \<in> set (effectiveEdges c). edgeValid L t e))"

lemma edgesAscend_sorted: "edgesAscend es \<longleftrightarrow> sorted (map eId es)"
  by (induction es rule: edgesAscend.induct) (auto intro: order_trans)

lemma structure_iff:
  "ruleStructureNotDeletable L t = Inr () \<longleftrightarrow>
     \<not> (typeClass (own (claimNode (tClaim t))) = ''contribution'' \<and>
        typeSub (own (claimNode (tClaim t))) \<in> set undeletableSubtype \<and>
        nodeHasField (claimNode (tClaim t)) FieldDeleteBy)"
  by (auto simp: ruleStructureNotDeletable_def CheckDeletable_def nodeGetField_def nodeHasField_def
      has_def Let_def split: option.splits)

lemma firstTable_iff:
  "ruleArchiveFirstTableHeight L t = Inr () \<longleftrightarrow>
     (claimType (tClaim t) = NodeBranches \<and> map edgeType (effectiveEdges (tClaim t)) = [EdgeTypeContributor]
        \<longrightarrow> claimHeight (tClaim t) = 1)"
  by (auto simp: ruleArchiveFirstTableHeight_def Let_def length_Suc_conv)

lemmas rule_iffs = structure_iff firstTable_iff

lemma ruleID_iff: "ruleID L t = Inr () \<longleftrightarrow> hashContent L (tRaw t) = Inr (ID (tClaim t))"
  by (auto simp: ruleID_def rbind_eq_Inr)

lemma simple_iffs:
  "ruleCreatedAtStated L t = Inr () \<longleftrightarrow> \<not> PredatesAnyClaim (claimCreatedAt (tClaim t))"
  "ruleTypeClasses L t = Inr () \<longleftrightarrow> validNodeClass (typeClass (own (claimNode (tClaim t)))) \<and>
     (\<forall>e \<in> set (effectiveEdges (tClaim t)). validEdgeClass (eTypeClass e))"
  "ruleEdgeOrder L t = Inr () \<longleftrightarrow> sorted (map eId (claimEdges (tClaim t)))"
  "ruleDeleteMarkShape L t = Inr () \<longleftrightarrow>
     (claimType (tClaim t) = NodeDelete \<longrightarrow> (\<exists>e \<in> set (effectiveEdges (tClaim t)). edgeType e = EdgeTypeDelete))"
  "ruleContentEncoding L cc t = Inr () \<longleftrightarrow> (carrierKind cc \<noteq> ContentNone \<longrightarrow> carrierEncoding cc \<noteq> [])"
  "ruleRelationDirection L e t = Inr () \<longleftrightarrow>
     (eTypeClass e = ''relation'' \<longrightarrow> eRelationDirection e = 1 \<or> eRelationDirection e = - 1) \<and>
     (eTypeClass e \<noteq> ''relation'' \<longrightarrow> eRelationDirection e = 0)"
  by (auto simp: ruleCreatedAtStated_def verr_def ruleTypeClasses_def checkAll_Inr_iff ruleEdgeOrder_def
      edgesAscend_sorted ruleDeleteMarkShape_def ruleContentEncoding_def ruleRelationDirection_def Let_def)

lemma runRule_simps [simp]:
  "runRule None x = Inr ()" "runRule (Some f) x = Inr () \<longleftrightarrow> f x = Inr ()"
  by (simp_all add: runRule_def)

lemmas rule_makers = claimRule_def contentRule_def edgeRule_def archiveRule_def

lemma all_claim_rules:
  assumes "vcSkip cfg = []"
  shows "checkAll (claimChecks L t) (activeRules cfg) = Inr () \<longleftrightarrow>
    ruleID L t = Inr () \<and> ruleSignature L t = Inr () \<and> ruleArchiveFirstTableHeight L t = Inr () \<and>
    ruleHeight L t = Inr () \<and> ruleCreatedAtStated L t = Inr () \<and> ruleCreatedAtMonotone L t = Inr () \<and>
    ruleTypeClasses L t = Inr () \<and> ruleEdgeOrder L t = Inr () \<and> ruleDeleteMarkShape L t = Inr () \<and>
    ruleContent L (NodeCarrier (claimNode (tClaim t))) t = Inr () \<and>
    ruleContentEncoding L (NodeCarrier (claimNode (tClaim t))) t = Inr () \<and>
    ruleKeyWindow L t = Inr () \<and> ruleStructureNotDeletable L t = Inr ()"
  by (simp add: checkAll_Inr_iff activeRules_def assms verifyRules_def rule_makers claimChecks_def rbind_eq_Inr)

lemma all_edge_rules:
  assumes "vcSkip cfg = []"
  shows "checkAll (edgeChecks L t e) (activeRules cfg) = Inr () \<longleftrightarrow>
    ruleRelationDirection L e t = Inr () \<and> ruleContent L (EdgeCarrier e) t = Inr () \<and>
    ruleContentEncoding L (EdgeCarrier e) t = Inr () \<and> ruleBranchTableReference L e t = Inr () \<and>
    ruleDeleteByCopied L e t = Inr ()"
  by (simp add: checkAll_Inr_iff activeRules_def assms verifyRules_def rule_makers edgeChecks_def rbind_eq_Inr)

lemma edgeValid_iff:
  assumes "vcSkip cfg = []" "tCfg t = cfg"
  shows "checkAll (edgeChecks L t e) (activeRules cfg) = Inr () \<longleftrightarrow> edgeValid L t e"
  unfolding all_edge_rules[OF assms(1)] edgeValid_def simple_iffs ruleContent_def carrierKind.simps
    carrierEncoding.simps
  by blast

lemma claimValid_iff:
  assumes "vcSkip cfg = []" "tCfg t = cfg"
  shows "checkAll (claimChecks L t) (activeRules cfg) = Inr () \<and>
    checkAll (\<lambda>e. checkAll (edgeChecks L t e) (activeRules cfg)) (effectiveEdges (tClaim t)) = Inr () \<longleftrightarrow>
    claimValid L t"
  unfolding all_claim_rules[OF assms(1)] checkAll_Inr_iff[of "\<lambda>e. checkAll (edgeChecks L t e) (activeRules cfg)"]
    edgeValid_iff[OF assms] claimValid_def Let_def rule_iffs ruleID_iff simple_iffs ruleSignature_def
    ruleHeight_def ruleCreatedAtMonotone_def ruleContent_def ruleKeyWindow_def carrierKind.simps
    carrierEncoding.simps
  by (simp only: conj_assoc)

lemma verifyClaim_iff:
  assumes "vcSkip cfg = []"
  shows "verifyClaim L c raw cfg u = Inr () \<longleftrightarrow>
    (\<exists>signer pk. resolveSigner c u = Inr signer \<and>
       resolveClaimPubkey L signer (effectiveEdges c = []) u = Inr pk \<and>
       claimValid L \<lparr>tClaim = c, tRaw = raw, tPubkey = pk, tSigner = Some signer, tCfg = cfg, tU = u\<rparr>)"
  (is "_ \<longleftrightarrow> (\<exists>signer pk. _ \<and> _ \<and> claimValid L (?t signer pk))")
  using claimValid_iff[OF assms, of "?t _ _" L]
  by (auto simp: verifyClaim_def rbind_eq_Inr Let_def)

end
