(* ===== verification/Verified.thy ===== *)
theory Verified
  imports Verify
begin

text \<open>
  What verification shows: a clean run over a closure, its converse, the strict descent of heights
  along references and the absence of cycles, and the key window under revocation.
\<close>

section \<open>Heights\<close>

lemma fold_max_ge: "(m :: u64) \<le> fold (\<lambda>h m. if m < h then h else m) hs m"
proof (induction hs arbitrary: m)
  case (Cons h hs)
  show ?case using Cons[of "if m < h then h else m"] by (auto split: if_splits)
qed simp

lemma fold_max_bound: "h \<in> set hs \<Longrightarrow> h \<le> fold (\<lambda>h m. if m < h then h else m) hs (m :: u64)"
proof (induction hs arbitrary: m)
  case (Cons x hs)
  show ?case
    using Cons fold_max_ge[of "if m < x then x else m" hs] by (auto split: if_splits)
qed simp

lemma fold_max_attained:
  "fold (\<lambda>h m. if m < h then h else m) hs (m :: u64) \<in> insert m (set hs)"
proof (induction hs arbitrary: m)
  case (Cons x hs)
  show ?case using Cons[of "if m < x then x else m"] by (auto split: if_splits)
qed simp

lemma maxHeights_bound: "h \<in> set hs \<Longrightarrow> h \<le> maxHeights hs"
  unfolding maxHeights_def by (rule fold_max_bound)

lemma maxHeights_attained: "maxHeights hs = 0 \<or> maxHeights hs \<in> set hs"
  using fold_max_attained[of hs 0] by (auto simp: maxHeights_def)

lemma heldOf_map: "heldOf ids (map P ids) = filter P ids"
  by (induction ids) (auto simp: heldOf_def)

lemma one_le_u64: "(1 :: u64) \<le> x \<longleftrightarrow> x \<noteq> 0"
  by (simp add: word_le_nat_alt Suc_le_eq unat_gt_0)

lemma list_all2_choice: "(\<And>x. x \<in> set xs \<Longrightarrow> \<exists>y. P x y) \<Longrightarrow> \<exists>ys. list_all2 P xs ys"
proof (induction xs)
  case (Cons x xs)
  then obtain y ys where "P x y" "list_all2 P xs ys" by (metis list.set_intros)
  then show ?case by (intro exI[of _ "y # ys"]) simp
qed (simp add: exI[of _ "[]"])

lemma reach_nothing: "\<not> reach f [] k"
proof
  show "reach f [] k \<Longrightarrow> False" by (induction rule: reach.induct) auto
qed

lemma reach_through: "reach f (f i) k \<Longrightarrow> i \<noteq> [] \<Longrightarrow> reach f [i] k"
proof (induction rule: reach.induct)
  case (root r)
  then show ?case using reach.step[OF reach.root[of i "[i]"]] by simp
next
  case (step k r)
  then show ?case using reach.step by blast
qed

context universe
begin

text \<open>What the height rule has compared: the heights of the references the store holds.\<close>

lemma verifyHeight_ok:
  assumes "verifyHeight c u = Inr ()" "referenceIds c \<noteq> []"
  obtains hs where
    "list_all2 (\<lambda>i h. \<exists>d. GetClaim u True i = Inr d \<and> h = claimHeight d)
       (filter (\<lambda>i. i \<in> set (uStored u)) (referenceIds c)) hs"
    "(\<forall>i \<in> set (referenceIds c). i \<in> set (uStored u)) \<longrightarrow> claimHeight c = maxHeights hs + 1"
    "maxHeights hs + 1 \<le> claimHeight c"
proof -
  let ?held = "filter (\<lambda>i. i \<in> set (uStored u)) (referenceIds c)"
  obtain present where p: "uHasClaims u (referenceIds c) = Inr present"
    using assms by (auto simp: verifyHeight_def Let_def rbind_eq_Inr)
  then have present: "present = map (\<lambda>i. i \<in> set (uStored u)) (referenceIds c)" by (rule has_bulk)
  have all: "list_all id present \<longleftrightarrow> (\<forall>i \<in> set (referenceIds c). i \<in> set (uStored u))"
    by (auto simp: present list_all_iff)
  show thesis
  proof (cases "?held = []")
    case True
    then show thesis
      using assms p all
      by (intro that[of "[]"])
         (auto simp: verifyHeight_def Let_def heldOf_map present maxHeights_def verr_def one_le_u64 split: if_splits)
  next
    case False
    then obtain hs where hs: "uGetClaimHeights u ?held = Inr hs"
      using assms p by (auto simp: verifyHeight_def Let_def heldOf_map present rbind_eq_Inr split: if_splits)
    from heights_bulk[OF hs] show thesis
    proof (rule that)
      show "(\<forall>i \<in> set (referenceIds c). i \<in> set (uStored u)) \<longrightarrow> claimHeight c = maxHeights hs + 1"
        "maxHeights hs + 1 \<le> claimHeight c"
        using assms p all False hs
        by (auto simp: verifyHeight_def Let_def heldOf_map present verr_def not_less split: if_splits)
    qed
  qed
qed

lemma verifyHeight_above:
  assumes "verifyHeight c u = Inr ()" "k \<in> set (referenceIds c)" "GetClaim u True k = Inr d"
    and "\<And>j e. j \<in> set (referenceIds c) \<Longrightarrow> GetClaim u True j = Inr e \<Longrightarrow> claimHeight e \<noteq> - 1"
  shows "claimHeight d < claimHeight c"
proof -
  let ?held = "filter (\<lambda>i. i \<in> set (uStored u)) (referenceIds c)"
  have "referenceIds c \<noteq> []" using assms(2) by auto
  from verifyHeight_ok[OF assms(1) this] obtain hs where hs:
      "list_all2 (\<lambda>i h. \<exists>d. GetClaim u True i = Inr d \<and> h = claimHeight d) ?held hs"
      "maxHeights hs + 1 \<le> claimHeight c" by blast
  have "k \<in> set ?held" using assms(2) get_held[OF assms(3)] by simp
  then obtain n where n: "n < length ?held" "?held ! n = k" by (metis in_set_conv_nth)
  then have "hs ! n = claimHeight d" "hs ! n \<in> set hs"
    using hs(1) assms(3) by (auto simp: list_all2_conv_all_nth)
  then have le: "claimHeight d \<le> maxHeights hs" using maxHeights_bound by metis
  have "maxHeights hs \<noteq> - 1"
  proof (cases "maxHeights hs = 0")
    case False
    then obtain m where m: "m < length hs" "hs ! m = maxHeights hs"
      using maxHeights_attained by (metis in_set_conv_nth)
    then obtain e where "GetClaim u True (?held ! m) = Inr e" "maxHeights hs = claimHeight e"
      using hs(1) by (auto simp: list_all2_conv_all_nth)
    moreover have "?held ! m \<in> set ?held"
      using m(1) hs(1) by (intro nth_mem) (simp add: list_all2_lengthD)
    ultimately show ?thesis using assms(4)[of "?held ! m" e] by simp
  qed simp
  then show ?thesis using le hs(2) u64_less_succ_iff by (metis order_less_le_trans)
qed

end

context raw_store
begin

lemma passes_step:
  assumes "passes L u cfg i" "vcSkip cfg = []" "k \<in> set (rawRefs L u i)"
  obtains raw c where "rawOf u i = Inr raw" "DecodeClaim L i raw = Inr c" "verifyClaim L c raw cfg u = Inr ()"
    "verifyHeight c u = Inr ()" "set (rawRefs L u i) = set (referenceIds c)"
proof -
  obtain raw c where c: "rawOf u i = Inr raw" "DecodeClaim L i raw = Inr c" "verifyClaim L c raw cfg u = Inr ()"
    using assms(1) by (auto simp: passes_def split: sum.splits)
  moreover have "verifyHeight c u = Inr ()"
    using c(3) unfolding verifyClaim_iff[OF assms(2)] by (auto simp: claimValid_def Let_def)
  moreover have "set (rawRefs L u i) = set (referenceIds c)"
    using c(1,2) Decode_effective[OF c(2)] by (simp add: rawRefs_def referenceIds_def)
  ultimately show thesis by (rule that)
qed

lemma passes_descends:
  assumes "\<And>i. reach (rawRefs L u) roots i \<Longrightarrow> passes L u cfg i \<or> absent u i" "vcSkip cfg = []"
    and "\<And>i c. reach (rawRefs L u) roots i \<Longrightarrow> GetClaim u True i = Inr c \<Longrightarrow> claimHeight c \<noteq> - 1"
    and "reach (rawRefs L u) roots i" "GetClaim u True i = Inr c"
    and "k \<in> set (rawRefs L u i)" "GetClaim u True k = Inr d"
  shows "claimHeight d < claimHeight c"
proof -
  have "\<not> absent u i" using get_decodes[OF assms(5)] by (auto simp: absent_def)
  then obtain raw x where x: "rawOf u i = Inr raw" "DecodeClaim L i raw = Inr x" "verifyHeight x u = Inr ()"
      "set (rawRefs L u i) = set (referenceIds x)"
    using passes_step[OF _ assms(2,6)] assms(1,4) by metis
  have "claimHeight x = claimHeight c"
    using raw_decodes[OF x(1,2)] assms(5) by (auto simp: claimHeight_def)
  moreover have "claimHeight d < claimHeight x"
  proof (rule verifyHeight_above[OF x(3) _ assms(7)])
    show "k \<in> set (referenceIds x)" using x(4) assms(6) by simp
    fix j e assume j: "j \<in> set (referenceIds x)" "GetClaim u True j = Inr e"
    then have "j \<noteq> []" using get_id by blast
    then have "reach (rawRefs L u) roots j" using assms(4) x(4) j(1) reach.step by metis
    then show "claimHeight e \<noteq> - 1" using assms(3) j(2) by blast
  qed
  ultimately show ?thesis by simp
qed

text \<open>Along any path of references heights fall, so no claim reaches itself.\<close>

lemma passes_path:
  assumes "\<And>i. reach (rawRefs L u) roots i \<Longrightarrow> passes L u cfg i \<or> absent u i" "vcSkip cfg = []"
    and "\<And>i c. reach (rawRefs L u) roots i \<Longrightarrow> GetClaim u True i = Inr c \<Longrightarrow> claimHeight c \<noteq> - 1"
    and "reach (rawRefs L u) roots i" "GetClaim u True i = Inr c"
    and "reach (rawRefs L u) (rawRefs L u i) k" "GetClaim u True k = Inr d"
  shows "claimHeight d < claimHeight c"
  using assms(6,7)
proof (induction arbitrary: d rule: reach.induct)
  case (root r)
  show ?case by (rule passes_descends[OF assms(1-5) root.hyps(1) root.prems])
next
  case (step k r)
  have "reach (rawRefs L u) [i] k"
    using step.hyps(1) assms(4) reach_nonnil reach_through by metis
  then have k: "reach (rawRefs L u) roots k" using assms(4) reach_trans by blast
  have "rawRefs L u k \<noteq> []" using step.hyps(2) by auto
  then obtain raw x where "rawOf u k = Inr raw" "DecodeClaim L k raw = Inr x"
    by (auto simp: rawRefs_def rbind_eq_Inr split: sum.splits)
  then obtain y where y: "GetClaim u True k = Inr y" using raw_decodes by blast
  have "claimHeight d < claimHeight y"
    by (rule passes_descends[OF assms(1-3) k y step.hyps(2) step.prems])
  then show ?case using step.IH[OF y] by simp
qed

lemma passes_acyclic:
  assumes "\<And>i. reach (rawRefs L u) roots i \<Longrightarrow> passes L u cfg i \<or> absent u i" "vcSkip cfg = []"
    and "\<And>i c. reach (rawRefs L u) roots i \<Longrightarrow> GetClaim u True i = Inr c \<Longrightarrow> claimHeight c \<noteq> - 1"
    and "reach (rawRefs L u) roots i"
  shows "\<not> reach (rawRefs L u) (rawRefs L u i) i"
proof
  assume r: "reach (rawRefs L u) (rawRefs L u i) i"
  then have "rawRefs L u i \<noteq> []" using reach_nothing by metis
  then obtain raw x where "rawOf u i = Inr raw" "DecodeClaim L i raw = Inr x"
    by (auto simp: rawRefs_def rbind_eq_Inr split: sum.splits)
  then obtain y where y: "GetClaim u True i = Inr y" using raw_decodes by blast
  show False using passes_path[OF assms(1-4) y r y] by simp
qed

end

section \<open>Revocations\<close>

text \<open>A date is the least of a set of dates, which may be empty.\<close>

definition leastOf :: "int option \<Rightarrow> int set \<Rightarrow> bool" where
  "leastOf best S = ((\<forall>t \<in> S. \<exists>b. best = Some b \<and> b \<le> t) \<and> (\<forall>b. best = Some b \<longrightarrow> b \<in> S))"

text \<open>The dates a claim's expiry edges impose on a contributor.\<close>

definition imposedBy :: "claim \<Rightarrow> ident \<Rightarrow> int set" where
  "imposedBy c x =
     {t. \<exists>e \<in> set (effectiveEdges c). edgeType e = EdgeTypeExpiry \<and> eReference e = x \<and>
        edgeBound e FieldPubkeyExpiresAfter = Inr (Some t)}"

definition imposed :: "uni \<Rightarrow> ident list \<Rightarrow> ident \<Rightarrow> int set" where
  "imposed u roots x =
     {t. \<exists>k c. reach (refs u) roots k \<and> GetClaim u True k = Inr c \<and> t \<in> imposedBy c x}"

lemma expiryOf_least:
  "leastOf best S \<Longrightarrow> expiryOf x best es = Inr best' \<Longrightarrow>
     leastOf best' (S \<union> {t. \<exists>e \<in> set es. edgeType e = EdgeTypeExpiry \<and> eReference e = x \<and>
        edgeBound e FieldPubkeyExpiresAfter = Inr (Some t)})"
proof (induction x best es arbitrary: S rule: expiryOf.induct)
  case (2 x best e es)
  let ?D = "\<lambda>es. {t. \<exists>e \<in> set es. edgeType e = EdgeTypeExpiry \<and> eReference e = x \<and>
        edgeBound e FieldPubkeyExpiresAfter = Inr (Some t)}"
  show ?case
  proof (cases "edgeType e \<noteq> EdgeTypeExpiry \<or> eReference e \<noteq> x")
    case True
    then have "?D (e # es) = ?D es" by auto
    then show ?thesis using "2.IH"(1)[OF True "2.prems"(1)] "2.prems"(2) True by simp
  next
    case False
    then obtain at where at: "edgeBound e FieldPubkeyExpiresAfter = Inr at" "expiryOf x (earlier best at) es = Inr best'"
      using "2.prems"(2) by (auto simp: rbind_eq_Inr)
    have "leastOf (earlier best at) (S \<union> (case at of None \<Rightarrow> {} | Some t \<Rightarrow> {t}))"
      using "2.prems"(1) by (auto simp: leastOf_def earlier_def split: option.splits)
    from "2.IH"(2)[OF False at(1) this at(2)]
    have "leastOf best' (S \<union> (case at of None \<Rightarrow> {} | Some t \<Rightarrow> {t}) \<union> ?D es)" .
    moreover have "S \<union> (case at of None \<Rightarrow> {} | Some t \<Rightarrow> {t}) \<union> ?D es = S \<union> ?D (e # es)"
      using False at(1) by (auto split: option.splits)
    ultimately show ?thesis by simp
  qed
qed simp

context universe
begin

lemma sweepExpiry_exact:
  assumes "sweepForExpiry u roots x = Inr best"
  shows "leastOf best (imposed u roots x)"
proof -
  let ?S = "\<lambda>K. {t. \<exists>k \<in> K. \<exists>c. GetClaim u True k = Inr c \<and> t \<in> imposedBy c x}"
  have "case drain (uStored u) id (expiryStep u x) [] None roots of
      Inr (s, seen) \<Rightarrow> set seen = {k. reach (refs u) roots k} \<and> leastOf s (?S (set seen))
    | Inl r \<Rightarrow> (\<exists>seen s q. leastOf s (?S (set seen)) \<and> set seen \<subseteq> {k. reach (refs u) roots k} \<and>
        id q \<notin> set seen \<and> reach (refs u) roots (id q) \<and> expiryStep u x s q = Halt r)"
  proof (rule drain_reach, goal_cases)
    case (1 seen s q s' qs)
    then show ?case
      by (auto simp: expiryStep_def refs_def refsOf_def referenceIds_def Edges_def matchAll_def
          split: sum.splits dest: get_held)
  next
    case 2 show ?case by (simp add: leastOf_def)
  next
    case (3 seen s q s' qs)
    show ?case
    proof (cases "GetClaim u True q")
      case (Inl e)
      then show ?thesis using 3 by (auto simp: expiryStep_def)
    next
      case (Inr c)
      then obtain e where "expiryOf x s (effectiveEdges c) = Inr e" "s' = e"
        using 3(4) by (auto simp: expiryStep_def split: sum.splits)
      then have "leastOf s' (?S (set seen) \<union> imposedBy c x)"
        using expiryOf_least[OF 3(1)] by (simp add: imposedBy_def)
      moreover have "?S (set seen) \<union> imposedBy c x = ?S (set (id q # seen))"
        using Inr by auto
      ultimately show ?thesis by simp
    qed
  qed simp
  moreover have "?S {k. reach (refs u) roots k} = imposed u roots x" by (auto simp: imposed_def)
  ultimately show ?thesis using assms by (auto simp: sweepForExpiry_def split: sum.splits)
qed

text \<open>The cache of the index never changes an answer.\<close>

definition indexOk :: "expiryIndex \<Rightarrow> bool" where
  "indexOk ix = (\<forall>(k, e) \<in> set (xBy ix). sweepForExpiry u (xRoots ix) k = Inr e)"

lemma endFor_exact:
  assumes "indexOk ix" "endFor (Some ix) u x = (r, ix')"
  shows "r = (if x = [] then Inr None else sweepForExpiry u (xRoots ix) x) \<and>
    (\<exists>iy. ix' = Some iy \<and> xRoots iy = xRoots ix \<and> indexOk iy)"
  using assms
  by (auto simp: endFor_def indexOk_def split: if_splits option.splits sum.splits dest!: map_of_SomeD)

lemma revokedAt_exact:
  "revokedAt (Some roots) u x = Inr best \<Longrightarrow> x \<noteq> [] \<Longrightarrow> leastOf best (imposed u roots x)"
  using endFor_exact[of "newExpiryIndex roots" x] sweepExpiry_exact[of roots x best]
  by (auto simp: revokedAt_def indexOk_def newExpiryIndex_def) (metis fst_conv surj_pair)

end

text \<open>The window: from the declared start to the earliest of the declared and imposed ends.\<close>

lemma earlier_end:
  "(case earlier a b of None \<Rightarrow> Inr () | Some e \<Rightarrow> if e < t then verr x else Inr ()) = Inr () \<longleftrightarrow>
     (a = None \<or> t \<le> the a) \<and> (b = None \<or> t \<le> the b)"
  by (cases a; cases b) (auto simp: earlier_def verr_def)

lemma verifyKeyWindow_ok:
  assumes "verifyKeyWindow c (Some s) u roots = Inr ()" "ID s \<noteq> ID c"
  obtains start until revoked where
    "keyBound s FieldPubkeyValidFrom = Inr start" "keyBound s FieldPubkeyExpiresAfter = Inr until"
    "revokedAt roots u (ID s) = Inr revoked"
    "start = None \<or> the start \<le> claimCreatedAt c" "until = None \<or> claimCreatedAt c \<le> the until"
    "revoked = None \<or> claimCreatedAt c \<le> the revoked"
proof -
  obtain start where 1: "keyBound s FieldPubkeyValidFrom = Inr start"
    using assms by (auto simp: verifyKeyWindow_def rbind_eq_Inr)
  have 2: "start = None \<or> the start \<le> claimCreatedAt c"
    using assms 1 by (cases start) (auto simp: verifyKeyWindow_def verr_def split: if_splits)
  have w: "rbind (keyBound s FieldPubkeyExpiresAfter) (\<lambda>until.
      rbind (revokedAt roots u (ID s)) (\<lambda>revoked.
        case earlier until revoked of None \<Rightarrow> Inr ()
        | Some e \<Rightarrow> if e < claimCreatedAt c then verr ErrKeyExpired else Inr ())) = Inr ()"
    using assms 1 2 by (cases start) (auto simp: verifyKeyWindow_def)
  then obtain until where 3: "keyBound s FieldPubkeyExpiresAfter = Inr until"
    by (auto simp: rbind_eq_Inr)
  then obtain revoked where 4: "revokedAt roots u (ID s) = Inr revoked"
    using w by (auto simp: rbind_eq_Inr)
  show thesis
    using w unfolding 3 4 rbind_Inr earlier_end by (intro that[OF 1 3 4 2]) auto
qed

section \<open>A signed sample\<close>

text \<open>
  A key \<open>hK\<close>, a claim \<open>hA\<close> signed by it that also references a claim the store
  has deleted as planned, and a claim \<open>hE\<close> that ends the key's window.
\<close>

definition keyNode :: encNode where
  "keyNode = (rawNode ''contribution'' ''contributor'' [] 0 [])
     \<lparr>enEncodingClass := ''application'', enEncodingSub := ''multikey'',
      enContent := prependCode ed25519Pub (replicate 32 (CHR ''k'')), enContentSize := 34\<rparr>"

definition signedLib :: lib where
  "signedLib = tableLib
     [(''K'', keyNode),
      (''A'', rawNode ''source'' ''note'' [''ek'', ''ex''] 1 []),
      (''E'', rawNode ''contribution'' ''expiry'' [''ek'', ''ey''] 1 [])]
     [(''ek'', rawEdge ''contribution'' ''contributor'' ''hK'' []),
      (''ex'', rawEdge ''derivation'' ''quote'' ''hX''
         [(''delete_by'', ''2026-09-01T00:00:00.000000000Z'')]),
      (''ey'', rawEdge ''contribution'' ''expiry'' ''hK''
         [(''pubkey_expires_after'', ''2026-07-01T00:00:00.000000000Z'')])]"

definition signedMem :: memoryUniverse where
  "signedMem = \<lparr>mClaims = [(''hK'', ''K''), (''hA'', ''A''), (''hE'', ''E'')],
     mContent = [], mTags = [], mMarks = []\<rparr>"

abbreviation signedUni :: uni where "signedUni \<equiv> memUni signedLib signedMem"

lemma signed_run:
  "vFailures (runVerification signedLib [''hA''] signedUni (newVerifyConfig []) None) = []"
  by code_simp

lemma signed_refs:
  "rawRefs signedLib signedUni ''hA'' = [''hK'', ''hX'']" "rawRefs signedLib signedUni ''hK'' = []"
  "rawRefs signedLib signedUni ''hX'' = []"
  by code_simp+

lemma signed_reach: "reach (rawRefs signedLib signedUni) [''hA''] i \<Longrightarrow> i \<in> {''hA'', ''hK'', ''hX''}"
  by (induction rule: reach.induct) (auto simp: signed_refs)

lemma signed_loads:
  "resultOf recordView (memLoad signedLib signedMem ''hA'') =
     Some ([(''contribution/contributor'', ''hK''), (''derivation/quote'', ''hX'')], 1)"
  "resultOf recordView (memLoad signedLib signedMem ''hK'') = Some ([], 0)"
  "resultOf recordView (memLoad signedLib signedMem ''hE'') =
     Some ([(''contribution/contributor'', ''hK''), (''contribution/expiry'', ''hK'')], 1)"
  by code_simp+

lemma signed_heights: "GetClaim signedUni True i = Inr c \<Longrightarrow> claimHeight c \<noteq> - 1"
proof -
  assume g: "GetClaim signedUni True i = Inr c"
  then have l: "memLoad signedLib signedMem i = Inr c" by (simp add: GetClaim_memUni_load)
  then have "i \<in> {''hK'', ''hA'', ''hE''}"
    by (auto dest!: memLoad_ok(5) simp: signedMem_def split: if_splits)
  then show ?thesis using l signed_loads by (auto simp: resultOf_def recordView_def)
qed

lemma newVerifyConfig_full: "fullRun (newVerifyConfig [])" "vcSkip (newVerifyConfig []) = []"
  by (simp_all add: newVerifyConfig_def fullRun_def)

section \<open>Properties\<close>

text \<open>
  Property C1 (clean_run_sound): when a run without pruning reports no failure, every claim of the
  closure either is stored and passes its rules, or is missing and a claim of the closure explains
  the gap, by marking it for deletion or by a dated edge to it.
\<close>

theorem clean_run_sound:
  assumes "fullRun cfg" "vFailures (runVerification L roots (memUni L m) cfg rc) = []"
    and "reach (rawRefs L (memUni L m)) roots i"
  shows "passes L (memUni L m) (cfg\<lparr>vcExpiry := Some roots\<rparr>) i \<or>
    (absent (memUni L m) i \<and> explained L (memUni L m) roots i)"
  by (rule memRaw.clean_run[OF assms])

theorem clean_run_sound_witness:
  "absent signedUni ''hX'' \<and> explained signedLib signedUni [''hA''] ''hX''"
proof -
  have "reach (rawRefs signedLib signedUni) [''hA''] ''hA''" by (rule reach.root) simp_all
  then have "reach (rawRefs signedLib signedUni) [''hA''] ''hX''"
    by (rule reach.step) (simp_all add: signed_refs)
  moreover have "\<not> passes signedLib signedUni cfg ''hX''" for cfg
    by (simp add: passes_def rawOf_memUni signedMem_def)
  ultimately show ?thesis
    using clean_run_sound[OF newVerifyConfig_full(1) signed_run] by blast
qed

text \<open>
  Property C7 (passing_closure_counted): conversely, over a closure whose claims are all stored and
  pass, a run comes to its end with no failure and has counted every claim of the closure once.
\<close>

theorem passing_closure_counted:
  assumes "fullRun cfg"
    and "\<forall>i. reach (rawRefs L (memUni L m)) roots i \<longrightarrow> passes L (memUni L m) (cfg\<lparr>vcExpiry := Some roots\<rparr>) i"
  shows "vFailures (runVerification L roots (memUni L m) cfg None) = [] \<and>
    vVerified (runVerification L roots (memUni L m) cfg None) =
      card {i. reach (rawRefs L (memUni L m)) roots i}"
  by (rule memRaw.passing_run[OF assms(1)]) (use assms(2) in blast)

theorem passing_closure_counted_witness:
  "vVerified (runVerification signedLib [''hK''] signedUni (newVerifyConfig []) None) = 1"
proof -
  have r: "reach (rawRefs signedLib signedUni) [''hK''] i \<longleftrightarrow> i = ''hK''" for i
  proof
    show "reach (rawRefs signedLib signedUni) [''hK''] i \<Longrightarrow> i = ''hK''"
      by (induction rule: reach.induct) (auto simp: signed_refs)
    show "i = ''hK'' \<Longrightarrow> reach (rawRefs signedLib signedUni) [''hK''] i"
      by (simp add: reach.root)
  qed
  have "passes signedLib signedUni ((newVerifyConfig [])\<lparr>vcExpiry := Some [''hK'']\<rparr>) ''hK''"
    by code_simp
  then show ?thesis
    using passing_closure_counted[OF newVerifyConfig_full(1), of signedLib signedMem "[''hK'']"]
    by (simp add: r)
qed

text \<open>
  Property C3 (verified_closure_acyclic): in a closure a full run found no failure in, heights fall
  strictly along every reference between stored claims and no claim reaches itself, provided none
  of them has the last 64-bit height.
\<close>

theorem verified_closure_acyclic:
  assumes "fullRun cfg" "vcSkip cfg = []" "vFailures (runVerification L roots (memUni L m) cfg rc) = []"
    and "\<forall>i c. reach (rawRefs L (memUni L m)) roots i \<longrightarrow> GetClaim (memUni L m) True i = Inr c \<longrightarrow>
      claimHeight c \<noteq> - 1"
    and "reach (rawRefs L (memUni L m)) roots i"
  shows "\<not> reach (rawRefs L (memUni L m)) (rawRefs L (memUni L m) i) i \<and>
    (\<forall>c k d. GetClaim (memUni L m) True i = Inr c \<longrightarrow> k \<in> set (rawRefs L (memUni L m) i) \<longrightarrow>
       GetClaim (memUni L m) True k = Inr d \<longrightarrow> claimHeight d < claimHeight c)"
proof -
  let ?cfg = "cfg\<lparr>vcExpiry := Some roots\<rparr>"
  have skip: "vcSkip ?cfg = []" using assms(2) by simp
  have p: "passes L (memUni L m) ?cfg i \<or> absent (memUni L m) i"
    if "reach (rawRefs L (memUni L m)) roots i" for i
    using memRaw.clean_run[OF assms(1,3) that] by blast
  have "\<not> reach (rawRefs L (memUni L m)) (rawRefs L (memUni L m) i) i"
    by (rule memRaw.passes_acyclic[where cfg = ?cfg and roots = roots]) (use p skip assms(4,5) in blast)+
  moreover have "claimHeight d < claimHeight c"
    if "GetClaim (memUni L m) True i = Inr c" "k \<in> set (rawRefs L (memUni L m) i)"
      "GetClaim (memUni L m) True k = Inr d" for c k d
    by (rule memRaw.passes_descends[where cfg = ?cfg and roots = roots and i = i and k = k])
       (use p skip assms(4,5) that in blast)+
  ultimately show ?thesis by blast
qed

theorem verified_closure_acyclic_witness:
  "\<not> reach (rawRefs signedLib signedUni) (rawRefs signedLib signedUni ''hA'') ''hA''"
proof -
  have "\<forall>i c. reach (rawRefs signedLib signedUni) [''hA''] i \<longrightarrow> GetClaim signedUni True i = Inr c \<longrightarrow>
      claimHeight c \<noteq> - 1"
    using signed_heights by blast
  from verified_closure_acyclic[OF newVerifyConfig_full signed_run this, of "''hA''"]
  show ?thesis by (simp add: reach.root)
qed

text \<open>
  Property C2 (claim_rules_exact): with no rule skipped, the rule loop accepts a claim exactly when
  its signer and key resolve and the rules hold, stated as one condition without an order: the id
  is the hash of the envelope, the signature verifies, the height and the dates fit the references,
  classes, directions, edge order, encodings, content and schedules are as prescribed.
\<close>

theorem claim_rules_exact:
  assumes "vcSkip cfg = []"
  shows "verifyClaim L c raw cfg u = Inr () \<longleftrightarrow>
    (\<exists>signer pk. resolveSigner c u = Inr signer \<and>
       resolveClaimPubkey L signer (effectiveEdges c = []) u = Inr pk \<and>
       claimValid L \<lparr>tClaim = c, tRaw = raw, tPubkey = pk, tSigner = Some signer, tCfg = cfg, tU = u\<rparr>)"
  by (rule verifyClaim_iff[OF assms])

theorem claim_rules_exact_witness:
  "\<exists>c. DecodeClaim signedLib ''hK'' ''K'' = Inr c \<and> verifyHeight c signedUni = Inr ()"
proof -
  have "passes signedLib signedUni (newVerifyConfig []) ''hK''" by code_simp
  moreover have "rawOf signedUni ''hK'' = Inr ''K''" by (simp add: rawOf_memUni signedMem_def)
  ultimately obtain c where c: "DecodeClaim signedLib ''hK'' ''K'' = Inr c"
      "verifyClaim signedLib c ''K'' (newVerifyConfig []) signedUni = Inr ()"
    by (auto simp: passes_def split: sum.splits)
  then show ?thesis
    using claim_rules_exact[OF newVerifyConfig_full(2)] by (auto simp: claimValid_def Let_def)
qed

text \<open>
  Property C4 (revoked_key_refused): a claim whose key window is accepted is dated no later than
  every end an expiry edge of the closure imposes on its contributor, and within the bounds the
  contributor declares.
\<close>

theorem revoked_key_refused:
  assumes "verifyKeyWindow c (Some s) (memUni L m) (Some roots) = Inr ()" "ID s \<noteq> ID c" "ID s \<noteq> []"
    and "t \<in> imposed (memUni L m) roots (ID s)"
  shows "claimCreatedAt c \<le> t \<and>
    (\<forall>f. keyBound s FieldPubkeyValidFrom = Inr (Some f) \<longrightarrow> f \<le> claimCreatedAt c) \<and>
    (\<forall>e. keyBound s FieldPubkeyExpiresAfter = Inr (Some e) \<longrightarrow> claimCreatedAt c \<le> e)"
proof -
  obtain start until revoked where w:
      "keyBound s FieldPubkeyValidFrom = Inr start" "keyBound s FieldPubkeyExpiresAfter = Inr until"
      "revokedAt (Some roots) (memUni L m) (ID s) = Inr revoked"
      "start = None \<or> the start \<le> claimCreatedAt c" "until = None \<or> claimCreatedAt c \<le> the until"
      "revoked = None \<or> claimCreatedAt c \<le> the revoked"
    using verifyKeyWindow_ok[OF assms(1,2)] by blast
  have "leastOf revoked (imposed (memUni L m) roots (ID s))"
    by (rule mem.revokedAt_exact[OF w(3) assms(3)])
  then have "\<exists>b. revoked = Some b \<and> b \<le> t" using assms(4) by (simp add: leastOf_def)
  then show ?thesis using w by auto
qed

lemma signed_window:
  "(case (GetClaim signedUni True ''hA'', GetClaim signedUni True ''hK'', GetClaim signedUni True ''hE'') of
      (Inr c, Inr s, Inr e) \<Rightarrow>
        verifyKeyWindow c (Some s) signedUni (Some [''hE'']) = Inr () \<and> ID s = ''hK'' \<and> ID c = ''hA'' \<and>
        list_ex (\<lambda>e. edgeType e = EdgeTypeExpiry \<and> eReference e = ''hK'' \<and>
          edgeBound e FieldPubkeyExpiresAfter = Inr (Some 1782864000000000000)) (effectiveEdges e)
    | _ \<Rightarrow> False)"
  by code_simp

theorem revoked_key_refused_witness:
  "\<exists>c. GetClaim signedUni True ''hA'' = Inr c \<and> claimCreatedAt c \<le> 1782864000000000000"
proof -
  obtain c s e where g: "GetClaim signedUni True ''hA'' = Inr c" "GetClaim signedUni True ''hE'' = Inr e"
      "verifyKeyWindow c (Some s) signedUni (Some [''hE'']) = Inr ()" "ID s = ''hK''" "ID c = ''hA''"
      "list_ex (\<lambda>e. edgeType e = EdgeTypeExpiry \<and> eReference e = ''hK'' \<and>
          edgeBound e FieldPubkeyExpiresAfter = Inr (Some 1782864000000000000)) (effectiveEdges e)"
    using signed_window by (auto split: sum.splits)
  have "1782864000000000000 \<in> imposedBy e ''hK''"
    using g(6) unfolding imposedBy_def list_ex_iff by blast
  moreover have "reach (refs signedUni) [''hE''] ''hE''" by (rule reach.root) simp_all
  ultimately have "1782864000000000000 \<in> imposed signedUni [''hE''] ''hK''"
    using g(2) unfolding imposed_def by blast
  then show ?thesis using revoked_key_refused[OF g(3)] g(1,4,5) by simp
qed

text \<open>
  Next to a reference of the last 64-bit height the height rule wants
  zero, whatever the others are: the sum of the rule wraps.
\<close>

theorem height_wraps:
  assumes "\<And>k. k \<in> set (referenceIds c) \<Longrightarrow> \<exists>d. GetClaim (memUni L m) True k = Inr d"
    and "k \<in> set (referenceIds c)" "GetClaim (memUni L m) True k = Inr d" "claimHeight d = - 1"
  shows "verifyHeight c (memUni L m) = Inr () \<longleftrightarrow> claimHeight c = 0"
proof -
  let ?u = "memUni L m"
  have ne: "referenceIds c \<noteq> []" using assms(2) by auto
  have held: "k \<in> set (uStored ?u)" if "k \<in> set (referenceIds c)" for k
    using assms(1)[OF that] mem.get_held by blast
  obtain cs where cs: "uGetClaims ?u True (referenceIds c) = Inr cs"
    using list_all2_choice[of "referenceIds c" "\<lambda>i d. GetClaim ?u True i = Inr d"] assms(1)
    by (auto simp: mem.get_bulk)
  have has: "uHasClaims ?u (referenceIds c) = Inr (map (\<lambda>i. i \<in> set (uStored ?u)) (referenceIds c))"
    by (auto simp: memUni_def memHasClaims_def has_iff_keys)
  have "uGetClaimHeights ?u (referenceIds c) = Inr (map claimHeight cs)"
    using cs by (simp add: memUni_def DefaultGetClaimHeights_def)
  moreover have "maxHeights (map claimHeight cs) = - 1"
  proof -
    obtain n where n: "n < length (referenceIds c)" "referenceIds c ! n = k"
      using assms(2) by (metis in_set_conv_nth)
    then have "GetClaim ?u True k = Inr (cs ! n)" "n < length cs"
      using cs by (auto simp: mem.get_bulk list_all2_conv_all_nth)
    then have "- 1 \<in> set (map claimHeight cs)" using assms(3,4) by (metis Inr_inject image_eqI list.set_map nth_mem)
    then show ?thesis using maxHeights_bound word_order.extremum_unique by metis
  qed
  moreover have "heldOf (referenceIds c) (map (\<lambda>i. i \<in> set (uStored ?u)) (referenceIds c)) = referenceIds c"
    using held by (simp add: heldOf_map)
  moreover have "list_all id (map (\<lambda>i. i \<in> set (uStored ?u)) (referenceIds c))"
    using held by (simp add: list_all_iff)
  ultimately show ?thesis
    using ne has by (auto simp: verifyHeight_def Let_def verr_def)
qed

definition topLib :: lib where
  "topLib = tableLib [(''T'', rawNode ''source'' ''note'' [] (- 1) [])] []"

definition topMem :: memoryUniverse where
  "topMem = \<lparr>mClaims = [(''hT'', ''T'')], mContent = [], mTags = [], mMarks = []\<rparr>"

lemma top_load: "resultOf claimHeight (memLoad topLib topMem ''hT'') = Some (- 1)"
  by code_simp

theorem height_wraps_witness:
  "verifyHeight (plainClaim zeroNode [zeroEdge\<lparr>eReference := ''hT''\<rparr>]) (memUni topLib topMem) = Inr ()"
proof -
  obtain d where d: "memLoad topLib topMem ''hT'' = Inr d" "claimHeight d = - 1"
    using top_load by (auto simp: resultOf_Some)
  have r: "referenceIds (plainClaim zeroNode [zeroEdge\<lparr>eReference := ''hT''\<rparr>]) = [''hT'']"
    by (simp add: referenceIds_def plainClaim_def effectiveEdges_def)
  then show ?thesis
    using height_wraps[of "plainClaim zeroNode [zeroEdge\<lparr>eReference := ''hT''\<rparr>]" topLib topMem "''hT''" d] d
    by (simp add: GetClaim_memUni_load) (simp add: plainClaim_def claimHeight_def zeroNode_def)
qed

end
