(* ===== verification/Archive.thy ===== *)
theory Archive
  imports Verified
begin

text \<open>
  Snapshots and handles: the archive \<open>(U, k)\<close> opened at its branch table
  (\<open>archive.go\<close>), the branches it names (\<open>claim_type_branch.go\<close>), the graph that
  stages claims under open heads (\<open>graph.go\<close>), and the spine items (\<open>spine_item.go\<close>).
\<close>

section \<open>Branches and archives\<close>

record branch =
  brEdge :: edge
  brUni :: uni

definition branchName :: "branch \<Rightarrow> string" where
  "branchName b = stated (edgeGetField (brEdge b) FieldName)"

definition branchHead :: "branch \<Rightarrow> ident" where
  "branchHead b = eReference (brEdge b)"

definition branchHasClaim :: "branch \<Rightarrow> ident \<Rightarrow> bool result" where
  "branchHasClaim b i =
     (if i = [] then Inl (KeyErr errNilID) else InClosure (brUni b) (branchName b) [branchHead b] i)"

definition branchGetClaim :: "branch \<Rightarrow> ident \<Rightarrow> claim result" where
  "branchGetClaim b i =
     (if i = [] then Inl (KeyErr errNilID) else GetFromClosure (brUni b) (branchName b) [branchHead b] i)"

definition branchGetClaimContent :: "lib \<Rightarrow> branch \<Rightarrow> ident \<Rightarrow> bytes result" where
  "branchGetClaimContent L b i =
     rbind (branchGetClaim b i) (\<lambda>c. nodeGetContent L (Some (brUni b)) (claimNode c))"

text \<open>The revision before: the branch of the same name at the head's diff predecessor.\<close>

definition branchPrev :: "lib \<Rightarrow> branch \<Rightarrow> branch option result" where
  "branchPrev L b =
     rbind (GetClaim (brUni b) False (branchHead b)) (\<lambda>head.
       case Edges head [EdgeFilterType EdgeTypeDiff] of
         [] \<Rightarrow> Inr None
       | d # _ \<Rightarrow>
           rbind (newEdge L ((plainEdge (eReference d) ''contribution'' ''branch'')
                    \<lparr>ecFields := [(FieldName, branchName b)]\<rparr>)) (\<lambda>e.
             Inr (Some \<lparr>brEdge = e, brUni = brUni b\<rparr>)))"

record archive =
  arUni :: uni
  arTable :: claim

text \<open>\<open>loadBranches\<close>: the last edge of a name wins. Memoised in the code, pure here.\<close>

definition loadBranches :: "archive \<Rightarrow> (string \<times> edge) list" where
  "loadBranches a =
     fold (\<lambda>e m. AList.update (stated (edgeGetField e FieldName)) e m)
       (Edges (arTable a) [EdgeFilterType EdgeTypeBranch]) []"

definition NewArchive :: "uni option \<Rightarrow> ident \<Rightarrow> archive result" where
  "NewArchive u k =
     (case u of None \<Rightarrow> Inl (KeyErr errNilUniverse)
      | Some v \<Rightarrow>
          if k = [] then Inl (KeyErr errNilHeadID)
          else rbind (wrapping (KeyErr errArchiveLoadHead) (GetClaim v False k)) (\<lambda>c.
            Inr \<lparr>arUni = v, arTable = c\<rparr>))"

definition archiveHead :: "archive \<Rightarrow> ident" where
  "archiveHead a = ID (arTable a)"

definition archiveHasClaim :: "archive \<Rightarrow> ident \<Rightarrow> bool result" where
  "archiveHasClaim a i =
     (if i = [] then Inl (KeyErr errNilID) else InClosure (arUni a) BranchArchive [archiveHead a] i)"

definition archiveGetClaim :: "archive \<Rightarrow> ident \<Rightarrow> claim result" where
  "archiveGetClaim a i =
     (if i = [] then Inl (KeyErr errNilID) else GetFromClosure (arUni a) BranchArchive [archiveHead a] i)"

definition archiveGetClaimContent :: "lib \<Rightarrow> archive \<Rightarrow> ident \<Rightarrow> bytes result" where
  "archiveGetClaimContent L a i =
     rbind (archiveGetClaim a i) (\<lambda>c. nodeGetContent L (Some (arUni a)) (claimNode c))"

definition HasBranch :: "archive \<Rightarrow> string \<Rightarrow> bool" where
  "HasBranch a name = has (loadBranches a) name"

definition GetBranch :: "archive \<Rightarrow> string \<Rightarrow> branch result" where
  "GetBranch a name =
     (case map_of (loadBranches a) name of
        None \<Rightarrow> Inl (AlsoErr (StoreErr ErrBranchNotFound) (StoreErr ErrNotFound))
      | Some e \<Rightarrow> Inr \<lparr>brEdge = e, brUni = arUni a\<rparr>)"

fun missingOf :: "(string \<times> edge) list \<Rightarrow> string list \<Rightarrow> string list \<Rightarrow> string list" where
  "missingOf entries missing [] = missing"
| "missingOf entries missing (n # ns) =
     missingOf entries (if \<not> has entries n \<and> n \<notin> set missing then missing @ [n] else missing) ns"

definition MissingBranches :: "archive \<Rightarrow> string list \<Rightarrow> string list" where
  "MissingBranches a names = missingOf (loadBranches a) [] names"

definition GetBranches :: "archive \<Rightarrow> branch list" where
  "GetBranches a =
     map (\<lambda>n. \<lparr>brEdge = the (map_of (loadBranches a) n), brUni = arUni a\<rparr>) (sort (keys (loadBranches a)))"

text \<open>The scope of a read: the branch asked for, at this snapshot's height.\<close>

definition revisionOf :: "claim \<Rightarrow> int" where
  "revisionOf c =
     (let v = Tag c SpineRevKey in
        if v = [] then 0 else case goAtoi v of None \<Rightarrow> 0 | Some n \<Rightarrow> n)"

definition resolveScope :: "archive \<Rightarrow> string \<Rightarrow> scope result" where
  "resolveScope a b =
     (if b = [] then Inl (QueryErr ErrQueryNoScope)
      else if b = BranchUniverse
      then Inr \<lparr>scBranch = BranchUniverse, scHead = [], scHeight = 0, scRevision = 0\<rparr>
      else
        let sc = \<lparr>scBranch = b, scHead = [], scHeight = claimHeight (arTable a),
              scRevision = revisionOf (arTable a)\<rparr> in
        if b = BranchArchive then Inr (sc\<lparr>scHead := archiveHead a\<rparr>)
        else rbind (GetBranch a b) (\<lambda>br. Inr (sc\<lparr>scHead := branchHead br\<rparr>)))"

section \<open>The graph\<close>

text \<open>The open heads and the cited ids are maps keyed by the id: sets, in no order.\<close>

record graph =
  gUniverse :: memoryUniverse
  gHeads :: "ident list"
  gCited :: "ident list"

definition NewGraph :: "memoryUniverse option \<Rightarrow> graph" where
  "NewGraph m =
     \<lparr>gUniverse = (case m of None \<Rightarrow> NewMemoryUniverse | Some x \<Rightarrow> x), gHeads = [], gCited = []\<rparr>"

definition NewGraphFromClosure :: "ident \<Rightarrow> memoryUniverse option \<Rightarrow> graph result" where
  "NewGraphFromClosure head m =
     (case m of None \<Rightarrow> Inl (KeyErr errNilUniverse)
      | Some x \<Rightarrow>
          if head = [] then Inl (KeyErr errNilID)
          else Inr \<lparr>gUniverse = x, gHeads = [head], gCited = []\<rparr>)"

definition Cite :: "graph \<Rightarrow> ident list \<Rightarrow> graph" where
  "Cite g ids = g\<lparr>gCited := fold (\<lambda>i s. if i = [] then s else List.insert i s) ids (gCited g)\<rparr>"

definition roots :: "graph \<Rightarrow> ident list" where
  "roots g = sort (gHeads g @ filter (\<lambda>i. i \<notin> set (gHeads g)) (gCited g))"

text \<open>One claim enters the frontier, what it references leaves it.\<close>

definition advance :: "claim \<Rightarrow> ident list \<Rightarrow> ident list" where
  "advance c heads = filter (\<lambda>h. h \<notin> set (refsOf c)) (List.insert (ID c) heads)"

fun AddClaims :: "graph \<Rightarrow> claim option list \<Rightarrow> graph \<times> unit result" where
  "AddClaims g [] = (g, Inr ())"
| "AddClaims g (None # cs) = (g, Inl (BuildErr errNilClaim))"
| "AddClaims g (Some c # cs) =
     (case memPutClaims (gUniverse g) [Some c] of
        (m, Inl e) \<Rightarrow> (g\<lparr>gUniverse := m\<rparr>, Inl (Wrap (QueryErr errGraphAddClaim) e))
      | (m, Inr _) \<Rightarrow> AddClaims (g\<lparr>gUniverse := m, gHeads := advance c (gHeads g)\<rparr>) cs)"

definition ContainsClaim :: "lib \<Rightarrow> graph \<Rightarrow> ident \<Rightarrow> bool result" where
  "ContainsClaim L g i =
     (if i = [] then Inr False
      else InClosure (memUni L (gUniverse g)) BranchUniverse (gHeads g) i)"

definition graphGetClaim :: "lib \<Rightarrow> graph \<Rightarrow> ident \<Rightarrow> claim result" where
  "graphGetClaim L g i = GetFromClosure (memUni L (gUniverse g)) BranchUniverse (gHeads g) i"

definition IsConsolidated :: "graph \<Rightarrow> bool" where
  "IsConsolidated g = (length (roots g) = 1)"

text \<open>\<open>Consolidate\<close>: one head claim over the roots, built at their height plus one.\<close>

definition headEdge :: "lib \<Rightarrow> uni \<Rightarrow> ident \<Rightarrow> (claim \<times> edge) result" where
  "headEdge L u h =
     rbind (wrapping (QueryErr errConsolidate) (GetClaim u False h)) (\<lambda>hc.
     rbind (wrapping (QueryErr errConsolidate)
              (newEdge L ((plainEdge h [] [])\<lparr>ecReferenced := Some hc, ecType := EdgeTypeHead\<rparr>))) (\<lambda>e.
       Inr (hc, e)))"

definition firstNonZero :: "int list \<Rightarrow> int" where
  "firstNonZero ts = (case find (\<lambda>t. t \<noteq> zeroTime) ts of None \<Rightarrow> zeroTime | Some t \<Rightarrow> t)"

definition headClaim :: "lib \<Rightarrow> int \<Rightarrow> uni \<Rightarrow> contributor \<Rightarrow> int list \<Rightarrow> ident list \<Rightarrow> claim result" where
  "headClaim L now u ct ts hs =
     rbind (mapM (headEdge L u) hs) (\<lambda>ces.
       buildClaim L now ((NewClaim NodeTypeHead (Some ct))
         \<lparr>blEdges := map (Some \<circ> snd) ces, blCreatedAt := firstNonZero ts,
          blHeight := Some (FixedHeight (HeightOf (Some (ctClaim ct) # map (Some \<circ> fst) ces)))\<rparr>))"

definition Consolidate :: "lib \<Rightarrow> int \<Rightarrow> graph \<Rightarrow> contributor \<Rightarrow> int list \<Rightarrow> graph \<times> claim result" where
  "Consolidate L now g ct ts =
     (let u = memUni L (gUniverse g); hs = roots g in
        if hs = [] then (g, Inl (BuildErr errEmptyGraph))
        else if length hs = 1 then (g, GetClaim u False (hd hs))
        else case headClaim L now u ct ts hs of
            Inl e \<Rightarrow> (g, Inl e)
          | Inr head \<Rightarrow>
              (case AddClaims g [Some head] of
                 (g', Inl e) \<Rightarrow> (g', Inl (Wrap (QueryErr errConsolidate) e))
               | (g', Inr _) \<Rightarrow> (g', Inr head)))"

section \<open>The spine\<close>

record spineItem =
  siId :: ident
  siRevision :: int
  siHeight :: int
  siTimestamp :: int

definition SpliceSpine :: "spineItem list \<Rightarrow> spineItem list \<Rightarrow> spineItem list" where
  "SpliceSpine existing new =
     (case new of [] \<Rightarrow> existing
      | t # _ \<Rightarrow> filter (\<lambda>it. siRevision it < siRevision t) existing @ new)"

section \<open>What a graph's handle keeps\<close>

lemma refsOf_edges: "refsOf c = map eReference (effectiveEdges c)"
  by (simp add: refsOf_def Edges_def matchAll_def)

lemma set_advance: "set (advance c heads) = insert (ID c) (set heads) - set (refsOf c)"
  by (auto simp: advance_def)

lemma reach_heads:
  assumes "\<And>h. h \<in> set heads \<Longrightarrow> h \<noteq> [] \<Longrightarrow> reach f heads' h"
  shows "reach f heads i \<Longrightarrow> reach f heads' i"
  by (induction rule: reach.induct) (auto intro: assms reach.step)

text \<open>Moving a claim into the frontier loses nothing of the closure.\<close>

lemma advance_covers:
  assumes "f (ID c) = refsOf c" "ID c \<noteq> []" "ID c \<notin> set (refsOf c)"
  shows "reach f (advance c heads) i \<longleftrightarrow> reach f (ID c # heads) i"
proof
  have c: "reach f (advance c heads) (ID c)"
    using assms(2,3) by (intro reach.root) (auto simp: set_advance)
  show "reach f (advance c heads) i" if "reach f (ID c # heads) i"
    using that
  proof (rule reach_heads[rotated])
    fix h assume h: "h \<in> set (ID c # heads)" "h \<noteq> []"
    show "reach f (advance c heads) h"
    proof (cases "h \<in> set (refsOf c)")
      case True
      then show ?thesis using c assms(1) h(2) by (intro reach.step[OF c]) simp_all
    next
      case False
      then show ?thesis using h by (intro reach.root) (auto simp: set_advance)
    qed
  qed
  show "reach f (ID c # heads) i" if "reach f (advance c heads) i"
    using that by (rule reach_heads[rotated]) (auto simp: set_advance intro!: reach.root)
qed

lemma reach_union: "reach f (xs @ ys) i \<longleftrightarrow> reach f xs i \<or> reach f ys i"
proof
  show "reach f (xs @ ys) i \<Longrightarrow> reach f xs i \<or> reach f ys i"
    by (induction rule: reach.induct) (auto intro: reach.intros)
  show "reach f xs i \<or> reach f ys i \<Longrightarrow> reach f (xs @ ys) i"
    using reach_mono[of xs "xs @ ys" f i] reach_mono[of ys "xs @ ys" f i] by auto
qed

lemma AddClaims_covers:
  assumes "AddClaims g (map Some cs) = (g', Inr ())"
    and "\<forall>c \<in> set cs. f (ID c) = refsOf c \<and> ID c \<notin> set (refsOf c)"
  shows "reach f (gHeads g') i \<longleftrightarrow> reach f (gHeads g) i \<or> reach f (map ID cs) i"
  using assms
proof (induction cs arbitrary: g)
  case Nil
  then show ?case using reach_union[of f "gHeads g" "[]" i] by auto
next
  case (Cons c cs)
  obtain m where m: "memPutClaims (gUniverse g) [Some c] = (m, Inr ())"
      "AddClaims (g\<lparr>gUniverse := m, gHeads := advance c (gHeads g)\<rparr>) (map Some cs) = (g', Inr ())"
    using Cons.prems(1) by (auto split: prod.splits sum.splits)
  have "ID c \<noteq> []" using m(1) by (auto split: if_splits)
  then have "reach f (advance c (gHeads g)) i \<longleftrightarrow> reach f (gHeads g) i \<or> reach f [ID c] i"
    using advance_covers[of f c "gHeads g" i] Cons.prems(2) reach_union[of f "[ID c]" "gHeads g" i] by auto
  moreover have "reach f (map ID (c # cs)) i \<longleftrightarrow> reach f [ID c] i \<or> reach f (map ID cs) i"
    using reach_union[of f "[ID c]" "map ID cs" i] by simp
  ultimately show ?case using Cons.IH[OF m(2)] Cons.prems(2) by auto
qed

lemma AddClaims_stores:
  "gUniverse (fst (AddClaims g cs)) = fst (memPutClaims (gUniverse g) cs)"
  "gCited (fst (AddClaims g cs)) = gCited g"
proof (induction cs arbitrary: g)
  case (Cons c cs)
  { case 1 show ?case
    proof (cases c)
      case (Some x)
      then show ?thesis using Cons.IH(1) by (auto split: sum.splits prod.splits)
    qed simp
  next
    case 2 show ?case
    proof (cases c)
      case (Some x)
      then show ?thesis using Cons.IH(2) by (auto split: sum.splits prod.splits)
    qed simp }
qed simp_all

text \<open>A built claim carries every edge it was given, and references what those reference.\<close>

lemma built_refs:
  assumes "buildClaim L now cfg = Inr c" "Some e \<in> set (blEdges cfg)"
  shows "eReference e \<in> set (refsOf c)"
  using assms(1)
proof (rule buildClaim_elim)
  fix cfg1 cfg' es h key env i
  assume b: "resolveType cfg = Inr cfg1" "resolveEncoding cfg1 = Inr cfg'"
      "assembleEdges L cfg' (isRootContributor cfg') = Inr es"
      "c = Claim (MNode ((builtNode now cfg' es h)\<lparr>nodeId := i\<rparr>) None) es (Some env) None []"
  from b(3) obtain given ce de where "blEdges cfg' = map Some given" "es = sort_key eId (given @ ce @ de)"
    by (rule assembleEdges_ok)
  then have "e \<in> set es" using assms(2) resolved_same(7)[OF b(1,2)] by auto
  then show ?thesis by (simp add: b(4) refsOf_edges effectiveEdges_def)
qed

lemma headEdge_refs:
  assumes "mapM (headEdge L u) hs = Inr ces"
  shows "map (eReference \<circ> snd) ces = hs"
proof -
  have "eReference (snd ce) = h" if "headEdge L u h = Inr ce" for h ce
    using that newEdge_ok(3) by (fastforce simp: headEdge_def rbind_eq_Inr plainEdge_def)
  then show ?thesis
    using assms by (induction hs arbitrary: ces) (auto simp: rbind_eq_Inr)
qed

lemma Consolidate_built:
  assumes "Consolidate L now g ct ts = (g', Inr head)" "length (roots g) \<noteq> 1"
  shows "set (roots g) \<subseteq> set (refsOf head)" "gHeads g' = advance head (gHeads g)"
    "gCited g' = gCited g"
proof -
  let ?u = "memUni L (gUniverse g)"
  have "roots g \<noteq> []" using assms by (auto simp: Consolidate_def Let_def)
  then have h: "headClaim L now ?u ct ts (roots g) = Inr head" "AddClaims g [Some head] = (g', Inr ())"
    using assms
    by (auto simp: Consolidate_def Let_def simp del: AddClaims.simps split: sum.splits prod.splits)
  then obtain ces cfg where ces: "mapM (headEdge L ?u) (roots g) = Inr ces" "buildClaim L now cfg = Inr head"
      "blEdges cfg = map (Some \<circ> snd) ces"
    by (auto simp: headClaim_def rbind_eq_Inr)
  show "set (roots g) \<subseteq> set (refsOf head)"
  proof
    fix h assume "h \<in> set (roots g)"
    then have "h \<in> (eReference \<circ> snd) ` set ces"
      by (metis headEdge_refs[OF ces(1)] list.set_map)
    then obtain ce where "ce \<in> set ces" "h = eReference (snd ce)" by auto
    then show "h \<in> set (refsOf head)" using built_refs[OF ces(2), of "snd ce"] ces(3) by auto
  qed
  show "gHeads g' = advance head (gHeads g)" "gCited g' = gCited g"
    using h(2) by (auto split: sum.splits prod.splits if_splits)
qed

section \<open>Properties\<close>

text \<open>
  Property C23 (graph_closure_kept): staging claims stores exactly what a bulk put stores, and the
  closure of the open heads afterwards is the closure of the heads before together with that of
  the staged claims, whatever the order they came in; no claim references itself.
\<close>

theorem graph_closure_kept:
  assumes "AddClaims g (map Some cs) = (g', Inr ())"
    and "\<forall>c \<in> set cs. f (ID c) = refsOf c \<and> ID c \<notin> set (refsOf c)"
  shows "gUniverse g' = fst (memPutClaims (gUniverse g) (map Some cs)) \<and>
    (\<forall>i. reach f (gHeads g') i \<longleftrightarrow> reach f (gHeads g) i \<or> reach f (map ID cs) i)"
  using AddClaims_covers[OF assms] AddClaims_stores(1)[of g "map Some cs"] assms(1) by simp

definition stagedClaim :: "ident \<Rightarrow> ident list \<Rightarrow> claim" where
  "stagedClaim i rs =
     Claim (MNode (zeroNode\<lparr>nodeId := i\<rparr>) None) (map (\<lambda>r. zeroEdge\<lparr>eReference := r\<rparr>) rs) (Some i) None []"

theorem graph_closure_kept_witness:
  "gHeads (fst (AddClaims (NewGraph None) [Some (stagedClaim ''h1'' []), Some (stagedClaim ''h2'' [''h1''])])) = [''h2''] \<and>
   reach (\<lambda>i. if i = ''h2'' then [''h1''] else []) [''h2''] ''h1''"
proof -
  let ?cs = "[stagedClaim ''h1'' [], stagedClaim ''h2'' [''h1'']]"
  let ?f = "\<lambda>i. if i = ''h2'' then [''h1''] else []"
  have a: "AddClaims (NewGraph None) (map Some ?cs) =
      (\<lparr>gUniverse = NewMemoryUniverse\<lparr>mClaims := [(''h1'', ''h1''), (''h2'', ''h2'')]\<rparr>,
        gHeads = [''h2''], gCited = []\<rparr>, Inr ())"
    by code_simp
  have "\<forall>c \<in> set ?cs. ?f (ID c) = refsOf c \<and> ID c \<notin> set (refsOf c)" by code_simp
  from graph_closure_kept[OF a this]
  have "reach ?f [''h2''] ''h1'' \<longleftrightarrow> reach ?f (map ID ?cs) ''h1'' \<or> reach ?f (gHeads (NewGraph None)) ''h1''"
    by auto
  moreover have "ID (stagedClaim ''h1'' []) = ''h1''" by code_simp
  then have "reach ?f (map ID ?cs) ''h1''" by (intro reach.root) auto
  ultimately show ?thesis using a by simp
qed

text \<open>
  Property C24 (consolidation): consolidating two or more roots makes one open head that references
  every root. The cited ids stay cited: the graph counts as consolidated afterwards only when
  none was, so that a graph that cited a claim never is.
\<close>

theorem consolidation:
  assumes "Consolidate L now g ct ts = (g', Inr head)" "length (roots g) \<noteq> 1"
    and "ID head \<notin> set (refsOf head)"
  shows "gHeads g' = [ID head] \<and> set (roots g) \<subseteq> set (refsOf head) \<and>
    (IsConsolidated g' \<longleftrightarrow> set (gCited g) \<subseteq> {ID head})"
proof -
  note c = Consolidate_built[OF assms(1,2)]
  have heads: "set (gHeads g) \<subseteq> set (roots g)" by (auto simp: roots_def)
  then have "ID head \<notin> set (gHeads g)" using c(1) assms(3) by blast
  then have "List.insert (ID head) (gHeads g) = ID head # gHeads g" by (simp add: List.insert_def)
  moreover have "filter (\<lambda>h. h \<notin> set (refsOf head)) (gHeads g) = []"
    using heads c(1) by (auto simp: filter_empty_conv)
  ultimately have h: "gHeads g' = [ID head]" using c(2) assms(3) by (simp add: advance_def)
  have "IsConsolidated g' \<longleftrightarrow> filter (\<lambda>i. i \<noteq> ID head) (gCited g) = []"
    by (simp add: IsConsolidated_def roots_def h c(3))
  then show ?thesis using h c(1) by (auto simp: filter_empty_conv)
qed

definition citingGraph :: graph where
  "citingGraph = \<lparr>gUniverse = signedMem, gHeads = [''hA'', ''hE''], gCited = [''hK'']\<rparr>"

lemma citing_built:
  "resultOf (\<lambda>c. (ID c, refsOf c)) (snd (Consolidate signedLib 1800000000000000000 citingGraph sampleContributor [])) =
     Some (''h'', [''hA'', ''hE'', ''hK'', ''hK''])"
  by code_simp

theorem consolidation_witness:
  "\<not> IsConsolidated (fst (Consolidate signedLib 1800000000000000000 citingGraph sampleContributor []))"
proof -
  obtain g' head where h: "Consolidate signedLib 1800000000000000000 citingGraph sampleContributor [] = (g', Inr head)"
      "ID head = ''h''" "refsOf head = [''hA'', ''hE'', ''hK'', ''hK'']"
    using citing_built
    by (cases "Consolidate signedLib 1800000000000000000 citingGraph sampleContributor []")
       (auto simp: resultOf_Some)
  have "length (roots citingGraph) \<noteq> 1" by (simp add: roots_def citingGraph_def)
  then show ?thesis
    using consolidation[OF h(1)] h by (simp add: citingGraph_def)
qed

end
