(* ===== verification/Contribution.thy ===== *)
theory Contribution
  imports Archive
begin

text \<open>
  What a contribution may do (\<open>contribution.go\<close>) and the planned deletion
  (\<open>deletion.go\<close>). The order of a Go map's iteration is the order of the list that models
  it; the cancellation of a context is left out.
\<close>

section \<open>Constraints\<close>

definition TargetBranches :: string where "TargetBranches = ''$branches''"

record constraints =
  csLifted :: "string list"
  csReferencable :: "string list"
  csCreatable :: "string list"

definition NewConstraints :: "(constraints \<Rightarrow> constraints) list \<Rightarrow> constraints" where
  "NewConstraints opts = fold (\<lambda>f c. f c) opts \<lparr>csLifted = [], csReferencable = [], csCreatable = []\<rparr>"

definition WithLiftedTypes :: "string list \<Rightarrow> constraints \<Rightarrow> constraints" where
  "WithLiftedTypes ts c = c\<lparr>csLifted := csLifted c @ ts\<rparr>"

definition WithReferencableBranches :: "string list \<Rightarrow> constraints \<Rightarrow> constraints" where
  "WithReferencableBranches bs c = c\<lparr>csReferencable := csReferencable c @ bs\<rparr>"

definition WithCreatableBranches :: "string list \<Rightarrow> constraints \<Rightarrow> constraints" where
  "WithCreatableBranches bs c = c\<lparr>csCreatable := csCreatable c @ bs\<rparr>"

definition unconfined :: "constraints \<Rightarrow> bool" where
  "unconfined c = (BranchUniverse \<in> set (csReferencable c))"

definition AdmitBranch :: "constraints \<Rightarrow> archive \<Rightarrow> string \<Rightarrow> unit result" where
  "AdmitBranch c base b =
     rbind (ValidateBranchName b) (\<lambda>_.
       case GetBranch base b of
         Inr _ \<Rightarrow> Inr ()
       | Inl e \<Rightarrow>
           if \<not> errorsIs e (StoreErr ErrBranchNotFound) then Inl e
           else if b \<in> set (csCreatable c) \<or> TargetBranches \<in> set (csCreatable c) then Inr ()
           else Inl (ContribErr ErrBranchNotCreatable))"

text \<open>The ids the claims reference outside themselves, each once, in the order met.\<close>

fun outsideRefs :: "ident list \<Rightarrow> ident list \<Rightarrow> ident list \<Rightarrow> ident list" where
  "outsideRefs mine out [] = out"
| "outsideRefs mine out (r # rs) =
     (if r \<in> set mine \<or> r \<in> set out then outsideRefs mine out rs
      else outsideRefs mine (out @ [r]) rs)"

fun headsOf :: "archive \<Rightarrow> (string \<times> ident) list \<Rightarrow> string list \<Rightarrow> (string \<times> ident) list result" where
  "headsOf base m [] = Inr m"
| "headsOf base m (n # ns) =
     (case GetBranch base n of
        Inl e \<Rightarrow> if errorsIs e (StoreErr ErrBranchNotFound) then headsOf base m ns else Inl e
      | Inr b \<Rightarrow> headsOf base (AList.update n (branchHead b) m) ns)"

definition allowedHeads :: "constraints \<Rightarrow> archive \<Rightarrow> string \<Rightarrow> (string \<times> ident) list result" where
  "allowedHeads c base b =
     (let names = b # csReferencable c in
        if BranchArchive \<in> set names then Inr [(BranchArchive, archiveHead base)]
        else headsOf base [] names)"

definition AdmitReferences :: "constraints \<Rightarrow> uni \<Rightarrow> archive \<Rightarrow> string \<Rightarrow> claim list \<Rightarrow> unit result" where
  "AdmitReferences c u base b mine =
     (if unconfined c then Inr ()
      else
        let out = outsideRefs (map ID mine) [] (concat (map refsOf mine)) in
          if out = [] then Inr ()
          else
            rbind (allowedHeads c base b) (\<lambda>allowed.
            rbind (wrapping (ContribErr errContributionRefs) (DefaultClaimsInBranches u allowed out)) (\<lambda>held.
              if list_all id held then Inr () else Inl (ContribErr ErrUnreadableReference))))"

definition reservedTypes :: "string list" where
  "reservedTypes = [NodeBranches, NodeDelete, NodeExpiry]"

definition AdmitType :: "constraints \<Rightarrow> string \<Rightarrow> unit result" where
  "AdmitType c t =
     (if t \<in> set reservedTypes \<and> t \<notin> set (csLifted c) then Inl (ContribErr ErrReservedType) else Inr ())"

definition AdmitCreatedAt :: "claim \<Rightarrow> int \<Rightarrow> unit result" where
  "AdmitCreatedAt c base =
     (if base < claimCreatedAt c then Inl (ContribErr ErrFutureDated) else Inr ())"

section \<open>What a planned deletion would strand\<close>

definition scheduledForDeletion :: "claim \<Rightarrow> bool" where
  "scheduledForDeletion c = nodeHasField (claimNode c) FieldDeleteBy"

text \<open>The map from ids to the contribution's claims; the last of an id is the one kept.\<close>

definition mineOf :: "claim list \<Rightarrow> ident \<Rightarrow> claim option" where
  "mineOf mine = map_of (rev (map (\<lambda>c. (ID c, c)) mine))"

definition strandStep :: "claim list \<Rightarrow> ident list \<Rightarrow> ident \<Rightarrow> (unit, ident list, ident) act" where
  "strandStep mine reached i =
     (case mineOf mine i of
        None \<Rightarrow> More reached []
      | Some c \<Rightarrow>
          if scheduledForDeletion c then More reached []
          else More (i # reached) (refsOf c))"

definition StrandedByDeletion :: "ident list \<Rightarrow> claim list \<Rightarrow> ident list" where
  "StrandedByDeletion heads mine =
     (case drain (map ID mine) (\<lambda>i. i) (strandStep mine) [] [] heads of
        Inl _ \<Rightarrow> []
      | Inr (reached, _) \<Rightarrow>
          map ID (filter (\<lambda>c. ID c \<notin> set reached \<and> \<not> scheduledForDeletion c) mine))"

section \<open>The sweep (\<open>DeletePlanned\<close>)\<close>

definition dueForDeletion :: "claim \<Rightarrow> int \<Rightarrow> bool result" where
  "dueForDeletion c now =
     (case nodeGetField (claimNode c) FieldDeleteBy of
        Inl e \<Rightarrow> Inr False
      | Inr v \<Rightarrow>
          rbind (CheckDeletable (typeClass (own (claimNode c))) (typeSub (own (claimNode c))) [(FieldDeleteBy, v)]) (\<lambda>_.
            case parseRFC3339Nano v of
              None \<Rightarrow> Inl (ShapeErr ErrTimestampForm)
            | Some due \<Rightarrow> Inr (due \<le> now)))"

record sweepResult =
  swClaims :: "ident list"
  swContents :: "ident list"

definition dueStep :: "uni \<Rightarrow> int \<Rightarrow> sweepResult \<Rightarrow> ident \<Rightarrow> (sweepResult \<times> err, sweepResult, ident) act" where
  "dueStep u now sw i =
     (case GetClaim u True i of
        Inl e \<Rightarrow> More sw []
      | Inr c \<Rightarrow>
          (case dueForDeletion c now of
             Inl e \<Rightarrow> Halt (sw, e)
           | Inr False \<Rightarrow> More sw (refsOf c)
           | Inr True \<Rightarrow>
               More (sw\<lparr>swClaims := swClaims sw @ [i],
                        swContents := swContents sw @
                          (case contentHash (contentSource (claimNode c)) of None \<Rightarrow> [] | Some h \<Rightarrow> [h])\<rparr>)
                 (refsOf c)))"

definition DeletePlanned ::
    "lib \<Rightarrow> memoryUniverse \<Rightarrow> capabilities \<Rightarrow> ident list \<Rightarrow> int \<Rightarrow> memoryUniverse \<times> sweepResult \<times> unit result" where
  "DeletePlanned L m caps heads now =
     (let none = \<lparr>swClaims = [], swContents = []\<rparr> in
        if \<not> capDelete caps then (m, none, Inl (StoreErr ErrUnsupported))
        else case drain (uStored (memUni L m)) (\<lambda>i. i) (dueStep (memUni L m) now) [] none heads of
            Inl (sw, e) \<Rightarrow> (m, sw, Inl e)
          | Inr (sw, _) \<Rightarrow>
              (case (if swClaims sw = [] then (m, Inr ()) else memDeleteClaims m (swClaims sw)) of
                 (m1, Inl e) \<Rightarrow> (m1, sw, Inl e)
               | (m1, Inr _) \<Rightarrow>
                   (case (if swContents sw = [] then (m1, Inr ())
                          else memDeleteContents m1 (map Some (swContents sw))) of
                      (m2, r) \<Rightarrow> (m2, sw, r))))"

section \<open>Admission\<close>

lemma outsideRefs_set: "set (outsideRefs mine out rs) = set out \<union> (set rs - set mine)"
  by (induction mine out rs rule: outsideRefs.induct) auto

lemma outsideRefs_distinct: "distinct out \<Longrightarrow> distinct (outsideRefs mine out rs)"
  by (induction mine out rs rule: outsideRefs.induct) auto

lemma GetBranch_errors: "GetBranch base n = Inl e \<Longrightarrow> errorsIs e (StoreErr ErrBranchNotFound)"
  by (auto simp: GetBranch_def split: option.splits)

lemma headsOf_ok: "\<exists>m'. headsOf base m ns = Inr m'"
  by (induction base m ns rule: headsOf.induct) (auto split: sum.splits dest: GetBranch_errors)

lemma headsOf_heads:
  "headsOf base m ns = Inr m' \<Longrightarrow> h \<in> snd ` set m' \<Longrightarrow>
     h \<in> snd ` set m \<or> (\<exists>n b. n \<in> set ns \<and> GetBranch base n = Inr b \<and> h = branchHead b)"
proof (induction base m ns rule: headsOf.induct)
  case (2 base m n ns)
  show ?case
  proof (cases "GetBranch base n")
    case (Inl e)
    then show ?thesis using 2 GetBranch_errors[OF Inl] by auto
  next
    case (Inr b)
    have "snd ` set (AList.update n (branchHead b) m) \<subseteq> insert (branchHead b) (snd ` set m)"
      by (induction m) auto
    then show ?thesis using 2(2)[OF Inr] 2(3,4) Inr by (auto; blast)
  qed
qed auto

text \<open>The heads a contribution may read from: those of the branches it names.\<close>

definition readableHead :: "constraints \<Rightarrow> archive \<Rightarrow> string \<Rightarrow> ident \<Rightarrow> bool" where
  "readableHead c base b h =
     ((BranchArchive \<in> set (b # csReferencable c) \<and> h = archiveHead base) \<or>
      (\<exists>n br. n \<in> set (b # csReferencable c) \<and> GetBranch base n = Inr br \<and> h = branchHead br))"

lemma allowedHeads_readable:
  "allowedHeads c base b = Inr m \<Longrightarrow> h \<in> snd ` set m \<Longrightarrow> readableHead c base b h"
  using headsOf_heads[of base "[]" "b # csReferencable c" m h]
  by (auto simp: allowedHeads_def readableHead_def Let_def split: if_splits)

section \<open>Stranding\<close>

text \<open>Which of the contribution's claims a walk still reaches once the scheduled ones are gone.\<close>

definition survivingRefs :: "claim list \<Rightarrow> ident \<Rightarrow> ident list" where
  "survivingRefs mine i =
     (case mineOf mine i of None \<Rightarrow> [] | Some c \<Rightarrow> if scheduledForDeletion c then [] else refsOf c)"

lemma mineOf_ID: "mineOf mine i = Some c \<Longrightarrow> c \<in> set mine \<and> ID c = i"
  by (auto simp: mineOf_def dest!: map_of_SomeD)

lemma mineOf_member: "distinct (map ID mine) \<Longrightarrow> c \<in> set mine \<Longrightarrow> mineOf mine (ID c) = Some c"
  unfolding mineOf_def by (intro map_of_is_SomeI) (auto simp: rev_map[symmetric] comp_def distinct_map)

lemma strand_walk:
  obtains s seen where "drain (map ID mine) (\<lambda>i. i) (strandStep mine) [] [] heads = Inr (s, seen)"
    "\<forall>i. i \<in> set s \<longleftrightarrow> reach (survivingRefs mine) heads i \<and>
       (\<exists>c. mineOf mine i = Some c \<and> \<not> scheduledForDeletion c)"
proof -
  let ?alive = "\<lambda>i. \<exists>c. mineOf mine i = Some c \<and> \<not> scheduledForDeletion c"
  have "case drain (map ID mine) (\<lambda>i. i) (strandStep mine) [] [] heads of
      Inr (s, seen) \<Rightarrow> set seen = {k. reach (survivingRefs mine) heads k} \<and>
        (\<forall>i. i \<in> set s \<longleftrightarrow> i \<in> set seen \<and> ?alive i)
    | Inl r \<Rightarrow> (\<exists>seen s q. (\<forall>i. i \<in> set s \<longleftrightarrow> i \<in> set seen \<and> ?alive i) \<and>
        set seen \<subseteq> {k. reach (survivingRefs mine) heads k} \<and> q \<notin> set seen \<and>
        reach (survivingRefs mine) heads q \<and> strandStep mine s q = Halt r)"
  proof (rule drain_reach[where key = "\<lambda>i. i" and J = "\<lambda>seen s. \<forall>i. i \<in> set s \<longleftrightarrow> i \<in> set seen \<and> ?alive i"], goal_cases)
    case (1 seen s q s' qs)
    then show ?case
      by (auto simp: strandStep_def survivingRefs_def dest: mineOf_ID split: option.splits if_splits)
  next
    case (3 seen s q s' qs)
    then show ?case by (auto simp: strandStep_def split: option.splits if_splits)
  qed auto
  moreover have "strandStep mine s q \<noteq> Halt r" for s q r
    by (simp add: strandStep_def split: option.splits)
  ultimately show ?thesis using that by (fastforce split: sum.splits)
qed

lemma stranded_exact:
  assumes "distinct (map ID mine)"
  shows "set (StrandedByDeletion heads mine) =
    {ID c |c. c \<in> set mine \<and> \<not> scheduledForDeletion c \<and> \<not> reach (survivingRefs mine) heads (ID c)}"
proof -
  obtain s seen where d: "drain (map ID mine) (\<lambda>i. i) (strandStep mine) [] [] heads = Inr (s, seen)"
      "\<forall>i. i \<in> set s \<longleftrightarrow> reach (survivingRefs mine) heads i \<and>
         (\<exists>c. mineOf mine i = Some c \<and> \<not> scheduledForDeletion c)"
    by (rule strand_walk[of mine heads])
  show ?thesis
    using d(2) mineOf_member[OF assms] by (auto simp: StrandedByDeletion_def d(1))
qed

section \<open>The sweep\<close>

lemma memDeleteClaims_ok:
  "(\<forall>i \<in> set ids. i \<noteq> []) \<Longrightarrow> \<exists>m'. memDeleteClaims m ids = (m', Inr ()) \<and>
     map_of (mClaims m') = (\<lambda>i. if i \<in> set ids then None else map_of (mClaims m) i) \<and>
     map_of (mTags m') = (\<lambda>i. if i \<in> set ids then None else map_of (mTags m) i) \<and>
     mContent m' = mContent m \<and> mMarks m' = mMarks m"
  by (induction m ids rule: memDeleteClaims.induct) (auto simp: delete_conv fun_eq_iff)

lemma memDeleteContents_ok:
  "\<exists>m'. memDeleteContents m (map Some hs) = (m', Inr ()) \<and>
     map_of (mContent m') = (\<lambda>h. if h \<in> set hs then None else map_of (mContent m) h) \<and>
     mClaims m' = mClaims m \<and> mTags m' = mTags m \<and> mMarks m' = mMarks m"
proof (induction hs arbitrary: m)
  case (Cons h hs)
  show ?case
    using Cons.IH[of "m\<lparr>mContent := AList.delete h (mContent m)\<rparr>"]
    by (elim exE conjE) (auto simp: delete_conv fun_eq_iff)
qed auto

text \<open>The claims of the closure that are due, and the content each takes with it.\<close>

definition dueAt :: "uni \<Rightarrow> int \<Rightarrow> ident \<Rightarrow> bool" where
  "dueAt u now i = (case GetClaim u True i of Inl e \<Rightarrow> False | Inr c \<Rightarrow> dueForDeletion c now = Inr True)"

definition dueBlobs :: "uni \<Rightarrow> int \<Rightarrow> ident \<Rightarrow> ident list" where
  "dueBlobs u now i =
     (case GetClaim u True i of Inl e \<Rightarrow> []
      | Inr c \<Rightarrow> if dueForDeletion c now \<noteq> Inr True then []
          else (case contentHash (contentSource (claimNode c)) of None \<Rightarrow> [] | Some h \<Rightarrow> [h]))"

text \<open>No claim of the closure carries a schedule it may not carry, or one that does not parse.\<close>

definition schedulesOk :: "uni \<Rightarrow> ident list \<Rightarrow> int \<Rightarrow> bool" where
  "schedulesOk u heads now =
     (\<forall>i c e. reach (refs u) heads i \<longrightarrow> GetClaim u True i = Inr c \<longrightarrow> dueForDeletion c now \<noteq> Inl e)"

lemma dueStep_More:
  "dueStep u now sw i = More sw' qs \<Longrightarrow>
     set (swClaims sw') = set (swClaims sw) \<union> (if dueAt u now i then {i} else {}) \<and>
     set (swContents sw') = set (swContents sw) \<union> set (dueBlobs u now i) \<and> qs = refs u i"
  by (auto simp: dueStep_def dueAt_def dueBlobs_def refs_def split: sum.splits bool.splits)

lemma sweep_walk:
  assumes "schedulesOk u heads now" "\<forall>i c. GetClaim u True i = Inr c \<longrightarrow> i \<in> set (uStored u)"
  obtains sw seen where
    "drain (uStored u) (\<lambda>i. i) (dueStep u now) [] \<lparr>swClaims = [], swContents = []\<rparr> heads = Inr (sw, seen)"
    "set (swClaims sw) = {i. reach (refs u) heads i \<and> dueAt u now i}"
    "set (swContents sw) = (\<Union>i \<in> {i. reach (refs u) heads i}. set (dueBlobs u now i))"
proof -
  let ?J = "\<lambda>seen sw. set (swClaims sw) = {i \<in> set seen. dueAt u now i} \<and>
    set (swContents sw) = (\<Union>i \<in> set seen. set (dueBlobs u now i))"
  have "case drain (uStored u) (\<lambda>i. i) (dueStep u now) [] \<lparr>swClaims = [], swContents = []\<rparr> heads of
      Inr (sw, seen) \<Rightarrow> set seen = {k. reach (refs u) heads k} \<and> ?J seen sw
    | Inl r \<Rightarrow> (\<exists>seen sw q. ?J seen sw \<and> set seen \<subseteq> {k. reach (refs u) heads k} \<and> q \<notin> set seen \<and>
        reach (refs u) heads q \<and> dueStep u now sw q = Halt r)"
  proof (rule drain_reach[where key = "\<lambda>i. i" and J = ?J], goal_cases)
    case (1 seen s q s' qs)
    have "refs u q = []" if "q \<notin> set (uStored u)"
      using assms(2) that by (auto simp: refs_def split: sum.splits)
    then show ?case using dueStep_More[OF 1(3)] by (cases "q \<in> set (uStored u)") auto
  next
    case (3 seen s q s' qs)
    show ?case using dueStep_More[OF 3(4)] 3(1) by auto
  qed auto
  moreover have "dueStep u now s q \<noteq> Halt r" if "reach (refs u) heads q" for s q r
    using assms(1) that by (auto simp: dueStep_def schedulesOk_def split: sum.splits bool.splits)
  ultimately obtain sw seen where r:
      "drain (uStored u) (\<lambda>i. i) (dueStep u now) [] \<lparr>swClaims = [], swContents = []\<rparr> heads = Inr (sw, seen)"
      "set seen = {k. reach (refs u) heads k}" "?J seen sw"
    by (auto split: sum.splits)
  then show ?thesis by (intro that[OF r(1)]) auto
qed

text \<open>What a sweep leaves in the memory Universe.\<close>

lemma sweep_ok:
  assumes "schedulesOk (memUni L m) heads now" "capDelete caps"
  obtains m' sw where "DeletePlanned L m caps heads now = (m', sw, Inr ())"
    "set (swClaims sw) = {i. reach (refs (memUni L m)) heads i \<and> dueAt (memUni L m) now i}"
    "map_of (mClaims m') = (\<lambda>i. if i \<in> set (swClaims sw) then None else map_of (mClaims m) i)"
    "map_of (mTags m') = (\<lambda>i. if i \<in> set (swClaims sw) then None else map_of (mTags m) i)"
    "map_of (mContent m') = (\<lambda>h. if (\<exists>i. reach (refs (memUni L m)) heads i \<and> h \<in> set (dueBlobs (memUni L m) now i))
        then None else map_of (mContent m) h)"
proof -
  let ?u = "memUni L m"
  obtain sw seen where w:
      "drain (uStored ?u) (\<lambda>i. i) (dueStep ?u now) [] \<lparr>swClaims = [], swContents = []\<rparr> heads = Inr (sw, seen)"
      "set (swClaims sw) = {i. reach (refs ?u) heads i \<and> dueAt ?u now i}"
      "set (swContents sw) = (\<Union>i \<in> {i. reach (refs ?u) heads i}. set (dueBlobs ?u now i))"
    by (rule sweep_walk[OF assms(1)]) (use mem.get_held in blast)+
  have "\<forall>i \<in> set (swClaims sw). i \<noteq> []" using w(2) by (auto dest: reach_nonnil)
  from memDeleteClaims_ok[OF this, of m] obtain m1 where m1: "memDeleteClaims m (swClaims sw) = (m1, Inr ())"
      "map_of (mClaims m1) = (\<lambda>i. if i \<in> set (swClaims sw) then None else map_of (mClaims m) i)"
      "map_of (mTags m1) = (\<lambda>i. if i \<in> set (swClaims sw) then None else map_of (mTags m) i)"
      "mContent m1 = mContent m"
    by blast
  from memDeleteContents_ok[of m1 "swContents sw"] obtain m2 where
      m2: "memDeleteContents m1 (map Some (swContents sw)) = (m2, Inr ())"
      "map_of (mContent m2) = (\<lambda>h. if h \<in> set (swContents sw) then None else map_of (mContent m1) h)"
      "mClaims m2 = mClaims m1" "mTags m2 = mTags m1"
    by blast
  have "DeletePlanned L m caps heads now = (m2, sw, Inr ())"
    using assms(2) w(1) m1(1) m2(1) by (auto simp: DeletePlanned_def Let_def)
  then show ?thesis
    using w m1 m2 by (intro that) (auto simp: fun_eq_iff)
qed

text \<open>What remains reads as before, so that a second sweep finds nothing.\<close>

lemma sweep_reads:
  assumes "map_of (mClaims m') = (\<lambda>i. if i \<in> D then None else map_of (mClaims m) i)"
    and "map_of (mTags m') = (\<lambda>i. if i \<in> D then None else map_of (mTags m) i)"
  shows "memLoad L m' i = (if i \<in> D \<and> i \<noteq> [] then Inl (StoreErr ErrNotFound) else memLoad L m i)"
proof (cases "i \<in> D")
  case False
  then have "map_of (mClaims m') i = map_of (mClaims m) i" "map_of (mTags m') i = map_of (mTags m) i"
    by (simp_all add: assms)
  then have "memLoad L m' i = memLoad L m i" by (unfold memLoad_def getm_def) (simp only:)
  with False show ?thesis by simp
qed (simp add: memLoad_def assms(1))

lemma sweep_again:
  assumes "schedulesOk (memUni L m) heads now" "capDelete caps"
    and "\<forall>i. memLoad L m' i = (if i \<in> D \<and> i \<noteq> [] then Inl (StoreErr ErrNotFound) else memLoad L m i)"
    and "D = {i. reach (refs (memUni L m)) heads i \<and> dueAt (memUni L m) now i}"
  shows "DeletePlanned L m' caps heads now = (m', \<lparr>swClaims = [], swContents = []\<rparr>, Inr ())"
proof -
  let ?u = "memUni L m" and ?v = "memUni L m'"
  have less: "reach (refs ?u) heads i" if "reach (refs ?v) heads i" for i
    using that
  proof (induction rule: reach.induct)
    case (step k r)
    then have "r \<in> set (refs ?u k)"
      using assms(3) by (auto simp: refs_memUni split: if_splits)
    then show ?case using step by (auto intro: reach.step)
  qed (auto intro: reach.root)
  have due: "\<not> dueAt ?v now i" if "reach (refs ?v) heads i" for i
    using less[OF that] assms(3,4) reach_nonnil[OF that]
    by (auto simp: dueAt_def GetClaim_memUni_delta split: sum.splits if_splits)
  have "schedulesOk ?v heads now"
    using assms(1,3) less by (fastforce simp: schedulesOk_def GetClaim_memUni_delta)
  then obtain sw seen where w:
      "drain (uStored ?v) (\<lambda>i. i) (dueStep ?v now) [] \<lparr>swClaims = [], swContents = []\<rparr> heads = Inr (sw, seen)"
      "set (swClaims sw) = {i. reach (refs ?v) heads i \<and> dueAt ?v now i}"
      "set (swContents sw) = (\<Union>i \<in> {i. reach (refs ?v) heads i}. set (dueBlobs ?v now i))"
    by (rule sweep_walk) (use mem.get_held in blast)+
  have "dueBlobs ?v now i = []" if "reach (refs ?v) heads i" for i
    using due[OF that] by (auto simp: dueAt_def dueBlobs_def split: sum.splits)
  then have "set (swClaims sw) = {}" "set (swContents sw) = {}" using w(2,3) due by auto
  then show ?thesis using w(1) assms(2) by (simp add: DeletePlanned_def Let_def)
qed

lemma due_deletable: "dueForDeletion c now = Inr True \<Longrightarrow>
    \<exists>v. nodeGetField (claimNode c) FieldDeleteBy = Inr v \<and>
      CheckDeletable (typeClass (own (claimNode c))) (typeSub (own (claimNode c))) [(FieldDeleteBy, v)] = Inr ()"
  by (auto simp: dueForDeletion_def rbind_eq_Inr split: sum.splits)

section \<open>Properties\<close>

text \<open>
  Property C18 (admitted_references_readable): a contribution that is not given the whole Universe
  is admitted only when every claim its own reference, other than each other, lies in the
  closure of a head it may read: the branch it writes, a branch it was granted, or the archive.
\<close>

theorem admitted_references_readable:
  assumes "AdmitReferences c (memUni L m) base b mine = Inr ()" "\<not> unconfined c"
    and "x \<in> set mine" "r \<in> set (refsOf x)" "r \<notin> ID ` set mine"
  shows "\<exists>h. readableHead c base b h \<and> reach (refs (memUni L m)) [h] r"
proof -
  let ?out = "outsideRefs (map ID mine) [] (concat (map refsOf mine))"
  have r: "r \<in> set ?out" using assms(3-5) by (auto simp: outsideRefs_set)
  then obtain allowed held where a: "allowedHeads c base b = Inr allowed"
      "DefaultClaimsInBranches (memUni L m) allowed ?out = Inr held" "list_all id held"
    using assms(1,2)
    by (auto simp: AdmitReferences_def Let_def rbind_eq_Inr wrapping_def split: if_splits sum.splits)
  note ex = mem.DefaultClaimsInBranches_exact[OF a(2)]
  from r obtain k where k: "k < length ?out" "?out ! k = r" by (auto simp: in_set_conv_nth)
  then have "held ! k" using a(3) ex(1) by (auto simp: list_all_length)
  then obtain p where "p \<in> set allowed" "reach (refs (memUni L m)) [snd p] r"
    using ex(2)[OF k(1)] k(2) by auto
  then show ?thesis using allowedHeads_readable[OF a(1), of "snd p"] by auto
qed

theorem admitted_references_readable_witness:
  "\<exists>h. readableHead (NewConstraints [WithReferencableBranches [BranchArchive]])
       \<lparr>arUni = memUni graphLib graphMem, arTable = stagedClaim ''hB'' []\<rparr> ''main'' h \<and>
     reach (refs (memUni graphLib graphMem)) [h] ''hA''"
proof -
  let ?c = "NewConstraints [WithReferencableBranches [BranchArchive]]"
  let ?a = "\<lparr>arUni = memUni graphLib graphMem, arTable = stagedClaim ''hB'' []\<rparr>"
  have a: "AdmitReferences ?c (memUni graphLib graphMem) ?a ''main'' [stagedClaim ''hN'' [''hA'']] = Inr ()"
    "\<not> unconfined ?c" "ID (stagedClaim ''hN'' [''hA'']) \<noteq> ''hA''"
    "''hA'' \<in> set (refsOf (stagedClaim ''hN'' [''hA'']))"
    by code_simp+
  show ?thesis by (rule admitted_references_readable[OF a(1,2) _ a(4)]) (use a(3) in auto)
qed

text \<open>
  Property C17 (deletion_exact): over a closure whose schedules are well formed, the planned
  deletion removes the record of exactly the claims of the closure that are due, none of them of
  a structural type; every other claim reads as before, and a second sweep finds nothing left.
\<close>

theorem deletion_exact:
  assumes "schedulesOk (memUni L m) heads now" "capDelete caps"
  shows "\<exists>m' sw. DeletePlanned L m caps heads now = (m', sw, Inr ()) \<and>
    set (swClaims sw) = {i. reach (refs (memUni L m)) heads i \<and> dueAt (memUni L m) now i} \<and>
    (\<forall>i. GetClaim (memUni L m') True i =
       (if i \<in> set (swClaims sw) then Inl (StoreErr ErrNotFound) else GetClaim (memUni L m) True i)) \<and>
    (\<forall>i c. i \<in> set (swClaims sw) \<longrightarrow> GetClaim (memUni L m) True i = Inr c \<longrightarrow>
       \<not> (typeClass (own (claimNode c)) = ''contribution'' \<and> typeSub (own (claimNode c)) \<in> set undeletableSubtype)) \<and>
    DeletePlanned L m' caps heads now = (m', \<lparr>swClaims = [], swContents = []\<rparr>, Inr ())"
proof -
  obtain m' sw where s: "DeletePlanned L m caps heads now = (m', sw, Inr ())"
      "set (swClaims sw) = {i. reach (refs (memUni L m)) heads i \<and> dueAt (memUni L m) now i}"
      "map_of (mClaims m') = (\<lambda>i. if i \<in> set (swClaims sw) then None else map_of (mClaims m) i)"
      "map_of (mTags m') = (\<lambda>i. if i \<in> set (swClaims sw) then None else map_of (mTags m) i)"
    by (rule sweep_ok[OF assms])
  have reads: "memLoad L m' i = (if i \<in> set (swClaims sw) \<and> i \<noteq> [] then Inl (StoreErr ErrNotFound) else memLoad L m i)" for i
    by (rule sweep_reads[OF s(3,4)])
  have "\<forall>i \<in> set (swClaims sw). i \<noteq> []" using s(2) reach_nonnil by auto
  moreover have "\<not> (typeClass (own (claimNode c)) = ''contribution'' \<and> typeSub (own (claimNode c)) \<in> set undeletableSubtype)"
    if "i \<in> set (swClaims sw)" "GetClaim (memUni L m) True i = Inr c" for i c
    using that s(2) due_deletable[of c now] by (auto simp: dueAt_def CheckDeletable_def has_def split: if_splits)
  moreover have "DeletePlanned L m' caps heads now = (m', \<lparr>swClaims = [], swContents = []\<rparr>, Inr ())"
    using reads s(2) by (intro sweep_again[OF assms]) auto
  ultimately show ?thesis
    using s(1,2) reads by (intro exI[of _ m'] exI[of _ sw]) (auto simp: GetClaim_memUni_delta)
qed

text \<open>A store whose claim \<open>hK\<close> shares its content with \<open>hD\<close>, which is due in July 2026.\<close>

definition dueNode :: "bytes list \<Rightarrow> u64 \<Rightarrow> gomap \<Rightarrow> encNode" where
  "dueNode es h fs = (rawNode ''source'' ''note'' es h fs)
     \<lparr>enEncodingClass := ''text'', enEncodingSub := ''plain'', enContentHash := ''hb'', enContentSize := 2\<rparr>"

definition dueLib :: lib where
  "dueLib = tableLib
     [(''D'', dueNode [] 0 [(FieldDeleteBy, ''2026-07-01T00:00:00.000000000Z'')]), (''K'', dueNode [''ek''] 1 [])]
     [(''ek'', rawEdge ''derivation'' ''quote'' ''hD'' [(FieldDeleteBy, ''2026-07-01T00:00:00.000000000Z'')])]"

definition dueMem :: memoryUniverse where
  "dueMem = \<lparr>mClaims = [(''hD'', ''D''), (''hK'', ''K'')], mContent = [(''hb'', ''hi'')], mTags = [], mMarks = []\<rparr>"

lemma due_loads:
  "resultOf (\<lambda>c. (dueForDeletion c 1790000000000000000, refsOf c, contentHash (contentSource (claimNode c))))
     (memLoad dueLib dueMem ''hD'') = Some (Inr True, [], Some ''hb'')"
  "resultOf (\<lambda>c. (dueForDeletion c 1790000000000000000, refsOf c, contentHash (contentSource (claimNode c))))
     (memLoad dueLib dueMem ''hK'') = Some (Inr False, [''hD''], Some ''hb'')"
  by code_simp+

lemma due_keys: "memLoad dueLib dueMem i = Inr c \<Longrightarrow> i \<in> {''hD'', ''hK''}"
  by (auto dest!: memLoad_ok(5) simp: dueMem_def split: if_splits)

lemma due_schedules: "schedulesOk (memUni dueLib dueMem) [''hK''] 1790000000000000000"
  unfolding schedulesOk_def GetClaim_memUni_delta
proof (intro allI impI)
  fix i c e assume "memLoad dueLib dueMem i = Inr c"
  then show "dueForDeletion c 1790000000000000000 \<noteq> Inl e"
    using due_keys[of i c] due_loads by (auto simp: resultOf_Some)
qed

lemma due_reached: "reach (refs (memUni dueLib dueMem)) [''hK''] ''hD''"
proof (rule reach.step)
  show "reach (refs (memUni dueLib dueMem)) [''hK''] ''hK''" by (rule reach.root) simp_all
  show "''hD'' \<in> set (refs (memUni dueLib dueMem) ''hK'')"
    using due_loads(2) by (auto simp: refs_memUni resultOf_Some)
qed simp

theorem deletion_exact_witness:
  "\<exists>m' sw. DeletePlanned dueLib dueMem memCapabilities [''hK''] 1790000000000000000 = (m', sw, Inr ()) \<and>
     GetClaim (memUni dueLib m') True ''hD'' = Inl (StoreErr ErrNotFound)"
proof -
  have "dueAt (memUni dueLib dueMem) 1790000000000000000 ''hD''"
    using due_loads(1) by (auto simp: dueAt_def GetClaim_memUni_delta resultOf_Some)
  then show ?thesis
    using deletion_exact[OF due_schedules, of memCapabilities] due_reached
    by (auto simp: memCapabilities_def)
qed

text \<open>
  The sweep removes the content of a due claim whoever else
  refers to it: a claim that stays and holds the same content hash can no longer be read for its
  content.
\<close>

theorem shared_content_lost:
  assumes "schedulesOk (memUni L m) heads now" "capDelete caps"
    and "reach (refs (memUni L m)) heads i" "GetClaim (memUni L m) True i = Inr c"
    and "dueForDeletion c now = Inr True" "contentHash (contentSource (claimNode c)) = Some h"
    and "nodeContentKind n = ContentExternal" "contentHash (contentSource n) = Some h"
  shows "\<exists>m' sw. DeletePlanned L m caps heads now = (m', sw, Inr ()) \<and>
    nodeGetContent L (Some (memUni L m')) n = Inl (StoreErr ErrNotFound)"
proof -
  have "h \<in> set (dueBlobs (memUni L m) now i)" using assms(4-6) by (simp add: dueBlobs_def)
  with assms(3) have b: "\<exists>i. reach (refs (memUni L m)) heads i \<and> h \<in> set (dueBlobs (memUni L m) now i)" by blast
  obtain m' sw where s: "DeletePlanned L m caps heads now = (m', sw, Inr ())"
      "map_of (mContent m') = (\<lambda>h. if (\<exists>i. reach (refs (memUni L m)) heads i \<and> h \<in> set (dueBlobs (memUni L m) now i))
        then None else map_of (mContent m) h)"
    by (rule sweep_ok[OF assms(1,2)])
  have "map_of (mContent m') h = None" using s(2) b by simp
  then have "nodeGetContent L (Some (memUni L m')) n = Inl (StoreErr ErrNotFound)"
    using assms(7,8) by (simp add: nodeGetContent_def Let_def memUni_def memStreamContent_def memGetContents_def)
  with s(1) show ?thesis by blast
qed

theorem shared_content_lost_witness:
  "\<exists>c m' sw. GetClaim (memUni dueLib dueMem) True ''hK'' = Inr c \<and>
     dueForDeletion c 1790000000000000000 = Inr False \<and>
     DeletePlanned dueLib dueMem memCapabilities [''hK''] 1790000000000000000 = (m', sw, Inr ()) \<and>
     nodeGetContent dueLib (Some (memUni dueLib m')) (claimNode c) = Inl (StoreErr ErrNotFound)"
proof -
  obtain d where d: "memLoad dueLib dueMem ''hD'' = Inr d" "dueForDeletion d 1790000000000000000 = Inr True"
      "contentHash (contentSource (claimNode d)) = Some ''hb''"
    using due_loads(1) by (auto simp: resultOf_Some)
  have "resultOf (\<lambda>c. nodeContentKind (claimNode c) = ContentExternal) (memLoad dueLib dueMem ''hK'') = Some True"
    by code_simp
  with due_loads(2) obtain c where c: "memLoad dueLib dueMem ''hK'' = Inr c"
      "dueForDeletion c 1790000000000000000 = Inr False"
      "contentHash (contentSource (claimNode c)) = Some ''hb''" "nodeContentKind (claimNode c) = ContentExternal"
    by (auto simp: resultOf_Some)
  have "capDelete memCapabilities" by (simp add: memCapabilities_def)
  from shared_content_lost[OF due_schedules this due_reached, of d "''hb''" "claimNode c"]
  show ?thesis using c d by (auto simp: GetClaim_memUni_delta)
qed

end
