(* ===== verification/Bookmarks.thy ===== *)
theory Bookmarks
  imports Contribution
begin

text \<open>
  The bookmark list: one signed record per index under the slot \<open>id_seq(i, s)\<close>
  (\<open>bookmark.go\<close>), the searches that find a list's range from any of its entries and the
  writer's append (\<open>bookmarks.go\<close>), and the locator (\<open>bookmark_locator.go\<close>).

  An index is an unbounded integer: the searches of a list with fewer than 2^61 entries stay
  within the code's 64-bit \<open>int\<close>. The upward search may double 63 times, after which the
  code's \<open>int\<close> would wrap around.
\<close>

section \<open>The record\<close>

record bookmark =
  bmIndex :: u64
  bmSeed :: bytes
  bmHead :: ident
  bmSigner :: ident

definition NewBookmark :: "u64 \<Rightarrow> bytes \<Rightarrow> ident \<Rightarrow> ident \<Rightarrow> bookmark" where
  "NewBookmark i s h signer = \<lparr>bmIndex = i, bmSeed = s, bmHead = h, bmSigner = signer\<rparr>"

definition IdSeq :: "lib \<Rightarrow> u64 \<Rightarrow> bytes \<Rightarrow> ident result" where
  "IdSeq L i s = hashContent L (libEncSlot L i s)"

definition bookmarkSlot :: "lib \<Rightarrow> bookmark \<Rightarrow> ident result" where
  "bookmarkSlot L bm = IdSeq L (bmIndex bm) (bmSeed bm)"

definition SignBookmark :: "lib \<Rightarrow> contributor option \<Rightarrow> u64 \<Rightarrow> bytes \<Rightarrow> ident \<Rightarrow> bytes result" where
  "SignBookmark L self i s h =
     (case self of None \<Rightarrow> Inl (BookErr errBookmarkNoSigner)
      | Some ct \<Rightarrow>
          if ctKey ct = None then Inl (BookErr errBookmarkNoSigner)
          else if h = [] then Inl (BookErr errBookmarkNoHead)
          else if s = [] then Inl (BookErr errBookmarkNoSeed)
          else wrapping (BookErr errBookmarkEncode)
                 (signCOSE L (ctKey ct) (libEncBookmark L \<lparr>ebIndex = i, ebSeed = s, ebHead = h\<rparr>)
                    (Some (ID (ctClaim ct)))))"

definition decodeBookmark :: "lib \<Rightarrow> bytes \<Rightarrow> (bookmark \<times> coseMsg) result" where
  "decodeBookmark L raw =
     rbind (wrapping (BookErr errBookmarkForm) (libCoseDecode L raw)) (\<lambda>msg.
       if coseUnprotected msg \<noteq> 0 then Inl (BookErr errBookmarkHeaders)
       else if coseProtected msg \<noteq> 2 then Inl (BookErr errBookmarkHeaders)
       else if \<not> coseHasAlg msg then Inl (BookErr errBookmarkHeaders)
       else
         rbind (wrapping (BookErr errBookmarkHeaders) (idFromBytes L (coseKid msg))) (\<lambda>signer.
         rbind (wrapping (BookErr errBookmarkForm) (libDecBookmark L (cosePayload msg))) (\<lambda>rec.
           if ebSeed rec = [] then Inl (BookErr errBookmarkForm)
           else rbind (wrapping (BookErr errBookmarkForm) (idFromBytes L (ebHead rec))) (\<lambda>h.
             Inr (NewBookmark (ebIndex rec) (ebSeed rec) h signer, msg)))))"

definition DecodeBookmark :: "lib \<Rightarrow> bytes \<Rightarrow> bookmark result" where
  "DecodeBookmark L raw = rbind (decodeBookmark L raw) (\<lambda>(bm, msg). Inr bm)"

definition VerifyBookmark :: "lib \<Rightarrow> uni \<Rightarrow> ident \<Rightarrow> bytes \<Rightarrow> bookmark result" where
  "VerifyBookmark L u slot raw =
     (if slot = [] then Inl (BookErr errBookmarkNilSlot)
      else
        rbind (decodeBookmark L raw) (\<lambda>(bm, msg).
        rbind (wrapping (BookErr errBookmarkSignature) (GetClaim u False (bmSigner bm))) (\<lambda>signer.
          if claimType signer \<noteq> NodeTypeContributor then Inl (BookErr errBookmarkSignature)
          else
            rbind (wrapping (BookErr errBookmarkSignature) (resolveClaimPubkey L signer False u)) (\<lambda>pk.
            rbind (wrapping (BookErr errBookmarkSignature) (verifySign1 L pk msg)) (\<lambda>_.
            rbind (bookmarkSlot L bm) (\<lambda>recomputed.
              if recomputed \<noteq> slot then Inl (BookErr errBookmarkSlot) else Inr bm))))))"

definition CheckBookmarkHead :: "uni \<Rightarrow> bookmark \<Rightarrow> unit result" where
  "CheckBookmarkHead u bm =
     rbind (wrapping (BookErr errBookmarkReference) (GetClaim u False (bmHead bm))) (\<lambda>c.
       if claimType c \<noteq> NodeBranches then Inl (BookErr errBookmarkReference) else Inr ())"

section \<open>The store of a list\<close>

record 's hist =
  hGet :: "'s \<Rightarrow> ident \<Rightarrow> bytes result"
  hPut :: "'s \<Rightarrow> ident \<Rightarrow> bytes \<Rightarrow> 's \<times> unit result"
  hUni :: "'s \<Rightarrow> uni"

definition memHist :: "lib \<Rightarrow> memoryUniverse hist" where
  "memHist L = \<lparr>hGet = marksGet, hPut = marksPut, hUni = memUni L\<rparr>"

section \<open>The searches\<close>

text \<open>Doubling the step until a miss, then bisecting between the last hit and the miss.\<close>

fun ascendUp :: "nat \<Rightarrow> (int \<Rightarrow> bool result) \<Rightarrow> int \<Rightarrow> int \<Rightarrow> int \<Rightarrow> (int \<times> int) result" where
  "ascendUp 0 present entry hit step = Inl errDiverges"
| "ascendUp (Suc n) present entry hit step =
     rbind (present (entry + step)) (\<lambda>ok.
       if ok then ascendUp n present entry (entry + step) (step * 2) else Inr (hit, entry + step))"

function bisectUp :: "(int \<Rightarrow> bool result) \<Rightarrow> int \<Rightarrow> int \<Rightarrow> int result" where
  "bisectUp present hit miss =
     (if hit + 1 < miss then
        (let mid = hit + (miss - hit) div 2 in
           case present mid of Inl e \<Rightarrow> Inl e
           | Inr ok \<Rightarrow> if ok then bisectUp present mid miss else bisectUp present hit mid)
      else Inr hit)"
  by pat_completeness auto
termination by (relation "measure (\<lambda>(p, hit, miss). nat (miss - hit))") auto

definition ascend :: "(int \<Rightarrow> bool result) \<Rightarrow> int \<Rightarrow> int result" where
  "ascend present entry =
     rbind (ascendUp 63 present entry entry 1) (\<lambda>(hit, miss). bisectUp present hit miss)"

text \<open>The downward search; the \<open>k\<close>-th step is 2^k, and index 0 ends it.\<close>

function descendDown :: "(int \<Rightarrow> bool result) \<Rightarrow> int \<Rightarrow> int \<Rightarrow> nat \<Rightarrow> (int \<times> int) result" where
  "descendDown present entry hit k =
     (if 0 < hit then
        (let probe = max (entry - 2 ^ k) 0 in
           case present probe of Inl e \<Rightarrow> Inl e
           | Inr ok \<Rightarrow> if ok then descendDown present entry probe (Suc k) else Inr (hit, probe))
      else Inr (hit, -1))"
  by pat_completeness auto
termination
  by (relation "measure (\<lambda>(p, entry, hit, k). if 0 < hit then Suc (nat (entry - 2 ^ k)) else 0)")
     (auto simp: max_def)

function bisectDown :: "(int \<Rightarrow> bool result) \<Rightarrow> int \<Rightarrow> int \<Rightarrow> int result" where
  "bisectDown present hit miss =
     (if miss + 1 < hit then
        (let mid = miss + (hit - miss) div 2 in
           case present mid of Inl e \<Rightarrow> Inl e
           | Inr ok \<Rightarrow> if ok then bisectDown present mid miss else bisectDown present hit mid)
      else Inr hit)"
  by pat_completeness auto
termination by (relation "measure (\<lambda>(p, hit, miss). nat (hit - miss))") auto

definition descend :: "(int \<Rightarrow> bool result) \<Rightarrow> int \<Rightarrow> int result" where
  "descend present entry =
     rbind (descendDown present entry entry 0) (\<lambda>(hit, miss). bisectDown present hit miss)"

definition gapProbe :: int where "gapProbe = 4"

fun probeFrom :: "(int \<Rightarrow> bool result) \<Rightarrow> int list \<Rightarrow> unit result" where
  "probeFrom present [] = Inr ()"
| "probeFrom present (i # is') =
     rbind (present i) (\<lambda>ok. if ok then Inl (BookErr errBookmarkGap) else probeFrom present is')"

definition probeGap :: "(int \<Rightarrow> bool result) \<Rightarrow> int \<Rightarrow> unit result" where
  "probeGap present hi = probeFrom present [hi + 2..hi + 1 + gapProbe]"

declare ascendUp.simps [simp del] bisectUp.simps [simp del] descendDown.simps [simp del] bisectDown.simps [simp del]

section \<open>The list\<close>

record bookmarks =
  bsSeed :: bytes
  bsId :: ident
  bsEntry :: int
  bsLo :: int
  bsHi :: int
  bsTop :: "bookmark option"
  bsAnchored :: bool
  bsWrote :: bool
  bsLoaded :: bool

definition NewBookmarks :: "lib \<Rightarrow> uni option \<Rightarrow> bytes \<Rightarrow> bookmarks result" where
  "NewBookmarks L u seed =
     (case u of None \<Rightarrow> Inl (BookErr errBookmarkNoUniverse)
      | Some _ \<Rightarrow>
          if seed = [] then Inl (BookErr errBookmarkNoSeed)
          else rbind (IdSeq L 0 seed) (\<lambda>i.
            Inr \<lparr>bsSeed = seed, bsId = i, bsEntry = 0, bsLo = 0, bsHi = -1, bsTop = None,
                 bsAnchored = False, bsWrote = False, bsLoaded = False\<rparr>))"

text \<open>
  \<open>fetchAt\<close>: absence is an empty slot, or one whose record keys another; damage is an
  error. A negative index has no slot.
\<close>

definition fetchAt :: "lib \<Rightarrow> 's hist \<Rightarrow> 's \<Rightarrow> bookmarks \<Rightarrow> int \<Rightarrow> bookmark option result" where
  "fetchAt L H s b i =
     (if i < 0 then Inr None
      else rbind (IdSeq L (of_int i) (bsSeed b)) (\<lambda>slot.
        case hGet H s slot of
          Inl e \<Rightarrow> if errorsIs e (StoreErr ErrNotFound) then Inr None else Inl e
        | Inr rec \<Rightarrow>
            (case VerifyBookmark L (hUni H s) slot rec of
               Inl e \<Rightarrow> if errorsIs e (BookErr errBookmarkSlot) then Inr None
                        else Inl (Wrap (BookErr errBookmarkSlotRead) e)
             | Inr bm \<Rightarrow> Inr (Some bm))))"

definition presentAt :: "lib \<Rightarrow> 's hist \<Rightarrow> 's \<Rightarrow> bookmarks \<Rightarrow> int \<Rightarrow> bool result" where
  "presentAt L H s b i = rbind (fetchAt L H s b i) (\<lambda>x. Inr (x \<noteq> None))"

text \<open>A writer answers from what it wrote; a reader searches again, and probes for a gap once.\<close>

definition bounds :: "lib \<Rightarrow> 's hist \<Rightarrow> 's \<Rightarrow> bookmarks \<Rightarrow> (int \<times> int \<times> bookmarks) result" where
  "bounds L H s b =
     (if bsWrote b then Inr (bsLo b, bsHi b, b)
      else
        let present = presentAt L H s b in
        rbind (present (bsEntry b)) (\<lambda>ok.
          if \<not> ok then
            (if bsAnchored b then Inl (BookErr errBookmarkOpen)
             else Inr (0, -1, b\<lparr>bsLo := 0, bsHi := -1\<rparr>))
          else
            rbind (descend present (bsEntry b)) (\<lambda>lo.
            rbind (ascend present (bsEntry b)) (\<lambda>hi.
            rbind (if bsLoaded b then Inr () else probeGap present hi) (\<lambda>_.
              Inr (lo, hi, b\<lparr>bsLo := lo, bsHi := hi, bsLoaded := True\<rparr>))))))"

definition OpenBookmarks :: "lib \<Rightarrow> 's hist \<Rightarrow> 's option \<Rightarrow> ident \<Rightarrow> bookmarks result" where
  "OpenBookmarks L H s i =
     (case s of None \<Rightarrow> Inl (BookErr errBookmarkNoUniverse)
      | Some x \<Rightarrow>
          if i = [] then Inl (BookErr errBookmarkNilSlot)
          else
            rbind (wrapping (BookErr errBookmarkOpen) (hGet H x i)) (\<lambda>rec.
            rbind (wrapping (BookErr errBookmarkOpen) (VerifyBookmark L (hUni H x) i rec)) (\<lambda>bm.
            rbind (bounds L H x
                \<lparr>bsSeed = bmSeed bm, bsId = i, bsEntry = sint (bmIndex bm), bsLo = 0, bsHi = -1,
                 bsTop = None, bsAnchored = True, bsWrote = False, bsLoaded = False\<rparr>) (\<lambda>(lo, hi, b).
              Inr b))))"

text \<open>\<open>Append\<close> returns the store and the list it leaves next to the bookmark.\<close>

definition Append ::
    "lib \<Rightarrow> 's hist \<Rightarrow> 's \<Rightarrow> bookmarks \<Rightarrow> contributor option \<Rightarrow> ident \<Rightarrow> 's \<times> bookmarks \<times> bookmark result" where
  "Append L H s b self head =
     (case bounds L H s b of
        Inl e \<Rightarrow> (s, b, Inl e)
      | Inr (lo, hi, b1) \<Rightarrow>
          let index = hi + 1 in
          (case rbind (SignBookmark L self (of_int index) (bsSeed b) head) (\<lambda>rec.
                rbind (IdSeq L (of_int index) (bsSeed b)) (\<lambda>slot. Inr (rec, slot))) of
             Inl e \<Rightarrow> (s, b1, Inl e)
           | Inr (rec, slot) \<Rightarrow>
               (case hPut H s slot rec of
                  (s', Inl e) \<Rightarrow> (s', b1, Inl e)
                | (s', Inr _) \<Rightarrow>
                    let written = NewBookmark (of_int index) (bsSeed b) head (ID (ctClaim (the self))) in
                    (s', b1\<lparr>bsLo := min (bsLo b1) index, bsHi := index, bsTop := Some written,
                            bsWrote := True, bsLoaded := True\<rparr>, Inr written))))"

definition GetAtIndex :: "lib \<Rightarrow> 's hist \<Rightarrow> 's \<Rightarrow> bookmarks \<Rightarrow> int \<Rightarrow> bookmark result" where
  "GetAtIndex L H s b i =
     rbind (fetchAt L H s b i) (\<lambda>x.
       case x of None \<Rightarrow> Inl (BookErr errBookmarkIndexRange) | Some bm \<Rightarrow> Inr bm)"

definition zeroBookmark :: bookmark where
  "zeroBookmark = \<lparr>bmIndex = 0, bmSeed = [], bmHead = [], bmSigner = []\<rparr>"

definition Latest :: "lib \<Rightarrow> 's hist \<Rightarrow> 's \<Rightarrow> bookmarks \<Rightarrow> bookmark result" where
  "Latest L H s b =
     (if bsWrote b then (case bsTop b of Some t \<Rightarrow> Inr t | None \<Rightarrow> Inl (LibErr ''nil pointer dereference''))
      else rbind (bounds L H s b) (\<lambda>(lo, hi, b1).
        if hi < 0 then Inr zeroBookmark else GetAtIndex L H s b1 hi))"

definition GetBulk :: "lib \<Rightarrow> 's hist \<Rightarrow> 's \<Rightarrow> bookmarks \<Rightarrow> int \<Rightarrow> int \<Rightarrow> bookmark list result" where
  "GetBulk L H s b fro toExcluding =
     (if fro < 0 \<or> toExcluding < fro then Inl (BookErr errBookmarkRangeInvalid)
      else mapM (GetAtIndex L H s b) [fro..toExcluding - 1])"

definition Len :: "lib \<Rightarrow> 's hist \<Rightarrow> 's \<Rightarrow> bookmarks \<Rightarrow> int result" where
  "Len L H s b = rbind (bounds L H s b) (\<lambda>(lo, hi, b1). Inr (if hi < 0 then 0 else hi - lo + 1))"

definition verifyEntry :: "lib \<Rightarrow> 's hist \<Rightarrow> 's \<Rightarrow> bookmarks \<Rightarrow> int \<Rightarrow> unit result" where
  "verifyEntry L H s b i =
     rbind (fetchAt L H s b i) (\<lambda>x.
       case x of None \<Rightarrow> Inl (BookErr errBookmarkGap) | Some bm \<Rightarrow> CheckBookmarkHead (hUni H s) bm)"

definition verifyList :: "lib \<Rightarrow> 's hist \<Rightarrow> 's \<Rightarrow> bookmarks \<Rightarrow> unit result" where
  "verifyList L H s b =
     rbind (bounds L H s b) (\<lambda>(lo, hi, b1).
       rbind (mapM (verifyEntry L H s b1) [lo..hi]) (\<lambda>_. Inr ()))"

record bookmarkLocator =
  loSeed :: bytes
  loId :: ident

definition Seed :: "bytes \<Rightarrow> bookmarkLocator" where "Seed s = \<lparr>loSeed = s, loId = []\<rparr>"
definition At :: "ident \<Rightarrow> bookmarkLocator" where "At i = \<lparr>loSeed = [], loId = i\<rparr>"

definition locatorOpen :: "lib \<Rightarrow> 's hist \<Rightarrow> 's option \<Rightarrow> bookmarkLocator \<Rightarrow> bookmarks result" where
  "locatorOpen L H s l =
     (if loId l \<noteq> [] then OpenBookmarks L H s (loId l)
      else NewBookmarks L (map_option (hUni H) s) (loSeed l))"

section \<open>What the searches find\<close>

lemma ascendUp_sound:
  "ascendUp n p entry hit step = Inr (h, m) \<Longrightarrow> p hit = Inr True \<Longrightarrow> 0 < step \<Longrightarrow> hit < entry + step \<Longrightarrow>
     p h = Inr True \<and> p m = Inr False \<and> hit \<le> h \<and> h < m"
proof (induction n arbitrary: hit step)
  case (Suc n)
  show ?case
  proof (cases "p (entry + step)")
    case (Inr ok)
    show ?thesis
    proof (cases ok)
      case True
      then have "ascendUp n p entry (entry + step) (step * 2) = Inr (h, m)"
        using Suc.prems(1) Inr by (simp add: ascendUp.simps)
      then show ?thesis using Suc.IH[of "entry + step" "step * 2"] Suc.prems(3,4) Inr True by force
    next
      case False
      then show ?thesis using Suc.prems Inr by (auto simp: ascendUp.simps)
    qed
  qed (use Suc.prems(1) in \<open>simp add: ascendUp.simps\<close>)
qed (simp add: ascendUp.simps)

lemma bisectUp_sound:
  "bisectUp p hit miss = Inr h \<Longrightarrow> p hit = Inr True \<Longrightarrow> p miss = Inr False \<Longrightarrow> hit < miss \<Longrightarrow>
     p h = Inr True \<and> p (h + 1) = Inr False \<and> hit \<le> h"
proof (induction p hit miss rule: bisectUp.induct)
  case (1 p hit miss)
  show ?case
  proof (cases "hit + 1 < miss")
    case True
    let ?mid = "hit + (miss - hit) div 2"
    have mid: "hit < ?mid" "?mid < miss" using True by auto
    obtain ok where ok: "p ?mid = Inr ok"
      using 1(3) True by (subst (asm) bisectUp.simps) (auto simp: Let_def split: sum.splits)
    show ?thesis
    proof (cases ok)
      case t: True
      then have "bisectUp p ?mid miss = Inr h"
        using 1(3) True ok by (subst (asm) bisectUp.simps) (auto simp: Let_def)
      then show ?thesis using 1(1)[OF True refl ok t] ok t 1(5) mid by auto
    next
      case f: False
      then have "bisectUp p hit ?mid = Inr h"
        using 1(3) True ok by (subst (asm) bisectUp.simps) (auto simp: Let_def)
      then show ?thesis using 1(2)[OF True refl ok f] ok f 1(4) mid by auto
    qed
  next
    case False
    then have "h = hit" "miss = hit + 1" using 1(3,6) by (auto simp: bisectUp.simps[of p hit miss])
    then show ?thesis using 1(4,5) by simp
  qed
qed

lemma ascend_sound:
  assumes "ascend p entry = Inr h" "p entry = Inr True"
  shows "p h = Inr True \<and> p (h + 1) = Inr False \<and> entry \<le> h"
proof -
  obtain hit miss where "ascendUp 63 p entry entry 1 = Inr (hit, miss)" "bisectUp p hit miss = Inr h"
    using assms(1) by (auto simp: ascend_def rbind_eq_Inr)
  then show ?thesis
    using ascendUp_sound[of 63 p entry entry 1 hit miss] bisectUp_sound[of p hit miss h] assms(2) by auto
qed

lemma descendDown_sound:
  "descendDown p entry hit k = Inr (h, m) \<Longrightarrow> p hit = Inr True \<Longrightarrow> p (-1) = Inr False \<Longrightarrow> 0 \<le> hit \<Longrightarrow>
     entry - 2 ^ k < hit \<Longrightarrow> p h = Inr True \<and> p m = Inr False \<and> m < h \<and> h \<le> hit"
proof (induction p entry hit k rule: descendDown.induct)
  case (1 p entry hit k)
  let ?probe = "max (entry - 2 ^ k) 0"
  show ?case
  proof (cases "0 < hit")
    case True
    obtain ok where ok: "p ?probe = Inr ok"
      using 1(2) True by (subst (asm) descendDown.simps) (auto simp: Let_def split: sum.splits)
    show ?thesis
    proof (cases ok)
      case t: True
      then have d: "descendDown p entry ?probe (Suc k) = Inr (h, m)"
        using 1(2) True ok by (subst (asm) descendDown.simps) (auto simp: Let_def)
      have "entry - 2 ^ Suc k < ?probe" by (auto simp: less_max_iff_disj)
      then have "p h = Inr True \<and> p m = Inr False \<and> m < h \<and> h \<le> ?probe"
        using 1(1)[OF True refl ok t d] ok t 1(4) by auto
      then show ?thesis using 1(6) True by auto
    next
      case False
      then have "h = hit" "m = ?probe"
        using 1(2) True ok by (subst (asm) descendDown.simps; simp add: Let_def)+
      then show ?thesis using 1(3,6) True ok False by simp
    qed
  next
    case False
    then have "hit = 0" "descendDown p entry hit k = Inr (hit, -1)"
      using 1(5) by (simp, subst descendDown.simps, simp)
    then have "h = hit" "m = -1" "hit = 0" using 1(2) by simp_all
    then show ?thesis using 1(3,4) by simp
  qed
qed

lemma bisectDown_sound:
  "bisectDown p hit miss = Inr h \<Longrightarrow> p hit = Inr True \<Longrightarrow> p miss = Inr False \<Longrightarrow> miss < hit \<Longrightarrow>
     p h = Inr True \<and> p (h - 1) = Inr False \<and> h \<le> hit"
proof (induction p hit miss rule: bisectDown.induct)
  case (1 p hit miss)
  show ?case
  proof (cases "miss + 1 < hit")
    case True
    let ?mid = "miss + (hit - miss) div 2"
    have mid: "miss < ?mid" "?mid < hit" using True by auto
    obtain ok where ok: "p ?mid = Inr ok"
      using 1(3) True by (subst (asm) bisectDown.simps) (auto simp: Let_def split: sum.splits)
    show ?thesis
    proof (cases ok)
      case t: True
      then have "bisectDown p ?mid miss = Inr h"
        using 1(3) True ok by (subst (asm) bisectDown.simps) (auto simp: Let_def)
      then show ?thesis using 1(1)[OF True refl ok t] ok t 1(5) mid by auto
    next
      case f: False
      then have "bisectDown p hit ?mid = Inr h"
        using 1(3) True ok by (subst (asm) bisectDown.simps) (auto simp: Let_def)
      then show ?thesis using 1(2)[OF True refl ok f] ok f 1(4) mid by auto
    qed
  next
    case False
    then have "h = hit" "miss = hit - 1" using 1(3,6) by (auto simp: bisectDown.simps[of p hit miss])
    then show ?thesis using 1(4,5) by simp
  qed
qed

lemma descend_sound:
  assumes "descend p entry = Inr l" "p entry = Inr True" "p (-1) = Inr False" "0 \<le> entry"
  shows "p l = Inr True \<and> p (l - 1) = Inr False \<and> l \<le> entry"
proof -
  obtain hit miss where "descendDown p entry entry 0 = Inr (hit, miss)" "bisectDown p hit miss = Inr l"
    using assms(1) by (auto simp: descend_def rbind_eq_Inr)
  then show ?thesis
    using descendDown_sound[of p entry entry 0 hit miss] bisectDown_sound[of p hit miss l] assms by auto
qed

text \<open>
  Over a store without damage every search ends with an answer. \<open>M\<close> bounds the indexes a
  search looks at.
\<close>

lemma bisectUp_total: "(\<forall>i \<le> M. \<exists>b. p i = Inr b) \<Longrightarrow> hit \<le> M \<Longrightarrow> miss \<le> M \<Longrightarrow>
     \<exists>h. bisectUp p hit miss = Inr h \<and> h \<le> M"
proof (induction p hit miss rule: bisectUp.induct)
  case (1 p hit miss)
  show ?case
  proof (cases "hit + 1 < miss")
    case True
    let ?mid = "hit + (miss - hit) div 2"
    have mid: "?mid \<le> M" using True 1(5) by auto
    then obtain ok where ok: "p ?mid = Inr ok" using 1(3) by blast
    show ?thesis
      using 1(1)[OF True refl ok] 1(2)[OF True refl ok] 1(3-5) mid True ok
      by (subst bisectUp.simps) (auto simp: Let_def)
  next
    case False
    then show ?thesis using 1(4) by (subst bisectUp.simps) simp
  qed
qed

lemma bisectDown_total: "(\<forall>i \<le> M. \<exists>b. p i = Inr b) \<Longrightarrow> hit \<le> M \<Longrightarrow> \<exists>h. bisectDown p hit miss = Inr h"
proof (induction p hit miss rule: bisectDown.induct)
  case (1 p hit miss)
  show ?case
  proof (cases "miss + 1 < hit")
    case True
    let ?mid = "miss + (hit - miss) div 2"
    have mid: "?mid \<le> M" using True 1(4) by auto
    then obtain ok where ok: "p ?mid = Inr ok" using 1(3) by blast
    show ?thesis
      using 1(1)[OF True refl ok] 1(2)[OF True refl ok] 1(3,4) mid True ok
      by (subst bisectDown.simps) (auto simp: Let_def)
  qed (subst bisectDown.simps, simp)
qed

lemma descendDown_total:
  "(\<forall>i \<le> M. \<exists>b. p i = Inr b) \<Longrightarrow> 0 \<le> M \<Longrightarrow> entry \<le> M \<Longrightarrow> hit \<le> M \<Longrightarrow>
     \<exists>h m. descendDown p entry hit k = Inr (h, m) \<and> h \<le> M"
proof (induction p entry hit k rule: descendDown.induct)
  case (1 p entry hit k)
  show ?case
  proof (cases "0 < hit")
    case True
    let ?probe = "max (entry - 2 ^ k) 0"
    have "0 \<le> (2 :: int) ^ k" by simp
    then have "entry - 2 ^ k \<le> M" using 1(4) by linarith
    then have probe: "?probe \<le> M" using 1(3) by simp
    then obtain ok where ok: "p ?probe = Inr ok" using 1(2) by blast
    show ?thesis
      using 1(1)[OF True refl ok] 1(2-5) probe True ok
      by (subst descendDown.simps) (auto simp: Let_def)
  next
    case False
    then show ?thesis using 1(5) by (subst descendDown.simps) simp
  qed
qed

lemma ascendUp_total:
  assumes "\<forall>i \<le> M. \<exists>b. p i = Inr b" "\<forall>i. hi < i \<longrightarrow> i \<le> M \<longrightarrow> p i = Inr False"
  shows "hi < entry + step * 2 ^ n \<Longrightarrow> entry + step * 2 ^ n \<le> M \<Longrightarrow> 0 < step \<Longrightarrow> hit \<le> M \<Longrightarrow>
    \<exists>h m. ascendUp (Suc n) p entry hit step = Inr (h, m) \<and> h \<le> M \<and> m \<le> M"
proof (induction n arbitrary: hit step)
  case 0
  then show ?case using assms(2) by (simp add: ascendUp.simps)
next
  case (Suc n)
  have "step * 1 \<le> step * 2 ^ Suc n"
    using Suc.prems(3) by (intro mult_left_mono one_le_power) simp_all
  then have m: "entry + step \<le> M" using Suc.prems(2) by linarith
  then obtain b where b: "p (entry + step) = Inr b" using assms(1) by blast
  have "\<exists>h m. ascendUp (Suc n) p entry (entry + step) (step * 2) = Inr (h, m) \<and> h \<le> M \<and> m \<le> M"
    using Suc m by (simp add: mult.assoc)
  then show ?case using b m Suc.prems(4) by (subst ascendUp.simps) auto
qed

lemma searches_total:
  assumes "\<forall>i < 2 ^ 63. \<exists>b. p i = Inr b" "\<forall>i. hi < i \<longrightarrow> i < 2 ^ 63 \<longrightarrow> p i = Inr False"
    and "0 \<le> entry" "entry \<le> hi" "hi < 2 ^ 62"
  shows "\<exists>h. ascend p entry = Inr h \<and> h < 2 ^ 63" "\<exists>l. descend p entry = Inr l"
proof -
  let ?M = "2 ^ 63 - 1 :: int"
  have t: "\<forall>i \<le> ?M. \<exists>b. p i = Inr b" "\<forall>i. hi < i \<longrightarrow> i \<le> ?M \<longrightarrow> p i = Inr False"
    using assms(1,2) by auto
  have "\<exists>h m. ascendUp (Suc 62) p entry entry 1 = Inr (h, m) \<and> h \<le> ?M \<and> m \<le> ?M"
    by (rule ascendUp_total[OF t]) (use assms(3-5) in simp_all)
  then obtain hit miss where "ascendUp 63 p entry entry 1 = Inr (hit, miss)" "hit \<le> ?M" "miss \<le> ?M"
    by (auto simp: numeral_eq_Suc)
  then show "\<exists>h. ascend p entry = Inr h \<and> h < 2 ^ 63"
    using bisectUp_total[OF t(1), of hit miss] by (auto simp: ascend_def)
  have "\<exists>h m. descendDown p entry entry 0 = Inr (h, m) \<and> h \<le> ?M"
    by (rule descendDown_total[OF t(1)]) (use assms(3-5) in simp_all)
  then obtain hit' miss' where "descendDown p entry entry 0 = Inr (hit', miss')" "hit' \<le> ?M" by blast
  then show "\<exists>l. descend p entry = Inr l"
    using bisectDown_total[OF t(1), of hit' miss'] by (simp add: descend_def)
qed

section \<open>The range of a list\<close>

lemma presentAt_negative: "i < 0 \<Longrightarrow> presentAt L H s b i = Inr False"
  by (simp add: presentAt_def fetchAt_def)

lemma present_nonneg: "presentAt L H s b i = Inr True \<Longrightarrow> 0 \<le> i"
  by (rule ccontr) (simp add: presentAt_negative)

lemma probeFrom_ok: "probeFrom p is' = Inr () \<longleftrightarrow> (\<forall>i \<in> set is'. p i = Inr False)"
  by (induction p is' rule: probeFrom.induct) (auto simp: rbind_eq_Inr)

lemma probeGap_ok: "probeGap p hi = Inr () \<longleftrightarrow> (\<forall>i. hi + 2 \<le> i \<longrightarrow> i \<le> hi + 5 \<longrightarrow> p i = Inr False)"
  by (auto simp: probeGap_def probeFrom_ok gapProbe_def)

lemma bounds_sound:
  assumes "bounds L H s b = Inr (lo, hi, b1)" "\<not> bsWrote b" "presentAt L H s b (bsEntry b) = Inr True"
  defines "p \<equiv> presentAt L H s b"
  shows "p lo = Inr True \<and> p (lo - 1) = Inr False \<and> p hi = Inr True \<and> p (hi + 1) = Inr False \<and>
    lo \<le> bsEntry b \<and> bsEntry b \<le> hi \<and>
    (\<not> bsLoaded b \<longrightarrow> (\<forall>i. hi + 2 \<le> i \<longrightarrow> i \<le> hi + 5 \<longrightarrow> p i = Inr False)) \<and>
    b1 = b\<lparr>bsLo := lo, bsHi := hi, bsLoaded := True\<rparr>"
proof -
  have e: "0 \<le> bsEntry b" by (rule present_nonneg[OF assms(3)])
  have b: "descend p (bsEntry b) = Inr lo" "ascend p (bsEntry b) = Inr hi"
      "bsLoaded b \<or> probeGap p hi = Inr ()" "b1 = b\<lparr>bsLo := lo, bsHi := hi, bsLoaded := True\<rparr>"
    using assms(1-3) by (auto simp: bounds_def Let_def rbind_eq_Inr p_def split: if_splits)
  have "p (-1) = Inr False" by (simp add: p_def presentAt_negative)
  from descend_sound[OF b(1) _ this e] ascend_sound[OF b(2)] b(3,4) assms(3)
  show ?thesis by (auto simp: p_def probeGap_ok)
qed

text \<open>The list a store holds, between two indexes and without a hole.\<close>

definition contiguous :: "lib \<Rightarrow> 's hist \<Rightarrow> 's \<Rightarrow> bookmarks \<Rightarrow> int \<Rightarrow> int \<Rightarrow> bool" where
  "contiguous L H s b lo hi =
     (\<forall>i. i < 2 ^ 63 \<longrightarrow> presentAt L H s b i = Inr (lo \<le> i \<and> i \<le> hi))"

lemma bounds_contiguous:
  assumes "contiguous L H s b lo hi" "lo \<le> bsEntry b" "bsEntry b \<le> hi" "hi < 2 ^ 62" "\<not> bsWrote b"
  shows "bounds L H s b = Inr (lo, hi, b\<lparr>bsLo := lo, bsHi := hi, bsLoaded := True\<rparr>)"
proof -
  let ?p = "presentAt L H s b"
  have p: "?p i = Inr (lo \<le> i \<and> i \<le> hi)" if "i < 2 ^ 63" for i
    using assms(1) that by (simp add: contiguous_def)
  have entry: "?p (bsEntry b) = Inr True" using p[of "bsEntry b"] assms(2-4) by simp
  then have e: "0 \<le> bsEntry b" by (rule present_nonneg)
  have t: "\<forall>i < 2 ^ 63. \<exists>b. ?p i = Inr b" "\<forall>i. hi < i \<longrightarrow> i < 2 ^ 63 \<longrightarrow> ?p i = Inr False"
    using p by auto
  obtain h l where hl: "ascend ?p (bsEntry b) = Inr h" "h < 2 ^ 63" "descend ?p (bsEntry b) = Inr l"
    using searches_total[OF t e assms(3,4)] by blast
  have m1: "?p (-1) = Inr False" by (simp add: presentAt_negative)
  note hs = ascend_sound[OF hl(1) entry] and ls = descend_sound[OF hl(3) entry m1 e]
  have "h \<le> hi" using hs p[OF hl(2)] by simp
  moreover have "hi < h + 1" using hs p[of "h + 1"] assms(2-4) \<open>h \<le> hi\<close> by auto
  ultimately have h: "h = hi" by simp
  have "lo \<le> l" using ls p[of l] assms(3,4) by simp
  moreover have "l - 1 < lo" using ls p[of "l - 1"] assms(3,4) by auto
  ultimately have l: "l = lo" by simp
  have "probeGap ?p hi = Inr ()"
    unfolding probeGap_ok using assms(4) by (auto simp: p)
  then show ?thesis using hl entry assms(5) by (simp add: bounds_def Let_def h l)
qed

section \<open>Signing and reading back\<close>

text \<open>
  Documented behaviour of the libraries: a message signed with a key id decodes with the two
  protected headers and the payload it was given and verifies; the payload round trips; the
  empty string is no multihash.
\<close>

definition coseSignsKid :: "lib \<Rightarrow> pubkey \<Rightarrow> bool" where
  "coseSignsKid L k =
     (\<forall>alg p kid b. signatureAlgorithm k = Inr alg \<longrightarrow> libCoseSign L k alg p (Some kid) = Inr b \<longrightarrow>
        (\<exists>msg. libCoseDecode L b = Inr msg \<and> coseUnprotected msg = 0 \<and> coseProtected msg = 2 \<and>
           coseHasAlg msg \<and> coseAlg msg = Inr alg \<and> coseKid msg = kid \<and> cosePayload msg = p \<and>
           libCoseVerify L alg k msg = Inr ()))"

definition bookmarkLib :: "lib \<Rightarrow> bool" where
  "bookmarkLib L = ((\<forall>e. libDecBookmark L (libEncBookmark L e) = Inr e) \<and> (\<forall>d. libMultihash L [] \<noteq> Inr d))"

text \<open>A contributor that may sign: its key is the one its stored claim publishes.\<close>

definition signsFor :: "lib \<Rightarrow> uni \<Rightarrow> contributor \<Rightarrow> bool" where
  "signsFor L u ct =
     (\<exists>k c pk. ctKey ct = Some k \<and> wellFormedKey L k \<and> coseSignsKid L k \<and> EncodePublicKey k = Inr pk \<and>
        GetClaim u False (ID (ctClaim ct)) = Inr c \<and> claimType c = NodeTypeContributor \<and>
        resolveClaimPubkey L c False u = Inr pk \<and> (\<exists>d. libMultihash L (ID (ctClaim ct)) = Inr d))"

lemma signed_bookmark_verifies:
  assumes "SignBookmark L (Some ct) i s h = Inr rec" "IdSeq L i s = Inr slot"
    and "bookmarkLib L" "signsFor L u ct" "libMultihash L h = Inr d"
  shows "VerifyBookmark L u slot rec = Inr (NewBookmark i s h (ID (ctClaim ct)))"
proof -
  let ?e = "\<lparr>ebIndex = i, ebSeed = s, ebHead = h\<rparr>"
  obtain k c pk where k: "ctKey ct = Some k" "wellFormedKey L k" "coseSignsKid L k" "EncodePublicKey k = Inr pk"
      "GetClaim u False (ID (ctClaim ct)) = Inr c" "claimType c = NodeTypeContributor"
      "resolveClaimPubkey L c False u = Inr pk" "\<exists>d. libMultihash L (ID (ctClaim ct)) = Inr d"
    using assms(4) by (auto simp: signsFor_def)
  obtain alg where a: "signatureAlgorithm k = Inr alg"
      "libCoseSign L k alg (libEncBookmark L ?e) (Some (ID (ctClaim ct))) = Inr rec" "s \<noteq> []"
    using assms(1) k(1) by (auto simp: SignBookmark_def signCOSE_def rbind_eq_Inr split: if_splits)
  then obtain msg where m: "libCoseDecode L rec = Inr msg" "coseUnprotected msg = 0" "coseProtected msg = 2"
      "coseHasAlg msg" "coseAlg msg = Inr alg" "coseKid msg = ID (ctClaim ct)"
      "cosePayload msg = libEncBookmark L ?e" "libCoseVerify L alg k msg = Inr ()"
    using k(3) unfolding coseSignsKid_def by blast
  have "slot \<noteq> []"
    using assms(2,3) by (auto simp: IdSeq_def hashContent_def rbind_eq_Inr idFromBytes_Inr bookmarkLib_def)
  moreover have "decodeBookmark L rec = Inr (NewBookmark i s h (ID (ctClaim ct)), msg)"
    using m k(8) assms(3,5) a(3)
    by (auto simp: decodeBookmark_def rbind_def bookmarkLib_def idFromBytes_def wrapping_def)
  moreover have "pk \<noteq> []" using k(2,4) by (cases k) (auto simp: prependCode_def)
  then have "verifySign1 L pk msg = Inr ()"
    using DecodePublicKey_Encode[OF k(2,4)] a(1) m(5,8) by (auto simp: verifySign1_ok)
  ultimately show ?thesis
    using k(5-7) assms(2) by (simp add: VerifyBookmark_def bookmarkSlot_def NewBookmark_def)
qed

section \<open>The store's contract, and the append over it\<close>

locale bookmark_store =
  fixes H :: "'s hist"
  assumes put_get: "hPut H s k r = (s', Inr ()) \<Longrightarrow> hGet H s' k = Inr r"
    and put_other: "hPut H s k r = (s', Inr ()) \<Longrightarrow> j \<noteq> k \<Longrightarrow> hGet H s' j = hGet H s j"
    and put_uni: "hPut H s k r = (s', Inr ()) \<Longrightarrow> hUni H s' = hUni H s"

text \<open>The slots of a list are distinct: \<open>id_seq\<close> is a hash of the index and the seed.\<close>

definition slotsDistinct :: "lib \<Rightarrow> bytes \<Rightarrow> bool" where
  "slotsDistinct L s = (\<forall>i j a. IdSeq L i s = Inr a \<longrightarrow> IdSeq L j s = Inr a \<longrightarrow> i = j)"

text \<open>The list answers \<open>(lo, hi)\<close> when asked for its bounds.\<close>

definition settles :: "bookmarks \<Rightarrow> int \<Rightarrow> int \<Rightarrow> bool" where
  "settles b lo hi =
     (if bsWrote b then bsLo b = lo \<and> bsHi b = hi
      else (lo \<le> bsEntry b \<and> bsEntry b \<le> hi) \<or> (lo = 0 \<and> hi = -1 \<and> bsEntry b = 0 \<and> \<not> bsAnchored b))"

lemma bounds_settles:
  assumes "contiguous L H s b lo hi" "settles b lo hi" "hi < 2 ^ 62"
  shows "\<exists>b1. bounds L H s b = Inr (lo, hi, b1) \<and> bsSeed b1 = bsSeed b \<and> bsLo b1 = lo \<and>
    bsAnchored b1 = bsAnchored b \<and> bsEntry b1 = bsEntry b \<and> bsId b1 = bsId b"
proof -
  consider "bsWrote b" | "\<not> bsWrote b" "lo \<le> bsEntry b" "bsEntry b \<le> hi"
    | "\<not> bsWrote b" "lo = 0" "hi = -1" "bsEntry b = 0" "\<not> bsAnchored b"
    using assms(2) by (auto simp: settles_def split: if_splits)
  then show ?thesis
  proof cases
    case 1
    then show ?thesis using assms(2) by (simp add: bounds_def settles_def)
  next
    case 2
    then show ?thesis using bounds_contiguous[OF assms(1) 2(2,3) assms(3) 2(1)] by simp
  next
    case 3
    then have "presentAt L H s b (bsEntry b) = Inr False" using assms(1) by (simp add: contiguous_def)
    then show ?thesis using 3 by (simp add: bounds_def Let_def)
  qed
qed

lemma fetchAt_cong:
  "bsSeed b = bsSeed b' \<Longrightarrow> fetchAt L H s b i = fetchAt L H s b' i"
  by (simp add: fetchAt_def)

lemma contiguous_cong: "bsSeed b = bsSeed b' \<Longrightarrow> contiguous L H s b lo hi = contiguous L H s b' lo hi"
  by (simp add: contiguous_def presentAt_def fetchAt_def)

lemma Append_ok:
  assumes "Append L H s b (Some ct) head = (s', b', Inr bm)" "bounds L H s b = Inr (lo, hi, b1)"
  obtains rec slot where "SignBookmark L (Some ct) (of_int (hi + 1)) (bsSeed b) head = Inr rec"
    "IdSeq L (of_int (hi + 1)) (bsSeed b) = Inr slot" "hPut H s slot rec = (s', Inr ())"
    "bm = NewBookmark (of_int (hi + 1)) (bsSeed b) head (ID (ctClaim ct))"
    "b' = b1\<lparr>bsLo := min (bsLo b1) (hi + 1), bsHi := hi + 1, bsTop := Some bm, bsWrote := True, bsLoaded := True\<rparr>"
proof -
  obtain rec slot where r: "SignBookmark L (Some ct) (of_int (hi + 1)) (bsSeed b) head = Inr rec"
      "IdSeq L (of_int (hi + 1)) (bsSeed b) = Inr slot"
    using assms by (auto simp: Append_def Let_def rbind_def split: sum.splits)
  obtain s1 w where w: "hPut H s slot rec = (s1, w)" by fastforce
  have "w = Inr ()" using assms r w by (cases w) (auto simp: Append_def Let_def)
  then show thesis
    using assms r w by (intro that) (auto simp: Append_def Let_def)
qed

lemma of_int_u64_eq:
  "0 \<le> i \<Longrightarrow> i < 2 ^ 64 \<Longrightarrow> 0 \<le> j \<Longrightarrow> j < 2 ^ 64 \<Longrightarrow> (of_int i :: u64) = of_int j \<longleftrightarrow> i = j"
  by (subst word_of_int_eq_iff) (simp add: take_bit_int_eq_self)

context bookmark_store
begin

lemma append_fetch:
  assumes "Append L H s b (Some ct) head = (s', b', Inr bm)" "contiguous L H s b lo hi" "settles b lo hi"
    and "-1 \<le> hi" "hi < 2 ^ 62"
    and "bookmarkLib L" "slotsDistinct L (bsSeed b)" "signsFor L (hUni H s) ct" "libMultihash L head = Inr d"
  shows "bm = NewBookmark (of_int (hi + 1)) (bsSeed b) head (ID (ctClaim ct))"
    and "fetchAt L H s' b (hi + 1) = Inr (Some bm)"
    and "i < 2 ^ 63 \<Longrightarrow> i \<noteq> hi + 1 \<Longrightarrow> fetchAt L H s' b i = fetchAt L H s b i"
    and "bsSeed b' = bsSeed b" "bsWrote b'" "bsTop b' = Some bm" "bsHi b' = hi + 1" "bsLo b' = min lo (hi + 1)"
proof -
  obtain b1 where b1: "bounds L H s b = Inr (lo, hi, b1)" "bsSeed b1 = bsSeed b" "bsLo b1 = lo"
    using bounds_settles[OF assms(2,3,5)] by blast
  obtain rec slot where r: "SignBookmark L (Some ct) (of_int (hi + 1)) (bsSeed b) head = Inr rec"
      "IdSeq L (of_int (hi + 1)) (bsSeed b) = Inr slot" "hPut H s slot rec = (s', Inr ())"
      "bm = NewBookmark (of_int (hi + 1)) (bsSeed b) head (ID (ctClaim ct))"
      "b' = b1\<lparr>bsLo := min (bsLo b1) (hi + 1), bsHi := hi + 1, bsTop := Some bm, bsWrote := True, bsLoaded := True\<rparr>"
    by (rule Append_ok[OF assms(1) b1(1)])
  show "bm = NewBookmark (of_int (hi + 1)) (bsSeed b) head (ID (ctClaim ct))" by (rule r(4))
  have "VerifyBookmark L (hUni H s') slot rec = Inr bm"
    unfolding put_uni[OF r(3)] r(4) by (rule signed_bookmark_verifies[OF r(1,2) assms(6,8,9)])
  then show "fetchAt L H s' b (hi + 1) = Inr (Some bm)"
    using assms(4) r(2) put_get[OF r(3)] by (simp add: fetchAt_def)
  show "fetchAt L H s' b i = fetchAt L H s b i" if i: "i < 2 ^ 63" "i \<noteq> hi + 1" for i
  proof (cases "0 \<le> i")
    case True
    have "(of_int i :: u64) \<noteq> of_int (hi + 1)"
      using i True assms(4,5) by (subst of_int_u64_eq) simp_all
    then have "j \<noteq> slot" if "IdSeq L (of_int i) (bsSeed b) = Inr j" for j
      using assms(7) r(2) that by (auto simp: slotsDistinct_def)
    then have "hGet H s' j = hGet H s j" if "IdSeq L (of_int i) (bsSeed b) = Inr j" for j
      using that put_other[OF r(3)] by blast
    then show ?thesis
      unfolding fetchAt_def put_uni[OF r(3)] using True by (cases "IdSeq L (of_int i) (bsSeed b)") simp_all
  qed (simp add: fetchAt_def)
  show "bsSeed b' = bsSeed b" "bsWrote b'" "bsTop b' = Some bm" "bsHi b' = hi + 1" "bsLo b' = min lo (hi + 1)"
    using r(5) b1 by simp_all
qed

text \<open>The list grows by the entry at its end, and stays without a hole.\<close>

lemma append_contiguous:
  assumes "Append L H s b (Some ct) head = (s', b', Inr bm)" "contiguous L H s b lo hi" "settles b lo hi"
    and "-1 \<le> hi" "hi < 2 ^ 62" "lo \<le> hi + 1"
    and "bookmarkLib L" "slotsDistinct L (bsSeed b)" "signsFor L (hUni H s) ct" "libMultihash L head = Inr d"
  shows "contiguous L H s' b' lo (hi + 1) \<and> settles b' lo (hi + 1)"
proof -
  note f = append_fetch[OF assms(1-5,7-10)]
  have "presentAt L H s' b i = Inr (lo \<le> i \<and> i \<le> hi + 1)" if "i < 2 ^ 63" for i
  proof (cases "i = hi + 1")
    case True
    then show ?thesis using f(2) assms(6) by (simp add: presentAt_def)
  next
    case False
    then have "presentAt L H s' b i = presentAt L H s b i" using f(3)[OF that False] by (simp add: presentAt_def)
    then show ?thesis using assms(2) that False by (auto simp: contiguous_def)
  qed
  then have "contiguous L H s' b lo (hi + 1)" by (simp add: contiguous_def)
  then show ?thesis
    using contiguous_cong[of b' b L H s' lo "hi + 1"] f(4,5,7,8) assms(6) by (simp add: settles_def)
qed

text \<open>Whoever reads the list afterwards, from any of its entries, finds the new head.\<close>

lemma append_read:
  assumes "Append L H s b (Some ct) head = (s', b', Inr bm)" "contiguous L H s b lo hi" "settles b lo hi"
    and "-1 \<le> hi" "hi < 2 ^ 61" "lo \<le> hi + 1"
    and "bookmarkLib L" "slotsDistinct L (bsSeed b)" "signsFor L (hUni H s) ct" "libMultihash L head = Inr d"
    and "bsSeed r = bsSeed b" "\<not> bsWrote r" "lo \<le> bsEntry r" "bsEntry r \<le> hi + 1" "0 \<le> hi + 1"
  shows "Latest L H s' r = Inr bm"
proof -
  have hi: "hi < 2 ^ 62" using assms(5) by simp
  note f = append_fetch[OF assms(1-4) hi assms(7-10)]
  have "contiguous L H s' r lo (hi + 1)"
    using append_contiguous[OF assms(1-4) hi assms(6-10)] contiguous_cong[of r b' L H s' lo "hi + 1"] f(4) assms(11) by simp
  then have "bounds L H s' r = Inr (lo, hi + 1, r\<lparr>bsLo := lo, bsHi := hi + 1, bsLoaded := True\<rparr>)"
    by (rule bounds_contiguous) (use assms(5,12-14) in simp_all)
  then show ?thesis
    using assms(12,15) f(2) fetchAt_cong[of r b L H s' "hi + 1"] assms(11)
    by (simp add: Latest_def GetAtIndex_def fetchAt_cong[of "r\<lparr>bsLo := lo, bsHi := hi + 1, bsLoaded := True\<rparr>" b])
qed

end

lemma memUni_marks [simp]: "memUni L (m\<lparr>mMarks := x\<rparr>) = memUni L m"
  by (cases m, hypsubst)
     (unfold memUni_def memGetClaims_def memLoad_def memHasClaims_def memGetClaimsRaw_def memGetContents_def
      memHasContents_def memStreamContent_def memGetClaimTags_def memoryUniverse.simps, rule refl)

interpretation memMarks: bookmark_store "memHist L" for L
  by unfold_locales (auto simp: memHist_def marksGet_def marksPut_def update_conv' split: if_splits)

section \<open>Properties\<close>

text \<open>
  Property C16 (bookmark_append): appending a head to a list without holes writes exactly the entry
  after its last: it is signed by the contributor, reads back as given, every other index reads as
  before, and the list stays without holes. Every reader of the list, entering at whichever of its
  entries, then finds the new head as the latest, as the writer does.
\<close>

theorem bookmark_append:
  assumes "Append L (memHist L) m b (Some ct) head = (m', b', Inr bm)"
    and "contiguous L (memHist L) m b lo hi" "settles b lo hi" "-1 \<le> hi" "hi < 2 ^ 61" "lo \<le> hi + 1"
    and "bookmarkLib L" "slotsDistinct L (bsSeed b)" "signsFor L (memUni L m) ct"
    and "libMultihash L head = Inr d"
  shows "bm = NewBookmark (of_int (hi + 1)) (bsSeed b) head (ID (ctClaim ct)) \<and>
    (\<forall>i < 2 ^ 63. fetchAt L (memHist L) m' b i =
       (if i = hi + 1 then Inr (Some bm) else fetchAt L (memHist L) m b i)) \<and>
    contiguous L (memHist L) m' b' lo (hi + 1) \<and> settles b' lo (hi + 1) \<and>
    Latest L (memHist L) m' b' = Inr bm \<and>
    (\<forall>r. bsSeed r = bsSeed b \<longrightarrow> \<not> bsWrote r \<longrightarrow> lo \<le> bsEntry r \<longrightarrow> bsEntry r \<le> hi + 1 \<longrightarrow>
       Latest L (memHist L) m' r = Inr bm)"
proof -
  have hi: "hi < 2 ^ 62" using assms(5) by simp
  have sf: "signsFor L (hUni (memHist L) m) ct" using assms(9) by (simp add: memHist_def)
  note f = memMarks.append_fetch[OF assms(1-4) hi assms(7,8) sf assms(10)]
  have "\<forall>i < 2 ^ 63. fetchAt L (memHist L) m' b i =
      (if i = hi + 1 then Inr (Some bm) else fetchAt L (memHist L) m b i)"
    using f(2,3) by simp
  moreover have "Latest L (memHist L) m' b' = Inr bm" using f(5,6) by (simp add: Latest_def)
  moreover have "Latest L (memHist L) m' r = Inr bm"
    if "bsSeed r = bsSeed b" "\<not> bsWrote r" "lo \<le> bsEntry r" "bsEntry r \<le> hi + 1" for r
    by (rule memMarks.append_read[OF assms(1-6,7,8) sf assms(10) that])
       (use assms(4) in simp)
  ultimately show ?thesis
    using f(1) memMarks.append_contiguous[OF assms(1-4) hi assms(6-8) sf assms(10)] by blast
qed

text \<open>
  The searches find the range of a list without holes from any of its
  entries; and whatever the store holds, a range they report ends at two present entries with
  absent neighbours, with nothing present in the four indexes past the first absent one on the
  first load.
\<close>

theorem bookmark_bounds:
  assumes "\<not> bsWrote b" "presentAt L H s b (bsEntry b) = Inr True"
  shows "(\<forall>lo hi. contiguous L H s b lo hi \<longrightarrow> lo \<le> bsEntry b \<longrightarrow> bsEntry b \<le> hi \<longrightarrow> hi < 2 ^ 62 \<longrightarrow>
      bounds L H s b = Inr (lo, hi, b\<lparr>bsLo := lo, bsHi := hi, bsLoaded := True\<rparr>)) \<and>
    (\<forall>lo hi b1. bounds L H s b = Inr (lo, hi, b1) \<longrightarrow>
      presentAt L H s b lo = Inr True \<and> presentAt L H s b hi = Inr True \<and>
      presentAt L H s b (lo - 1) = Inr False \<and> presentAt L H s b (hi + 1) = Inr False \<and>
      lo \<le> bsEntry b \<and> bsEntry b \<le> hi \<and>
      (\<not> bsLoaded b \<longrightarrow> (\<forall>i. hi + 2 \<le> i \<longrightarrow> i \<le> hi + 5 \<longrightarrow> presentAt L H s b i = Inr False)))"
proof (intro conjI allI impI)
  fix lo hi assume "contiguous L H s b lo hi" "lo \<le> bsEntry b" "bsEntry b \<le> hi" "hi < 2 ^ 62"
  then show "bounds L H s b = Inr (lo, hi, b\<lparr>bsLo := lo, bsHi := hi, bsLoaded := True\<rparr>)"
    by (rule bounds_contiguous[OF _ _ _ _ assms(1)])
qed (use bounds_sound[OF _ assms] in simp_all)

section \<open>A sample list\<close>

text \<open>A library that keeps the key id and the fields of the payload apart.\<close>

fun joinPart :: "bytes \<Rightarrow> bytes \<Rightarrow> bytes" where
  "joinPart [] p = CHR ''e'' # p"
| "joinPart (c # k) p = CHR ''k'' # c # joinPart k p"

fun splitPart :: "bytes \<Rightarrow> bytes \<times> bytes" where
  "splitPart (a # c # rest) =
     (if a = CHR ''k'' then (case splitPart rest of (k, p) \<Rightarrow> (c # k, p)) else ([], c # rest))"
| "splitPart _ = ([], [])"

lemma splitPart_join: "splitPart (joinPart k p) = (k, p)"
proof (induction k)
  case Nil
  then show ?case by (cases p) simp_all
qed simp

definition slotBytes :: "u64 \<Rightarrow> bytes" where "slotBytes i = replicate (unat i) (CHR ''i'')"

definition listLib :: lib where
  "listLib = signedLib
     \<lparr>libCoseSign := (\<lambda>k alg p kid. case kid of None \<Rightarrow> Inr p | Some i \<Rightarrow> Inr (CHR ''b'' # joinPart i p)),
      libCoseDecode := (\<lambda>raw. case raw of
          [] \<Rightarrow> Inr (sampleMsg [])
        | a # r \<Rightarrow> if a = CHR ''b''
            then Inr ((sampleMsg (snd (splitPart r)))\<lparr>coseProtected := 2, coseKid := fst (splitPart r)\<rparr>)
            else Inr (sampleMsg raw)),
      libEncBookmark := (\<lambda>e. joinPart (ebSeed e) (joinPart (ebHead e) (slotBytes (ebIndex e)))),
      libDecBookmark := (\<lambda>b. let (s, r) = splitPart b; (h, i) = splitPart r in
          Inr \<lparr>ebIndex = of_nat (length i), ebSeed = s, ebHead = h\<rparr>),
      libEncSlot := (\<lambda>i s. joinPart s (slotBytes i))\<rparr>"

definition emptyList :: bookmarks where
  "emptyList = \<lparr>bsSeed = ''s'', bsId = ''hkse'', bsEntry = 0, bsLo = 0, bsHi = -1, bsTop = None,
     bsAnchored = False, bsWrote = False, bsLoaded = False\<rparr>"

lemma listLib_ok: "bookmarkLib listLib" "slotsDistinct listLib s"
    "signatureAlgorithm k = Inr EdDSA \<Longrightarrow> coseSignsKid listLib k"
proof -
  show "bookmarkLib listLib"
    by (simp add: bookmarkLib_def listLib_def signedLib_def tableLib_def splitPart_join slotBytes_def)
  show "slotsDistinct listLib s"
    unfolding slotsDistinct_def
  proof (intro allI impI)
    fix i j a assume "IdSeq listLib i s = Inr a" "IdSeq listLib j s = Inr a"
    then have "joinPart s (slotBytes i) = joinPart s (slotBytes j)"
      by (auto simp: IdSeq_def hashContent_def listLib_def signedLib_def tableLib_def idFromBytes_def)
    then have "splitPart (joinPart s (slotBytes i)) = splitPart (joinPart s (slotBytes j))" by simp
    then have "length (slotBytes i) = length (slotBytes j)" by (simp add: splitPart_join)
    then show "i = j" by (simp add: slotBytes_def word_unat_eq_iff)
  qed
  show "coseSignsKid listLib k" if "signatureAlgorithm k = Inr EdDSA"
    using that by (simp add: coseSignsKid_def listLib_def signedLib_def tableLib_def splitPart_join sampleMsg_def)
qed

lemma list_key:
  "(case GetClaim (memUni listLib signedMem) False ''hK'' of Inl e \<Rightarrow> False
    | Inr c \<Rightarrow> claimType c = NodeTypeContributor \<and>
        resolveClaimPubkey listLib c False (memUni listLib signedMem) =
          Inr (prependCode ed25519Pub (replicate 32 (CHR ''k''))))"
  by code_simp

lemma list_signs: "signsFor listLib (memUni listLib signedMem) sampleContributor"
proof -
  have "ID (ctClaim sampleContributor) = ''hK''" "ctKey sampleContributor = Some sampleRootKey" by code_simp+
  moreover have "\<exists>d. libMultihash listLib ''hK'' = Inr d" by (simp add: listLib_def signedLib_def tableLib_def)
  ultimately show ?thesis
    using list_key listLib_ok(3)[of sampleRootKey]
    by (auto simp: signsFor_def sampleRootKey_def split: sum.splits)
qed

lemma list_empty: "contiguous listLib (memHist listLib) signedMem emptyList 0 (-1)"
  by (auto simp: contiguous_def presentAt_def fetchAt_def emptyList_def IdSeq_def hashContent_def listLib_def
      signedLib_def tableLib_def idFromBytes_def memHist_def marksGet_def signedMem_def)

lemma list_append:
  "(case Append listLib (memHist listLib) signedMem emptyList (Some sampleContributor) ''hA'' of
      (m', b', r) \<Rightarrow> resultOf bmHead r = Some ''hA'' \<and> bsHi b' = 0)"
  by code_simp

theorem bookmark_append_witness:
  "\<exists>m' b' bm. Append listLib (memHist listLib) signedMem emptyList (Some sampleContributor) ''hA'' = (m', b', Inr bm) \<and>
     bmHead bm = ''hA'' \<and> Latest listLib (memHist listLib) m' (emptyList\<lparr>bsAnchored := True\<rparr>) = Inr bm"
proof -
  obtain m' b' bm where a: "Append listLib (memHist listLib) signedMem emptyList (Some sampleContributor) ''hA'' = (m', b', Inr bm)"
      "bmHead bm = ''hA''"
    using list_append by (auto simp: resultOf_Some split: prod.splits)
  have "libMultihash listLib ''hA'' = Inr (sha2_256, ''A'')" by (simp add: listLib_def signedLib_def tableLib_def)
  moreover have "settles emptyList 0 (-1)" by (simp add: settles_def emptyList_def)
  ultimately have "Latest listLib (memHist listLib) m' r = Inr bm"
    if "bsSeed r = bsSeed emptyList" "\<not> bsWrote r" "bsEntry r = 0" for r
    using bookmark_append[OF a(1) list_empty _ _ _ _ listLib_ok(1,2) list_signs] that by simp
  then show ?thesis using a by (simp add: emptyList_def)
qed

lemma list_one: "\<exists>m'. contiguous listLib (memHist listLib) m' emptyList 0 0"
proof -
  obtain m' b' bm where a: "Append listLib (memHist listLib) signedMem emptyList (Some sampleContributor) ''hA'' = (m', b', Inr bm)"
    using list_append by (auto simp: resultOf_Some split: prod.splits)
  have l: "libMultihash listLib ''hA'' = Inr (sha2_256, ''A'')" by (simp add: listLib_def signedLib_def tableLib_def)
  have s: "settles emptyList 0 (-1)" by (simp add: settles_def emptyList_def)
  have sf: "signsFor listLib (hUni (memHist listLib) signedMem) sampleContributor"
    using list_signs by (simp add: memHist_def)
  have "contiguous listLib (memHist listLib) m' b' 0 0 \<and> bsSeed b' = bsSeed emptyList"
    using memMarks.append_contiguous[OF a list_empty s _ _ _ listLib_ok(1,2) sf l]
      memMarks.append_fetch(4)[OF a list_empty s _ _ listLib_ok(1,2) sf l] by simp
  then show ?thesis using contiguous_cong[of b' emptyList listLib "memHist listLib" m' 0 0] by blast
qed

theorem bookmark_bounds_witness:
  "\<exists>m' b1. bounds listLib (memHist listLib) m' (emptyList\<lparr>bsAnchored := True\<rparr>) = Inr (0, 0, b1)"
proof -
  let ?r = "emptyList\<lparr>bsAnchored := True\<rparr>"
  obtain m' where c: "contiguous listLib (memHist listLib) m' emptyList 0 0" using list_one by blast
  then have r: "contiguous listLib (memHist listLib) m' ?r 0 0" using contiguous_cong[of emptyList ?r listLib "memHist listLib" m' 0 0] by simp
  have e: "\<not> bsWrote ?r" "bsEntry ?r = 0" by (simp_all add: emptyList_def)
  then have p: "presentAt listLib (memHist listLib) m' ?r (bsEntry ?r) = Inr True"
    using r by (simp add: contiguous_def)
  have "bounds listLib (memHist listLib) m' ?r = Inr (0, 0, ?r\<lparr>bsLo := 0, bsHi := 0, bsLoaded := True\<rparr>)"
    by (rule bookmark_bounds[OF e(1) p, THEN conjunct1, rule_format, OF r]) (simp_all only: e(2), simp_all)
  then show ?thesis by blast
qed

end
