(* ===== verification/Query.thy ===== *)
theory Query
  imports Bookmarks "HOL-Library.Multiset"
begin

text \<open>
  The read language: the query (\<open>query.go\<close>), the checks every query passes
  (\<open>query_validate.go\<close>), and the evaluation of a filter and of the order keys
  (\<open>query_default.go\<close>). The enumerations are strings, as in the code.

  An operand of type \<open>any\<close> is one of \<open>qvalue\<close>; every Go integer type is the integer it
  holds, and a \<open>float64\<close> is the dyadic fraction it stands for (\<open>VFloat m k\<close> is
  \<open>m / 2^k\<close>; no infinity and no NaN); \<open>VMap\<close> lists a map in the order of its keys. The text
  \<open>fmt.Sprint\<close> gives a \<open>float64\<close> is an argument.
\<close>

section \<open>The query\<close>

datatype qvalue = VNil | VStr string | VInt int | VFloat int nat | VTime int | VBool bool
  | VList "qvalue list" | VMap "(string \<times> qvalue) list"

record comparison =
  cmEq :: "qvalue option"
  cmNe :: "qvalue option"
  cmLt :: "qvalue option"
  cmLe :: "qvalue option"
  cmGt :: "qvalue option"
  cmGe :: "qvalue option"
  cmIn :: "qvalue list option"
  cmGlob :: string

datatype where_tree =
  WhereTree (wAnd: "where_tree list") (wOr: "where_tree list") (wNot: "where_tree option")
    (wField: string) (wTest: "comparison option")

record pathStep =
  psEdges :: "string list"
  psDir :: string
  psMin :: "int option"
  psMax :: int
  psNodes :: "string list"

definition MinHops :: "pathStep \<Rightarrow> int" where
  "MinHops s = (case psMin s of None \<Rightarrow> 1 | Some n \<Rightarrow> n)"

record selection =
  slBranch :: string
  slHead :: ident
  slClaim :: "ident list"
  slPath :: "pathStep list option"

record outputSpec =
  ouShape :: string
  ouDetail :: string
  ouForm :: string
  ouContent :: "outputContent option"
  ouEncoding :: string

record orderKey =
  okField :: string
  okCompare :: string
  okDir :: string

record query =
  qSelect :: selection
  qWhere :: "where_tree option"
  qOutput :: outputSpec
  qOrder :: "orderKey list"
  qLimitResults :: int
  qLimitTime :: int
  qLayer :: string
  qReport :: string

definition DirProvenance :: string where "DirProvenance = ''provenance''"
definition DirUses :: string where "DirUses = ''uses''"
definition DirConnections :: string where "DirConnections = ''connections''"

section \<open>Validation (\<open>query_validate.go\<close>)\<close>

definition oneOf :: "string \<Rightarrow> string list \<Rightarrow> unit result" where
  "oneOf got allowed = (if got \<in> set allowed then Inr () else Inl (QueryErr ErrQueryEnum))"

definition validateStep :: "pathStep \<Rightarrow> unit result" where
  "validateStep s =
     rbind (oneOf (psDir s) [[], DirProvenance, DirUses, DirConnections]) (\<lambda>_.
       let hopBound = AlsoErr (QueryErr ErrQueryHops) (QueryErr ErrQueryBounds) in
         if (case psMin s of None \<Rightarrow> False | Some n \<Rightarrow> n < 0) then Inl hopBound
         else if psMax s < 0 then Inl hopBound
         else if 0 < psMax s \<and> psMax s < MinHops s then Inl (QueryErr ErrQueryHops)
         else Inr ())"

text \<open>Which of the two time forms a comparison on a field is held to, if any.\<close>

definition timeOperandCheck :: "string \<Rightarrow> (string \<Rightarrow> bool) option" where
  "timeOperandCheck field =
     (if field = ''created_at'' \<or> field = FieldDeleteBy \<or> field = FieldPubkeyValidFrom \<or>
         field = FieldPubkeyExpiresAfter
      then Some (\<lambda>s. parseRFC3339Nano s \<noteq> None)
      else if field = ''dated'' then Some (\<lambda>s. validateDated s = Inr ())
      else None)"

definition operandOk :: "(string \<Rightarrow> bool) \<Rightarrow> qvalue option \<Rightarrow> unit result" where
  "operandOk check v =
     (case v of None \<Rightarrow> Inr () | Some VNil \<Rightarrow> Inr ()
      | Some (VStr s) \<Rightarrow> if check s then Inr () else Inl (QueryErr ErrQueryTimeOperand)
      | Some _ \<Rightarrow> Inl (QueryErr ErrQueryTimeOperand))"

definition operators :: "comparison \<Rightarrow> bool list" where
  "operators c =
     [cmEq c \<noteq> None, cmNe c \<noteq> None, cmLt c \<noteq> None, cmLe c \<noteq> None, cmGt c \<noteq> None, cmGe c \<noteq> None,
      cmIn c \<noteq> None, cmGlob c \<noteq> []]"

definition validateComparison :: "string \<Rightarrow> comparison \<Rightarrow> unit result" where
  "validateComparison field c =
     (if length (filter id (operators c)) \<noteq> 1 then Inl (QueryErr ErrQueryComparisonForm)
      else case timeOperandCheck field of
          None \<Rightarrow> Inr ()
        | Some check \<Rightarrow>
            rbind (checkAll (operandOk check)
                ([cmEq c, cmNe c, cmLt c, cmLe c, cmGt c, cmGe c] @
                 map Some (case cmIn c of None \<Rightarrow> [] | Some vs \<Rightarrow> vs))) (\<lambda>_.
              if cmGlob c \<noteq> [] then Inl (QueryErr ErrQueryTimeOperand) else Inr ()))"

definition leafForm :: "where_tree \<Rightarrow> bool" where
  "leafForm w = (wField w \<noteq> [] \<or> wTest w \<noteq> None)"

definition whereForms :: "where_tree \<Rightarrow> nat" where
  "whereForms w = length (filter id [wAnd w \<noteq> [], wOr w \<noteq> [], wNot w \<noteq> None, leafForm w])"

fun validateWhere :: "where_tree \<Rightarrow> unit result" where
  "validateWhere (WhereTree ands ors neg field test) =
     (let w = WhereTree ands ors neg field test in
        if whereForms w \<noteq> 1 then Inl (QueryErr ErrQueryWhereForm)
        else if leafForm w then
          (if field = [] then Inl (QueryErr ErrQueryWhereForm)
           else case test of None \<Rightarrow> Inl (QueryErr ErrQueryWhereForm)
             | Some c \<Rightarrow> validateComparison field c)
        else
          rbind (checkAll validateWhere ands) (\<lambda>_. rbind (checkAll validateWhere ors) (\<lambda>_.
            case neg of None \<Rightarrow> Inr () | Some n \<Rightarrow> validateWhere n)))"

definition validateEnvelopeOutput :: "outputSpec \<Rightarrow> unit result" where
  "validateEnvelopeOutput out =
     (if ouDetail out \<noteq> ''envelope'' then Inr ()
      else if ouForm out = ''materialized'' then Inl (QueryErr ErrQueryEnvelopeAxis)
      else if ouEncoding out = ''json'' then Inl (QueryErr ErrQueryEnvelopeAxis)
      else Inr ())"

definition validateOutput :: "outputSpec \<Rightarrow> unit result" where
  "validateOutput out =
     rbind (oneOf (ouShape out) [[], ''single'', ''path'']) (\<lambda>_.
     rbind (oneOf (ouDetail out) [[], ''id'', ''claims'', ''envelope'']) (\<lambda>_.
     rbind (oneOf (ouForm out) [[], ''original'', ''materialized'']) (\<lambda>_.
     rbind (oneOf (ouEncoding out) [[], ''native'', ''json'', ''cbor'']) (\<lambda>_.
     rbind (validateEnvelopeOutput out) (\<lambda>_.
       case ouContent out of None \<Rightarrow> Inr ()
       | Some oc \<Rightarrow>
           if ocMax oc < 0 then Inl (QueryErr ErrQueryBounds)
           else oneOf (ocOverflow oc) [[], ''cutoff'', ''omit''])))))"

definition validateOrderKey :: "orderKey \<Rightarrow> unit result" where
  "validateOrderKey k =
     (if okField k = [] then Inl (QueryErr ErrQueryOrderField)
      else rbind (oneOf (okCompare k) [[], ''numeric'', ''lexical'', ''temporal'']) (\<lambda>_.
        oneOf (okDir k) [[], ''asc'', ''desc'']))"

text \<open>\<open>strings.TrimSpace(s) == ""\<close>: every rune is white space.\<close>

definition isSpaceRune :: "nat \<Rightarrow> bool" where
  "isSpaceRune r =
     (r \<in> {9, 10, 11, 12, 13, 32, 133, 160, 5760, 8232, 8233, 8239, 8287, 12288} \<or> (8192 \<le> r \<and> r \<le> 8202))"

function blank :: "string \<Rightarrow> bool" where
  "blank s = (if s = [] then True
     else (let (r, w) = decodeRune s in isSpaceRune r \<and> blank (drop w s)))"
  by pat_completeness auto
termination
proof (relation "measure length")
  fix s :: string and x r w assume "s \<noteq> []" "x = decodeRune s" "(r, w) = x"
  then have "0 < w" "0 < length s" using decodeRune_pos[of s] by (simp_all add: prod_eq_iff)
  then show "(drop w s, s) \<in> measure length" by simp
qed simp

declare blank.simps [simp del]

definition ValidateQuery :: "query \<Rightarrow> unit result" where
  "ValidateQuery q =
     (let sel = qSelect q in
        if slBranch sel = [] then Inl (QueryErr ErrQueryNoScope)
        else if slBranch sel = BranchUniverse \<and> slHead sel = [] then Inl (QueryErr ErrQueryNoHead)
        else
          rbind (checkAll validateStep (case slPath sel of None \<Rightarrow> [] | Some p \<Rightarrow> p)) (\<lambda>_.
          rbind (case qWhere q of None \<Rightarrow> Inr () | Some w \<Rightarrow> validateWhere w) (\<lambda>_.
          rbind (validateOutput (qOutput q)) (\<lambda>_.
            if qLimitResults q < 0 then Inl (QueryErr ErrQueryBounds)
            else if qLimitTime q < 0 then Inl (QueryErr ErrQueryBounds)
            else
              rbind (checkAll validateOrderKey (qOrder q)) (\<lambda>_.
                if qLayer q \<noteq> [] \<and> blank (qLayer q) then Inl (QueryErr ErrQueryLayerName)
                else oneOf (qReport q) [[], ''error'', ''warn'', ''info'', ''debug'', ''trace''])))))"

section \<open>Values\<close>

text \<open>The text of a value (\<open>toStringValue\<close>, \<open>fmt.Sprint\<close>).\<close>

fun trimZeros :: "string \<Rightarrow> string" where
  "trimZeros s = rev (dropWhile (\<lambda>c. c = CHR ''0'') (rev s))"

definition timeText :: "int \<Rightarrow> string" where
  "timeText t =
     (let (y, m, d) = dateOf t; frac = trimZeros (appendInt (t mod 1000000000) 9)
      in appendInt y 4 @ ''-'' @ appendInt m 2 @ ''-'' @ appendInt d 2 @ '' '' @
         appendInt (hoursOf t mod 24) 2 @ '':'' @ appendInt (minsOf t mod 60) 2 @ '':'' @
         appendInt (secsOf t mod 60) 2 @ (if frac = [] then [] else ''.'' @ frac) @ '' +0000 UTC'')"

fun spaced :: "string list \<Rightarrow> string" where
  "spaced [] = []"
| "spaced [s] = s"
| "spaced (s # t # ss) = s @ '' '' @ spaced (t # ss)"

fun toStringValue :: "(int \<Rightarrow> nat \<Rightarrow> string) \<Rightarrow> qvalue \<Rightarrow> string" where
  "toStringValue F VNil = ''<nil>''"
| "toStringValue F (VStr s) = s"
| "toStringValue F (VInt n) = appendInt n 0"
| "toStringValue F (VFloat m k) = F m k"
| "toStringValue F (VTime t) = timeText t"
| "toStringValue F (VBool b) = (if b then ''true'' else ''false'')"
| "toStringValue F (VList vs) = ''['' @ spaced (map (toStringValue F) vs) @ '']''"
| "toStringValue F (VMap kvs) = ''map['' @ spaced (map (\<lambda>p. fst p @ '':'' @ toStringValue F (snd p)) kvs) @ '']''"

text \<open>\<open>float64(n)\<close>: an integer rounded to 53 bits, half to even.\<close>

fun bitLen :: "nat \<Rightarrow> nat" where
  "bitLen n = (if n = 0 then 0 else Suc (bitLen (n div 2)))"

declare bitLen.simps [simp del]

definition toFloat64 :: "int \<Rightarrow> int" where
  "toFloat64 n =
     (let m = nat \<bar>n\<bar>; k = bitLen m - 53 in
        if k = 0 then n
        else
          let q = m div 2 ^ k; r = m mod 2 ^ k; half = 2 ^ (k - 1);
              q' = (if half < r \<or> (r = half \<and> odd q) then q + 1 else q)
          in sgn n * int (q' * 2 ^ k))"

fun asFloat :: "qvalue \<Rightarrow> (int \<times> nat) option" where
  "asFloat (VInt n) = Some (toFloat64 n, 0)"
| "asFloat (VFloat m k) = Some (m, k)"
| "asFloat _ = None"

fun asTime :: "qvalue \<Rightarrow> int option" where
  "asTime (VTime t) = Some t"
| "asTime (VStr s) = parseRFC3339Any s"
| "asTime _ = None"

definition signOf :: "'a :: linorder \<Rightarrow> 'a \<Rightarrow> int" where
  "signOf a b = (if a < b then -1 else if b < a then 1 else 0)"

definition floatCompare :: "int \<times> nat \<Rightarrow> int \<times> nat \<Rightarrow> int" where
  "floatCompare x y = signOf (fst x * 2 ^ snd y) (fst y * 2 ^ snd x)"

definition valuesEqual :: "(int \<Rightarrow> nat \<Rightarrow> string) \<Rightarrow> qvalue \<Rightarrow> qvalue \<Rightarrow> bool" where
  "valuesEqual F a b =
     (case (asFloat a, asFloat b) of
        (Some x, Some y) \<Rightarrow> floatCompare x y = 0
      | _ \<Rightarrow>
          (case (asTime a, asTime b) of
             (Some s, Some t) \<Rightarrow> s = t
           | _ \<Rightarrow> toStringValue F a = toStringValue F b))"

definition compareOrdered :: "qvalue \<Rightarrow> qvalue \<Rightarrow> int option" where
  "compareOrdered a b =
     (case (asFloat a, asFloat b) of
        (Some x, Some y) \<Rightarrow> Some (floatCompare x y)
      | _ \<Rightarrow>
          (case (asTime a, asTime b) of
             (Some s, Some t) \<Rightarrow> Some (signOf s t)
           | _ \<Rightarrow> (case (a, b) of (VStr s, VStr t) \<Rightarrow> Some (signOf s t) | _ \<Rightarrow> None)))"

section \<open>Filters\<close>

definition queryFieldValue :: "lib \<Rightarrow> claim \<Rightarrow> string \<Rightarrow> qvalue option" where
  "queryFieldValue L c field =
     (let n = claimNode c in
        if field = ''id'' then Some (VStr (libIdString L (ID c)))
        else if field = ''type'' then Some (VStr (claimType c))
        else if field = ''encoding'' then
          (if nodeContentKind n \<noteq> ContentNone then Some (VStr (nodeEncoding n)) else None)
        else if field = ''created_at'' then Some (VTime (claimCreatedAt c))
        else if field = ''dated'' then (if dated (own n) \<noteq> [] then Some (VStr (dated (own n))) else None)
        else if field = ''content_size'' then
          (if nodeContentKind n \<noteq> ContentNone then Some (VInt (uint (contentSize (contentSource n)))) else None)
        else if field = ''height'' then Some (VInt (uint (claimHeight c)))
        else case nodeGetField n field of Inl e \<Rightarrow> None | Inr v \<Rightarrow> Some (VStr v))"

definition orderedBy :: "(int \<Rightarrow> bool) \<Rightarrow> qvalue \<Rightarrow> qvalue \<Rightarrow> bool" where
  "orderedBy P a b = (case compareOrdered a b of None \<Rightarrow> False | Some c \<Rightarrow> P c)"

definition evalComparison :: "(int \<Rightarrow> nat \<Rightarrow> string) \<Rightarrow> comparison \<Rightarrow> qvalue \<Rightarrow> bool" where
  "evalComparison F cm v =
     (case cmEq cm of Some w \<Rightarrow> valuesEqual F v w | None \<Rightarrow>
      (case cmNe cm of Some w \<Rightarrow> \<not> valuesEqual F v w | None \<Rightarrow>
       (case cmLt cm of Some w \<Rightarrow> orderedBy (\<lambda>c. c < 0) v w | None \<Rightarrow>
        (case cmLe cm of Some w \<Rightarrow> orderedBy (\<lambda>c. c \<le> 0) v w | None \<Rightarrow>
         (case cmGt cm of Some w \<Rightarrow> orderedBy (\<lambda>c. 0 < c) v w | None \<Rightarrow>
          (case cmGe cm of Some w \<Rightarrow> orderedBy (\<lambda>c. 0 \<le> c) v w | None \<Rightarrow>
           (case cmIn cm of Some ws \<Rightarrow> list_ex (valuesEqual F v) ws | None \<Rightarrow>
             cmGlob cm \<noteq> [] \<and> pathMatch (cmGlob cm) (toStringValue F v))))))))"

fun evalWhere :: "lib \<Rightarrow> (int \<Rightarrow> nat \<Rightarrow> string) \<Rightarrow> where_tree \<Rightarrow> claim \<Rightarrow> bool" where
  "evalWhere L F (WhereTree ands ors neg field test) c =
     (if ands \<noteq> [] then list_all (\<lambda>w. evalWhere L F w c) ands
      else if ors \<noteq> [] then list_ex (\<lambda>w. evalWhere L F w c) ors
      else case neg of Some n \<Rightarrow> \<not> evalWhere L F n c
        | None \<Rightarrow>
            (case test of
               None \<Rightarrow> True
             | Some cm \<Rightarrow>
                 (case queryFieldValue L c field of None \<Rightarrow> False | Some v \<Rightarrow> evalComparison F cm v)))"

section \<open>Ordering\<close>

text \<open>A timestamp is its own midpoint; the code divides the 64-bit nanoseconds.\<close>

fun temporalMidpointMs :: "qvalue \<Rightarrow> int option" where
  "temporalMidpointMs (VTime t) = Some (floorDivInt64 (UnixNano t) 1000000)"
| "temporalMidpointMs (VStr s) = edtfMidpointMs s"
| "temporalMidpointMs _ = None"

definition compareValues :: "(int \<Rightarrow> nat \<Rightarrow> string) \<Rightarrow> qvalue \<Rightarrow> qvalue \<Rightarrow> string \<Rightarrow> int" where
  "compareValues F a b col =
     (let text = signOf (toStringValue F a) (toStringValue F b) in
        if col = ''numeric'' then
          (case (asFloat a, asFloat b) of (Some x, Some y) \<Rightarrow> floatCompare x y | _ \<Rightarrow> text)
        else if col = ''lexical'' then text
        else if col = ''temporal'' then
          (case (temporalMidpointMs a, temporalMidpointMs b) of
             (Some s, Some t) \<Rightarrow> signOf s t
           | (Some s, None) \<Rightarrow> -1
           | (None, Some t) \<Rightarrow> 1
           | (None, None) \<Rightarrow> 0)
        else (case compareOrdered a b of Some c \<Rightarrow> c | None \<Rightarrow> text))"

text \<open>The \<open>less\<close> of \<open>sortResults\<close>.\<close>

fun resultLess :: "lib \<Rightarrow> (int \<Rightarrow> nat \<Rightarrow> string) \<Rightarrow> orderKey list \<Rightarrow> claim \<Rightarrow> claim \<Rightarrow> bool" where
  "resultLess L F [] ci cj =
     (if claimCreatedAt ci \<noteq> claimCreatedAt cj then claimCreatedAt ci < claimCreatedAt cj
      else libIdString L (ID ci) < libIdString L (ID cj))"
| "resultLess L F (k # ks) ci cj =
     (case (queryFieldValue L ci (okField k), queryFieldValue L cj (okField k)) of
        (Some vi, None) \<Rightarrow> True
      | (None, Some vj) \<Rightarrow> False
      | (None, None) \<Rightarrow> resultLess L F ks ci cj
      | (Some vi, Some vj) \<Rightarrow>
          let c = compareValues F vi vj (okCompare k) in
            if c = 0 then resultLess L F ks ci cj
            else if okDir k = ''desc'' then 0 < c else c < 0)"

text \<open>
  \<open>sort.SliceStable\<close>, as the insertion sort it is on a block: each element moves left past
  those it is less than. For a strict weak order every stable sort gives this list.
\<close>

fun insertBack :: "('a \<Rightarrow> 'a \<Rightarrow> bool) \<Rightarrow> 'a \<Rightarrow> 'a list \<Rightarrow> 'a list" where
  "insertBack lt x [] = [x]"
| "insertBack lt x (y # ys) = (if lt x y then y # insertBack lt x ys else x # y # ys)"

definition sortStable :: "('a \<Rightarrow> 'a \<Rightarrow> bool) \<Rightarrow> 'a list \<Rightarrow> 'a list" where
  "sortStable lt xs = rev (fold (insertBack lt) xs [])"

definition sortResults :: "lib \<Rightarrow> (int \<Rightarrow> nat \<Rightarrow> string) \<Rightarrow> orderKey list \<Rightarrow> claim list \<Rightarrow> claim list" where
  "sortResults L F ks cs = sortStable (resultLess L F ks) cs"

section \<open>Comparisons that order\<close>

text \<open>A three-way comparison that is antisymmetric and transitive on a set of values.\<close>

definition cmpOn :: "'a set \<Rightarrow> ('a \<Rightarrow> 'a \<Rightarrow> int) \<Rightarrow> bool" where
  "cmpOn S f =
     ((\<forall>x \<in> S. \<forall>y \<in> S. f y x = - f x y) \<and>
      (\<forall>x \<in> S. \<forall>y \<in> S. \<forall>z \<in> S. f x y \<le> 0 \<longrightarrow> f y z \<le> 0 \<longrightarrow> f x z \<le> 0))"

lemma cmpOn_anti: "cmpOn S f \<Longrightarrow> x \<in> S \<Longrightarrow> y \<in> S \<Longrightarrow> f y x = - f x y"
  unfolding cmpOn_def by blast

lemma cmpOn_trans:
  "cmpOn S f \<Longrightarrow> x \<in> S \<Longrightarrow> y \<in> S \<Longrightarrow> z \<in> S \<Longrightarrow> f x y \<le> 0 \<Longrightarrow> f y z \<le> 0 \<Longrightarrow> f x z \<le> 0"
  unfolding cmpOn_def by blast

lemma cmpOnI:
  assumes "\<And>x y. x \<in> S \<Longrightarrow> y \<in> S \<Longrightarrow> f y x = - f x y"
    and "\<And>x y z. x \<in> S \<Longrightarrow> y \<in> S \<Longrightarrow> z \<in> S \<Longrightarrow> f x y \<le> 0 \<Longrightarrow> f y z \<le> 0 \<Longrightarrow> f x z \<le> 0"
  shows "cmpOn S f"
  using assms unfolding cmpOn_def by blast

lemma cmpOn_signOf: "cmpOn S (\<lambda>x y. signOf (r x) (r y))"
  by (rule cmpOnI) (auto simp: signOf_def split: if_splits)

lemma cmpOn_cong:
  assumes "\<And>x y. x \<in> S \<Longrightarrow> y \<in> S \<Longrightarrow> f x y = g x y" "cmpOn S g"
  shows "cmpOn S f"
proof (rule cmpOnI)
  show "f y x = - f x y" if "x \<in> S" "y \<in> S" for x y
    using that assms(1) cmpOn_anti[OF assms(2), of x y] by simp
  show "f x z \<le> 0" if "x \<in> S" "y \<in> S" "z \<in> S" "f x y \<le> 0" "f y z \<le> 0" for x y z
    using that assms(1) cmpOn_trans[OF assms(2), of x y z] by simp
qed

lemma cmpOn_neg:
  assumes "cmpOn S f"
  shows "cmpOn S (\<lambda>x y. - f x y)"
proof (rule cmpOnI)
  show "- f y x = - (- f x y)" if "x \<in> S" "y \<in> S" for x y
    using that cmpOn_anti[OF assms, of x y] by simp
next
  fix x y z assume xyz: "x \<in> S" "y \<in> S" "z \<in> S" "- f x y \<le> 0" "- f y z \<le> 0"
  then have "f z y \<le> 0" "f y x \<le> 0"
    using cmpOn_anti[OF assms, of y z] cmpOn_anti[OF assms, of x y] by simp_all
  then have "f z x \<le> 0" using cmpOn_trans[OF assms, of z y x] xyz by simp
  then show "- f x z \<le> 0" using cmpOn_anti[OF assms, of x z] xyz by simp
qed

lemma cmpOn_lex:
  assumes "cmpOn S f" "cmpOn S g"
  shows "cmpOn S (\<lambda>x y. if f x y \<noteq> 0 then f x y else g x y)"
proof (rule cmpOnI)
  show "(if f y x \<noteq> 0 then f y x else g y x) = - (if f x y \<noteq> 0 then f x y else g x y)"
    if "x \<in> S" "y \<in> S" for x y
    using that cmpOn_anti[OF assms(1), of x y] cmpOn_anti[OF assms(2), of x y] by simp
next
  fix x y z
  assume S: "x \<in> S" "y \<in> S" "z \<in> S"
    and le: "(if f x y \<noteq> 0 then f x y else g x y) \<le> 0" "(if f y z \<noteq> 0 then f y z else g y z) \<le> 0"
  note t = cmpOn_trans[OF assms(1)]
  have f: "f y x = - f x y" "f z y = - f y z" "f z x = - f x z"
    using S cmpOn_anti[OF assms(1), of x y] cmpOn_anti[OF assms(1), of y z] cmpOn_anti[OF assms(1), of x z] by simp_all
  have xy: "f x y \<le> 0" and yz: "f y z \<le> 0" using le by (auto split: if_splits)
  then have xz: "f x z \<le> 0" using t[of x y z] S by blast
  show "(if f x z \<noteq> 0 then f x z else g x z) \<le> 0"
  proof (cases "f x z = 0")
    case True
    then have "f y x \<le> 0" "f z y \<le> 0" using t[of y z x] t[of z x y] S f(3) xy yz by simp_all
    then have "f x y = 0" "f y z = 0" using f(1,2) xy yz by simp_all
    then have "g x y \<le> 0" "g y z \<le> 0" using le by simp_all
    then show ?thesis using cmpOn_trans[OF assms(2), of x y z] S True by simp
  qed (use xz in auto)
qed

text \<open>A key some values lack: those that have it come first.\<close>

definition presentFirst :: "('a \<Rightarrow> 'b option) \<Rightarrow> ('b \<Rightarrow> 'b \<Rightarrow> int) \<Rightarrow> 'a \<Rightarrow> 'a \<Rightarrow> int" where
  "presentFirst v f x y =
     (case (v x, v y) of (Some a, Some b) \<Rightarrow> f a b | (Some a, None) \<Rightarrow> -1 | (None, Some b) \<Rightarrow> 1 | (None, None) \<Rightarrow> 0)"

lemma cmpOn_presentFirst:
  assumes "cmpOn T f" "\<And>x b. x \<in> S \<Longrightarrow> v x = Some b \<Longrightarrow> b \<in> T"
  shows "cmpOn S (presentFirst v f)"
proof (rule cmpOnI)
  fix x y assume "x \<in> S" "y \<in> S"
  then show "presentFirst v f y x = - presentFirst v f x y"
    using cmpOn_anti[OF assms(1), of "the (v x)" "the (v y)"] assms(2)
    by (cases "v x"; cases "v y") (simp_all add: presentFirst_def)
next
  fix x y z assume "x \<in> S" "y \<in> S" "z \<in> S" "presentFirst v f x y \<le> 0" "presentFirst v f y z \<le> 0"
  then show "presentFirst v f x z \<le> 0"
    using cmpOn_trans[OF assms(1), of "the (v x)" "the (v y)" "the (v z)"] assms(2)
    by (cases "v x"; cases "v y"; cases "v z") (simp_all add: presentFirst_def)
qed

section \<open>A stable sort\<close>

lemma insertBack_set [simp]: "set (insertBack lt x ys) = insert x (set ys)"
  by (induction ys) auto

lemma insertBack_mset [simp]: "mset (insertBack lt x ys) = add_mset x (mset ys)"
  by (induction ys) auto

lemma insertBack_sorted:
  assumes "cmpOn S f" "x \<in> S"
  shows "set ys \<subseteq> S \<Longrightarrow> sorted_wrt (\<lambda>a b. f b a \<le> 0) ys \<Longrightarrow>
    sorted_wrt (\<lambda>a b. f b a \<le> 0) (insertBack (\<lambda>a b. f a b < 0) x ys)"
proof (induction ys)
  case (Cons y ys)
  have y: "y \<in> S" using Cons.prems(1) by simp
  show ?case
  proof (cases "f x y < 0")
    case True
    then show ?thesis using Cons by simp
  next
    case False
    then have yx: "f y x \<le> 0" using cmpOn_anti[OF assms y] by simp
    have "f z x \<le> 0" if "z \<in> set ys" for z
    proof (rule cmpOn_trans[OF assms(1) _ y assms(2) _ yx])
      show "z \<in> S" "f z y \<le> 0" using that Cons.prems by auto
    qed
    then show ?thesis using False yx Cons.prems(2) by simp
  qed
qed simp

lemma sortStable_mset: "mset (sortStable lt xs) = mset xs"
proof -
  have "mset (fold (insertBack lt) xs acc) = mset xs + mset acc" for acc
    by (induction xs arbitrary: acc) auto
  then show ?thesis by (simp add: sortStable_def)
qed

lemma sortStable_sorted:
  assumes "cmpOn S f" "set xs \<subseteq> S"
  shows "sorted_wrt (\<lambda>a b. f a b \<le> 0) (sortStable (\<lambda>a b. f a b < 0) xs)"
proof -
  have "sorted_wrt (\<lambda>a b. f b a \<le> 0) acc \<Longrightarrow> set acc \<subseteq> S \<Longrightarrow>
      sorted_wrt (\<lambda>a b. f b a \<le> 0) (fold (insertBack (\<lambda>a b. f a b < 0)) xs acc)" for acc
    using assms(2)
  proof (induction xs arbitrary: acc)
    case (Cons x xs)
    have x: "x \<in> S" using Cons.prems(3) by simp
    show ?case
      using Cons.IH[OF insertBack_sorted[OF assms(1) x Cons.prems(2,1)]] Cons.prems x by simp
  qed simp
  then show ?thesis by (simp add: sortStable_def sorted_wrt_rev)
qed

text \<open>Where no two elements tie, the sorted list is the only one.\<close>

lemma sorted_unique:
  assumes "sorted_wrt (\<lambda>a b. f a b \<le> (0 :: int)) xs" "sorted_wrt (\<lambda>a b. f a b \<le> 0) ys" "mset xs = mset ys"
    and "\<And>x y. x \<in> set xs \<Longrightarrow> y \<in> set xs \<Longrightarrow> f x y \<le> 0 \<Longrightarrow> f y x \<le> 0 \<Longrightarrow> x = y"
  shows "xs = ys"
  using assms
proof (induction xs arbitrary: ys)
  case (Cons x xs)
  then obtain y ys' where ys: "ys = y # ys'" by (cases ys) auto
  have "x \<in> set ys" "y \<in> set (x # xs)" using Cons.prems(3) ys by (metis list.set_intros(1) set_mset_mset)+
  then have "x = y"
    using Cons.prems(1,2,4) ys by auto
  then show ?case using Cons ys by auto
qed auto

section \<open>The order of a read\<close>

text \<open>The values a field takes are all of one kind.\<close>

definition kindOf :: "string \<Rightarrow> qvalue set" where
  "kindOf field =
     (if field = ''height'' \<or> field = ''content_size'' then range VInt
      else if field = ''created_at'' then range VTime else range VStr)"

lemma queryFieldValue_kind: "queryFieldValue L c field = Some v \<Longrightarrow> v \<in> kindOf field"
  by (auto simp: queryFieldValue_def kindOf_def Let_def split: if_splits sum.splits)

text \<open>A key whose comparison orders the values of its field.\<close>

definition coherentKey :: "orderKey \<Rightarrow> bool" where
  "coherentKey k =
     (okCompare k \<in> {''numeric'', ''lexical'', ''temporal''} \<or>
      okField k \<in> {''height'', ''content_size'', ''created_at''})"

lemma floatCompare_int: "floatCompare (m, 0) (n, 0) = signOf m n"
  by (simp add: floatCompare_def)

lemma temporal_order:
  "cmpOn S (\<lambda>a b. case (temporalMidpointMs a, temporalMidpointMs b) of
     (Some s, Some t) \<Rightarrow> signOf s t | (Some s, None) \<Rightarrow> -1 | (None, Some t) \<Rightarrow> 1 | (None, None) \<Rightarrow> 0)"
  using cmpOn_presentFirst[OF cmpOn_signOf[of UNIV "\<lambda>x. x"], of S temporalMidpointMs]
  unfolding presentFirst_def by simp

lemma compareValues_order:
  assumes "coherentKey k"
  shows "cmpOn (kindOf (okField k)) (\<lambda>a b. compareValues F a b (okCompare k))"
proof (cases "okCompare k = ''temporal''")
  case True
  then show ?thesis using temporal_order by (simp add: compareValues_def)
next
  case False
  note txtcmp = cmpOn_signOf[of "kindOf (okField k)" "toStringValue F"]
  consider "kindOf (okField k) = range VInt" | "kindOf (okField k) = range VTime" | "kindOf (okField k) = range VStr"
    by (cases "okField k = ''height'' \<or> okField k = ''content_size''"; cases "okField k = ''created_at''")
       (simp_all add: kindOf_def)
  then show ?thesis
  proof cases
    case 1
    show ?thesis
    proof (cases "okCompare k = ''lexical''")
      case True
      then show ?thesis using txtcmp by (simp add: compareValues_def)
    next
      case lex: False
      have "compareValues F a b (okCompare k) = signOf (case a of VInt m \<Rightarrow> toFloat64 m | _ \<Rightarrow> 0) (case b of VInt m \<Rightarrow> toFloat64 m | _ \<Rightarrow> 0)"
        if "a \<in> range VInt" "b \<in> range VInt" for a b
        using that False lex by (auto simp: compareValues_def Let_def compareOrdered_def floatCompare_int)
      then show ?thesis unfolding 1 by (rule cmpOn_cong) (auto intro: cmpOn_signOf)
    qed
  next
    case 2
    show ?thesis
    proof (cases "okCompare k \<in> {''lexical'', ''numeric''}")
      case True
      have "compareValues F a b (okCompare k) = signOf (toStringValue F a) (toStringValue F b)"
        if "a \<in> range VTime" "b \<in> range VTime" for a b
        using that True by (auto simp: compareValues_def Let_def)
      then show ?thesis unfolding 2 by (rule cmpOn_cong) (auto intro: cmpOn_signOf)
    next
      case oth: False
      have "compareValues F a b (okCompare k) = signOf (case a of VTime m \<Rightarrow> m | _ \<Rightarrow> 0) (case b of VTime m \<Rightarrow> m | _ \<Rightarrow> 0)"
        if "a \<in> range VTime" "b \<in> range VTime" for a b
        using that False oth by (auto simp: compareValues_def Let_def compareOrdered_def)
      then show ?thesis unfolding 2 by (rule cmpOn_cong) (auto intro: cmpOn_signOf)
    qed
  next
    case 3
    then have "okCompare k \<in> {''lexical'', ''numeric''}"
      using assms False by (auto simp: coherentKey_def kindOf_def split: if_splits)
    then have "compareValues F a b (okCompare k) = signOf (toStringValue F a) (toStringValue F b)"
      if "a \<in> range VStr" "b \<in> range VStr" for a b
      using that by (auto simp: compareValues_def Let_def)
    then show ?thesis unfolding 3 by (rule cmpOn_cong) (auto intro: cmpOn_signOf)
  qed
qed

definition keyCompare :: "lib \<Rightarrow> (int \<Rightarrow> nat \<Rightarrow> string) \<Rightarrow> orderKey \<Rightarrow> claim \<Rightarrow> claim \<Rightarrow> int" where
  "keyCompare L F k =
     presentFirst (\<lambda>c. queryFieldValue L c (okField k))
       (\<lambda>a b. if okDir k = ''desc'' then - compareValues F a b (okCompare k) else compareValues F a b (okCompare k))"

fun resultCompare :: "lib \<Rightarrow> (int \<Rightarrow> nat \<Rightarrow> string) \<Rightarrow> orderKey list \<Rightarrow> claim \<Rightarrow> claim \<Rightarrow> int" where
  "resultCompare L F [] x y =
     (if signOf (claimCreatedAt x) (claimCreatedAt y) \<noteq> 0 then signOf (claimCreatedAt x) (claimCreatedAt y)
      else signOf (libIdString L (ID x)) (libIdString L (ID y)))"
| "resultCompare L F (k # ks) x y =
     (if keyCompare L F k x y \<noteq> 0 then keyCompare L F k x y else resultCompare L F ks x y)"

lemma resultCompare_order: "list_all coherentKey ks \<Longrightarrow> cmpOn UNIV (resultCompare L F ks)"
proof (induction ks)
  case Nil
  have "cmpOn UNIV (\<lambda>x y. if signOf (claimCreatedAt x) (claimCreatedAt y) \<noteq> 0
      then signOf (claimCreatedAt x) (claimCreatedAt y) else signOf (libIdString L (ID x)) (libIdString L (ID y)))"
    by (rule cmpOn_lex) (rule cmpOn_signOf)+
  then show ?case by (rule cmpOn_cong[rotated]) simp
next
  case (Cons k ks)
  have "cmpOn (kindOf (okField k))
      (\<lambda>a b. if okDir k = ''desc'' then - compareValues F a b (okCompare k) else compareValues F a b (okCompare k))"
    using Cons.prems compareValues_order[of k F] cmpOn_neg by (cases "okDir k = ''desc''") simp_all
  then have "cmpOn UNIV (keyCompare L F k)"
    unfolding keyCompare_def by (rule cmpOn_presentFirst) (rule queryFieldValue_kind)
  then have "cmpOn UNIV (\<lambda>x y. if keyCompare L F k x y \<noteq> 0 then keyCompare L F k x y else resultCompare L F ks x y)"
    by (rule cmpOn_lex) (use Cons in simp)
  then show ?case by (rule cmpOn_cong[rotated]) simp
qed

lemma resultLess_iff: "resultLess L F ks x y \<longleftrightarrow> resultCompare L F ks x y < 0"
  by (induction ks) (auto simp: keyCompare_def presentFirst_def Let_def signOf_def split: option.splits)

lemma resultCompare_tie:
  "resultCompare L F ks x y = 0 \<Longrightarrow> libIdString L (ID x) = libIdString L (ID y)"
  by (induction ks) (auto simp: signOf_def split: if_splits)

section \<open>Properties\<close>

text \<open>
  Property C29 (read_order_total): under keys that name a comparison, or a field whose values are
  numbers or the timestamp, the order of a read is the sorted one: it permutes what was reached,
  no result is less than one before it, and it does not depend on the order the claims were
  reached in.
\<close>

theorem read_order_total:
  assumes "list_all coherentKey ks" "distinct (map (\<lambda>c. libIdString L (ID c)) cs)"
  shows "mset (sortResults L F ks cs) = mset cs \<and>
    sorted_wrt (\<lambda>x y. \<not> resultLess L F ks y x) (sortResults L F ks cs) \<and>
    (\<forall>cs'. mset cs' = mset cs \<longrightarrow> sortResults L F ks cs' = sortResults L F ks cs)"
proof -
  let ?f = "resultCompare L F ks"
  have f: "cmpOn UNIV ?f" by (rule resultCompare_order[OF assms(1)])
  have lt: "resultLess L F ks = (\<lambda>x y. ?f x y < 0)" by (intro ext) (rule resultLess_iff)
  have sorted: "sorted_wrt (\<lambda>x y. ?f x y \<le> 0) (sortResults L F ks xs)" for xs
    unfolding sortResults_def lt by (rule sortStable_sorted[OF f]) simp
  have perm: "mset (sortResults L F ks xs) = mset xs" for xs
    by (simp add: sortResults_def sortStable_mset)
  have uniq: "sortResults L F ks cs' = sortResults L F ks cs" if cs': "mset cs' = mset cs" for cs'
  proof (rule sym, rule sorted_unique[OF sorted sorted])
    show "mset (sortResults L F ks cs) = mset (sortResults L F ks cs')" by (simp add: perm cs')
    fix x y assume xy: "x \<in> set (sortResults L F ks cs)" "y \<in> set (sortResults L F ks cs)"
      "?f x y \<le> 0" "?f y x \<le> 0"
    then have "x \<in> set cs" "y \<in> set cs" using perm by (metis set_mset_mset)+
    moreover have "?f x y = 0" using xy(3,4) cmpOn_anti[OF f, of x y] by simp
    then have "libIdString L (ID x) = libIdString L (ID y)" by (rule resultCompare_tie)
    ultimately show "x = y" using assms(2) by (auto simp: distinct_map inj_on_def)
  qed
  have "\<not> resultLess L F ks y x" if "?f x y \<le> 0" for x y
    using that cmpOn_anti[OF f, of x y] by (simp add: resultLess_iff)
  then have srt: "sorted_wrt (\<lambda>x y. \<not> resultLess L F ks y x) (sortResults L F ks cs)"
    by (rule sorted_wrt_mono_rel[OF _ sorted])
  show ?thesis by (intro conjI allI impI perm srt uniq)
qed

theorem read_order_total_witness:
  "sortResults graphLib (\<lambda>m k. []) [\<lparr>okField = ''height'', okCompare = ''numeric'', okDir = ''desc''\<rparr>]
       [stagedClaim ''h2'' [], stagedClaim ''h1'' []] =
     sortResults graphLib (\<lambda>m k. []) [\<lparr>okField = ''height'', okCompare = ''numeric'', okDir = ''desc''\<rparr>]
       [stagedClaim ''h1'' [], stagedClaim ''h2'' []]"
proof -
  let ?k = "\<lparr>okField = ''height'', okCompare = ''numeric'', okDir = ''desc''\<rparr>"
  let ?cs = "[stagedClaim ''h1'' [], stagedClaim ''h2'' []]"
  have "list_all coherentKey [?k]" by (simp add: coherentKey_def)
  moreover have "distinct (map (\<lambda>c. libIdString graphLib (ID c)) ?cs)"
    by (simp add: graphLib_def tableLib_def ID_def stagedClaim_def)
  ultimately have "mset [stagedClaim ''h2'' [], stagedClaim ''h1'' []] = mset ?cs \<Longrightarrow>
      sortResults graphLib (\<lambda>m k. []) [?k] [stagedClaim ''h2'' [], stagedClaim ''h1'' []] = sortResults graphLib (\<lambda>m k. []) [?k] ?cs"
    using read_order_total[of "[?k]" graphLib ?cs "\<lambda>m k. []"] by blast
  then show ?thesis by simp
qed

text \<open>
  Three text values of one field no order sorts: two that parse as times compare as instants, the
  third as text.
\<close>

lemma default_order_cycles:
  "compareValues F (VStr ''2026-06-01T10:00:00Z'') (VStr ''2026-06-01T11'') [] = -1"
  "compareValues F (VStr ''2026-06-01T11'') (VStr ''2026-06-01T12:00:00+05:00'') [] = -1"
  "compareValues F (VStr ''2026-06-01T12:00:00+05:00'') (VStr ''2026-06-01T10:00:00Z'') [] = -1"
proof -
  have "compareOrdered (VStr ''2026-06-01T10:00:00Z'') (VStr ''2026-06-01T11'') = Some (-1)"
    "compareOrdered (VStr ''2026-06-01T11'') (VStr ''2026-06-01T12:00:00+05:00'') = Some (-1)"
    "compareOrdered (VStr ''2026-06-01T12:00:00+05:00'') (VStr ''2026-06-01T10:00:00Z'') = Some (-1)"
    by code_simp+
  then show "compareValues F (VStr ''2026-06-01T10:00:00Z'') (VStr ''2026-06-01T11'') [] = -1"
    "compareValues F (VStr ''2026-06-01T11'') (VStr ''2026-06-01T12:00:00+05:00'') [] = -1"
    "compareValues F (VStr ''2026-06-01T12:00:00+05:00'') (VStr ''2026-06-01T10:00:00Z'') [] = -1"
    by (simp_all add: compareValues_def)
qed

text \<open>
  A numeric comparison of two field values is one of their text; and a date that does not parse
  sorts after those that do, or before them when the direction is descending.
\<close>

lemma numeric_compares_text: "compareValues F (VStr ''10'') (VStr ''9'') ''numeric'' = -1"
proof -
  have "signOf ''10'' ''9'' = -1" by code_simp
  then show ?thesis by (simp add: compareValues_def)
qed

lemma temporal_desc_unparsable_first:
  assumes "okCompare k = ''temporal''" "okDir k = ''desc''"
    and "queryFieldValue L x (okField k) = Some v" "temporalMidpointMs v = None"
    and "queryFieldValue L y (okField k) = Some w" "temporalMidpointMs w = Some t"
  shows "resultLess L F (k # ks) x y"
  using assms by (simp add: compareValues_def)

end
