(* ===== verification/QueryWalk.thy ===== *)
theory QueryWalk
  imports Query
begin

text \<open>
  The reference traversal (\<open>query_walk.go\<close>): the type patterns, the reverse index, one path
  step as a breadth-first walk level by level, and the whole path. The report and the time budget
  are left out, so that an error ends the walk.
\<close>

section \<open>Type patterns\<close>

fun matchTypes :: "string list \<Rightarrow> bool \<Rightarrow> bool \<Rightarrow> string \<Rightarrow> bool" where
  "matchTypes [] hasPositive matched ty = (\<not> hasPositive \<or> matched)"
| "matchTypes (p # ps) hasPositive matched ty =
     (let neg = startsWith ''-'' p; pat = (if neg then drop 1 p else p); ok = pathMatch pat ty in
        if neg then (if ok then False else matchTypes ps hasPositive matched ty)
        else matchTypes ps True (matched \<or> ok) ty)"

definition matchTypeList :: "string list \<Rightarrow> string \<Rightarrow> bool" where
  "matchTypeList patterns ty = (if patterns = [] then True else matchTypes patterns False False ty)"

section \<open>The reverse index\<close>

text \<open>\<open>incomingEdge\<close> under the id it points at, in the order the sweep meets the edges.\<close>

type_synonym incoming = "(ident \<times> (claim \<times> string) list) list"

definition incomingAt :: "incoming \<Rightarrow> ident \<Rightarrow> (claim \<times> string) list" where
  "incomingAt m i = (case map_of m i of None \<Rightarrow> [] | Some xs \<Rightarrow> xs)"

definition addIncoming :: "claim \<Rightarrow> edge \<Rightarrow> incoming \<Rightarrow> incoming" where
  "addIncoming c e m = AList.update (eReference e) (incomingAt m (eReference e) @ [(c, edgeType e)]) m"

text \<open>The code marks a claim when it is queued and fails on the first that cannot be read.\<close>

definition invertStep :: "uni \<Rightarrow> incoming \<Rightarrow> ident \<Rightarrow> (err, incoming, ident) act" where
  "invertStep u m i =
     (case GetClaim u False i of
        Inl e \<Rightarrow> Halt (Wrap (QueryErr errQuery) e)
      | Inr c \<Rightarrow>
          (case (if [] \<in> set (refsOf c) then GetClaim u False [] else Inr c) of
             Inl e \<Rightarrow> Halt (Wrap (QueryErr errQuery) e)
           | Inr _ \<Rightarrow> More (fold (addIncoming c) (Edges c []) m) (refsOf c)))"

definition buildIncoming :: "uni \<Rightarrow> ident \<Rightarrow> incoming result" where
  "buildIncoming u root =
     (case drain (uStored u) (\<lambda>i. i) (invertStep u) [] [] [root] of
        Inl e \<Rightarrow> Inl e
      | Inr (m, _) \<Rightarrow> Inr m)"

section \<open>One step\<close>

text \<open>Routes per claim; a claim without one has the empty route.\<close>

type_synonym routes = "(ident \<times> claim list) list"

definition routeOf :: "routes \<Rightarrow> ident \<Rightarrow> claim list" where
  "routeOf m i = (case map_of m i of None \<Rightarrow> [] | Some r \<Rightarrow> r)"

fun lessRoute :: "lib \<Rightarrow> claim list \<Rightarrow> claim list \<Rightarrow> bool" where
  "lessRoute L (a # as) (b # bs) =
     (if length as \<noteq> length bs then length as < length bs
      else if claimCreatedAt a \<noteq> claimCreatedAt b then claimCreatedAt a < claimCreatedAt b
      else if libIdString L (ID a) \<noteq> libIdString L (ID b) then libIdString L (ID a) < libIdString L (ID b)
      else lessRoute L as bs)"
| "lessRoute L as bs = (length as < length bs)"

definition stepForward :: "pathStep \<Rightarrow> bool" where
  "stepForward s = (psDir s = [] \<or> psDir s = DirProvenance \<or> psDir s = DirConnections)"

definition stepReverse :: "pathStep \<Rightarrow> bool" where
  "stepReverse s = (psDir s = DirUses \<or> psDir s = DirConnections)"

text \<open>The claims one claim leads to, in the order the loop considers them.\<close>

definition arrivals :: "uni \<Rightarrow> pathStep \<Rightarrow> incoming \<Rightarrow> claim \<Rightarrow> claim list result" where
  "arrivals u step inc cur =
     rbind (if stepForward step
            then mapM (\<lambda>e. wrapping (QueryErr errQuery) (GetClaim u False (eReference e)))
                   (filter (\<lambda>e. matchTypeList (psEdges step) (edgeType e)) (Edges cur []))
            else Inr []) (\<lambda>fwd.
       Inr (fwd @ (if stepReverse step
                   then map fst (filter (\<lambda>x. matchTypeList (psEdges step) (snd x)) (incomingAt inc (ID cur)))
                   else [])))"

text \<open>\<open>reach\<close>: a path of this many hops arrives at a claim.\<close>

definition collectAt :: "confinement option \<Rightarrow> pathStep \<Rightarrow> int \<Rightarrow> claim \<Rightarrow> claim list \<Rightarrow> claim list" where
  "collectAt conf step hop c out =
     (if hop < MinHops step \<or> ID c \<in> set (map ID out) \<or> \<not> admits conf c \<or>
         \<not> matchTypeList (psNodes step) (claimType c)
      then out else out @ [c])"

record walkState =
  wsOut :: "claim list"
  wsVisited :: "ident list"
  wsFixed :: "ident list"
  wsRoutes :: routes

text \<open>The frontier is hop 0; an answer there keeps its own route.\<close>

fun startLevel :: "confinement option \<Rightarrow> pathStep \<Rightarrow> claim list \<Rightarrow> claim list \<Rightarrow> walkState \<Rightarrow> claim list \<times> walkState" where
  "startLevel conf step [] level s = (level, s)"
| "startLevel conf step (f # fs) level s =
     (if ID f \<in> set (wsVisited s) then startLevel conf step fs level s
      else
        let out = collectAt conf step 0 f (wsOut s) in
          startLevel conf step fs (level @ [f])
            (s\<lparr>wsOut := out, wsVisited := ID f # wsVisited s,
               wsFixed := (if ID f \<in> set (map ID out) then ID f # wsFixed s else wsFixed s)\<rparr>))"

text \<open>
  \<open>consider\<close>: the arrival is recorded, then the child's best route of this level. The
  candidates are kept in the order they were first met.
\<close>

type_synonym candidates = "(ident \<times> claim \<times> claim list) list"

definition considerChild ::
    "lib \<Rightarrow> confinement option \<Rightarrow> pathStep \<Rightarrow> bool \<Rightarrow> int \<Rightarrow> claim \<times> claim \<Rightarrow> walkState \<times> candidates \<Rightarrow> walkState \<times> candidates" where
  "considerChild L conf step needPaths hop p sb =
     (case (p, sb) of ((cur, child), (s, best)) \<Rightarrow>
        let s' = s\<lparr>wsOut := collectAt conf step (hop + 1) child (wsOut s)\<rparr>; k = ID child in
          if k \<in> set (wsFixed s) then (s', best)
          else
            let route = (if needPaths then routeOf (wsRoutes s) (ID cur) @ [child] else []) in
              (case map_of best k of
                 None \<Rightarrow> (s', best @ [(k, child, route)])
               | Some (_, prev) \<Rightarrow>
                   if needPaths \<and> lessRoute L route prev then (s', AList.update k (child, route) best)
                   else (s', best)))"

fun settleLevel :: "bool \<Rightarrow> candidates \<Rightarrow> claim list \<Rightarrow> walkState \<Rightarrow> claim list \<times> walkState" where
  "settleLevel needPaths [] level s = (level, s)"
| "settleLevel needPaths ((k, c, route) # best) level s =
     (let s' = s\<lparr>wsRoutes := (if needPaths then AList.update k route (wsRoutes s) else wsRoutes s),
                 wsFixed := k # wsFixed s\<rparr> in
        if k \<in> set (wsVisited s) then settleLevel needPaths best level s'
        else settleLevel needPaths best (level @ [c]) (s'\<lparr>wsVisited := k # wsVisited s\<rparr>))"

text \<open>
  The levels. Each level but the last meets a claim no earlier one did, so that a fuel past the
  number of stored claims is never used up.
\<close>

fun walkLevels ::
    "nat \<Rightarrow> lib \<Rightarrow> uni \<Rightarrow> confinement option \<Rightarrow> pathStep \<Rightarrow> incoming \<Rightarrow> bool \<Rightarrow> int \<Rightarrow> claim list \<Rightarrow> walkState \<Rightarrow>
       walkState result" where
  "walkLevels 0 L u conf step inc needPaths hop level s = Inl errDiverges"
| "walkLevels (Suc fuel) L u conf step inc needPaths hop level s =
     (if level = [] \<or> (0 < psMax step \<and> psMax step \<le> hop) then Inr s
      else
        rbind (mapM (arrivals u step inc) level) (\<lambda>children.
          let pairs = concat (map (\<lambda>(cur, cs). map (Pair cur) cs) (zip level children));
              (s1, best) = fold (considerChild L conf step needPaths hop) pairs (s, []);
              (nextLevel, s2) = settleLevel needPaths best [] s1
          in walkLevels fuel L u conf step inc needPaths (hop + 1) nextLevel s2))"

definition queryWalkStep ::
    "lib \<Rightarrow> uni \<Rightarrow> claim list \<Rightarrow> pathStep \<Rightarrow> incoming \<Rightarrow> routes \<Rightarrow> confinement option \<Rightarrow> bool \<Rightarrow>
       (claim list \<times> routes) result" where
  "queryWalkStep L u frontier step inc rs conf needPaths =
     (let (level, s) = startLevel conf step frontier []
            \<lparr>wsOut = [], wsVisited = [], wsFixed = [], wsRoutes = rs\<rparr>
      in rbind (walkLevels (length (uStored u) + 2) L u conf step inc needPaths 0 level s) (\<lambda>s'.
           Inr (wsOut s', wsRoutes s')))"

section \<open>The path\<close>

definition anyStep :: pathStep where
  "anyStep = \<lparr>psEdges = [], psDir = [], psMin = None, psMax = 0, psNodes = []\<rparr>"

definition startStep :: pathStep where
  "startStep = anyStep\<lparr>psMin := Some 0\<rparr>"

definition admitted :: "confinement option \<Rightarrow> claim list \<Rightarrow> claim list" where
  "admitted conf cs = filter (admits conf) cs"

fun loadAnchors :: "uni \<Rightarrow> ident list \<Rightarrow> ident list \<Rightarrow> claim list \<Rightarrow> claim list result" where
  "loadAnchors u [] seen out = Inr out"
| "loadAnchors u (i # is') seen out =
     (if i = [] \<or> i \<in> set seen then loadAnchors u is' seen out
      else rbind (wrapping (QueryErr errQuery) (GetClaim u False i)) (\<lambda>c. loadAnchors u is' (i # seen) (out @ [c])))"

definition walkStart :: "lib \<Rightarrow> uni \<Rightarrow> ident list \<Rightarrow> ident \<Rightarrow> confinement option \<Rightarrow> claim list result" where
  "walkStart L u start origin conf =
     (if start \<noteq> [] then loadAnchors u start [] []
      else rbind (wrapping (QueryErr errQuery) (GetClaim u False origin)) (\<lambda>c.
             rbind (queryWalkStep L u [c] startStep [] [] conf False) (\<lambda>(out, _). Inr out)))"

definition stepsNeedReverse :: "pathStep list \<Rightarrow> bool" where
  "stepsNeedReverse steps = list_ex stepReverse steps"

fun walkSteps ::
    "lib \<Rightarrow> uni \<Rightarrow> incoming \<Rightarrow> confinement option \<Rightarrow> bool \<Rightarrow> pathStep list \<Rightarrow> claim list \<Rightarrow> claim list \<Rightarrow> routes \<Rightarrow>
       (claim list \<times> routes) result" where
  "walkSteps L u inc conf needPaths [] frontier reached rs = Inr (reached, rs)"
| "walkSteps L u inc conf needPaths (step # steps) frontier reached rs =
     rbind (queryWalkStep L u frontier step inc rs conf needPaths) (\<lambda>(out, rs').
       walkSteps L u inc conf needPaths steps out out rs')"

definition queryTraverse ::
    "lib \<Rightarrow> uni \<Rightarrow> selection \<Rightarrow> ident \<Rightarrow> confinement option \<Rightarrow> bool \<Rightarrow> (claim list \<times> routes) result" where
  "queryTraverse L u sel origin conf needPaths =
     (let steps = (case slPath sel of None \<Rightarrow> [anyStep] | Some p \<Rightarrow> p) in
        rbind (walkStart L u (slClaim sel) origin conf) (\<lambda>frontier.
        rbind (if stepsNeedReverse steps then
                 (let root = (case conf of None \<Rightarrow> origin | Some cf \<Rightarrow> cfRoot cf) in
                    rbind (wrapping (QueryErr errQuery) (GetClaim u False root)) (\<lambda>_. buildIncoming u root))
               else Inr []) (\<lambda>inc.
          walkSteps L u inc conf needPaths steps frontier (admitted conf frontier)
            (fold (\<lambda>c. AList.update (ID c) [c]) frontier []))))"

section \<open>Patterns\<close>

lemma matchTypes_iff:
  "matchTypes ps hasPositive matched ty \<longleftrightarrow>
     (\<forall>p \<in> set ps. startsWith ''-'' p \<longrightarrow> \<not> pathMatch (drop 1 p) ty) \<and>
     (matched \<or> (\<exists>p \<in> set ps. \<not> startsWith ''-'' p \<and> pathMatch p ty) \<or>
      (\<not> hasPositive \<and> (\<forall>p \<in> set ps. startsWith ''-'' p)))"
  by (induction ps hasPositive matched ty rule: matchTypes.induct) (auto simp: Let_def)

lemma matchTypeList_iff:
  "matchTypeList ps ty \<longleftrightarrow>
     (\<forall>p \<in> set ps. startsWith ''-'' p \<longrightarrow> \<not> pathMatch (drop 1 p) ty) \<and>
     ((\<exists>p \<in> set ps. \<not> startsWith ''-'' p \<and> pathMatch p ty) \<or> (\<forall>p \<in> set ps. startsWith ''-'' p))"
  by (simp add: matchTypeList_def matchTypes_iff)

section \<open>Hops\<close>

text \<open>The claims a number of hops away, and those no fewer hops reach.\<close>

inductive atHop :: "(claim \<Rightarrow> claim list) \<Rightarrow> claim set \<Rightarrow> nat \<Rightarrow> claim \<Rightarrow> bool" for succ front where
  start: "c \<in> front \<Longrightarrow> atHop succ front 0 c"
| hop: "atHop succ front h p \<Longrightarrow> c \<in> set (succ p) \<Longrightarrow> atHop succ front (Suc h) c"

inductive_cases atHop_0E: "atHop succ front 0 c"
inductive_cases atHop_SucE: "atHop succ front (Suc h) c"

definition firstHop :: "(claim \<Rightarrow> claim list) \<Rightarrow> claim set \<Rightarrow> nat \<Rightarrow> claim \<Rightarrow> bool" where
  "firstHop succ front h p = (atHop succ front h p \<and> (\<forall>m < h. \<not> atHop succ front m p))"

lemma atHop_0 [simp]: "atHop succ front 0 c \<longleftrightarrow> c \<in> front"
  by (auto elim: atHop_0E intro: atHop.start)

lemma firstHop_0 [simp]: "firstHop succ front 0 c \<longleftrightarrow> c \<in> front"
  by (simp add: firstHop_def)

lemma firstHop_exists: "atHop succ front h p \<Longrightarrow> \<exists>m \<le> h. firstHop succ front m p"
proof (induction h rule: less_induct)
  case (less h)
  then show ?case
  proof (cases "\<exists>m < h. atHop succ front m p")
    case True
    then obtain m where "m < h" "atHop succ front m p" by blast
    with less(1) obtain k where "k \<le> m" "firstHop succ front k p" by blast
    then show ?thesis using \<open>m < h\<close> by (intro exI[of _ k]) simp
  qed (auto simp: firstHop_def)
qed

lemma firstHop_Suc:
  "firstHop succ front (Suc h) c \<longleftrightarrow>
     (\<exists>p. firstHop succ front h p \<and> c \<in> set (succ p)) \<and> (\<forall>m \<le> h. \<not> atHop succ front m c)"
proof
  assume c: "firstHop succ front (Suc h) c"
  then obtain p where p: "atHop succ front h p" "c \<in> set (succ p)"
    by (auto simp: firstHop_def elim: atHop_SucE)
  have "\<not> atHop succ front m p" if "m < h" for m
  proof
    assume "atHop succ front m p"
    then have "atHop succ front (Suc m) c" using p(2) by (rule atHop.hop)
    then show False using c that by (simp add: firstHop_def)
  qed
  then show "(\<exists>p. firstHop succ front h p \<and> c \<in> set (succ p)) \<and> (\<forall>m \<le> h. \<not> atHop succ front m c)"
    using c p by (auto simp: firstHop_def less_Suc_eq_le)
next
  assume "(\<exists>p. firstHop succ front h p \<and> c \<in> set (succ p)) \<and> (\<forall>m \<le> h. \<not> atHop succ front m c)"
  then show "firstHop succ front (Suc h) c"
    by (auto simp: firstHop_def less_Suc_eq_le intro: atHop.hop)
qed

text \<open>When no claim is first met at a hop, none is at a later one.\<close>

lemma firstHop_empty:
  assumes "\<And>p. \<not> firstHop succ front h p"
  shows "h \<le> m \<Longrightarrow> \<not> firstHop succ front m p"
proof (induction m arbitrary: p)
  case (Suc m)
  then show ?case using assms by (cases "h = Suc m") (auto simp: firstHop_Suc)
qed (use assms in auto)

section \<open>One level\<close>

definition stepOk :: "confinement option \<Rightarrow> pathStep \<Rightarrow> claim \<Rightarrow> bool" where
  "stepOk conf step c = (admits conf c \<and> matchTypeList (psNodes step) (claimType c))"

text \<open>Claims as the store reads them: named by their id.\<close>

definition readable :: "uni \<Rightarrow> claim set" where
  "readable u = {c. GetClaim u False (ID c) = Inr c}"

lemma readable_eq: "c \<in> readable u \<Longrightarrow> d \<in> readable u \<Longrightarrow> ID c = ID d \<Longrightarrow> c = d"
  by (simp add: readable_def)

lemma collectAt_set:
  assumes "c \<in> readable u" "set out \<subseteq> readable u"
  shows "set (collectAt conf step hop c out) = set out \<union> (if MinHops step \<le> hop \<and> stepOk conf step c then {c} else {})"
proof -
  have "ID c \<in> set (map ID out) \<longleftrightarrow> c \<in> set out"
    using assms readable_eq[of c u] by auto
  then show ?thesis by (auto simp: collectAt_def stepOk_def)
qed

lemma startLevel_spec:
  assumes "set fs \<subseteq> readable u" "set (wsOut s) \<subseteq> readable u" "set level \<subseteq> readable u"
    and "startLevel conf step fs level s = (level', s')" "set (wsVisited s) = ID ` set level"
    and "set (wsFixed s) \<subseteq> set (wsVisited s)"
  shows "set level' = set level \<union> set fs \<and> set (wsVisited s') = ID ` set level' \<and>
    set (wsFixed s') \<subseteq> set (wsVisited s') \<and> set (wsOut s') \<subseteq> readable u \<and>
    set (wsOut s') = set (wsOut s) \<union> {c \<in> set fs - set level. MinHops step \<le> 0 \<and> stepOk conf step c}"
  using assms
proof (induction conf step fs level s rule: startLevel.induct)
  case (2 conf step f fs level s)
  show ?case
  proof (cases "ID f \<in> set (wsVisited s)")
    case True
    then obtain g where "g \<in> set level" "ID g = ID f" using 2(6) by (metis 2(7) imageE)
    then have "f \<in> set level" using readable_eq[of g u f] 2(3,5) by auto
    then show ?thesis using 2(1)[OF True] 2(3-8) True by auto
  next
    case False
    let ?out = "collectAt conf step 0 f (wsOut s)"
    let ?s = "s\<lparr>wsOut := ?out, wsVisited := ID f # wsVisited s,
               wsFixed := (if ID f \<in> set (map ID ?out) then ID f # wsFixed s else wsFixed s)\<rparr>"
    have out: "set ?out = set (wsOut s) \<union> (if MinHops step \<le> 0 \<and> stepOk conf step f then {f} else {})"
      using 2(3,4) by (intro collectAt_set) auto
    have f: "f \<notin> set level" using False 2(7) by auto
    have "set level' = set (level @ [f]) \<union> set fs \<and> set (wsVisited s') = ID ` set level' \<and>
      set (wsFixed s') \<subseteq> set (wsVisited s') \<and> set (wsOut s') \<subseteq> readable u \<and>
      set (wsOut s') = set (wsOut ?s) \<union> {c \<in> set fs - set (level @ [f]). MinHops step \<le> 0 \<and> stepOk conf step c}"
      by (rule 2(2)[OF False refl]) (use 2(3-8) False out in \<open>auto simp: Let_def split: if_splits\<close>)
    then show ?thesis using out f by (auto split: if_splits)
  qed
qed auto

text \<open>What the arrivals of a level leave.\<close>

definition candidatesOk :: "uni \<Rightarrow> candidates \<Rightarrow> bool" where
  "candidatesOk u best = (distinct (keys best) \<and> (\<forall>(k, c, r) \<in> set best. ID c = k \<and> c \<in> readable u))"

lemma update_entries: "x \<in> set (AList.update k v m) \<Longrightarrow> x = (k, v) \<or> x \<in> set m"
  by (induction m) (auto split: if_splits)

lemma considerChild_spec:
  assumes "child \<in> readable u" "set (wsOut s) \<subseteq> readable u" "candidatesOk u best"
    and "considerChild L conf step needPaths hop (cur, child) (s, best) = (s', best')"
  shows "set (wsOut s') = set (wsOut s) \<union> (if MinHops step \<le> hop + 1 \<and> stepOk conf step child then {child} else {}) \<and>
    wsVisited s' = wsVisited s \<and> wsFixed s' = wsFixed s \<and> wsRoutes s' = wsRoutes s \<and> candidatesOk u best' \<and>
    set (keys best') = set (keys best) \<union> ({ID child} - set (wsFixed s))"
proof -
  note out = collectAt_set[OF assms(1,2), of conf step "hop + 1"]
  have upd: "candidatesOk u (AList.update (ID child) (child, r) best)" for r
    using assms(1,3) update_entries[of _ "ID child" "(child, r)" best]
    by (fastforce simp: candidatesOk_def intro: distinct_keys_update)
  show ?thesis
  proof (cases "ID child \<in> set (wsFixed s)")
    case True
    then show ?thesis using assms(3,4) out by (auto simp: considerChild_def Let_def)
  next
    case fresh: False
    show ?thesis
    proof (cases "map_of best (ID child)")
      case None
      then have "ID child \<notin> set (keys best)" by (simp add: keys_def map_of_eq_None_iff)
      then show ?thesis
        using assms(1,3,4) out fresh None
        by (auto simp: considerChild_def Let_def candidatesOk_def keys_def split: if_splits)
    next
      case (Some cr)
      then have "ID child \<in> set (keys best)" by (metis has_def has_iff_keys option.distinct(1))
      then show ?thesis
        using assms(3,4) out fresh Some upd
        by (cases cr) (auto simp: considerChild_def Let_def split: if_splits)
    qed
  qed
qed

lemma considerAll_spec:
  assumes "snd ` set pairs \<subseteq> readable u" "set (wsOut s) \<subseteq> readable u" "candidatesOk u best"
    and "fold (considerChild L conf step needPaths hop) pairs (s, best) = (s', best')"
  shows "set (wsOut s') = set (wsOut s) \<union> {c \<in> snd ` set pairs. MinHops step \<le> hop + 1 \<and> stepOk conf step c} \<and>
    wsVisited s' = wsVisited s \<and> wsFixed s' = wsFixed s \<and> candidatesOk u best' \<and>
    set (keys best') = set (keys best) \<union> (ID ` snd ` set pairs - set (wsFixed s))"
  using assms
proof (induction pairs arbitrary: s best)
  case (Cons p pairs)
  obtain cur child where p: "p = (cur, child)" by fastforce
  obtain s1 best1 where 1: "considerChild L conf step needPaths hop (cur, child) (s, best) = (s1, best1)" by fastforce
  have c: "child \<in> readable u" using Cons.prems(1) p by auto
  note one = considerChild_spec[OF c Cons.prems(2,3) 1]
  have "set (wsOut s1) \<subseteq> readable u" using one c Cons.prems(2) by auto
  then show ?case
    using Cons.IH[of s1 best1] Cons.prems(1,4) one by (auto simp: p 1)
qed auto

lemma settleLevel_spec:
  assumes "settleLevel needPaths best level s = (level', s')" "candidatesOk u best"
  shows "wsOut s' = wsOut s \<and> set (wsVisited s') = set (wsVisited s) \<union> set (keys best) \<and>
    set (wsFixed s') = set (wsFixed s) \<union> set (keys best) \<and>
    set level' = set level \<union> {c. \<exists>r. (ID c, c, r) \<in> set best \<and> ID c \<notin> set (wsVisited s)}"
  using assms
proof (induction needPaths best level s rule: settleLevel.induct)
  case (2 needPaths k c route best level s)
  have best: "candidatesOk u best" "ID c = k" "k \<notin> set (keys best)"
    using 2(4) by (auto simp: candidatesOk_def)
  have other: "(ID d, d, r) \<in> set best \<Longrightarrow> ID d \<noteq> k" for d r
    using best(3) by (force simp: keys_def)
  show ?case
  proof (cases "k \<in> set (wsVisited s)")
    case True
    then show ?thesis using 2(1)[OF refl True _ best(1)] 2(3) best(2) by (auto simp: Let_def)
  next
    case False
    then show ?thesis using 2(2)[OF refl False _ best(1)] 2(3) best(2) other by (auto simp: Let_def)
  qed
qed auto

text \<open>What a level is entered with after a number of hops.\<close>

definition succOf :: "uni \<Rightarrow> pathStep \<Rightarrow> incoming \<Rightarrow> claim \<Rightarrow> claim list" where
  "succOf u step inc p = (case arrivals u step inc p of Inl e \<Rightarrow> [] | Inr cs \<Rightarrow> cs)"

definition answers :: "confinement option \<Rightarrow> pathStep \<Rightarrow> (claim \<Rightarrow> claim list) \<Rightarrow> claim set \<Rightarrow> (nat \<Rightarrow> bool) \<Rightarrow> claim set" where
  "answers conf step succ front within =
     {c. stepOk conf step c \<and>
        ((MinHops step \<le> 0 \<and> c \<in> front) \<or>
         (\<exists>p m. within m \<and> firstHop succ front m p \<and> c \<in> set (succ p) \<and> MinHops step \<le> int m + 1))}"


definition levelInv ::
    "uni \<Rightarrow> confinement option \<Rightarrow> pathStep \<Rightarrow> incoming \<Rightarrow> claim set \<Rightarrow> nat \<Rightarrow> claim list \<Rightarrow> walkState \<Rightarrow> bool" where
  "levelInv u conf step inc front h level s \<longleftrightarrow>
     set level = {p. firstHop (succOf u step inc) front h p} \<and>
     set (wsVisited s) = ID ` {p. \<exists>m \<le> h. atHop (succOf u step inc) front m p} \<and>
     set (wsFixed s) \<subseteq> set (wsVisited s) \<and>
     set (wsOut s) = answers conf step (succOf u step inc) front (\<lambda>m. m < h) \<and>
     distinct (map ID (wsOut s)) \<and> (0 < psMax step \<longrightarrow> int h \<le> psMax step) \<and>
     (\<forall>m p. m < h \<longrightarrow> firstHop (succOf u step inc) front m p \<longrightarrow> (\<exists>cs. arrivals u step inc p = Inr cs))"

lemma answers_Suc:
  "answers conf step succ front (\<lambda>m. m < Suc h) =
     answers conf step succ front (\<lambda>m. m < h) \<union>
     {c. MinHops step \<le> int h + 1 \<and> stepOk conf step c \<and> (\<exists>p. firstHop succ front h p \<and> c \<in> set (succ p))}"
  by (auto simp: answers_def less_Suc_eq)

lemma collectAt_distinct: "distinct (map ID out) \<Longrightarrow> distinct (map ID (collectAt conf step hop c out))"
  by (auto simp: collectAt_def)

lemma considerChild_out:
  "considerChild L conf step needPaths hop (cur, child) (s, best) = (s', best') \<Longrightarrow>
     wsOut s' = collectAt conf step (hop + 1) child (wsOut s)"
  by (auto simp: considerChild_def Let_def split: if_splits option.splits prod.splits)

lemma considerAll_distinct:
  "distinct (map ID (wsOut s)) \<Longrightarrow>
     fold (considerChild L conf step needPaths hop) pairs (s, best) = (s', best') \<Longrightarrow> distinct (map ID (wsOut s'))"
proof (induction pairs arbitrary: s best)
  case (Cons p pairs)
  obtain cur child where p: "p = (cur, child)" by fastforce
  obtain s1 best1 where 1: "considerChild L conf step needPaths hop (cur, child) (s, best) = (s1, best1)" by fastforce
  show ?case
    using Cons.IH[of s1 best1] Cons.prems considerChild_out[OF 1] collectAt_distinct by (simp add: p 1)
qed auto

lemma atHop_readable:
  assumes "\<And>p. set (succ p) \<subseteq> R" "front \<subseteq> R"
  shows "atHop succ front h c \<Longrightarrow> c \<in> R"
  by (induction rule: atHop.induct) (use assms in auto)

lemma atHop_Suc_split:
  "{c. \<exists>m \<le> Suc h. atHop succ front m c} =
     {c. \<exists>m \<le> h. atHop succ front m c} \<union> {c. \<exists>p. firstHop succ front h p \<and> c \<in> set (succ p)}"
proof (intro equalityI subsetI)
  fix c assume "c \<in> {c. \<exists>m \<le> Suc h. atHop succ front m c}"
  then obtain m where m: "m \<le> Suc h" "atHop succ front m c" by blast
  show "c \<in> {c. \<exists>m \<le> h. atHop succ front m c} \<union> {c. \<exists>p. firstHop succ front h p \<and> c \<in> set (succ p)}"
  proof (cases "m = Suc h")
    case True
    then obtain p where p: "atHop succ front h p" "c \<in> set (succ p)" using m(2) by (auto elim: atHop_SucE)
    obtain k where k: "k \<le> h" "firstHop succ front k p" using firstHop_exists[OF p(1)] by blast
    show ?thesis
    proof (cases "k = h")
      case False
      then have "atHop succ front (Suc k) c" "Suc k \<le> h"
        using k p(2) by (auto simp: firstHop_def intro: atHop.hop)
      then show ?thesis by blast
    qed (use k p in blast)
  qed (use m in auto)
qed (auto simp: firstHop_def intro: atHop.hop le_SucI)

lemma level_step:
  assumes inv: "levelInv u conf step inc front h level s"
    and readable: "\<And>p. set (succOf u step inc p) \<subseteq> readable u" "front \<subseteq> readable u"
    and all: "mapM (arrivals u step inc) level = Inr children"
    and go: "\<not> (0 < psMax step \<and> psMax step \<le> int h)"
    and fold: "fold (considerChild L conf step needPaths (int h))
       (concat (map (\<lambda>(cur, cs). map (Pair cur) cs) (zip level children))) (s, []) = (s1, best)"
    and settle: "settleLevel needPaths best [] s1 = (level', s2)"
  shows "levelInv u conf step inc front (Suc h) level' s2"
proof -
  let ?succ = "succOf u step inc"
  let ?new = "{c. \<exists>p. firstHop ?succ front h p \<and> c \<in> set (?succ p)}"
  let ?pairs = "concat (map (\<lambda>(cur, cs). map (Pair cur) cs) (zip level children))"
  have children: "children = map ?succ level"
    using all by (auto simp: mapM_Inr_iff list_all2_conv_all_nth succOf_def intro: nth_equalityI)
  have "snd ` set ?pairs = (\<Union>p \<in> set level. set (?succ p))"
    unfolding children zip_map2 zip_same_conv_map by (force simp: image_UN image_image)
  then have new: "snd ` set ?pairs = ?new"
    using inv by (auto simp: levelInv_def)
  have in_read: "?new \<subseteq> readable u" using readable by auto
  have outread: "set (wsOut s) \<subseteq> readable u" using inv readable by (auto simp: levelInv_def answers_def)
  have none: "candidatesOk u []" by (simp add: candidatesOk_def)
  note spec = considerAll_spec[of ?pairs u s "[]", unfolded new, OF in_read outread none fold]
  have all_spec: "set (wsOut s1) = set (wsOut s) \<union> {c \<in> ?new. MinHops step \<le> int h + 1 \<and> stepOk conf step c}"
    "wsVisited s1 = wsVisited s" "wsFixed s1 = wsFixed s" "candidatesOk u best"
    "set (keys best) = ID ` ?new - set (wsFixed s)"
    using spec by simp_all
  note settled = settleLevel_spec[OF settle all_spec(4)]
  have dist: "distinct (map ID (wsOut s2))"
    using considerAll_distinct[OF _ fold] inv settled by (simp add: levelInv_def)
  have visited: "set (wsVisited s2) = set (wsVisited s) \<union> ID ` ?new"
    using settled all_spec inv by (auto simp: levelInv_def)
  have met_read: "c \<in> readable u" if "atHop ?succ front m c" for m c
    using atHop_readable[OF readable that] .
  have level': "c \<in> set level' \<longleftrightarrow> firstHop ?succ front (Suc h) c" for c
  proof
    assume "c \<in> set level'"
    then obtain r where r: "(ID c, c, r) \<in> set best" "ID c \<notin> set (wsVisited s)"
      using settled all_spec(2) by auto
    then have "ID c \<in> set (keys best)" by (force simp: keys_def)
    then have "ID c \<in> ID ` ?new" using all_spec(5) by blast
    then obtain d where d: "ID c = ID d" "d \<in> ?new" by (rule imageE)
    moreover have "c \<in> readable u" using r(1) all_spec(4) by (auto simp: candidatesOk_def)
    ultimately have "c \<in> ?new" using readable_eq[of c u d] in_read by auto
    then show "firstHop ?succ front (Suc h) c"
      using r(2) inv by (auto simp: firstHop_Suc levelInv_def)
  next
    assume "firstHop ?succ front (Suc h) c"
    then have c: "c \<in> ?new" "\<forall>m \<le> h. \<not> atHop ?succ front m c" by (auto simp: firstHop_Suc)
    have new_id: "ID c \<notin> set (wsVisited s)"
    proof
      assume "ID c \<in> set (wsVisited s)"
      then obtain d m where "m \<le> h" "atHop ?succ front m d" "ID c = ID d"
        using inv by (auto simp: levelInv_def)
      then show False using readable_eq[of c u d] met_read in_read c by blast
    qed
    then have "ID c \<in> set (keys best)" using c(1) all_spec(5) inv by (auto simp: levelInv_def)
    then obtain d r where d: "(ID c, d, r) \<in> set best" by (force simp: keys_def)
    then have "ID d = ID c" "d \<in> readable u" using all_spec(4) by (auto simp: candidatesOk_def)
    moreover have "c \<in> readable u" using c(1) in_read by blast
    ultimately have "d = c" using readable_eq by blast
    then show "c \<in> set level'" using settled all_spec(2) d new_id by auto
  qed
  have within: "0 < psMax step \<longrightarrow> int (Suc h) \<le> psMax step" using go by auto
  have expanded: "\<exists>cs. arrivals u step inc p = Inr cs" if "m < Suc h" "firstHop ?succ front m p" for m p
  proof (cases "m = h")
    case True
    then have "p \<in> set level" using inv that(2) by (simp add: levelInv_def)
    then show ?thesis using mapM_Inr_all[OF all] by blast
  next
    case False
    then show ?thesis using inv that unfolding levelInv_def by (metis less_SucE)
  qed
  have out: "set (wsOut s2) = answers conf step ?succ front (\<lambda>m. m < Suc h)"
    unfolding answers_Suc using settled all_spec(1) inv by (auto simp: levelInv_def)
  have seen: "set (wsVisited s2) = ID ` {p. \<exists>m \<le> Suc h. atHop ?succ front m p}"
    unfolding atHop_Suc_split visited using inv by (simp add: levelInv_def image_Un)
  have settledIn: "set (wsFixed s2) \<subseteq> set (wsVisited s2)"
    using settled all_spec inv by (auto simp: levelInv_def)
  show ?thesis
    unfolding levelInv_def
    by (intro conjI set_eqI allI impI) (use level' out seen settledIn dist within expanded in simp_all)
qed

text \<open>The loop ends with the answers of every hop the step allows, or on a claim it cannot read.\<close>

definition withinMax :: "pathStep \<Rightarrow> nat \<Rightarrow> bool" where
  "withinMax step m = (0 < psMax step \<longrightarrow> int m < psMax step)"

lemma levelInv_done:
  assumes "levelInv u conf step inc front h level s" "level = [] \<or> (0 < psMax step \<and> psMax step \<le> int h)"
  shows "set (wsOut s) = answers conf step (succOf u step inc) front (withinMax step) \<and>
    (\<forall>m p. withinMax step m \<longrightarrow> firstHop (succOf u step inc) front m p \<longrightarrow> (\<exists>cs. arrivals u step inc p = Inr cs))"
proof -
  let ?succ = "succOf u step inc"
  have maxi: "0 < psMax step \<longrightarrow> int h \<le> psMax step"
    and out: "set (wsOut s) = answers conf step ?succ front (\<lambda>m. m < h)"
    and expanded: "\<And>m p. m < h \<Longrightarrow> firstHop ?succ front m p \<Longrightarrow> \<exists>cs. arrivals u step inc p = Inr cs"
    and level: "set level = {p. firstHop ?succ front h p}"
    using assms(1) unfolding levelInv_def by blast+
  have within: "m < h \<longleftrightarrow> withinMax step m" if "firstHop ?succ front m p" for m p
  proof (cases "level = []")
    case True
    then have "\<not> firstHop ?succ front h q" for q using level by auto
    then have "m < h" using firstHop_empty[of ?succ front h m p] that by (metis not_le)
    then show ?thesis using maxi by (auto simp: withinMax_def)
  next
    case False
    then show ?thesis using assms(2) maxi by (auto simp: withinMax_def)
  qed
  have "answers conf step ?succ front (\<lambda>m. m < h) = answers conf step ?succ front (withinMax step)"
    unfolding answers_def using within by blast
  then show ?thesis using out expanded within by metis
qed

lemma levelInv_fresh:
  assumes "levelInv u conf step inc front h level s" "levelInv u conf step inc front (Suc h) (c # level') s'"
    and "\<And>p. set (succOf u step inc p) \<subseteq> readable u" "front \<subseteq> readable u"
  shows "set (wsVisited s) \<subset> set (wsVisited s')"
proof -
  let ?succ = "succOf u step inc"
  have c: "atHop ?succ front (Suc h) c" "\<forall>m \<le> h. \<not> atHop ?succ front m c"
    using assms(2) by (auto simp: levelInv_def firstHop_def less_Suc_eq_le set_eq_iff)
  have "ID c \<notin> set (wsVisited s)"
  proof
    assume "ID c \<in> set (wsVisited s)"
    then obtain d m where "m \<le> h" "atHop ?succ front m d" "ID c = ID d"
      using assms(1) by (auto simp: levelInv_def)
    moreover have "x \<in> readable u" if "atHop ?succ front k x" for k x
      using atHop_readable[OF assms(3,4) that] .
    ultimately show False using readable_eq[of c u d] c by blast
  qed
  moreover have "ID c \<in> set (wsVisited s')" using c(1) assms(2) by (auto simp: levelInv_def)
  moreover have "set (wsVisited s) \<subseteq> set (wsVisited s')"
    using assms(1,2) by (auto simp: levelInv_def intro: le_SucI)
  ultimately show ?thesis by blast
qed

lemma startLevel_distinct:
  "startLevel conf step fs level s = (level', s') \<Longrightarrow> distinct (map ID (wsOut s)) \<Longrightarrow> distinct (map ID (wsOut s'))"
  by (induction conf step fs level s rule: startLevel.induct)
    (auto simp: Let_def collectAt_distinct split: if_splits)

lemma answers_readable:
  assumes "\<And>p. set (succ p) \<subseteq> R" "front \<subseteq> R"
  shows "answers conf step succ front within \<subseteq> R"
  using assms by (auto simp: answers_def)

context universe
begin

lemma readable_held: "c \<in> readable u \<Longrightarrow> ID c \<in> set (uStored u)"
  using get_held by (auto simp: readable_def)

lemma walkLevels_exact:
  assumes "levelInv u conf step inc front h level s"
    and readable: "\<And>p. set (succOf u step inc p) \<subseteq> readable u" "front \<subseteq> readable u"
    and "(if level = [] then 0 else card (set (uStored u) - set (wsVisited s)) + 1) < fuel"
  shows "case walkLevels fuel L u conf step inc needPaths (int h) level s of
      Inr s' \<Rightarrow> set (wsOut s') = answers conf step (succOf u step inc) front (withinMax step) \<and>
        distinct (map ID (wsOut s')) \<and>
        (\<forall>m p. withinMax step m \<longrightarrow> firstHop (succOf u step inc) front m p \<longrightarrow> (\<exists>cs. arrivals u step inc p = Inr cs))
    | Inl e \<Rightarrow> \<exists>p m. atHop (succOf u step inc) front m p \<and> arrivals u step inc p = Inl e"
  using assms(1,4)
proof (induction fuel arbitrary: h level s)
  case (Suc fuel)
  let ?succ = "succOf u step inc"
  show ?case
  proof (cases "level = [] \<or> (0 < psMax step \<and> psMax step \<le> int h)")
    case True
    then show ?thesis
      using levelInv_done[OF Suc.prems(1) True] Suc.prems(1) by (auto simp: levelInv_def)
  next
    case go: False
    show ?thesis
    proof (cases "mapM (arrivals u step inc) level")
      case (Inl e)
      then obtain p where p: "p \<in> set level" "arrivals u step inc p = Inl e" using mapM_Inl[OF Inl] by blast
      then have "atHop ?succ front h p" using Suc.prems(1) unfolding levelInv_def firstHop_def by blast
      moreover have "walkLevels (Suc fuel) L u conf step inc needPaths (int h) level s = Inl e"
        using Inl go by simp
      ultimately show ?thesis using p(2) by (simp only: sum.case) blast
    next
      case (Inr children)
      obtain s1 best where f: "fold (considerChild L conf step needPaths (int h))
          (concat (map (\<lambda>(cur, cs). map (Pair cur) cs) (zip level children))) (s, []) = (s1, best)" by fastforce
      obtain level' s2 where st: "settleLevel needPaths best [] s1 = (level', s2)" by fastforce
      have inv: "levelInv u conf step inc front (Suc h) level' s2"
        using level_step[OF Suc.prems(1) readable Inr _ f st] go by blast
      have "(if level' = [] then 0 else card (set (uStored u) - set (wsVisited s2)) + 1) < fuel"
      proof (cases level')
        case Nil
        then show ?thesis using Suc.prems(2) go by auto
      next
        case (Cons c cs)
        note fresh = levelInv_fresh[OF Suc.prems(1) inv[unfolded Cons] readable]
        have "ID p \<in> set (uStored u)" if "atHop ?succ front m p" for p m
          using atHop_readable[OF readable that] by (rule readable_held)
        then have "set (wsVisited s2) \<subseteq> set (uStored u)"
          using inv unfolding levelInv_def by (simp add: image_subset_iff) blast
        then have "set (uStored u) - set (wsVisited s2) \<subset> set (uStored u) - set (wsVisited s)"
          using fresh by blast
        then have "card (set (uStored u) - set (wsVisited s2)) < card (set (uStored u) - set (wsVisited s))"
          by (simp add: psubset_card_mono)
        then show ?thesis using Suc.prems(2) go Cons by auto
      qed
      note rest = Suc.IH[OF inv this]
      have "walkLevels (Suc fuel) L u conf step inc needPaths (int h) level s =
          walkLevels fuel L u conf step inc needPaths (int (Suc h)) level' s2"
        using go by (auto simp: Inr f st Let_def algebra_simps)
      then show ?thesis using rest by (simp only:)
    qed
  qed
qed auto

declare walkLevels.simps [simp del]

text \<open>
  One step reaches exactly what it says: the claims a path within the bounds arrives at, where a
  path is extended from the claim it first met.
\<close>

lemma queryWalkStep_exact:
  assumes "set frontier \<subseteq> readable u" "\<And>p. set (succOf u step inc p) \<subseteq> readable u"
  shows "case queryWalkStep L u frontier step inc rs conf needPaths of
      Inr (out, rs') \<Rightarrow> set out = answers conf step (succOf u step inc) (set frontier) (withinMax step) \<and>
        distinct (map ID out) \<and> set out \<subseteq> readable u \<and>
        (\<forall>m p. withinMax step m \<longrightarrow> firstHop (succOf u step inc) (set frontier) m p \<longrightarrow>
          (\<exists>cs. arrivals u step inc p = Inr cs))
    | Inl e \<Rightarrow> \<exists>p m. atHop (succOf u step inc) (set frontier) m p \<and> arrivals u step inc p = Inl e"
proof -
  let ?succ = "succOf u step inc"
  obtain level s where start: "startLevel conf step frontier []
      \<lparr>wsOut = [], wsVisited = [], wsFixed = [], wsRoutes = rs\<rparr> = (level, s)" by fastforce
  note spec = startLevel_spec[OF assms(1) _ _ start, simplified]
  have inv: "levelInv u conf step inc (set frontier) 0 level s"
    using spec startLevel_distinct[OF start] by (auto simp: levelInv_def answers_def)
  have "card (set (uStored u) - set (wsVisited s)) \<le> length (uStored u)"
    by (meson card_Diff_subset_Int card_length card_mono Diff_subset finite_set le_trans)
  then have fuel: "(if level = [] then 0 else card (set (uStored u) - set (wsVisited s)) + 1) < length (uStored u) + 2"
    by simp
  define w where "w = walkLevels (length (uStored u) + 2) L u conf step inc needPaths 0 level s"
  have levels: "case w of
      Inr s' \<Rightarrow> set (wsOut s') = answers conf step ?succ (set frontier) (withinMax step) \<and> distinct (map ID (wsOut s')) \<and>
        (\<forall>m p. withinMax step m \<longrightarrow> firstHop ?succ (set frontier) m p \<longrightarrow> (\<exists>cs. arrivals u step inc p = Inr cs))
    | Inl e \<Rightarrow> \<exists>p m. atHop ?succ (set frontier) m p \<and> arrivals u step inc p = Inl e"
    unfolding w_def using walkLevels_exact[OF inv assms(2,1) fuel, of L needPaths] by simp
  have walk: "queryWalkStep L u frontier step inc rs conf needPaths = rbind w (\<lambda>s'. Inr (wsOut s', wsRoutes s'))"
    by (simp add: queryWalkStep_def start w_def)
  show ?thesis
    using levels answers_readable[of ?succ "readable u", OF assms(2,1), of conf step "withinMax step"]
    unfolding walk by (cases w) simp_all
qed

end

end
