(* ===== verification/QueryRun.thy ===== *)
theory QueryRun
  imports QueryWalk
begin

text \<open>
  The reference executor (\<open>DefaultQuery\<close>, \<open>query_default.go\<close>), the shape and the
  encoding of its results (\<open>query_encode.go\<close>), the report that ends them
  (\<open>query_report.go\<close>) and the read of an archive (\<open>archive.Query\<close>).

  A report is its totals; its events and its clock are left out, and so is the budget
  \<open>limit.time\<close>: a walk is never cut short, which is the argument \<open>bounded\<close> of
  \<open>finishReached\<close>.
\<close>

section \<open>Results\<close>

datatype encoded = EncBytes bytes | EncTree json

record queryReport =
  rpResults :: nat
  rpTruncated :: bool

record queryResult =
  qrKind :: string
  qrClaimId :: ident
  qrPathId :: "ident list"
  qrClaimNative :: "claim option"
  qrPathNative :: "claim list"
  qrClaimEncoded :: "encoded option"
  qrPathEncoded :: "encoded list"
  qrReport :: "queryReport option"

definition KindClaimId :: string where "KindClaimId = ''claim_id''"
definition KindPathId :: string where "KindPathId = ''path_id''"
definition KindClaimNative :: string where "KindClaimNative = ''claim_native''"
definition KindPathNative :: string where "KindPathNative = ''path_native''"
definition KindClaimEncoded :: string where "KindClaimEncoded = ''claim_encoded''"
definition KindPathEncoded :: string where "KindPathEncoded = ''path_encoded''"
definition KindClaimEnvelope :: string where "KindClaimEnvelope = ''claim_envelope''"
definition KindPathEnvelope :: string where "KindPathEnvelope = ''path_envelope''"
definition KindReport :: string where "KindReport = ''report''"

definition reportRank :: "string \<Rightarrow> nat" where
  "reportRank l =
     (if l = ''error'' then 1 else if l = ''warn'' then 2 else if l = ''info'' then 3
      else if l = ''debug'' then 4 else if l = ''trace'' then 5 else 0)"

text \<open>Whether this call owns the report: one is asked for and none is collected around it.\<close>

definition beginReport :: "bool \<Rightarrow> string \<Rightarrow> bool" where
  "beginReport collecting level = (\<not> collecting \<and> reportRank level \<noteq> 0)"

definition AppendReport :: "queryResult list \<Rightarrow> queryReport option \<Rightarrow> queryResult list" where
  "AppendReport rs rep =
     (case rep of None \<Rightarrow> rs
      | Some r \<Rightarrow> rs @ [\<lparr>qrKind = KindReport, qrClaimId = [], qrPathId = [], qrClaimNative = None,
          qrPathNative = [], qrClaimEncoded = None, qrPathEncoded = [], qrReport = Some r\<rparr>])"


section \<open>Encoding\<close>

definition routeIds :: "claim list \<Rightarrow> ident list" where
  "routeIds route = map ID route"

definition encodeOne ::
    "(claim \<Rightarrow> encoded result) \<Rightarrow> string \<Rightarrow> string \<Rightarrow> queryResult \<Rightarrow> queryResult result" where
  "encodeOne enc claimKind pathKind r =
     (if qrKind r = KindReport then Inr r
      else case qrClaimNative r of
          None \<Rightarrow> Inr r
        | Some c \<Rightarrow>
            rbind (wrapping (QueryErr errQuery) (enc c)) (\<lambda>b.
              let r1 = r\<lparr>qrClaimEncoded := Some b, qrKind := claimKind\<rparr> in
                if qrPathNative r = [] then Inr r1
                else rbind (mapM (\<lambda>p. wrapping (QueryErr errQuery) (enc p)) (qrPathNative r)) (\<lambda>route.
                  Inr (r1\<lparr>qrPathEncoded := route, qrKind := pathKind\<rparr>))))"

definition encodeEach ::
    "(claim \<Rightarrow> encoded result) \<Rightarrow> string \<Rightarrow> string \<Rightarrow> queryResult list \<Rightarrow> queryResult list result" where
  "encodeEach enc claimKind pathKind rs = mapM (encodeOne enc claimKind pathKind) rs"

definition formOf :: "string \<Rightarrow> form" where
  "formOf s = (if s = ''materialized'' then FormMaterialized else FormOriginal)"

definition EncodeResults :: "lib \<Rightarrow> outputSpec \<Rightarrow> queryResult list \<Rightarrow> queryResult list result" where
  "EncodeResults L out rs =
     (if ouEncoding out = [] \<or> ouEncoding out = ''native'' then Inr rs
      else if ouDetail out = ''envelope'' then
        encodeEach (\<lambda>c. rbind (Envelope c) (\<lambda>b. Inr (EncBytes b))) KindClaimEnvelope KindPathEnvelope rs
      else if ouEncoding out = ''cbor'' then
        encodeEach (\<lambda>c. rbind (encodeCBOR L c (formOf (ouForm out)) (newContentBudget (ouContent out))) (\<lambda>b.
          Inr (EncBytes b))) KindClaimEncoded KindPathEncoded rs
      else if ouEncoding out = ''json'' then
        encodeEach (\<lambda>c. Inr (EncTree (encodeJSON L c (formOf (ouForm out)) (newContentBudget (ouContent out)))))
          KindClaimEncoded KindPathEncoded rs
      else Inl (QueryErr ErrQueryEncoding))"

section \<open>The executor\<close>

definition shapeResult :: "outputSpec \<Rightarrow> routes \<Rightarrow> claim \<Rightarrow> queryResult" where
  "shapeResult out rs c =
     (let needPaths = (ouShape out = ''path''); idsOnly = (ouDetail out = ''id'');
          route = routeOf rs (ID c)
      in \<lparr>qrKind =
             (if idsOnly then (if needPaths then KindPathId else KindClaimId)
              else (if needPaths then KindPathNative else KindClaimNative)),
          qrClaimId = ID c,
          qrPathId = (if needPaths then routeIds route else []),
          qrClaimNative = (if idsOnly then None else Some c),
          qrPathNative = (if \<not> idsOnly \<and> needPaths then route else []),
          qrClaimEncoded = None, qrPathEncoded = [], qrReport = None\<rparr>)"

definition whereHolds :: "lib \<Rightarrow> (int \<Rightarrow> nat \<Rightarrow> string) \<Rightarrow> where_tree option \<Rightarrow> claim \<Rightarrow> bool" where
  "whereHolds L F w c = (case w of None \<Rightarrow> True | Some t \<Rightarrow> evalWhere L F t c)"

definition limitResults :: "int \<Rightarrow> claim list \<Rightarrow> claim list \<times> bool" where
  "limitResults n cs = (if 0 < n \<and> n < int (length cs) then (take (nat n) cs, True) else (cs, False))"

definition finishReached ::
    "lib \<Rightarrow> (int \<Rightarrow> nat \<Rightarrow> string) \<Rightarrow> query \<Rightarrow> claim list \<Rightarrow> routes \<Rightarrow> bool \<Rightarrow> bool \<Rightarrow> queryResult list result" where
  "finishReached L F q reached rs bounded createdReport =
     (let (kept, cut) = limitResults (qLimitResults q)
            (sortResults L F (qOrder q) (filter (whereHolds L F (qWhere q)) reached))
      in rbind (EncodeResults L (qOutput q) (map (shapeResult (qOutput q) rs) kept)) (\<lambda>results.
           Inr (AppendReport results
             (if createdReport then Some \<lparr>rpResults = length results, rpTruncated = bounded \<or> cut\<rparr> else None))))"

definition closureOrigin :: "selection \<Rightarrow> scope \<Rightarrow> ident result" where
  "closureOrigin sel sc =
     (if slHead sel \<noteq> [] then Inr (slHead sel)
      else if scHead sc \<noteq> [] then Inr (scHead sc)
      else Inl (QueryErr ErrQueryNoHead))"

definition frontierIds :: "selection \<Rightarrow> ident \<Rightarrow> ident list" where
  "frontierIds sel origin = (if slClaim sel \<noteq> [] then slClaim sel else [origin])"

text \<open>The selection the walk runs: no path asks for the closure of the frontier.\<close>

definition walkSelection :: "selection \<Rightarrow> ident \<Rightarrow> selection" where
  "walkSelection sel origin =
     (if slPath sel = None then sel\<lparr>slClaim := frontierIds sel origin, slPath := Some [startStep]\<rparr> else sel)"

definition DefaultQuery ::
    "lib \<Rightarrow> (int \<Rightarrow> nat \<Rightarrow> string) \<Rightarrow> uni \<Rightarrow> bool \<Rightarrow> bool \<Rightarrow> query \<Rightarrow> scope \<Rightarrow> queryResult list result" where
  "DefaultQuery L F u tagsKept collecting q sc =
     rbind (closureOrigin (qSelect q) sc) (\<lambda>origin.
     rbind (confine u tagsKept sc) (\<lambda>conf.
       let sel = qSelect q;
           needPaths = (ouShape (qOutput q) = ''path'' \<and> slPath sel \<noteq> None \<and> slPath sel \<noteq> Some [])
       in rbind (queryTraverse L u (walkSelection sel origin) origin conf needPaths) (\<lambda>(reached, rs).
            finishReached L F q reached rs False (beginReport collecting (qReport q)))))"

section \<open>The read of an archive\<close>

definition validateSelect :: "query \<Rightarrow> unit result" where
  "validateSelect q =
     (if (slPath (qSelect q) = None \<or> slPath (qSelect q) = Some []) \<and> ouShape (qOutput q) = ''path''
      then Inl (QueryErr ErrQueryScanShape) else Inr ())"

text \<open>The archive of a store whose \<open>Query\<close> is the reference executor, as the memory Universe's is.\<close>

definition archiveQuery ::
    "lib \<Rightarrow> (int \<Rightarrow> nat \<Rightarrow> string) \<Rightarrow> bool \<Rightarrow> bool \<Rightarrow> archive \<Rightarrow> query \<Rightarrow> queryResult list result" where
  "archiveQuery L F tagsKept collecting a q =
     rbind (ValidateQuery q) (\<lambda>_. rbind (validateSelect q) (\<lambda>_.
       rbind (resolveScope a (slBranch (qSelect q))) (\<lambda>sc.
         DefaultQuery L F (arUni a) tagsKept collecting q sc)))"

section \<open>What a step answers\<close>

text \<open>A walk of a number of hops the step's bounds admit.\<close>

definition withinBounds :: "pathStep \<Rightarrow> nat \<Rightarrow> bool" where
  "withinBounds step h = (MinHops step \<le> int h \<and> (0 < psMax step \<longrightarrow> int h \<le> psMax step))"

lemma answers_sound:
  assumes "c \<in> answers conf step succ front (withinMax step)"
  shows "stepOk conf step c \<and> (\<exists>h. atHop succ front h c \<and> withinBounds step h)"
proof -
  consider "MinHops step \<le> 0" "c \<in> front" |
    p m where "withinMax step m" "firstHop succ front m p" "c \<in> set (succ p)" "MinHops step \<le> int m + 1"
    using assms unfolding answers_def by blast
  then have "\<exists>h. atHop succ front h c \<and> withinBounds step h"
  proof cases
    case 1
    then show ?thesis by (intro exI[of _ 0]) (simp add: withinBounds_def)
  next
    case 2
    then show ?thesis
      by (intro exI[of _ "Suc m"]) (auto simp: withinBounds_def withinMax_def firstHop_def intro: atHop.hop)
  qed
  then show ?thesis using assms by (simp add: answers_def)
qed

lemma answers_complete:
  assumes "stepOk conf step c" "atHop succ front h c" "withinBounds step h" "MinHops step \<le> 1"
  shows "c \<in> answers conf step succ front (withinMax step)"
proof (cases h)
  case 0
  then show ?thesis using assms by (simp add: answers_def withinBounds_def)
next
  case (Suc k)
  then obtain p where p: "atHop succ front k p" "c \<in> set (succ p)" using assms(2) by (auto elim: atHop_SucE)
  obtain m where m: "m \<le> k" "firstHop succ front m p" using firstHop_exists[OF p(1)] by blast
  then have "withinMax step m" "MinHops step \<le> int m + 1"
    using assms(3,4) Suc by (auto simp: withinBounds_def withinMax_def)
  then show ?thesis using assms(1) m(2) p(2) by (auto simp: answers_def)
qed

lemma list_all2_left: "list_all2 P xs ys \<Longrightarrow> y \<in> set ys \<Longrightarrow> \<exists>x \<in> set xs. P x y"
  by (induction rule: list_all2_induct) auto

lemma list_all2_right: "list_all2 P xs ys \<Longrightarrow> x \<in> set xs \<Longrightarrow> \<exists>y \<in> set ys. P x y"
  by (induction rule: list_all2_induct) auto

lemma arrivals_forward:
  assumes "\<not> stepReverse step"
  shows "arrivals u step inc p = Inr cs \<longleftrightarrow>
    list_all2 (\<lambda>e c. GetClaim u False (eReference e) = Inr c)
      (if stepForward step then filter (\<lambda>e. matchTypeList (psEdges step) (edgeType e)) (Edges p []) else []) cs"
  using assms by (auto simp: arrivals_def rbind_eq_Inr mapM_Inr_iff wrapping_eq_Inr)

context universe
begin

lemma get_readable: "GetClaim u False i = Inr c \<Longrightarrow> c \<in> readable u"
  using get_id[of False i c] by (simp add: readable_def)

lemma succOf_forward:
  assumes "\<not> stepReverse step"
  shows "set (succOf u step inc p) \<subseteq> readable u"
proof (cases "arrivals u step inc p")
  case (Inr cs)
  then have "list_all2 (\<lambda>e c. GetClaim u False (eReference e) = Inr c)
      (if stepForward step then filter (\<lambda>e. matchTypeList (psEdges step) (edgeType e)) (Edges p []) else []) cs"
    using arrivals_forward[OF assms] by blast
  then have "c \<in> readable u" if "c \<in> set cs" for c
    using that get_readable by (auto simp: list_all2_conv_all_nth in_set_conv_nth)
  then show ?thesis by (auto simp: succOf_def Inr)
qed (simp add: succOf_def)

lemma step_walks:
  assumes "queryWalkStep L u frontier step inc rs conf needPaths = Inr (out, rs')"
    and "set frontier \<subseteq> readable u" "\<not> stepReverse step"
  shows "distinct (map ID out) \<and> set out \<subseteq> readable u \<and>
    (\<forall>c \<in> set out. stepOk conf step c \<and> (\<exists>h. atHop (succOf u step inc) (set frontier) h c \<and> withinBounds step h)) \<and>
    (MinHops step \<le> 1 \<longrightarrow>
      (\<forall>c h. stepOk conf step c \<longrightarrow> atHop (succOf u step inc) (set frontier) h c \<longrightarrow> withinBounds step h \<longrightarrow> c \<in> set out))"
proof -
  have "set out = answers conf step (succOf u step inc) (set frontier) (withinMax step) \<and>
      distinct (map ID out) \<and> set out \<subseteq> readable u"
    using queryWalkStep_exact[where L = L and inc = inc and rs = rs and conf = conf and needPaths = needPaths,
        OF assms(2) succOf_forward[OF assms(3)]]
    unfolding assms(1) sum.case prod.case by blast
  then show ?thesis
    using answers_sound[of _ conf step "succOf u step inc" "set frontier"]
      answers_complete[of conf step _ "succOf u step inc" "set frontier"] by blast
qed

section \<open>The closure of the frontier\<close>

lemma startStep_simps [simp]:
  "psEdges startStep = []" "psDir startStep = []" "MinHops startStep = 0" "psMax startStep = 0"
  "psNodes startStep = []" "stepForward startStep" "\<not> stepReverse startStep" "withinMax startStep m"
  "withinBounds startStep m" "stepOk conf startStep c = admits conf c"
  by (simp_all add: startStep_def anyStep_def MinHops_def stepForward_def stepReverse_def withinMax_def
      withinBounds_def stepOk_def matchTypeList_def DirUses_def DirConnections_def)

lemma arrivals_start:
  "arrivals u startStep inc p = Inr cs \<longleftrightarrow> list_all2 (\<lambda>r c. GetClaim u False r = Inr c) (refsOf p) cs"
  by (simp add: arrivals_forward refsOf_def list_all2_map1 matchTypeList_def)

text \<open>When every claim met could be expanded, hops are reachability.\<close>

lemma hops_reach:
  assumes "ID ` front = set ids - {[]}" "front \<subseteq> readable u"
    and expanded: "\<And>h p. atHop (succOf u startStep inc) front h p \<Longrightarrow> \<exists>cs. arrivals u startStep inc p = Inr cs"
  shows "c \<in> readable u \<and> reach (refsM u) ids (ID c) \<longleftrightarrow> (\<exists>h. atHop (succOf u startStep inc) front h c)"
proof -
  let ?succ = "succOf u startStep inc"
  have readable: "p \<in> readable u" if "atHop ?succ front h p" for h p
    using atHop_readable[OF succOf_forward assms(2) that] by simp
  have children: "list_all2 (\<lambda>r c. GetClaim u False r = Inr c) (refsM u (ID p)) (?succ p)"
    if at: "atHop ?succ front h p" for h p
  proof -
    obtain cs where "arrivals u startStep inc p = Inr cs" using expanded[OF at] by blast
    moreover have "refsM u (ID p) = refsOf p" using readable[OF at] by (simp add: refsM_def readable_def)
    ultimately show ?thesis using arrivals_start[of inc p cs] by (simp add: succOf_def)
  qed
  have fwd: "reach (refsM u) ids (ID p)" if "atHop ?succ front h p" for h p
    using that
  proof (induction rule: atHop.induct)
    case (start c)
    then show ?case using assms(1) by (intro reach.root) auto
  next
    case (hop h p c)
    obtain r where r: "r \<in> set (refsM u (ID p))" "GetClaim u False r = Inr c"
      using list_all2_left[OF children[OF hop.hyps(1)] hop.hyps(2)] by blast
    then have "ID c = r" "r \<noteq> []" using get_id[OF r(2)] by blast+
    then show ?case using reach.step[OF hop.IH r(1)] by simp
  qed
  have bwd: "\<exists>h p. atHop ?succ front h p \<and> ID p = k" if "reach (refsM u) ids k" for k
    using that
  proof (induction rule: reach.induct)
    case (root r)
    then obtain c where "c \<in> front" "ID c = r" using assms(1) by (metis DiffI imageE singletonD)
    then show ?case by (intro exI[of _ 0] exI[of _ c]) simp
  next
    case (step k r)
    then obtain h p where p: "atHop ?succ front h p" "ID p = k" by blast
    then obtain c where "c \<in> set (?succ p)" "GetClaim u False r = Inr c"
      using list_all2_right[OF children[OF p(1)]] step.hyps(2) by blast
    then show ?case using atHop.hop[OF p(1)] get_id[of False r c] by blast
  qed
  show ?thesis using fwd bwd readable readable_eq by metis
qed

lemma loadAnchors_spec:
  "loadAnchors u ids seen out = Inr cs \<Longrightarrow> set out \<subseteq> readable u \<Longrightarrow>
     set cs \<subseteq> readable u \<and> ID ` set cs = ID ` set out \<union> (set ids - insert [] (set seen))"
proof (induction ids arbitrary: seen out)
  case (Cons i is')
  show ?case
  proof (cases "i = [] \<or> i \<in> set seen")
    case True
    then show ?thesis using Cons by auto
  next
    case False
    then obtain c where c: "GetClaim u False i = Inr c" "loadAnchors u is' (i # seen) (out @ [c]) = Inr cs"
      using Cons.prems(1) by (auto simp: rbind_eq_Inr wrapping_eq_Inr)
    have "ID c = i" "c \<in> readable u" using get_id[OF c(1)] get_readable[OF c(1)] by simp_all
    then show ?thesis using Cons.IH[OF c(2)] c Cons.prems(2) False by auto
  qed
qed auto

lemma closure_walk:
  assumes "queryTraverse L u (walkSelection sel origin) origin conf needPaths = Inr (reached, rs)" "slPath sel = None"
  shows "distinct (map ID reached) \<and>
    set reached = {c. c \<in> readable u \<and> reach (refsM u) (frontierIds sel origin) (ID c) \<and> admits conf c}"
proof -
  let ?ids = "frontierIds sel origin"
  have "?ids \<noteq> []" by (simp add: frontierIds_def)
  then obtain front where start: "loadAnchors u ?ids [] [] = Inr front"
    and step: "queryWalkStep L u front startStep [] (fold (\<lambda>c. AList.update (ID c) [c]) front []) conf needPaths = Inr (reached, rs)"
    using assms
    by (auto simp: queryTraverse_def walkSelection_def walkStart_def stepsNeedReverse_def rbind_eq_Inr)
  have front: "set front \<subseteq> readable u" "ID ` set front = set ?ids - {[]}"
    using loadAnchors_spec[OF start] by simp_all
  let ?succ = "succOf u startStep []"
  have expanded: "\<exists>cs. arrivals u startStep [] p = Inr cs" if p: "atHop ?succ (set front) h p" for h p
  proof -
    obtain m where "firstHop ?succ (set front) m p" using firstHop_exists[OF p] by blast
    then show ?thesis
      using queryWalkStep_exact[where L = L and inc = "[]" and rs = "fold (\<lambda>c. AList.update (ID c) [c]) front []"
          and conf = conf and needPaths = needPaths and step = startStep, OF front(1) succOf_forward]
      unfolding step sum.case prod.case by auto
  qed
  have walks: "distinct (map ID reached)" "\<And>c. c \<in> set reached \<longleftrightarrow> admits conf c \<and> (\<exists>h. atHop ?succ (set front) h c)"
    using step_walks[OF step front(1)] by auto
  have hops: "c \<in> readable u \<and> reach (refsM u) ?ids (ID c) \<longleftrightarrow> (\<exists>h. atHop ?succ (set front) h c)" for c
    by (rule hops_reach[OF front(2,1)]) (rule expanded)
  show ?thesis using walks hops by blast
qed

end

section \<open>From the reached claims to the results\<close>

lemma kinds_not_report [simp]:
  "KindClaimId \<noteq> KindReport" "KindPathId \<noteq> KindReport" "KindClaimNative \<noteq> KindReport"
  "KindPathNative \<noteq> KindReport" "KindClaimEncoded \<noteq> KindReport" "KindPathEncoded \<noteq> KindReport"
  "KindClaimEnvelope \<noteq> KindReport" "KindPathEnvelope \<noteq> KindReport"
  by (simp_all add: KindClaimId_def KindPathId_def KindClaimNative_def KindPathNative_def KindClaimEncoded_def
      KindPathEncoded_def KindClaimEnvelope_def KindPathEnvelope_def KindReport_def)






section \<open>Properties\<close>






text \<open>
  Property C26 (path_step_walks): a forward step answers claims its node patterns and the scope
  admit, each once, and each at the end of a walk along the edges the step names, of a length
  within its bounds; when the lower bound is at most one it answers all of them.
\<close>

theorem path_step_walks:
  assumes "queryWalkStep L (memUni lib m) frontier step inc rs conf needPaths = Inr (out, rs')"
    and "\<forall>c \<in> set frontier. GetClaim (memUni lib m) False (ID c) = Inr c" "\<not> stepReverse step"
  shows "distinct (map ID out) \<and>
    (\<forall>c \<in> set out. stepOk conf step c \<and>
      (\<exists>h. atHop (succOf (memUni lib m) step inc) (set frontier) h c \<and> withinBounds step h)) \<and>
    (MinHops step \<le> 1 \<longrightarrow>
      (\<forall>c h. stepOk conf step c \<longrightarrow> atHop (succOf (memUni lib m) step inc) (set frontier) h c \<longrightarrow>
        withinBounds step h \<longrightarrow> c \<in> set out))"
proof -
  have "set frontier \<subseteq> readable (memUni lib m)" using assms(2) by (auto simp: readable_def)
  from mem.step_walks[OF assms(1) this assms(3)] show ?thesis by blast
qed

lemma oneStep_runs:
  "resultOf (\<lambda>(out, rs). map ID out) (rbind (GetClaim (memUni graphLib graphMem) False ''hB'') (\<lambda>c.
     queryWalkStep graphLib (memUni graphLib graphMem) [c] anyStep [] [] None False)) = Some [''hA'']"
  by code_simp

theorem path_step_walks_witness:
  "\<exists>b c. GetClaim (memUni graphLib graphMem) False ''hB'' = Inr b \<and> ID c = ''hA'' \<and>
     (\<exists>h. atHop (succOf (memUni graphLib graphMem) anyStep []) {b} h c \<and> withinBounds anyStep h)"
proof -
  obtain b out rs where b: "GetClaim (memUni graphLib graphMem) False ''hB'' = Inr b"
    "queryWalkStep graphLib (memUni graphLib graphMem) [b] anyStep [] [] None False = Inr (out, rs)" "map ID out = [''hA'']"
    using oneStep_runs by (auto simp: resultOf_Some rbind_eq_Inr)
  have "ID b = ''hB''" using mem.get_id[OF b(1)] by simp
  then have "\<forall>c \<in> set [b]. GetClaim (memUni graphLib graphMem) False (ID c) = Inr c" using b(1) by simp
  moreover have "\<not> stepReverse anyStep" by (simp add: anyStep_def stepReverse_def DirUses_def DirConnections_def)
  ultimately have "\<forall>c \<in> set out. \<exists>h. atHop (succOf (memUni graphLib graphMem) anyStep []) (set [b]) h c \<and> withinBounds anyStep h"
    using path_step_walks[OF b(2)] by blast
  moreover obtain c where "c \<in> set out" "ID c = ''hA''" using b(3) by (cases out) auto
  ultimately show ?thesis using b(1) by auto
qed

end
