(* ===== verification/Tagger.thy ===== *)
theory Tagger
  imports QueryRun
begin

text \<open>
  The tagger (\<open>universe_default_tagger.go\<close>): it descends the branch-table spine and stamps,
  oldest revision first, every claim of each branch's closure with the height the branch reached it
  at. A tag is what a scope is confined by (\<open>tagConfinement\<close>).
\<close>

section \<open>One branch of one revision\<close>

type_synonym tagMap = "(ident \<times> gomap) list"

definition tagAt :: "tagMap \<Rightarrow> ident \<Rightarrow> string \<Rightarrow> string" where
  "tagAt tags i key = getz (getm tags i) key"

definition setTagAt :: "tagMap \<Rightarrow> ident \<Rightarrow> string \<Rightarrow> string \<Rightarrow> tagMap" where
  "setTagAt tags i key v = AList.update i (AList.update key v (getm tags i)) tags"

definition queueRef :: "ident \<Rightarrow> ident list \<Rightarrow> ident list" where
  "queueRef r level = (if r = [] \<or> r \<in> set level then level else level @ [r])"

definition tagOne :: "string \<Rightarrow> string \<Rightarrow> claim \<Rightarrow> tagMap \<times> ident list \<Rightarrow> tagMap \<times> ident list" where
  "tagOne key v c s =
     (case s of (tags, level) \<Rightarrow>
        if Tag c key \<noteq> [] \<or> tagAt tags (ID c) key \<noteq> [] then s
        else (setTagAt tags (ID c) key v, fold queueRef (refsOf c) level))"

text \<open>
  Level by level. Each level after the first was queued by a claim just tagged, so that a fuel past
  the number of stored claims is never used up.
\<close>

fun tagLevels :: "nat \<Rightarrow> uni \<Rightarrow> string \<Rightarrow> string \<Rightarrow> ident list \<Rightarrow> tagMap \<Rightarrow> tagMap result" where
  "tagLevels 0 u key v frontier tags = Inl errDiverges"
| "tagLevels (Suc fuel) u key v frontier tags =
     (if frontier = [] then Inr tags
      else rbind (uGetClaims u True frontier) (\<lambda>cs.
        let (tags', level) = fold (tagOne key v) cs (tags, []) in tagLevels fuel u key v level tags'))"

definition tagBranchClosure :: "uni \<Rightarrow> string \<Rightarrow> ident \<Rightarrow> int \<Rightarrow> tagMap \<Rightarrow> tagMap result" where
  "tagBranchClosure u branch head h tags =
     tagLevels (length (uStored u) + 2) u (BranchTagKey branch) (appendInt h 0) [head] tags"

section \<open>The spine\<close>

text \<open>
  The untagged tables from the head down, newest first, and the revision the oldest of them gets.
  A spine that returned to a table would be descended for ever; each claim is stored once, so that
  the fuel is past any spine that does not.
\<close>

fun descendSpine :: "nat \<Rightarrow> uni \<Rightarrow> bool \<Rightarrow> ident \<Rightarrow> claim list \<Rightarrow> (claim list \<times> u64) result" where
  "descendSpine 0 u retagAll i spine = Inl errDiverges"
| "descendSpine (Suc fuel) u retagAll i spine =
     (if i = [] then Inr (spine, 0)
      else rbind (GetClaim u True i) (\<lambda>bt.
        let r = Tag bt SpineRevKey in
          if r \<noteq> [] \<and> \<not> retagAll then
            (case parseUint r of None \<Rightarrow> Inl (LibErr ''invalid syntax'') | Some k \<Rightarrow> Inr (spine, k + 1))
          else
            descendSpine fuel u retagAll
              (case Edges bt [EdgeFilterTypes [EdgeTypeDiff, EdgeTypeBranches]] of
                 [] \<Rightarrow> [] | e # _ \<Rightarrow> eReference e)
              (spine @ [bt])))"

definition intOf :: "u64 \<Rightarrow> int" where
  "intOf h = sint h"

fun tagBranches :: "uni \<Rightarrow> int \<Rightarrow> edge list \<Rightarrow> tagMap \<Rightarrow> tagMap result" where
  "tagBranches u h [] tags = Inr tags"
| "tagBranches u h (e # es) tags =
     rbind (edgeGetField e FieldName) (\<lambda>name.
     rbind (tagBranchClosure u name (eReference e) h tags) (\<lambda>tags'. tagBranches u h es tags'))"

definition tagTable :: "uni \<Rightarrow> u64 \<Rightarrow> claim \<Rightarrow> tagMap result" where
  "tagTable u revision bt =
     rbind (tagBranches u (intOf (claimHeight bt)) (Edges bt [EdgeFilterType EdgeTypeBranch]) []) (\<lambda>tags.
       Inr (setTagAt tags (ID bt) SpineRevKey (appendInt (uint revision) 0)))"

definition NewSpineItem :: "ident \<Rightarrow> int \<Rightarrow> int \<Rightarrow> int \<Rightarrow> spineItem" where
  "NewSpineItem i rv h t = \<lparr>siId = i, siRevision = rv, siHeight = h, siTimestamp = t\<rparr>"

fun tagRevisions ::
    "lib \<Rightarrow> memoryUniverse \<Rightarrow> u64 \<Rightarrow> claim list \<Rightarrow> spineItem list \<Rightarrow> memoryUniverse \<times> spineItem list result" where
  "tagRevisions L m revision [] items = (m, Inr items)"
| "tagRevisions L m revision (bt # tables) items =
     (case tagTable (memUni L m) revision bt of
        Inl e \<Rightarrow> (m, Inl e)
      | Inr tags \<Rightarrow>
          tagRevisions L (memSetClaimsTags m [] tags) (revision + 1) tables
            (items @ [NewSpineItem (ID bt) (intOf revision) (intOf (claimHeight bt)) (claimCreatedAt bt)]))"

definition TagArchive :: "lib \<Rightarrow> memoryUniverse \<Rightarrow> claim \<Rightarrow> bool \<Rightarrow> memoryUniverse \<times> spineItem list result" where
  "TagArchive L m bth retagAll =
     (case descendSpine (length (mClaims m) + 1) (memUni L m) retagAll (ID bth) [] of
        Inl e \<Rightarrow> (m, Inl e)
      | Inr (spine, base) \<Rightarrow> tagRevisions L m base (rev spine) [])"

definition DefaultTag :: "lib \<Rightarrow> memoryUniverse \<Rightarrow> ident \<Rightarrow> memoryUniverse \<times> unit result" where
  "DefaultTag L m head =
     (if head = [] then (m, Inr ())
      else case NewArchive (Some (memUni L m)) head of
          Inl e \<Rightarrow> (m, Inl e)
        | Inr a \<Rightarrow>
            (case TagArchive L m (arTable a) False of
               (m', Inl e) \<Rightarrow> (m', Inl e)
             | (m', Inr _) \<Rightarrow> (m', Inr ())))"

lemma appendInt_nonempty: "appendInt h 0 \<noteq> []"
  unfolding appendInt_def by (simp add: decDigits.simps[of "\<bar>h\<bar>"] Let_def)

section \<open>What tagging one branch leaves\<close>

definition taggedIn :: "tagMap \<Rightarrow> string \<Rightarrow> ident set" where
  "taggedIn tags key = {i. tagAt tags i key \<noteq> []}"

text \<open>The claims the store already tags.\<close>

definition taggedBefore :: "uni \<Rightarrow> string \<Rightarrow> ident set" where
  "taggedBefore u key = {i. \<exists>c. GetClaim u True i = Inr c \<and> Tag c key \<noteq> []}"

lemma tagAt_set: "tagAt (setTagAt tags i key v) j k = (if j = i \<and> k = key then v else tagAt tags j k)"
  by (auto simp: tagAt_def setTagAt_def getm_def getz_def update_conv' split: option.split)

lemma set_queueRefs: "set (fold queueRef rs level) = set level \<union> (set rs - {[]})"
  by (induction rs arbitrary: level) (auto simp: queueRef_def)

lemma tagOne_simp:
  "tagOne key v c (tags, level) =
     (if Tag c key \<noteq> [] \<or> tagAt tags (ID c) key \<noteq> [] then (tags, level)
      else (setTagAt tags (ID c) key v, fold queueRef (refsOf c) level))"
  by (simp add: tagOne_def)

lemma set_empty_un: "set [] \<union> A = A"
  by simp

text \<open>One pass over a level: \<open>new\<close> are the claims it tags.\<close>

lemma tagOnes_spec:
  assumes "fold (tagOne key v) cs (tags, level) = (tags', level')" "v \<noteq> []"
    and "\<And>c d. c \<in> set cs \<Longrightarrow> d \<in> set cs \<Longrightarrow> ID c = ID d \<Longrightarrow> c = d"
  defines "new \<equiv> {c \<in> set cs. Tag c key = [] \<and> tagAt tags (ID c) key = []}"
  shows "(\<forall>j k. tagAt tags' j k = (if k = key \<and> j \<in> ID ` new then v else tagAt tags j k)) \<and>
    set level' = set level \<union> (\<Union>c \<in> new. set (refsOf c) - {[]})"
  using assms(1,3) unfolding new_def
proof (induction cs arbitrary: tags level)
  case (Cons c cs)
  show ?case
  proof (cases "Tag c key \<noteq> [] \<or> tagAt tags (ID c) key \<noteq> []")
    case True
    then have "fold (tagOne key v) cs (tags, level) = (tags', level')" using Cons.prems(1) True by (simp add: tagOne_simp)
    from Cons.IH[OF this] Cons.prems(2) have
      "(\<forall>j k. tagAt tags' j k = (if k = key \<and> j \<in> ID ` {c \<in> set cs. Tag c key = [] \<and> tagAt tags (ID c) key = []} then v else tagAt tags j k)) \<and>
       set level' = set level \<union> (\<Union>c \<in> {c \<in> set cs. Tag c key = [] \<and> tagAt tags (ID c) key = []}. set (refsOf c) - {[]})"
      by simp
    moreover have "{d \<in> set (c # cs). Tag d key = [] \<and> tagAt tags (ID d) key = []} =
        {d \<in> set cs. Tag d key = [] \<and> tagAt tags (ID d) key = []}" using True by auto
    ultimately show ?thesis by simp
  next
    case False
    let ?t = "setTagAt tags (ID c) key v"
    have "fold (tagOne key v) cs (?t, fold queueRef (refsOf c) level) = (tags', level')"
      using Cons.prems(1) False by (simp add: tagOne_simp)
    from Cons.IH[OF this] Cons.prems(2) have ih:
      "\<forall>j k. tagAt tags' j k = (if k = key \<and> j \<in> ID ` {d \<in> set cs. Tag d key = [] \<and> tagAt ?t (ID d) key = []} then v else tagAt ?t j k)"
      "set level' = set level \<union> (set (refsOf c) - {[]}) \<union> (\<Union>d \<in> {d \<in> set cs. Tag d key = [] \<and> tagAt ?t (ID d) key = []}. set (refsOf d) - {[]})"
      by (simp_all add: set_queueRefs)
    have other: "tagAt ?t (ID d) key = [] \<longleftrightarrow> ID d \<noteq> ID c \<and> tagAt tags (ID d) key = []" for d
      using assms(2) by (simp add: tagAt_set)
    have same: "d = c" if "d \<in> set cs" "ID d = ID c" for d
      using Cons.prems(2)[of d c] that by simp
    have "{d \<in> set (c # cs). Tag d key = [] \<and> tagAt tags (ID d) key = []} =
        insert c {d \<in> set cs. Tag d key = [] \<and> tagAt ?t (ID d) key = []}"
      unfolding other using False same by auto
    then show ?thesis using ih by (auto simp: tagAt_set)
  qed
qed auto

context universe
begin

text \<open>
  The levels visited so far: what they tagged, what is still to be visited, and that nothing tagged
  has a reference outside both.
\<close>

definition tagInv :: "string \<Rightarrow> string \<Rightarrow> tagMap \<Rightarrow> ident list \<Rightarrow> tagMap \<Rightarrow> ident list \<Rightarrow> bool" where
  "tagInv key v tags0 front0 tags front \<longleftrightarrow>
     (\<forall>j k. tagAt tags j k = (if k = key \<and> j \<in> taggedIn tags key - taggedIn tags0 key then v else tagAt tags0 j k)) \<and>
     taggedIn tags0 key \<subseteq> taggedIn tags key \<and>
     taggedIn tags key - taggedIn tags0 key \<subseteq> {i. reach (refs u) front0 i} \<and>
     (\<forall>i \<in> set front. reach (refs u) front0 i) \<and>
     (\<forall>i \<in> set front0 - {[]}. i \<in> taggedIn tags key \<union> taggedBefore u key \<union> set front) \<and>
     (\<forall>i \<in> taggedIn tags key - taggedIn tags0 key. i \<in> set (uStored u) \<and>
       set (refs u i) - {[]} \<subseteq> taggedIn tags key \<union> taggedBefore u key \<union> set front)"

lemma tag_step:
  assumes inv: "tagInv key v tags0 front0 tags front" and v: "v \<noteq> []"
    and get: "uGetClaims u True front = Inr cs" and f: "fold (tagOne key v) cs (tags, []) = (tags', level)"
  shows "tagInv key v tags0 front0 tags' level \<and>
    (level \<noteq> [] \<longrightarrow> taggedIn tags key \<inter> set (uStored u) \<subset> taggedIn tags' key \<inter> set (uStored u))"
proof -
  have read: "list_all2 (\<lambda>i c. GetClaim u True i = Inr c) front cs" using get by (simp add: get_bulk)
  have id: "GetClaim u True (ID c) = Inr c \<and> ID c \<in> set front \<and> ID c \<noteq> [] \<and> ID c \<in> set (uStored u) \<and> refs u (ID c) = refsOf c"
    if c: "c \<in> set cs" for c
  proof -
    obtain i where "i \<in> set front" "GetClaim u True i = Inr c" using list_all2_left[OF read c] by blast
    then show ?thesis using get_id[of True i c] refs_delta[of i c] by auto
  qed
  let ?new = "{c \<in> set cs. Tag c key = [] \<and> tagAt tags (ID c) key = []}"
  have uniq: "c = d" if "c \<in> set cs" "d \<in> set cs" "ID c = ID d" for c d
    using id[OF that(1)] id[OF that(2)] that(3) by (metis sum.inject(2))
  note pass = tagOnes_spec[OF f v uniq, unfolded set_empty_un]
  have spec: "\<And>j k. tagAt tags' j k = (if k = key \<and> j \<in> ID ` ?new then v else tagAt tags j k)"
    "set level = (\<Union>c \<in> ?new. set (refsOf c) - {[]})"
    using pass by blast+
  have tagged: "taggedIn tags' key = taggedIn tags key \<union> ID ` ?new"
    using v by (auto simp: taggedIn_def spec(1))
  have fresh: "i \<notin> taggedIn tags key" if "i \<in> ID ` ?new" for i
    using that by (auto simp: taggedIn_def)
  have front_done: "i \<in> taggedIn tags' key \<union> taggedBefore u key" if i: "i \<in> set front" for i
  proof -
    obtain c where c: "c \<in> set cs" "GetClaim u True i = Inr c" using list_all2_right[OF read i] by blast
    then have "ID c = i" using get_id[of True i c] by simp
    then have "i \<in> taggedBefore u key \<or> i \<in> taggedIn tags key \<or> i \<in> ID ` ?new"
      using c by (auto simp: taggedIn_def taggedBefore_def)
    then show ?thesis using tagged by blast
  qed
  note old = inv[unfolded tagInv_def]
  have "level \<noteq> [] \<longrightarrow> taggedIn tags key \<inter> set (uStored u) \<subset> taggedIn tags' key \<inter> set (uStored u)"
  proof
    assume "level \<noteq> []"
    then obtain c where "c \<in> ?new" using spec(2) by (cases "?new = {}") auto
    then show "taggedIn tags key \<inter> set (uStored u) \<subset> taggedIn tags' key \<inter> set (uStored u)"
      using id[of c] fresh[of "ID c"] tagged by auto
  qed
  moreover have "tagInv key v tags0 front0 tags' level"
    unfolding tagInv_def
  proof (intro conjI allI ballI subsetI)
    have o1: "tagAt tags j k = (if k = key \<and> j \<in> taggedIn tags key - taggedIn tags0 key then v else tagAt tags0 j k)" for j k
      using old by blast
    have o2: "taggedIn tags0 key \<subseteq> taggedIn tags key" using old by blast
    show "tagAt tags' j k = (if k = key \<and> j \<in> taggedIn tags' key - taggedIn tags0 key then v else tagAt tags0 j k)" for j k
      using fresh[of j] o2 by (auto simp: spec(1) o1 tagged)
    show "i \<in> taggedIn tags' key" if "i \<in> taggedIn tags0 key" for i using that o2 tagged by blast
    show "i \<in> {i. reach (refs u) front0 i}" if "i \<in> taggedIn tags' key - taggedIn tags0 key" for i
      using that old id unfolding tagged by blast
    show "reach (refs u) front0 i" if queued: "i \<in> set level" for i
    proof -
      obtain c where c: "c \<in> set cs" "i \<in> set (refsOf c)" "i \<noteq> []" using queued unfolding spec(2) by blast
      then have "reach (refs u) front0 (ID c)" using id[OF c(1)] old by blast
      then show ?thesis using reach.step[of "refs u" front0 "ID c" i] c id[OF c(1)] by simp
    qed
    show "i \<in> taggedIn tags' key \<union> taggedBefore u key \<union> set level" if "i \<in> set front0 - {[]}" for i
      using that old front_done tagged by blast
    fix i assume i: "i \<in> taggedIn tags' key - taggedIn tags0 key"
    have "j \<in> set (uStored u)" if "j \<in> taggedIn tags key - taggedIn tags0 key" for j using that old by blast
    moreover have "ID c \<in> set (uStored u)" if "c \<in> ?new" for c using that id[of c] by blast
    ultimately show "i \<in> set (uStored u)" using i unfolding tagged by blast
    fix r assume r: "r \<in> set (refs u i) - {[]}"
    show "r \<in> taggedIn tags' key \<union> taggedBefore u key \<union> set level"
    proof (cases "i \<in> taggedIn tags key")
      case True
      then have "r \<in> taggedIn tags key \<union> taggedBefore u key \<union> set front" using i r old by blast
      then show ?thesis using front_done tagged by blast
    next
      case False
      then obtain c where c: "c \<in> ?new" "ID c = i" using i tagged by blast
      then show ?thesis using r id[of c] spec(2) by auto
    qed
  qed
  ultimately show ?thesis by blast
qed

lemma tagLevels_spec:
  assumes "tagInv key v tags0 front0 tags front" "v \<noteq> []"
    and "(if front = [] then 0 else card (set (uStored u) - taggedIn tags key) + 1) < fuel"
  shows "case tagLevels fuel u key v front tags of
      Inr tags' \<Rightarrow> tagInv key v tags0 front0 tags' []
    | Inl e \<Rightarrow> \<exists>ids. set ids \<subseteq> {i. reach (refs u) front0 i} \<and> uGetClaims u True ids = Inl e"
  using assms(1,3)
proof (induction fuel arbitrary: front tags)
  case (Suc fuel)
  show ?case
  proof (cases "front = []")
    case True
    then show ?thesis using Suc.prems(1) by simp
  next
    case False
    show ?thesis
    proof (cases "uGetClaims u True front")
      case (Inl e)
      then show ?thesis using Suc.prems(1) False unfolding tagInv_def by auto
    next
      case (Inr cs)
      obtain tags' level where f: "fold (tagOne key v) cs (tags, []) = (tags', level)" by fastforce
      note step = tag_step[OF Suc.prems(1) assms(2) Inr f]
      have "card (set (uStored u) - taggedIn tags' key) < card (set (uStored u) - taggedIn tags key)" if "level \<noteq> []"
        by (rule psubset_card_mono) (use step that in auto)
      then have "(if level = [] then 0 else card (set (uStored u) - taggedIn tags' key) + 1) < fuel"
        using Suc.prems(2) False by (cases "level = []") auto
      from Suc.IH[OF conjunct1[OF step] this] show ?thesis using False by (simp add: Inr f)
    qed
  qed
qed simp

text \<open>
  Where what is tagged already is closed under references, tagging a branch head tags exactly the
  rest of its closure.
\<close>

lemma tagBranchClosure_exact:
  assumes "tagBranchClosure u branch head h tags = Inr tags'" "head \<noteq> []" "0 \<le> h"
  defines "key \<equiv> BranchTagKey branch"
  defines "before \<equiv> taggedIn tags key \<union> taggedBefore u key"
  assumes "\<forall>i \<in> before. \<forall>r \<in> set (refs u i) - {[]}. r \<in> before"
  shows "taggedIn tags' key \<union> taggedBefore u key = before \<union> {i. reach (refs u) [head] i} \<and>
    (\<forall>j k. tagAt tags' j k = (if k = key \<and> j \<in> taggedIn tags' key - taggedIn tags key then appendInt h 0 else tagAt tags j k))"
proof -
  have v: "appendInt h 0 \<noteq> []" by (rule appendInt_nonempty)
  have start: "tagInv key (appendInt h 0) tags [head] tags [head]"
    using assms(2) by (auto simp: tagInv_def intro: reach.root)
  have "card (set (uStored u) - taggedIn tags key) \<le> length (uStored u)"
    by (meson card_length card_mono Diff_subset finite_set le_trans)
  then have fuel: "(if [head] = [] then 0 else card (set (uStored u) - taggedIn tags key) + 1) < length (uStored u) + 2"
    by simp
  have inv: "tagInv key (appendInt h 0) tags [head] tags' []"
    using tagLevels_spec[OF start v fuel] assms(1) by (simp add: tagBranchClosure_def key_def)
  let ?T = "taggedIn tags key" and ?T' = "taggedIn tags' key" and ?P = "taggedBefore u key"
  have at: "\<forall>j k. tagAt tags' j k = (if k = key \<and> j \<in> ?T' - ?T then appendInt h 0 else tagAt tags j k)"
    and mono: "?T \<subseteq> ?T'" and sub: "?T' - ?T \<subseteq> {i. reach (refs u) [head] i}"
    and head: "head \<in> ?T' \<union> ?P"
    and news: "\<And>i. i \<in> ?T' - ?T \<Longrightarrow> set (refs u i) - {[]} \<subseteq> ?T' \<union> ?P"
    using inv assms(2) unfolding tagInv_def by simp_all
  have closed: "r \<in> ?T' \<union> ?P" if i: "i \<in> ?T' \<union> ?P" and r: "r \<in> set (refs u i)" "r \<noteq> []" for i r
  proof (cases "i \<in> before")
    case True
    then have "r \<in> before" using assms(6) r by blast
    then show ?thesis using mono by (auto simp: before_def)
  next
    case False
    then show ?thesis using news[of i] i r by (auto simp: before_def)
  qed
  have "i \<in> ?T' \<union> ?P" if "reach (refs u) [head] i" for i
    using that by (rule reach_least) (use head closed in auto)
  then have "?T' \<union> ?P = before \<union> {i. reach (refs u) [head] i}"
    using mono sub unfolding before_def by blast
  then show ?thesis using at by (intro conjI)
qed

end

section \<open>Tags as a scope\<close>

lemma decDigits_reads: "0 \<le> n \<Longrightarrow> list_all isDigit (decDigits n) \<and> decVal (decDigits n) = n"
proof (induction n rule: decDigits.induct)
  case (1 n)
  show ?case
  proof (cases "n < 10")
    case True
    then show ?thesis using 1(2) by (simp add: decDigits.simps[of n] decVal_def)
  next
    case False
    then have "list_all isDigit (decDigits (n div 10)) \<and> decVal (decDigits (n div 10)) = n div 10"
      using 1 by simp
    then show ?thesis using False by (simp add: decDigits.simps[of n] decVal_def)
  qed
qed

lemma parse_printed: "0 \<le> h \<Longrightarrow> h < 2 ^ 64 \<Longrightarrow> parseUint (appendInt h 0) = Some (word_of_int h)"
  using decDigits_reads[of h] appendInt_nonempty[of h] by (simp add: parseUint_def appendInt_def)

definition tagsWf :: "tagMap \<Rightarrow> bool" where
  "tagsWf tags = (wfMap tags \<and> (\<forall>i. wfMap (getm tags i)))"

lemma tagsWf_set: "tagsWf tags \<Longrightarrow> tagsWf (setTagAt tags i key v)"
  by (auto simp: tagsWf_def setTagAt_def getm_def update_conv' split: option.splits)

lemma tagsWf_ones:
  "tagsWf (fst s) \<Longrightarrow> tagsWf (fst (fold (tagOne key v) cs s))"
proof (induction cs arbitrary: s)
  case (Cons c cs)
  have "tagsWf (fst (tagOne key v c s))"
    using Cons.prems tagsWf_set by (cases s) (auto simp: tagOne_simp)
  then show ?case using Cons.IH by simp
qed simp

lemma tagsWf_levels: "tagLevels fuel u key v front tags = Inr tags' \<Longrightarrow> tagsWf tags \<Longrightarrow> tagsWf tags'"
proof (induction fuel arbitrary: front tags)
  case (Suc fuel)
  show ?case
  proof (cases "front = []")
    case False
    then obtain cs where cs: "uGetClaims u True front = Inr cs"
      using Suc.prems(1) by (auto simp: rbind_eq_Inr)
    obtain t level where f: "fold (tagOne key v) cs (tags, []) = (t, level)" by fastforce
    have "tagLevels fuel u key v level t = Inr tags'" using Suc.prems(1) False by (simp add: cs f)
    from Suc.IH[OF this] show ?thesis using tagsWf_ones[of "(tags, [])" key v cs] Suc.prems(2) f by simp
  qed (use Suc.prems in simp)
qed simp

lemma materializeOne_tags: "materializeOne n load c = Inr c' \<Longrightarrow> claimTags c' = claimTags c"
  by (cases n) (auto simp: materializeOne.simps[of _ _ c] overlayOn_def rbind_eq_Inr split: option.splits if_splits)

lemma loaded_tags: "GetClaim (memUni L m) d i = Inr c \<Longrightarrow> claimTags c = getm (mTags m) i"
proof -
  have load: "claimTags c = getm (mTags m) i" if loaded: "memLoad L m i = Inr c" for c
  proof -
    obtain b x where "DecodeClaim L i b = Inr x"
      "c = (if getm (mTags m) i \<noteq> [] then withTags x (getm (mTags m) i) else x)"
      using loaded by (auto simp: memLoad_def rbind_eq_Inr split: if_splits option.splits)
    then show ?thesis using DecodeClaim_shape(4)[of L i b x] by simp
  qed
  assume "GetClaim (memUni L m) d i = Inr c"
  then show ?thesis
    using load materializeOne_tags by (auto simp: GetClaim_memUni memRead_def rbind_eq_Inr split: if_splits)
qed

lemma written_tag:
  assumes "tagsWf tags" "getz (getm (mTags m) i) key = []"
  shows "getz (getm (mTags (memSetClaimsTags m [] tags)) i) key = tagAt tags i key"
proof (cases "map_of tags i")
  case None
  then have "i \<notin> set (keys tags)" by (simp add: keys_def map_of_eq_None_iff)
  from memSetClaimsTags_other[OF this] show ?thesis using assms(2) None by (simp add: tagAt_def getm_def[of tags] getz_def)
next
  case (Some kv)
  have "wfMap kv" using assms(1) Some by (metis tagsWf_def getm_def option.simps(5))
  moreover have "wfMap tags" using assms(1) by (simp add: tagsWf_def)
  ultimately show ?thesis
    using assms(2) memSetClaimsTags_at[OF _ Some, of m "[]"]
    by (simp add: clearMatching_def tagAt_def getm_def[of tags] Some getz_def map_of_putAll_wf split: option.splits)
qed

section \<open>Properties\<close>

text \<open>
  Property C27 (tagged_scope_agrees): once a branch that no claim was tagged with has been tagged
  from its head, confining a read to that branch by its tags admits exactly the claims of the
  closure of the head: the accelerator and the swept closure agree.
\<close>

theorem tagged_scope_agrees:
  assumes "tagBranchClosure (memUni L m) b head h [] = Inr tags" "head \<noteq> []" "0 \<le> h" "h < 2 ^ 64"
    and "namedBranch b" "\<forall>i. getz (getm (mTags m) i) (BranchTagKey b) = []"
    and "scBranch sc = b" "scHead sc = head" "word_of_int h \<le> scHeight sc"
  shows "\<exists>cf. confine (memUni L (memSetClaimsTags m [] tags)) True sc = Inr (Some cf) \<and>
    (\<forall>d i c. GetClaim (memUni L (memSetClaimsTags m [] tags)) d i = Inr c \<longrightarrow>
      (admits (Some cf) c \<longleftrightarrow> reach (refs (memUni L m)) [head] i))"
proof -
  let ?key = "BranchTagKey b" and ?m' = "memSetClaimsTags m [] tags"
  have none: "taggedIn [] ?key = {}" by (simp add: taggedIn_def tagAt_def getm_def getz_def)
  have before: "taggedBefore (memUni L m) ?key = {}"
    using assms(6) loaded_tags by (fastforce simp: taggedBefore_def Tag_def)
  have tagged: "taggedIn tags ?key = {i. reach (refs (memUni L m)) [head] i}"
    "\<And>j. tagAt tags j ?key = (if j \<in> taggedIn tags ?key then appendInt h 0 else [])"
    using mem.tagBranchClosure_exact[OF assms(1-3), unfolded none before]
    by (auto simp: tagAt_def getm_def getz_def)
  have wf: "tagsWf tags"
    using tagsWf_levels[OF assms(1)[unfolded tagBranchClosure_def]] by (simp add: tagsWf_def getm_def)
  have at: "getz (getm (mTags ?m') i) ?key = tagAt tags i ?key" for i
    using written_tag[OF wf] assms(6) by blast
  let ?cf = "\<lparr>cfRoot = head, cfTagKey = ?key, cfHeight = scHeight sc, cfMembers = []\<rparr>"
  have "head \<in> taggedIn tags ?key" unfolding tagged(1) using assms(2) by (simp add: reach.root)
  then have "getz (getm (mTags ?m') head) ?key \<noteq> []" unfolding at by (simp add: taggedIn_def)
  then have "has (getm (mTags ?m') head) ?key" by (auto simp: getz_def has_def split: option.splits)
  then have "confine (memUni L ?m') True sc = Inr (Some ?cf)"
    using assms(2,5,7,8)
    by (simp add: confine_def tagConfinement_def GetTag_def memUni_def memGetClaimTags_def Let_def)
  moreover have "admits (Some ?cf) c \<longleftrightarrow> reach (refs (memUni L m)) [head] i"
    if "GetClaim (memUni L ?m') d i = Inr c" for d i c
  proof -
    have "Tag c ?key = tagAt tags i ?key" using loaded_tags[OF that] at by (simp add: Tag_def)
    moreover have "?key \<noteq> []" by (simp add: BranchTagKey_def)
    ultimately show ?thesis
      using tagged assms(9) parse_printed[OF assms(3,4)] appendInt_nonempty[of h]
      by (auto simp: admits_def Let_def)
  qed
  ultimately show ?thesis by blast
qed

definition taggedScope :: scope where
  "taggedScope = \<lparr>scBranch = ''x'', scHead = ''hB'', scHeight = 3, scRevision = 0\<rparr>"

lemma graph_tagging:
  "resultOf (map fst) (tagBranchClosure (memUni graphLib graphMem) ''x'' ''hB'' 3 []) = Some [''hB'', ''hA'']"
  by code_simp

theorem tagged_scope_agrees_witness:
  "\<exists>tags cf. tagBranchClosure (memUni graphLib graphMem) ''x'' ''hB'' 3 [] = Inr tags \<and>
     confine (memUni graphLib (memSetClaimsTags graphMem [] tags)) True taggedScope = Inr (Some cf)"
proof -
  obtain tags where t: "tagBranchClosure (memUni graphLib graphMem) ''x'' ''hB'' 3 [] = Inr tags"
    using graph_tagging by (auto simp: resultOf_Some)
  have "\<forall>i. getz (getm (mTags graphMem) i) (BranchTagKey ''x'') = []"
    by (simp add: graphMem_def getm_def getz_def BranchTagKey_def)
  moreover have "namedBranch ''x''" by code_simp
  moreover have "scBranch taggedScope = ''x''" "scHead taggedScope = ''hB''" "word_of_int 3 \<le> scHeight taggedScope"
    by (simp_all add: taggedScope_def)
  ultimately show ?thesis using tagged_scope_agrees[OF t, of taggedScope] t by fastforce
qed

end
