(* ===== verification/Sequencer.thy ===== *)
theory Sequencer
  imports Tagger
begin

text \<open>
  The blocking sequencer (\<open>adapter/sequencer/dev\<close>): the sole writer of an archive. Its state
  is a record that every operation returns updated, over the in-memory store, whose bookmarks it
  appends to. A Go pointer a contribution holds back to its sequencer is the sequencer's name
  (\<open>sqOpener\<close>); the injected clock is the sequence of its readings; the nil id is the empty
  one. The lock, which makes each operation one step, and the contexts are left out.
\<close>

section \<open>State\<close>

record sequencer =
  sqOpener :: nat
  sqUni :: memoryUniverse
  sqMarks :: bookmarks
  sqSelf :: contributor
  sqClock :: "nat \<Rightarrow> int"
  sqTicks :: nat
  sqHead :: ident
  sqHeads :: "(string \<times> ident) list"

text \<open>The list a search leaves: its range is remembered, and its gap probed once.\<close>

definition searched :: "lib \<Rightarrow> 's hist \<Rightarrow> 's \<Rightarrow> bookmarks \<Rightarrow> bookmarks" where
  "searched L H s b = (case bounds L H s b of Inl e \<Rightarrow> b | Inr (lo, hi, b1) \<Rightarrow> b1)"

text \<open>A step that may fail keeps what it wrote: the next runs on the state it left.\<close>

definition andThen :: "'s \<times> 'a result \<Rightarrow> ('s \<Rightarrow> 'a \<Rightarrow> 's \<times> 'b result) \<Rightarrow> 's \<times> 'b result" where
  "andThen r f = (case r of (s, Inl e) \<Rightarrow> (s, Inl e) | (s, Inr x) \<Rightarrow> f s x)"

lemma andThen_simps [simp]:
  "andThen (s, Inl e) f = (s, Inl e)" "andThen (s, Inr x) f = f s x"
  by (simp_all add: andThen_def)

lemma andThen_Inr: "andThen r f = (s', Inr y) \<longleftrightarrow> (\<exists>s x. r = (s, Inr x) \<and> f s x = (s', Inr y))"
  by (auto simp: andThen_def split: prod.splits sum.splits)

lemma case_Inr:
  "(case r of Inl e \<Rightarrow> (s, Inl e) | Inr x \<Rightarrow> f x) = (s', Inr y) \<longleftrightarrow> (\<exists>x. r = Inr x \<and> f x = (s', Inr y))"
  by (auto split: sum.split)

definition sqRead :: "lib \<Rightarrow> sequencer \<Rightarrow> uni" where
  "sqRead L s = memUni L (sqUni s)"

definition tick :: "sequencer \<Rightarrow> sequencer \<times> int" where
  "tick s = (s\<lparr>sqTicks := sqTicks s + 1\<rparr>, sqClock s (sqTicks s))"

definition storeClaim :: "err \<Rightarrow> sequencer \<Rightarrow> claim \<Rightarrow> sequencer \<times> unit result" where
  "storeClaim pre s c =
     (case memPutClaims (sqUni s) [Some c] of (m, r) \<Rightarrow> (s\<lparr>sqUni := m\<rparr>, wrapping pre r))"

definition bookmarkHead :: "lib \<Rightarrow> err \<Rightarrow> sequencer \<Rightarrow> ident \<Rightarrow> sequencer \<times> unit result" where
  "bookmarkHead L pre s h =
     (case Append L (memHist L) (sqUni s) (sqMarks s) (Some (sqSelf s)) h of
        (m, b, r) \<Rightarrow> (s\<lparr>sqUni := m, sqMarks := b\<rparr>, wrapping pre (rbind r (\<lambda>_. Inr ()))))"

definition tagHead :: "lib \<Rightarrow> err \<Rightarrow> sequencer \<Rightarrow> sequencer \<times> unit result" where
  "tagHead L pre s =
     (case DefaultTag L (sqUni s) (sqHead s) of (m, r) \<Rightarrow> (s\<lparr>sqUni := m\<rparr>, wrapping pre r))"

section \<open>Opening\<close>

definition adopt :: "lib \<Rightarrow> sequencer \<Rightarrow> sequencer result" where
  "adopt L s =
     rbind (wrapping (SeqErr errNewSequencer) (Latest L (memHist L) (sqUni s) (sqMarks s))) (\<lambda>latest.
       let marks = searched L (memHist L) (sqUni s) (sqMarks s) in
       if bmHead latest = [] then Inr (s\<lparr>sqMarks := marks, sqHead := []\<rparr>)
       else
         rbind (wrapping (SeqErr errNewSequencer) (NewArchive (Some (sqRead L s)) (bmHead latest))) (\<lambda>a.
           Inr (s\<lparr>sqMarks := marks, sqHead := bmHead latest,
                 sqHeads := fold (\<lambda>b. AList.update (branchName b) (branchHead b)) (GetBranches a) (sqHeads s)\<rparr>)))"

definition NewSequencer ::
    "lib \<Rightarrow> capabilities \<Rightarrow> nat \<Rightarrow> memoryUniverse option \<Rightarrow> bookmarkLocator \<Rightarrow> contributor option \<Rightarrow>
     (nat \<Rightarrow> int) option \<Rightarrow> sequencer result" where
  "NewSequencer L caps name u loc self clock =
     (case (u, self, clock) of
        (Some m, Some ct, Some cl) \<Rightarrow>
          if ctKey ct = None then Inl (SeqErr errNoSigningKey)
          else if \<not> capBookmarks caps then Inl (AlsoErr (SeqErr errNoBookmarks) (StoreErr ErrUnsupported))
          else
            rbind (wrapping (SeqErr errNewSequencer) (locatorOpen L (memHist L) (Some m) loc)) (\<lambda>marks.
              adopt L \<lparr>sqOpener = name, sqUni = m, sqMarks = marks, sqSelf = ct, sqClock = cl,
                       sqTicks = 0, sqHead = [], sqHeads = []\<rparr>)
      | _ \<Rightarrow> Inl (SeqErr errNilArg))"

definition InGenesis :: "sequencer \<Rightarrow> bool" where
  "InGenesis s = (sqHead s = [])"

definition GetArchive :: "lib \<Rightarrow> sequencer \<Rightarrow> archive result" where
  "GetArchive L s =
     (if sqHead s = [] then Inl (StoreErr ErrSequencerGenesis)
      else NewArchive (Some (sqRead L s)) (sqHead s))"

section \<open>Minting\<close>

definition consolidateHeads :: "lib \<Rightarrow> int \<Rightarrow> sequencer \<Rightarrow> ident list \<Rightarrow> sequencer \<times> claim result" where
  "consolidateHeads L now s hs =
     (case mapM (\<lambda>h. wrapping (SeqErr errSequencer)
               (newEdge L ((plainEdge h [] [])\<lparr>ecType := EdgeTypeHead\<rparr>))) hs of
        Inl e \<Rightarrow> (s, Inl e)
      | Inr es \<Rightarrow>
          (case tick s of (s1, t) \<Rightarrow>
             (s1, Sign L now (WithAutoHeight (WithCreatedAt (WithEdges (NewClaim NodeTypeHead (Some (sqSelf s)))
                    (map Some es)) t) (Some (sqRead L s))) None)))"

definition branchEdge :: "lib \<Rightarrow> sequencer \<Rightarrow> string \<Rightarrow> edge result" where
  "branchEdge L s b =
     wrapping (SeqErr errSequencer)
       (newEdge L ((plainEdge (getz (sqHeads s) b) [] [])\<lparr>ecType := EdgeTypeBranch, ecFields := [(FieldName, b)]\<rparr>))"

definition mintBranchTable :: "lib \<Rightarrow> int \<Rightarrow> sequencer \<Rightarrow> string list \<Rightarrow> sequencer \<times> claim result" where
  "mintBranchTable L now s changed =
     (case tick s of (s1, t) \<Rightarrow>
        let b0 = WithCreatedAt (NewClaim NodeBranches (Some (sqSelf s))) t;
            b1 = (if sqHead s = [] then b0 else WithDiff b0 (sqHead s)) in
          case mapM (branchEdge L s) changed of
            Inl e \<Rightarrow> (s1, Inl e)
          | Inr es \<Rightarrow>
              (case wrapping (SeqErr errSequencer)
                      (Sign L now (WithAutoHeight (WithEdges b1 (map Some es)) (Some (sqRead L s))) None) of
                 Inl e \<Rightarrow> (s1, Inl e)
               | Inr table \<Rightarrow> andThen (storeClaim (SeqErr errSequencer) s1 table) (\<lambda>s2 _. (s2, Inr table))))"

section \<open>Founding\<close>

definition EncodingOctetStream :: string where "EncodingOctetStream = ''application/octet-stream''"

definition found :: "lib \<Rightarrow> int \<Rightarrow> sequencer \<Rightarrow> bytes option \<Rightarrow> string \<Rightarrow> sequencer \<times> claim result" where
  "found L now s pubkey branch =
     andThen (storeClaim (SeqErr errFound) s (ctClaim (sqSelf s))) (\<lambda>s1 _.
     case tick s1 of (s2, t) \<Rightarrow>
       (case wrapping (SeqErr errFound)
               (Sign L now (WithAutoHeight (WithCreatedAt (WithEncoding (WithInlineContent
                   (NewClaim NodeTypeContributor (Some (sqSelf s))) pubkey) EncodingOctetStream) t)
                   (Some (sqRead L s1))) None) of
          Inl e \<Rightarrow> (s2, Inl e)
        | Inr fst_claim \<Rightarrow>
            andThen (storeClaim (SeqErr errFound) s2 fst_claim) (\<lambda>s3 _.
            andThen (mintBranchTable L now s3 []) (\<lambda>s4 bt0.
            andThen (mintBranchTable L now
                (s4\<lparr>sqHead := ID bt0, sqHeads := AList.update branch (ID fst_claim) (sqHeads s4)\<rparr>) [branch]) (\<lambda>s5 bt1.
            andThen (bookmarkHead L (SeqErr errFound) s5 (ID bt1)) (\<lambda>s6 _.
            andThen (tagHead L (SeqErr errFound) (s6\<lparr>sqHead := ID bt1\<rparr>)) (\<lambda>s7 _.
              (s7, Inr fst_claim))))))))"

definition Found :: "lib \<Rightarrow> int \<Rightarrow> sequencer \<Rightarrow> bytes option \<Rightarrow> string \<Rightarrow> sequencer \<times> claim result" where
  "Found L now s pubkey branch =
     (case ValidateBranchName branch of
        Inl e \<Rightarrow> (s, Inl e)
      | Inr _ \<Rightarrow> if sqHead s \<noteq> [] then (s, Inl (SeqErr errFounded)) else found L now s pubkey branch)"

section \<open>Contributions\<close>

record contribution =
  coOpener :: nat
  coBaseHead :: ident
  coBaseTime :: int
  coConstraints :: constraints
  coSealed :: bool
  coStaged :: "(string \<times> claim list) list"
  coBranches :: "string list"

definition NewContribution ::
    "sequencer \<Rightarrow> (constraints \<Rightarrow> constraints) list \<Rightarrow> sequencer \<times> contribution result" where
  "NewContribution s opts =
     (case tick s of (s1, t) \<Rightarrow>
        if sqHead s = [] then (s1, Inl (StoreErr ErrSequencerGenesis))
        else (s1, Inr \<lparr>coOpener = sqOpener s, coBaseHead = sqHead s, coBaseTime = t,
                       coConstraints = NewConstraints opts, coSealed = False, coStaged = [], coBranches = []\<rparr>))"

definition admissible :: "contribution \<Rightarrow> claim \<Rightarrow> unit result" where
  "admissible c cl =
     rbind (AdmitCreatedAt cl (coBaseTime c)) (\<lambda>_. AdmitType (coConstraints c) (claimType cl))"

fun admitAll :: "contribution \<Rightarrow> claim option list \<Rightarrow> claim list result" where
  "admitAll c [] = Inr []"
| "admitAll c (None # cs) = Inl (SeqErr errNilClaimArg)"
| "admitAll c (Some cl # cs) =
     rbind (admissible c cl) (\<lambda>_. rbind (admitAll c cs) (\<lambda>r. Inr (cl # r)))"

definition stagedOn :: "contribution \<Rightarrow> string \<Rightarrow> claim list" where
  "stagedOn c b = (case map_of (coStaged c) b of None \<Rightarrow> [] | Some cs \<Rightarrow> cs)"

definition note_branch :: "contribution \<Rightarrow> string \<Rightarrow> contribution" where
  "note_branch c b = (if has (coStaged c) b then c else c\<lparr>coBranches := coBranches c @ [b]\<rparr>)"

definition contribAddClaims :: "contribution \<Rightarrow> string \<Rightarrow> claim option list \<Rightarrow> contribution result" where
  "contribAddClaims c b cs =
     (if coSealed c then Inl (SeqErr errSealed)
      else if b = [] then Inl (SeqErr errNoBranch)
      else rbind (admitAll c cs) (\<lambda>cls.
        Inr ((note_branch c b)\<lparr>coStaged := AList.update b (stagedOn c b @ cls) (coStaged c)\<rparr>)))"

definition admitReferences :: "lib \<Rightarrow> sequencer \<Rightarrow> contribution \<Rightarrow> string \<Rightarrow> unit result" where
  "admitReferences L s c b =
     rbind (wrapping (SeqErr errSequencer) (NewArchive (Some (sqRead L s)) (coBaseHead c))) (\<lambda>base.
     rbind (AdmitBranch (coConstraints c) base b) (\<lambda>_.
       AdmitReferences (coConstraints c) (sqRead L s) base b (stagedOn c b)))"

definition consolidateGraph :: "lib \<Rightarrow> int \<Rightarrow> sequencer \<Rightarrow> graph \<Rightarrow> sequencer \<times> ident result" where
  "consolidateGraph L now s g =
     (if IsConsolidated g then (s, first (gHeads g))
      else case tick s of (s1, t) \<Rightarrow>
        (case Consolidate L now g (sqSelf s) [t] of
           (g', r) \<Rightarrow> (s1\<lparr>sqUni := gUniverse g'\<rparr>, wrapping (SeqErr errSequencer) (rbind r (\<lambda>c. Inr (ID c))))))"

definition completeBranch ::
    "lib \<Rightarrow> int \<Rightarrow> sequencer \<Rightarrow> contribution \<Rightarrow> string \<Rightarrow> sequencer \<times> ident result" where
  "completeBranch L now s c b =
     (case AddClaims (NewGraph (Some (sqUni s))) (map Some (stagedOn c b)) of (g, r) \<Rightarrow>
        let s1 = s\<lparr>sqUni := gUniverse g\<rparr> in
          case rbind (wrapping (SeqErr errSequencer) r) (\<lambda>_. admitReferences L s1 c b) of
            Inl e \<Rightarrow> (s1, Inl e)
          | Inr _ \<Rightarrow>
              (case vFailures (runVerification L (gHeads g) (sqRead L s1) (newVerifyConfig []) None) of
                 f # _ \<Rightarrow> (s1, Inl (Wrap (SeqErr errSequencer) (fErr f)))
               | [] \<Rightarrow> consolidateGraph L now s1 (Cite g (StrandedByDeletion (gHeads g) (stagedOn c b)))))"

record verifiedContribution =
  veContribution :: contribution
  veIds :: "ident list"
  veHeads :: "(string \<times> ident list) list"

fun completeBranches ::
    "lib \<Rightarrow> int \<Rightarrow> sequencer \<Rightarrow> contribution \<Rightarrow> string list \<Rightarrow> ident list \<Rightarrow> (string \<times> ident list) list \<Rightarrow>
     sequencer \<times> (ident list \<times> (string \<times> ident list) list) result" where
  "completeBranches L now s c [] ids heads = (s, Inr (ids, heads))"
| "completeBranches L now s c (b # bs) ids heads =
     andThen (completeBranch L now s c b) (\<lambda>s1 h.
       completeBranches L now s1 c bs (ids @ map ID (stagedOn c b)) (AList.update b [h] heads))"

definition CompleteAndVerify ::
    "lib \<Rightarrow> int \<Rightarrow> sequencer \<Rightarrow> contribution \<Rightarrow> sequencer \<times> verifiedContribution result" where
  "CompleteAndVerify L now s c =
     (if coSealed c then (s, Inl (SeqErr errSealed))
      else if coBranches c = [] then (s, Inl (SeqErr errEmptyContribution))
      else andThen (completeBranches L now s c (coBranches c) [] []) (\<lambda>s1 r.
        case r of (ids, heads) \<Rightarrow>
          (s1, Inr \<lparr>veContribution = c\<lparr>coSealed := True\<rparr>, veIds = ids, veHeads = heads\<rparr>)))"

record mergable =
  mgOpener :: nat
  mgBranches :: "string list"
  mgHeads :: "(string \<times> ident list) list"
  mgIds :: "ident list"

definition headsOn :: "(string \<times> ident list) list \<Rightarrow> string \<Rightarrow> ident list" where
  "headsOn m b = (case map_of m b of None \<Rightarrow> [] | Some hs \<Rightarrow> hs)"

definition Persist :: "lib \<Rightarrow> sequencer \<Rightarrow> verifiedContribution \<Rightarrow> mergable result" where
  "Persist L s v =
     (let c = veContribution v;
          ids = veIds v @ concat (map (headsOn (veHeads v)) (coBranches c)) in
        rbind (wrapping (SeqErr errSequencer) (uHasClaims (sqRead L s) ids)) (\<lambda>present.
          if list_all id present then
            Inr \<lparr>mgOpener = coOpener c, mgBranches = coBranches c, mgHeads = veHeads v, mgIds = veIds v\<rparr>
          else Inl (SeqErr errSequencer)))"

section \<open>Merging\<close>

text \<open>What the branch does not reach already.\<close>

fun freshHeads :: "uni \<Rightarrow> ident option \<Rightarrow> ident list \<Rightarrow> ident list result" where
  "freshHeads u prior [] = Inr []"
| "freshHeads u prior (h # hs) =
     rbind (case prior of None \<Rightarrow> Inr False
            | Some p \<Rightarrow> wrapping (SeqErr errSequencer) (InClosure u BranchUniverse [p] h)) (\<lambda>held.
     rbind (freshHeads u prior hs) (\<lambda>r. Inr (if held then r else h # r)))"

definition foldedHeads :: "uni \<Rightarrow> ident option \<Rightarrow> ident list \<Rightarrow> ident list result" where
  "foldedHeads u prior fresh =
     (case prior of None \<Rightarrow> Inr fresh
      | Some p \<Rightarrow>
          rbind (wrapping (SeqErr errSequencer) (InClosure u BranchUniverse fresh p)) (\<lambda>reached.
            Inr (if reached then fresh else fresh @ [p])))"

definition foldBranch ::
    "lib \<Rightarrow> int \<Rightarrow> sequencer \<Rightarrow> ident option \<Rightarrow> ident list \<Rightarrow> sequencer \<times> ident option result" where
  "foldBranch L now s prior hs =
     (case freshHeads (sqRead L s) prior hs of
        Inl e \<Rightarrow> (s, Inl e)
      | Inr fresh \<Rightarrow>
          if fresh = [] then (s, Inr None)
          else
            (case foldedHeads (sqRead L s) prior fresh of
               Inl e \<Rightarrow> (s, Inl e)
             | Inr folded \<Rightarrow>
                 if length folded \<le> 1 then (s, Inr (Some (hd folded)))
                 else andThen (consolidateHeads L now s folded) (\<lambda>s1 hc.
                   andThen (storeClaim (SeqErr errSequencer) s1 hc) (\<lambda>s2 _. (s2, Inr (Some (ID hc)))))))"

fun foldBranches ::
    "lib \<Rightarrow> int \<Rightarrow> sequencer \<Rightarrow> (string \<times> ident list) list \<Rightarrow> string list \<Rightarrow> (string \<times> ident) list \<Rightarrow>
     sequencer \<times> (string \<times> ident) list result" where
  "foldBranches L now s m [] news = (s, Inr news)"
| "foldBranches L now s m (b # bs) news =
     andThen (foldBranch L now s (map_of (sqHeads s) b) (headsOn m b)) (\<lambda>s1 r.
       foldBranches L now s1 m bs (case r of None \<Rightarrow> news | Some h \<Rightarrow> news @ [(b, h)]))"

definition publish :: "lib \<Rightarrow> int \<Rightarrow> sequencer \<Rightarrow> string list \<Rightarrow> sequencer \<times> ident result" where
  "publish L now s advanced =
     andThen (mintBranchTable L now s advanced) (\<lambda>s1 bt.
     andThen (bookmarkHead L (SeqErr errSequencer) s1 (ID bt)) (\<lambda>s2 _.
     andThen (tagHead L (SeqErr errSequencer) (s2\<lparr>sqHead := ID bt\<rparr>)) (\<lambda>s3 _. (s3, Inr (sqHead s3)))))"

definition Merge :: "lib \<Rightarrow> int \<Rightarrow> sequencer \<Rightarrow> mergable option \<Rightarrow> sequencer \<times> ident result" where
  "Merge L now s mc =
     (case mc of None \<Rightarrow> (s, Inl (SeqErr errForeign))
      | Some m \<Rightarrow>
          if mgOpener m \<noteq> sqOpener s then (s, Inl (SeqErr errForeign))
          else if sqHead s = [] then (s, Inl (StoreErr ErrSequencerGenesis))
          else andThen (foldBranches L now s (mgHeads m) (mgBranches m) []) (\<lambda>s1 news.
            if news = [] then (s1, Inr (sqHead s1))
            else publish L now
                   (s1\<lparr>sqHeads := fold (\<lambda>(b, h). AList.update b h) news (sqHeads s1)\<rparr>) (map fst news)))"

section \<open>The store under the sequencer\<close>

text \<open>
  Content addressing: each record is stored under its hash, and the hash does not collide. A sealed
  claim is then put either under an id the store lacks or over the same bytes.
\<close>

definition addressed :: "lib \<Rightarrow> memoryUniverse \<Rightarrow> bool" where
  "addressed L m = (\<forall>i b. records m i = Some b \<longrightarrow> hashContent L b = Inr i)"

definition collisionFree :: "lib \<Rightarrow> bool" where
  "collisionFree L = (\<forall>a b i. hashContent L a = Inr i \<longrightarrow> hashContent L b = Inr i \<longrightarrow> a = b)"

definition extends :: "memoryUniverse \<Rightarrow> memoryUniverse \<Rightarrow> bool" where
  "extends m m' = (records m \<subseteq>\<^sub>m records m')"

lemma extends_refl [simp]: "extends m m"
  by (simp add: extends_def)

lemma extends_trans: "extends a b \<Longrightarrow> extends b c \<Longrightarrow> extends a c"
  unfolding extends_def by (rule map_le_trans)

lemma extends_records: "extends m m' \<Longrightarrow> records m i = Some b \<Longrightarrow> records m' i = Some b"
  by (auto simp: extends_def map_le_def dom_def)

lemma refsOf_withTags [simp]: "refsOf (withTags c t) = refsOf c"
  by (cases c) (simp add: withTags_def refsOf_edges effectiveEdges_def split: option.split)

lemma refs_records:
  "refs (memUni L m) i =
     (if i = [] then [] else case records m i of None \<Rightarrow> []
      | Some b \<Rightarrow> (case DecodeClaim L i b of Inl e \<Rightarrow> [] | Inr c \<Rightarrow> refsOf c))"
  by (auto simp: refs_memUni memLoad_def records_def rbind_def split: option.splits sum.splits)

lemma refs_extends: "extends m m' \<Longrightarrow> refs (memUni L m) i \<noteq> [] \<Longrightarrow> refs (memUni L m') i = refs (memUni L m) i"
  by (auto simp: refs_records extends_records split: option.splits if_splits)

text \<open>What a head reached, it reaches in every store that extends this one.\<close>

lemma reach_extends:
  assumes "extends m m'"
  shows "reach (refs (memUni L m)) hs i \<Longrightarrow> reach (refs (memUni L m')) hs i"
proof (induction rule: reach.induct)
  case (step k r)
  then show ?case using refs_extends[OF assms, of L k] by (metis empty_iff empty_set reach.step)
qed (rule reach.root)

lemma InClosure_reach:
  assumes "InClosure (memUni L m) BranchUniverse hs h = Inr True"
  shows "reach (refs (memUni L m)) hs h"
proof -
  obtain c where "GetFromClosure (memUni L m) BranchUniverse hs h = Inr c"
    using assms by (auto simp: InClosure_def split: sum.splits if_splits)
  then show ?thesis using mem.GetFromClosure_sound[of L m BranchUniverse hs h c] by (simp add: namedBranch_def)
qed

lemma built_hash:
  assumes "buildClaim L now cfg = Inr c"
  obtains env where "claimRaw c = Some env" "hashContent L env = Inr (ID c)"
  using assms by (rule buildClaim_elim) (simp add: ID_def claimRaw_def)

lemma Sign_builds:
  assumes "Sign L now b None = Inr c"
  shows "buildClaim L now b = Inr c"
  using assms by (simp add: Sign_def)

text \<open>The result of putting one sealed claim.\<close>

lemma storeClaim_ok:
  assumes "storeClaim pre s c = (s', Inr ())"
  obtains b where "claimRaw c = Some b" "ID c \<noteq> []"
    "s' = s\<lparr>sqUni := (sqUni s)\<lparr>mClaims := AList.update (ID c) b (mClaims (sqUni s))\<rparr>\<rparr>"
  using assms by (auto simp: storeClaim_def Envelope_def split: if_splits option.splits sum.splits prod.splits)

lemma storeClaim_built:
  assumes "storeClaim pre s c = (s', Inr ())" "Sign L now b None = Inr c"
    and "collisionFree L" "addressed L (sqUni s)"
  shows "extends (sqUni s) (sqUni s')" "addressed L (sqUni s')" "records (sqUni s') (ID c) = claimRaw c"
    "s' = s\<lparr>sqUni := sqUni s'\<rparr>" "mMarks (sqUni s') = mMarks (sqUni s)" "ID c \<noteq> []"
proof -
  obtain e where e: "claimRaw c = Some e" "ID c \<noteq> []"
      "s' = s\<lparr>sqUni := (sqUni s)\<lparr>mClaims := AList.update (ID c) e (mClaims (sqUni s))\<rparr>\<rparr>"
    using assms(1) by (rule storeClaim_ok)
  obtain env where h: "claimRaw c = Some env" "hashContent L env = Inr (ID c)"
    using built_hash[OF Sign_builds[OF assms(2)]] by blast
  have r: "records (sqUni s') = (records (sqUni s))(ID c \<mapsto> e)"
    by (simp add: e(3) records_def update_conv')
  have old: "records (sqUni s) (ID c) = Some x \<Longrightarrow> x = e" for x
    using assms(3,4) h e(1) by (auto simp: collisionFree_def addressed_def)
  then show "extends (sqUni s) (sqUni s')"
    unfolding extends_def r by (auto simp: map_le_def dom_def)
  show "addressed L (sqUni s')" using assms(4) h e(1) by (auto simp: addressed_def r)
  show "records (sqUni s') (ID c) = claimRaw c" by (simp add: r e(1))
  show "s' = s\<lparr>sqUni := sqUni s'\<rparr>" "mMarks (sqUni s') = mMarks (sqUni s)" "ID c \<noteq> []" by (simp_all add: e)
qed

section \<open>What a minted claim references\<close>

lemma tick_simp: "tick s = (s\<lparr>sqTicks := sqTicks s + 1\<rparr>, sqClock s (sqTicks s))"
  by (rule tick_def)

lemma built_edge:
  assumes "Sign L now b None = Inr c" "blEdges b = map Some es" "e \<in> set es"
  shows "eReference e \<in> set (refsOf c)"
  using built_refs[OF Sign_builds[OF assms(1)]] assms(2,3) by auto

lemma consolidateHeads_ok:
  assumes "consolidateHeads L now s hs = (s', Inr c)"
  shows "s' = s\<lparr>sqTicks := sqTicks s + 1\<rparr>" "set hs \<subseteq> set (refsOf c)" "\<exists>b. Sign L now b None = Inr c"
proof -
  obtain es where es: "mapM (\<lambda>h. wrapping (SeqErr errSequencer)
               (newEdge L ((plainEdge h [] [])\<lparr>ecType := EdgeTypeHead\<rparr>))) hs = Inr es"
      and c: "Sign L now (WithAutoHeight (WithCreatedAt (WithEdges (NewClaim NodeTypeHead (Some (sqSelf s)))
                    (map Some es)) (sqClock s (sqTicks s))) (Some (sqRead L s))) None = Inr c"
      and s': "s' = s\<lparr>sqTicks := sqTicks s + 1\<rparr>"
    using assms by (auto simp: consolidateHeads_def tick_def split: sum.splits)
  show "s' = s\<lparr>sqTicks := sqTicks s + 1\<rparr>" "\<exists>b. Sign L now b None = Inr c" using s' c by blast+
  have "\<exists>e \<in> set es. eReference e = h" if hh: "h \<in> set hs" for h
  proof -
    obtain e where e: "e \<in> set es" "newEdge L ((plainEdge h [] [])\<lparr>ecType := EdgeTypeHead\<rparr>) = Inr e"
      using list_all2_right[OF es[unfolded mapM_Inr_iff] hh] by auto
    then show ?thesis using newEdge_ok(3)[OF e(2)] by (auto simp: plainEdge_def)
  qed
  then show "set hs \<subseteq> set (refsOf c)"
    using built_edge[OF c, of es] by (auto simp: WithAutoHeight_def WithHeightResolver_def WithCreatedAt_def WithEdges_def NewClaim_def)
qed

text \<open>
  A branch table restates a branch by an edge of its own that names the branch and references its
  head, and revises the table before it by a diff edge.
\<close>

definition restates :: "claim \<Rightarrow> string \<Rightarrow> ident \<Rightarrow> bool" where
  "restates bt b h =
     (\<exists>e \<in> set (claimEdges bt). eTypeClass e = ''contribution'' \<and> eTypeSub e = ''branch'' \<and>
        eReference e = h \<and> eFields e = [(FieldName, b)])"

definition revises :: "claim \<Rightarrow> ident \<Rightarrow> bool" where
  "revises bt i = (\<exists>e \<in> set (claimEdges bt). isDiffEdge e \<and> eReference e = i)"

text \<open>The edges of a minted claim: the ones it was given, its contributor's and its diff.\<close>

definition contributorLike :: "edge \<Rightarrow> bool" where
  "contributorLike e = (eTypeClass e = ''contribution'' \<and> eTypeSub e = ''contributor'' \<and> eFields e = [])"

definition diffLike :: "ident \<Rightarrow> edge \<Rightarrow> bool" where
  "diffLike i e = (eReference e = i \<and> eTypeClass e = ''contribution'' \<and> eTypeSub e = ''diff'' \<and> eFields e = [])"

lemma plainEdge_fields: "newEdge L (plainEdge r cl sub) = Inr e \<Longrightarrow> eFields e = []"
  by (simp add: newEdge_ok(6) plainEdge_def edgeFields_def)

lemma minted_edges:
  assumes "Sign L now b None = Inr c" "blEdges b = map Some es"
  shows "set es \<subseteq> set (claimEdges c)" "claimOverlay c = None"
    "\<And>e. e \<in> set (claimEdges c) \<Longrightarrow> e \<in> set es \<or> contributorLike e \<or> (blDiffOf b \<noteq> [] \<and> diffLike (blDiffOf b) e)"
    "blDiffOf b \<noteq> [] \<Longrightarrow> \<exists>e \<in> set (claimEdges c). diffLike (blDiffOf b) e"
proof -
  obtain cfg1 cfg' es' h key env i where b: "resolveType b = Inr cfg1" "resolveEncoding cfg1 = Inr cfg'"
      "assembleEdges L cfg' (isRootContributor cfg') = Inr es'"
      "c = Claim (MNode ((builtNode now cfg' es' h)\<lparr>nodeId := i\<rparr>) None) es' (Some env) None []"
    using Sign_builds[OF assms(1)] by (rule buildClaim_elim) blast
  have same: "blEdges cfg' = map Some es" "blDiffOf cfg' = blDiffOf b"
    using resolved_same(7,8)[OF b(1,2)] assms(2) by simp_all
  obtain given ce de where es: "blEdges cfg' = map Some given" "es' = sort_key eId (given @ ce @ de)"
    and ce: "if isRootContributor cfg' then ce = []
     else \<exists>ct e. blContributor cfg' = Some ct \<and> ce = [e] \<and>
       newEdge L (plainEdge (ID (ctClaim ct)) ''contribution'' ''contributor'') = Inr e"
    and de: "if blDiffOf cfg' = [] then de = []
     else \<exists>e. de = [e] \<and> newEdge L (plainEdge (blDiffOf cfg') ''contribution'' ''diff'') = Inr e \<and>
       checkDiffEdgeNames [] (given @ ce @ de) = Inr ()"
    using b(3) by (rule assembleEdges_ok)
  have given: "given = es" using es(1) same(1) by (simp add: inj_map_eq_map)
  have edges: "set (claimEdges c) = set es \<union> set ce \<union> set de" by (auto simp: b(4) es(2) given)
  have c_ok: "\<forall>e \<in> set ce. contributorLike e"
    using ce plainEdge_built(4,5) plainEdge_fields by (auto simp: contributorLike_def split: if_splits)
  have d_ok: "\<forall>e \<in> set de. blDiffOf b \<noteq> [] \<and> diffLike (blDiffOf b) e" "blDiffOf b \<noteq> [] \<Longrightarrow> de \<noteq> []"
    using de plainEdge_built(3,4,5) plainEdge_fields by (auto simp: same diffLike_def split: if_splits)
  show "set es \<subseteq> set (claimEdges c)" using edges by blast
  show "e \<in> set (claimEdges c) \<Longrightarrow> e \<in> set es \<or> contributorLike e \<or> (blDiffOf b \<noteq> [] \<and> diffLike (blDiffOf b) e)" for e
    using edges c_ok d_ok(1) by blast
  show "blDiffOf b \<noteq> [] \<Longrightarrow> \<exists>e \<in> set (claimEdges c). diffLike (blDiffOf b) e"
    using edges d_ok by (cases de) auto
  show "claimOverlay c = None" by (simp add: b(4))
qed

lemma built_fields:
  assumes "buildClaim L now b = Inr c"
  shows "nFields (own (claimNode c)) = blFields b"
  using assms
proof (rule buildClaim_elim)
  fix cfg1 cfg' es h key env i
  assume b: "resolveType b = Inr cfg1" "resolveEncoding cfg1 = Inr cfg'"
      "c = Claim (MNode ((builtNode now cfg' es h)\<lparr>nodeId := i\<rparr>) None) es (Some env) None []"
  have "blFields cfg' = blFields b"
    by (subst resolveEncoding_ok(1)[OF b(2)], subst resolveType_ok[OF b(1), THEN conjunct1]) simp
  then show ?thesis by (simp add: b(3) builtNode_def)
qed

lemma branchEdge_ok:
  assumes "branchEdge L s b = Inr e"
  shows "eReference e = getz (sqHeads s) b" "eFields e = [(FieldName, b)]"
    "eTypeClass e = ''contribution''" "eTypeSub e = ''branch''"
proof -
  let ?cfg = "(plainEdge (getz (sqHeads s) b) [] [])\<lparr>ecType := EdgeTypeBranch, ecFields := [(FieldName, b)]\<rparr>"
  have n: "newEdge L ?cfg = Inr e"
    using assms by (simp add: branchEdge_def)
  from newEdge_ok(3,6)[OF n] show "eReference e = getz (sqHeads s) b" "eFields e = [(FieldName, b)]"
    by (simp_all add: plainEdge_def edgeFields_def)
  have "edgeClassSub ?cfg = Inr (eTypeClass e, eTypeSub e)"
    using n by (auto simp: newEdge_def rbind_eq_Inr Let_def split: if_splits)
  moreover have "splitType EdgeTypeBranch = Inr (''contribution'', ''branch'')" by code_simp
  ultimately show "eTypeClass e = ''contribution''" "eTypeSub e = ''branch''"
    by (auto simp: edgeClassSub_def rbind_eq_Inr EdgeTypeBranch_def split: if_splits)
qed

lemma mintBranchTable_split:
  assumes "mintBranchTable L now s changed = (s', Inr bt)"
  obtains es b where "mapM (branchEdge L s) changed = Inr es" "Sign L now b None = Inr bt" "blDiffOf b = sqHead s"
    "blEdges b = map Some es" "storeClaim (SeqErr errSequencer) (s\<lparr>sqTicks := sqTicks s + 1\<rparr>) bt = (s', Inr ())"
proof -
  let ?b0 = "WithCreatedAt (NewClaim NodeBranches (Some (sqSelf s))) (sqClock s (sqTicks s))"
  let ?b1 = "if sqHead s = [] then ?b0 else WithDiff ?b0 (sqHead s)"
  obtain es where es: "mapM (branchEdge L s) changed = Inr es"
    using assms by (auto simp: mintBranchTable_def tick_def Let_def split: sum.splits)
  let ?b = "WithAutoHeight (WithEdges ?b1 (map Some es)) (Some (sqRead L s))"
  have "Sign L now ?b None = Inr bt \<and> storeClaim (SeqErr errSequencer) (s\<lparr>sqTicks := sqTicks s + 1\<rparr>) bt = (s', Inr ())"
    using assms by (auto simp: mintBranchTable_def tick_def Let_def es andThen_Inr split: sum.splits)
  moreover have "blDiffOf ?b = sqHead s" "blEdges ?b = map Some es"
    by (auto simp: WithAutoHeight_def WithHeightResolver_def WithCreatedAt_def WithEdges_def WithDiff_def NewClaim_def)
  ultimately show thesis using that es by blast
qed

text \<open>A table restates exactly the branches it was minted for, and revises exactly the table before it.\<close>

lemma mintBranchTable_ok:
  assumes "mintBranchTable L now s changed = (s', Inr bt)"
  shows "restates bt b h \<longleftrightarrow> b \<in> set changed \<and> h = getz (sqHeads s) b"
    "revises bt i \<longleftrightarrow> i = sqHead s \<and> i \<noteq> []"
    "\<forall>e \<in> set (claimEdges bt). eTypeClass e = ''contribution'' \<and> eTypeSub e \<in> {''branch'', ''contributor'', ''diff''} \<and>
       (eFields e = [] \<or> (\<exists>b. eFields e = [(FieldName, b)]))"
    "claimOverlay bt = None"
proof -
  obtain es cfg where m: "mapM (branchEdge L s) changed = Inr es" "Sign L now cfg None = Inr bt"
      "blDiffOf cfg = sqHead s" "blEdges cfg = map Some es"
    using assms by (rule mintBranchTable_split)
  note edges = minted_edges[OF m(2,4), unfolded m(3)]
  have given: "e \<in> set es \<Longrightarrow> \<exists>b \<in> set changed. branchEdge L s b = Inr e" for e
    using list_all2_left[OF m(1)[unfolded mapM_Inr_iff]] by auto
  have made: "b \<in> set changed \<Longrightarrow> \<exists>e \<in> set es. branchEdge L s b = Inr e" for b
    using list_all2_right[OF m(1)[unfolded mapM_Inr_iff]] by auto
  have kind: "(\<exists>b \<in> set changed. branchEdge L s b = Inr e) \<or> contributorLike e \<or> (sqHead s \<noteq> [] \<and> diffLike (sqHead s) e)"
    if "e \<in> set (claimEdges bt)" for e using edges(3)[OF that] given by blast
  show "restates bt b h \<longleftrightarrow> b \<in> set changed \<and> h = getz (sqHeads s) b"
  proof
    assume "restates bt b h"
    then obtain e where e: "e \<in> set (claimEdges bt)" "eTypeSub e = ''branch''" "eReference e = h" "eFields e = [(FieldName, b)]"
      by (auto simp: restates_def)
    then show "b \<in> set changed \<and> h = getz (sqHeads s) b"
      using kind[OF e(1)] branchEdge_ok(1,2) by (fastforce simp: contributorLike_def diffLike_def)
  next
    assume "b \<in> set changed \<and> h = getz (sqHeads s) b"
    then obtain e where "e \<in> set es" "branchEdge L s b = Inr e" "h = getz (sqHeads s) b" using made by blast
    then show "restates bt b h" using edges(1) branchEdge_ok by (fastforce simp: restates_def)
  qed
  show "revises bt i \<longleftrightarrow> i = sqHead s \<and> i \<noteq> []"
  proof
    assume "revises bt i"
    then obtain e where e: "e \<in> set (claimEdges bt)" "eTypeSub e = ''diff''" "eReference e = i"
      by (auto simp: revises_def isDiffEdge_def)
    then show "i = sqHead s \<and> i \<noteq> []"
      using kind[OF e(1)] branchEdge_ok(4) by (fastforce simp: contributorLike_def diffLike_def)
  next
    assume "i = sqHead s \<and> i \<noteq> []"
    then show "revises bt i" using edges(4) by (auto simp: revises_def diffLike_def isDiffEdge_def)
  qed
  show "claimOverlay bt = None" by (rule edges(2))
  show "\<forall>e \<in> set (claimEdges bt). eTypeClass e = ''contribution'' \<and> eTypeSub e \<in> {''branch'', ''contributor'', ''diff''} \<and>
       (eFields e = [] \<or> (\<exists>b. eFields e = [(FieldName, b)]))"
    using kind branchEdge_ok(2-4) by (fastforce simp: contributorLike_def diffLike_def)
qed

lemma mintBranchTable_stores:
  assumes "mintBranchTable L now s changed = (s', Inr bt)" "collisionFree L" "addressed L (sqUni s)"
  shows "extends (sqUni s) (sqUni s')" "addressed L (sqUni s')" "records (sqUni s') (ID bt) = claimRaw bt"
    "s' = s\<lparr>sqUni := sqUni s', sqTicks := sqTicks s + 1\<rparr>" "ID bt \<noteq> []"
proof -
  obtain cfg where m: "Sign L now cfg None = Inr bt"
      "storeClaim (SeqErr errSequencer) (s\<lparr>sqTicks := sqTicks s + 1\<rparr>) bt = (s', Inr ())"
    using assms(1) by (rule mintBranchTable_split) blast
  have "addressed L (sqUni (s\<lparr>sqTicks := sqTicks s + 1\<rparr>))" using assms(3) by simp
  note st = storeClaim_built[OF m(2,1) assms(2) this]
  show "extends (sqUni s) (sqUni s')" "addressed L (sqUni s')" "records (sqUni s') (ID bt) = claimRaw bt" "ID bt \<noteq> []"
    using st(1-3,6) by simp_all
  show "s' = s\<lparr>sqUni := sqUni s', sqTicks := sqTicks s + 1\<rparr>"
    using st(4) by (cases s, cases s') simp
qed

text \<open>The bookmark and the tags are kept beside the claims.\<close>

lemma bookmarkHead_ok:
  assumes "bookmarkHead L pre s h = (s', Inr ())"
  shows "records (sqUni s') = records (sqUni s)" "\<exists>t. bsTop (sqMarks s') = Some t \<and> bmHead t = h"
    "s' = s\<lparr>sqUni := sqUni s', sqMarks := sqMarks s'\<rparr>"
proof -
  obtain m b bm where a: "Append L (memHist L) (sqUni s) (sqMarks s) (Some (sqSelf s)) h = (m, b, Inr bm)"
      "s' = s\<lparr>sqUni := m, sqMarks := b\<rparr>"
    using assms by (auto simp: bookmarkHead_def rbind_eq_Inr split: prod.splits)
  obtain lo hi b1 where bo: "bounds L (memHist L) (sqUni s) (sqMarks s) = Inr (lo, hi, b1)"
    using a(1) by (auto simp: Append_def split: sum.splits)
  show "\<exists>t. bsTop (sqMarks s') = Some t \<and> bmHead t = h"
    using a by (auto simp: Append_def bo Let_def NewBookmark_def split: sum.splits prod.splits)
  show "records (sqUni s') = records (sqUni s)"
    using a by (auto simp: Append_def bo Let_def memHist_def marksPut_def records_def split: sum.splits prod.splits if_splits)
  show "s' = s\<lparr>sqUni := sqUni s', sqMarks := sqMarks s'\<rparr>" by (simp add: a(2))
qed

lemma bookmarkHead_frame:
  assumes "bookmarkHead L pre s h = (s', r)"
  shows "records (sqUni s') = records (sqUni s)" "s' = s\<lparr>sqUni := sqUni s', sqMarks := sqMarks s'\<rparr>"
proof -
  obtain m b q where a: "Append L (memHist L) (sqUni s) (sqMarks s) (Some (sqSelf s)) h = (m, b, q)"
    by (metis prod.exhaust)
  have s': "s' = s\<lparr>sqUni := m, sqMarks := b\<rparr>" using assms by (simp add: bookmarkHead_def a)
  show "records (sqUni s') = records (sqUni s)"
    using a by (auto simp: s' Append_def Let_def memHist_def marksPut_def records_def split: sum.splits prod.splits if_splits)
  show "s' = s\<lparr>sqUni := sqUni s', sqMarks := sqMarks s'\<rparr>" by (simp add: s')
qed

lemma tagRevisions_claims: "mClaims (fst (tagRevisions L m r bts items)) = mClaims m"
  by (induction L m r bts items rule: tagRevisions.induct) (auto simp: memSetClaimsTags_frame split: sum.split)

lemma DefaultTag_claims: "mClaims (fst (DefaultTag L m h)) = mClaims m"
  using tagRevisions_claims
  by (auto simp: DefaultTag_def TagArchive_def split: sum.split prod.split) (metis fst_conv)+

lemma tagHead_frame:
  assumes "tagHead L pre s = (s', r)"
  shows "records (sqUni s') = records (sqUni s)" "s' = s\<lparr>sqUni := sqUni s'\<rparr>"
  using assms DefaultTag_claims[of L "sqUni s" "sqHead s"]
  by (auto simp: tagHead_def records_def split: prod.splits)

lemma addressed_records: "records m' = records m \<Longrightarrow> addressed L m' = addressed L m"
  by (simp add: addressed_def)

lemma extends_same: "records m' = records m \<Longrightarrow> extends m m'"
  by (simp add: extends_def)

section \<open>A sealed claim reads back\<close>

text \<open>
  What the code relies on of CBOR and COSE: a record that decodes is the one encoded, and the payload
  of a signed message the one signed.
\<close>

definition codecLaws :: "lib \<Rightarrow> bool" where
  "codecLaws L =
     ((\<forall>en en'. libDecNode L (libEncNode L en) = Inr en' \<longrightarrow> en' = en) \<and>
      (\<forall>ee ee'. libDecEdge L (libEncEdge L ee) = Inr ee' \<longrightarrow> ee' = ee) \<and>
      (\<forall>k alg p b msg. libCoseSign L k alg p None = Inr b \<longrightarrow> libCoseDecode L b = Inr msg \<longrightarrow> cosePayload msg = p))"

text \<open>What survives of an edge: its reference, and its type and fields up to the wire's aliases.\<close>

definition sameEdge :: "edge \<Rightarrow> edge \<Rightarrow> bool" where
  "sameEdge e e' =
     (eReference e' = eReference e \<and>
      eTypeClass e' = aliasFromWire (aliasToWire (eTypeClass e) edgeClassToAlias) edgeClassFromAlias \<and>
      eTypeSub e' = aliasFromWire (aliasToWire (eTypeSub e) edgeSubtypeToAlias) edgeSubtypeFromAlias \<and>
      eFields e' = unaliasFieldKeys (aliasFieldKeys (eFields e)))"

lemma decodeEdgeRecord_same:
  assumes "codecLaws L" "decodeEdgeRecord L (libEncEdge L (fst (buildEncEdge b e))) = Inr e'"
  shows "sameEdge e e'"
proof -
  obtain ee x where "libDecEdge L (libEncEdge L (fst (buildEncEdge b e))) = Inr ee"
      and d: "decodeEdge L ee = Inr x" "e' = x\<lparr>eId := eId e'\<rparr>"
    using assms(2) by (auto simp: decodeEdgeRecord_def rbind_eq_Inr)
  then have "ee = fst (buildEncEdge b e)" using assms(1) unfolding codecLaws_def by blast
  moreover have "sameEdge e x"
    using d(1) by (auto simp: sameEdge_def decodeEdge_def rbind_eq_Inr Let_def idFromBytes_Inr calculation
        buildEncEdge_def split: prod.splits)
  ultimately show ?thesis by (subst d(2)) (simp add: sameEdge_def)
qed

definition sealed :: "lib \<Rightarrow> claim \<Rightarrow> bool" where
  "sealed L c = (\<exists>now cfg. buildClaim L now cfg = Inr c)"

lemma sealed_decodes:
  assumes "codecLaws L" "buildClaim L now cfg = Inr c" "claimRaw c = Some raw" "DecodeClaim L (ID c) raw = Inr d"
  shows "list_all2 sameEdge (claimEdges c) (claimEdges d)" "claimOverlay c = None" "claimOverlay d = None"
    "nFields (own (claimNode d)) = unaliasFieldKeys (aliasFieldKeys (nFields (own (claimNode c))))"
proof -
  obtain cfg' es h key env i where b: "signEnvelope L key (encodeNode L (builtNode now cfg' es h) es None) = Inr env"
      "c = Claim (MNode ((builtNode now cfg' es h)\<lparr>nodeId := i\<rparr>) None) es (Some env) None []"
    using assms(2) by (rule buildClaim_elim) blast
  let ?p = "encodeNode L (builtNode now cfg' es h) es None"
  have raw: "raw = env" using assms(3) by (simp add: b(2))
  obtain k alg where "libCoseSign L k alg ?p None = Inr env"
    using b(1) by (auto simp: signEnvelope_def signCOSE_def rbind_eq_Inr wrapping_eq_Inl split: option.splits if_splits)
  moreover obtain msg x where m: "libCoseDecode L raw = Inr msg" "decodeSerializedClaim L (ID c) (cosePayload msg) = Inr x"
      "d = withRaw x raw"
    using assms(4) by (auto simp: DecodeClaim_def envelopePayload_def decodeEnvelope_def rbind_eq_Inr split: if_splits)
  ultimately have pl: "cosePayload msg = ?p" using assms(1) raw unfolding codecLaws_def by blast
  obtain en n ds where en: "libDecNode L ?p = Inr en" "mapM (decodeEdgeRecord L) (enEdges en) = Inr ds"
      "decodeNode L en = Inr n"
      "x = Claim (MNode (n\<lparr>nodeId := ID c, edgeIds := map eId ds\<rparr>) None) ds None None []"
    using m(2) pl by (auto simp: decodeSerializedClaim_def rbind_eq_Inr)
  have e: "en = fst (buildEncNode L (builtNode now cfg' es h) es None)"
    using assms(1) en(1) by (simp add: codecLaws_def encodeNode_def)
  then have "enEdges en = map (\<lambda>e. libEncEdge L (fst (buildEncEdge None e))) es"
    by (simp add: buildEncNode_def buildEncEdges_full comp_def split: prod.split)
  then have "list_all2 sameEdge es ds"
    using en(2) decodeEdgeRecord_same[OF assms(1)]
    by (auto simp: mapM_Inr_iff list_all2_conv_all_nth)
  moreover have "nFields n = unaliasFieldKeys (enFields en)"
    using en(3) by (auto simp: decodeNode_def rbind_eq_Inr Let_def split: option.splits)
  moreover have "enFields en = aliasFieldKeys (nFields (builtNode now cfg' es h))"
    by (simp add: e buildEncNode_def split: prod.split)
  ultimately show "list_all2 sameEdge (claimEdges c) (claimEdges d)" "claimOverlay c = None" "claimOverlay d = None"
      "nFields (own (claimNode d)) = unaliasFieldKeys (aliasFieldKeys (nFields (own (claimNode c))))"
    by (simp_all add: b(2) m(3) en(4) withRaw_def)
qed

lemma sealed_refs:
  assumes "codecLaws L" "buildClaim L now cfg = Inr c" "claimRaw c = Some raw" "DecodeClaim L (ID c) raw = Inr d"
  shows "refsOf d = refsOf c"
proof -
  note sd = sealed_decodes[OF assms]
  have "map eReference (claimEdges d) = map eReference (claimEdges c)"
    using sd(1) by (auto simp: sameEdge_def list_all2_conv_all_nth intro: nth_equalityI)
  then show ?thesis using sd(2,3) by (simp add: refsOf_edges effectiveEdges_def)
qed

text \<open>Every record of the store decodes.\<close>

definition decodable :: "lib \<Rightarrow> memoryUniverse \<Rightarrow> bool" where
  "decodable L m = (\<forall>i b. records m i = Some b \<longrightarrow> (\<exists>c. DecodeClaim L i b = Inr c))"

lemma sealed_read:
  assumes "codecLaws L" "decodable L m" "sealed L c" "records m (ID c) = claimRaw c" "ID c \<noteq> []"
  shows "refs (memUni L m) (ID c) = refsOf c"
proof -
  obtain now cfg where b: "buildClaim L now cfg = Inr c" using assms(3) by (auto simp: sealed_def)
  obtain env where e: "claimRaw c = Some env" using built_hash[OF b] by blast
  obtain d where d: "DecodeClaim L (ID c) env = Inr d" using assms(2,4) e by (auto simp: decodable_def)
  show ?thesis using sealed_refs[OF assms(1) b e d] assms(4,5) e d by (simp add: refs_records)
qed

text \<open>What a stored table reads back as.\<close>

definition tableEdges :: "claim \<Rightarrow> bool" where
  "tableEdges c =
     (\<forall>e \<in> set (claimEdges c). eTypeClass e = ''contribution'' \<and> eTypeSub e \<in> {''branch'', ''contributor'', ''diff''} \<and>
        (eFields e = [] \<or> (\<exists>b. eFields e = [(FieldName, b)])))"

lemma sameEdge_table:
  assumes "sameEdge e e'" "eTypeClass e = ''contribution''" "eTypeSub e \<in> {''branch'', ''contributor'', ''diff''}"
    and "eFields e = [] \<or> (\<exists>b. eFields e = [(FieldName, b)])"
  shows "eReference e' = eReference e \<and> eTypeClass e' = eTypeClass e \<and> eTypeSub e' = eTypeSub e \<and> eFields e' = eFields e"
proof -
  have "aliasFromWire (aliasToWire ''contribution'' edgeClassToAlias) edgeClassFromAlias = ''contribution''"
    "\<forall>t \<in> {''branch'', ''contributor'', ''diff''}. aliasFromWire (aliasToWire t edgeSubtypeToAlias) edgeSubtypeFromAlias = t"
    by code_simp+
  moreover have "unaliasFieldKeys (aliasFieldKeys (eFields e)) = eFields e"
    using assms(4) by (intro fields_back) (auto simp: wfMap_def undottedKeys_def dotted_def)
  ultimately show ?thesis using assms(1-3) by (auto simp: sameEdge_def)
qed

lemma table_reads:
  assumes "codecLaws L" "decodable L m" "sealed L c" "records m (ID c) = claimRaw c" "ID c \<noteq> []" "tableEdges c"
  obtains d where "GetClaim (memUni L m) True (ID c) = Inr d" "\<And>b h. restates d b h \<longleftrightarrow> restates c b h"
    "\<And>i. revises d i \<longleftrightarrow> revises c i" "claimRaw d = claimRaw c"
proof -
  obtain now cfg where b: "buildClaim L now cfg = Inr c" using assms(3) by (auto simp: sealed_def)
  obtain env where e: "claimRaw c = Some env" using built_hash[OF b] by blast
  obtain d where d: "DecodeClaim L (ID c) env = Inr d" using assms(2,4) e by (auto simp: decodable_def)
  obtain d' where l: "memLoad L m (ID c) = Inr d'" "claimEdges d' = claimEdges d" "claimRaw d' = claimRaw d"
    using assms(4,5) e d by (auto simp: memLoad_def records_def)
  have all: "list_all2 (\<lambda>e e'. eReference e' = eReference e \<and> eTypeClass e' = eTypeClass e \<and> eTypeSub e' = eTypeSub e \<and>
      eFields e' = eFields e) (claimEdges c) (claimEdges d')"
    unfolding l(2)
    by (rule list.rel_mono_strong[OF sealed_decodes(1)[OF assms(1) b e d]])
       (use assms(6) sameEdge_table in \<open>auto simp: tableEdges_def\<close>)
  have "restates d' b h \<longleftrightarrow> restates c b h" for b h
    using list_all2_left[OF all] list_all2_right[OF all] unfolding restates_def by metis
  moreover have "revises d' i \<longleftrightarrow> revises c i" for i
    using list_all2_left[OF all] list_all2_right[OF all] unfolding revises_def isDiffEdge_def by metis
  ultimately show thesis
    using that[of d'] l DecodeClaim_shape(2)[OF d] e by (simp add: GetClaim_memUni_delta)
qed

end
