(* ===== verification/Merging.thy ===== *)
theory Merging
  imports Sequencer
begin

text \<open>
  What the blocking sequencer's operations do to the archive: a merge accumulates, publishes a table
  over the last one and bookmarks it, and does nothing where nothing is new.
\<close>

section \<open>Folding one branch\<close>

lemma sealed_kept:
  assumes "sealed L c" "records m (ID c) = claimRaw c" "extends m m'"
  shows "records m' (ID c) = claimRaw c"
proof -
  obtain now cfg where "buildClaim L now cfg = Inr c" using assms(1) by (auto simp: sealed_def)
  then obtain env where "claimRaw c = Some env" by (rule built_hash)
  then show ?thesis using assms(2) extends_records[OF assms(3)] by simp
qed

definition priors :: "ident option \<Rightarrow> ident list" where
  "priors p = (case p of None \<Rightarrow> [] | Some i \<Rightarrow> [i])"

text \<open>The head \<open>n\<close> is reached from, or references through a claim minted for it, all of \<open>hs\<close>.\<close>

definition accumulates :: "lib \<Rightarrow> memoryUniverse \<Rightarrow> ident list \<Rightarrow> claim list \<Rightarrow> ident \<Rightarrow> bool" where
  "accumulates L m hs minted n =
     (\<exists>fs. (\<forall>h \<in> set hs. h \<noteq> [] \<longrightarrow> reach (refs (memUni L m)) fs h) \<and>
        (fs = [n] \<or> (\<exists>c \<in> set minted. ID c = n \<and> n \<noteq> [] \<and> set fs \<subseteq> set (refsOf c))))"

lemma accumulates_more: "accumulates L m hs minted n \<Longrightarrow> set minted \<subseteq> set minted' \<Longrightarrow> accumulates L m hs minted' n"
  by (auto simp: accumulates_def)

lemma accumulates_reach:
  assumes "accumulates L m hs minted n" "extends m m'" "\<forall>c \<in> set minted. ID c \<noteq> [] \<longrightarrow> refs (memUni L m') (ID c) = refsOf c"
    and "reach (refs (memUni L m)) hs i"
  shows "reach (refs (memUni L m')) [n] i"
proof -
  obtain fs where fs: "\<forall>h \<in> set hs. h \<noteq> [] \<longrightarrow> reach (refs (memUni L m)) fs h"
      "fs = [n] \<or> (\<exists>c \<in> set minted. ID c = n \<and> n \<noteq> [] \<and> set fs \<subseteq> set (refsOf c))"
    using assms(1) by (auto simp: accumulates_def)
  have "reach (refs (memUni L m)) fs i" using reach_heads[OF _ assms(4)] fs(1) by blast
  then have r: "reach (refs (memUni L m')) fs i" by (rule reach_extends[OF assms(2)])
  show ?thesis using fs(2)
  proof
    assume "\<exists>c \<in> set minted. ID c = n \<and> n \<noteq> [] \<and> set fs \<subseteq> set (refsOf c)"
    then have "set fs \<subseteq> set (refs (memUni L m') n)" "n \<noteq> []" using assms(3) by auto
    then show ?thesis using reach_heads[OF _ r] reach_edge by blast
  qed (use r in simp)
qed

lemma freshHeads_ok:
  "freshHeads u prior hs = Inr fresh \<Longrightarrow> set fresh \<subseteq> set hs \<and>
     (\<forall>h \<in> set hs. h \<in> set fresh \<or> (\<exists>p. prior = Some p \<and> InClosure u BranchUniverse [p] h = Inr True))"
  by (induction hs arbitrary: fresh) (fastforce simp: rbind_eq_Inr split: option.splits if_splits)+

lemma freshHeads_held:
  "(\<forall>h \<in> set hs. \<exists>p. prior = Some p \<and> InClosure u BranchUniverse [p] h = Inr True) \<Longrightarrow>
     freshHeads u prior hs = Inr []"
  by (induction hs) auto

lemma folded_reach:
  assumes "freshHeads (memUni L m) prior hs = Inr fresh" "foldedHeads (memUni L m) prior fresh = Inr folded"
    and "h \<in> set (hs @ priors prior)" "h \<noteq> []"
  shows "reach (refs (memUni L m)) folded h"
proof -
  let ?r = "reach (refs (memUni L m))"
  have sub: "set fresh \<subseteq> set folded"
    using assms(2) by (auto simp: foldedHeads_def rbind_eq_Inr split: option.splits if_splits)
  have p: "?r folded p" if pr: "prior = Some p" "p \<noteq> []" for p
  proof -
    obtain held where i: "InClosure (memUni L m) BranchUniverse fresh p = Inr held"
        "folded = (if held then fresh else fresh @ [p])"
      using assms(2) pr(1) by (auto simp: foldedHeads_def rbind_eq_Inr)
    show ?thesis
    proof (cases held)
      case True
      then show ?thesis using InClosure_reach[of L m fresh p] i by simp
    qed (use i pr in \<open>auto intro: reach.root\<close>)
  qed
  consider "h \<in> set fresh" | q where "prior = Some q" "h = q" | q where "prior = Some q" "?r [q] h"
    using assms(3) freshHeads_ok[OF assms(1)] InClosure_reach[of L m _ h] by (auto simp: priors_def split: option.splits)
  then show ?thesis
  proof cases
    case 1
    then show ?thesis using sub assms(4) by (auto intro: reach.root)
  next
    case 2
    then show ?thesis using p assms(4) by blast
  next
    case 3
    then show ?thesis using reach_heads[of "[q]" _ folded] p by auto
  qed
qed

lemma foldedHeads_nonempty: "foldedHeads u prior fresh = Inr folded \<Longrightarrow> fresh \<noteq> [] \<Longrightarrow> folded \<noteq> []"
  by (auto simp: foldedHeads_def rbind_eq_Inr split: option.splits if_splits)

text \<open>The state changes only in its store and its clock, and the store only grows.\<close>

definition grown :: "lib \<Rightarrow> sequencer \<Rightarrow> sequencer \<Rightarrow> bool" where
  "grown L s s' =
     (s' = s\<lparr>sqUni := sqUni s', sqTicks := sqTicks s'\<rparr> \<and> extends (sqUni s) (sqUni s') \<and> addressed L (sqUni s'))"

lemma grown_refl [simp]: "grown L s s \<longleftrightarrow> addressed L (sqUni s)"
  by (simp add: grown_def)

lemma grown_trans: "grown L a b \<Longrightarrow> grown L b c \<Longrightarrow> grown L a c"
  by (cases a, cases b, cases c) (auto simp: grown_def intro: extends_trans)

lemma grown_same: "grown L s s' \<Longrightarrow> sqHeads s' = sqHeads s \<and> sqHead s' = sqHead s \<and> sqMarks s' = sqMarks s \<and>
    sqSelf s' = sqSelf s \<and> sqOpener s' = sqOpener s \<and> extends (sqUni s) (sqUni s') \<and> addressed L (sqUni s')"
  by (cases s, cases s') (auto simp: grown_def)

lemma foldBranch_ok:
  assumes "foldBranch L now s prior hs = (s', Inr r)" "collisionFree L" "addressed L (sqUni s)"
  shows "grown L s s'"
    "r = None \<Longrightarrow> \<forall>h \<in> set hs. \<exists>p. prior = Some p \<and> InClosure (sqRead L s) BranchUniverse [p] h = Inr True"
    "r = Some n \<Longrightarrow> \<exists>minted. accumulates L (sqUni s) (hs @ priors prior) minted n \<and>
       (\<forall>c \<in> set minted. records (sqUni s') (ID c) = claimRaw c \<and> sealed L c)"
proof -
  obtain fresh where f: "freshHeads (sqRead L s) prior hs = Inr fresh"
    using assms(1) by (auto simp: foldBranch_def split: sum.splits)
  have "grown L s s' \<and>
      (r = None \<longrightarrow> (\<forall>h \<in> set hs. \<exists>p. prior = Some p \<and> InClosure (sqRead L s) BranchUniverse [p] h = Inr True)) \<and>
      (r = Some n \<longrightarrow> (\<exists>minted. accumulates L (sqUni s) (hs @ priors prior) minted n \<and>
       (\<forall>c \<in> set minted. records (sqUni s') (ID c) = claimRaw c \<and> sealed L c)))"
  proof (cases "fresh = []")
    case True
    then show ?thesis using assms freshHeads_ok[OF f] by (auto simp: foldBranch_def f)
  next
    case False
    then obtain folded where g: "foldedHeads (sqRead L s) prior fresh = Inr folded"
      using assms(1) f by (auto simp: foldBranch_def split: sum.splits)
    have ne: "folded \<noteq> []" using foldedHeads_nonempty[OF g False] .
    have all: "\<forall>h \<in> set (hs @ priors prior). h \<noteq> [] \<longrightarrow> reach (refs (memUni L (sqUni s))) folded h"
      using folded_reach[of L "sqUni s" prior hs fresh folded] f g by (auto simp: sqRead_def)
    show ?thesis
    proof (cases "length folded \<le> 1")
      case True
      then have "folded = [hd folded]" using ne by (cases folded) auto
      then have "accumulates L (sqUni s) (hs @ priors prior) [] (hd folded)"
        using all unfolding accumulates_def by metis
      then show ?thesis using assms False f g True by (auto simp: foldBranch_def intro!: exI[of _ "[]"])
    next
      case long: False
      obtain s1 hc where c: "consolidateHeads L now s folded = (s1, Inr hc)"
          "storeClaim (SeqErr errSequencer) s1 hc = (s', Inr ())" "r = Some (ID hc)"
        using assms(1) False f g long by (auto simp: foldBranch_def andThen_Inr)
      obtain b where k: "s1 = s\<lparr>sqTicks := sqTicks s + 1\<rparr>" "set folded \<subseteq> set (refsOf hc)"
          "Sign L now b None = Inr hc"
        using consolidateHeads_ok[OF c(1)] by blast
      have ad: "addressed L (sqUni s1)" using assms(3) k(1) by simp
      note st = storeClaim_built[OF c(2) k(3) assms(2) ad]
      have "grown L s s'" using st(1,2,4) k(1) by (cases s, cases s') (auto simp: grown_def)
      moreover have "accumulates L (sqUni s) (hs @ priors prior) [hc] (ID hc)"
        using all k(2) st(6) by (auto simp: accumulates_def)
      moreover have "sealed L hc" using Sign_builds[OF k(3)] by (auto simp: sealed_def)
      ultimately show ?thesis using c(3) st(3) by (auto intro!: exI[of _ "[hc]"])
    qed
  qed
  then show "grown L s s'"
    "r = None \<Longrightarrow> \<forall>h \<in> set hs. \<exists>p. prior = Some p \<and> InClosure (sqRead L s) BranchUniverse [p] h = Inr True"
    "r = Some n \<Longrightarrow> \<exists>minted. accumulates L (sqUni s) (hs @ priors prior) minted n \<and>
       (\<forall>c \<in> set minted. records (sqUni s') (ID c) = claimRaw c \<and> sealed L c)"
    by blast+
qed

section \<open>Folding every branch\<close>

lemma grown_closure: "grown L s s' \<Longrightarrow> reach (refs (memUni L (sqUni s))) hs i \<Longrightarrow> reach (refs (memUni L (sqUni s'))) hs i"
  using grown_same reach_extends by blast

text \<open>One entry per advanced branch: its head holds what the branch held and what it was given.\<close>

definition entryOk :: "lib \<Rightarrow> sequencer \<Rightarrow> sequencer \<Rightarrow> (string \<times> ident list) list \<Rightarrow> claim list \<Rightarrow> string \<times> ident \<Rightarrow> bool" where
  "entryOk L s s' m minted e =
     (\<exists>m1. extends (sqUni s) m1 \<and> extends m1 (sqUni s') \<and>
        accumulates L m1 (headsOn m (fst e) @ priors (map_of (sqHeads s) (fst e))) minted (snd e))"

lemma entryOk_grown:
  "entryOk L s1 s2 m minted e \<Longrightarrow> grown L s s1 \<Longrightarrow> grown L s2 s3 \<Longrightarrow> set minted \<subseteq> set minted' \<Longrightarrow>
     entryOk L s s3 m minted' e"
proof -
  assume a: "entryOk L s1 s2 m minted e" and g: "grown L s s1" "grown L s2 s3" and sub: "set minted \<subseteq> set minted'"
  obtain m1 where m1: "extends (sqUni s1) m1" "extends m1 (sqUni s2)"
      "accumulates L m1 (headsOn m (fst e) @ priors (map_of (sqHeads s1) (fst e))) minted (snd e)"
    using a by (auto simp: entryOk_def)
  have "extends (sqUni s) m1" "extends m1 (sqUni s3)"
    using grown_same[OF g(1)] grown_same[OF g(2)] m1(1,2) extends_trans by blast+
  moreover have "sqHeads s1 = sqHeads s" using grown_same[OF g(1)] by simp
  ultimately show "entryOk L s s3 m minted' e"
    using accumulates_more[OF m1(3) sub] by (auto simp: entryOk_def)
qed

lemma foldBranches_ok:
  assumes "foldBranches L now s m bs news = (s', Inr news')" "collisionFree L" "addressed L (sqUni s)"
  shows "grown L s s' \<and> (\<exists>ys minted. news' = news @ ys \<and> set (map fst ys) \<subseteq> set bs \<and>
    (\<forall>c \<in> set minted. records (sqUni s') (ID c) = claimRaw c \<and> sealed L c) \<and>
    (\<forall>e \<in> set ys. entryOk L s s' m minted e) \<and>
    (\<forall>b \<in> set bs. b \<in> set (map fst ys) \<or>
       (\<forall>h \<in> set (headsOn m b). reach (refs (memUni L (sqUni s'))) (priors (map_of (sqHeads s) b)) h)))"
  using assms
proof (induction bs arbitrary: s news)
  case (Cons b bs)
  obtain s1 r where f: "foldBranch L now s (map_of (sqHeads s) b) (headsOn m b) = (s1, Inr r)"
    and rest: "foldBranches L now s1 m bs (case r of None \<Rightarrow> news | Some h \<Rightarrow> news @ [(b, h)]) = (s', Inr news')"
    using Cons.prems(1) by (auto simp: andThen_Inr)
  note one = foldBranch_ok[OF f Cons.prems(2,3)]
  have same: "sqHeads s1 = sqHeads s" and ad: "addressed L (sqUni s1)" using grown_same[OF one(1)] by auto
  obtain ys minted where ih: "grown L s1 s'"
      "news' = (case r of None \<Rightarrow> news | Some h \<Rightarrow> news @ [(b, h)]) @ ys" "set (map fst ys) \<subseteq> set bs"
      "\<forall>c \<in> set minted. records (sqUni s') (ID c) = claimRaw c \<and> sealed L c"
      "\<forall>e \<in> set ys. entryOk L s1 s' m minted e"
      "\<forall>b \<in> set bs. b \<in> set (map fst ys) \<or>
         (\<forall>h \<in> set (headsOn m b). reach (refs (memUni L (sqUni s'))) (priors (map_of (sqHeads s1) b)) h)"
    using Cons.IH[OF rest Cons.prems(2) ad] by blast
  have g: "grown L s s'" using grown_trans[OF one(1) ih(1)] .
  have own_ys: "entryOk L s s' m (minted @ more) e" if "e \<in> set ys" for e more
    using ih(5) that entryOk_grown[OF _ one(1), of s' m minted e s' "minted @ more"] grown_same[OF g] by auto
  show ?case
  proof (cases r)
    case None
    have "reach (refs (memUni L (sqUni s'))) (priors (map_of (sqHeads s) b)) h" if hh: "h \<in> set (headsOn m b)" for h
    proof -
      obtain p where "map_of (sqHeads s) b = Some p" "InClosure (memUni L (sqUni s)) BranchUniverse [p] h = Inr True"
        using one(2)[OF None] hh by (auto simp: sqRead_def)
      then show ?thesis using grown_closure[OF g InClosure_reach] by (auto simp: priors_def)
    qed
    then show ?thesis
      using g ih(2,3,4,6) own_ys[of _ "[]"] same None
      by (intro conjI exI[of _ ys] exI[of _ minted]) auto
  next
    case (Some n)
    obtain mb where mb: "accumulates L (sqUni s) (headsOn m b @ priors (map_of (sqHeads s) b)) mb n"
        "\<forall>c \<in> set mb. records (sqUni s1) (ID c) = claimRaw c \<and> sealed L c"
      using one(3)[OF Some] by blast
    have kept: "\<forall>c \<in> set mb. records (sqUni s') (ID c) = claimRaw c \<and> sealed L c"
      using mb(2) grown_same[OF ih(1)] sealed_kept by blast
    have "entryOk L s s' m (minted @ mb) (b, n)"
      unfolding entryOk_def using accumulates_more[OF mb(1)] grown_same[OF g] by (auto intro!: exI[of _ "sqUni s"])
    then show ?thesis
      using g ih(2,3,4,6) own_ys[of _ mb] same Some kept
      by (intro conjI exI[of _ "(b, n) # ys"] exI[of _ "minted @ mb"]) auto
  qed
qed (auto intro: exI[of _ "[]"])

section \<open>Publishing\<close>

text \<open>A minted table is kept by every store that extends the one it was put in, and reads back.\<close>

lemma minted_sealed:
  assumes "mintBranchTable L now s bs = (s', Inr bt)"
  shows "sealed L bt" "tableEdges bt"
proof -
  obtain cfg where "Sign L now cfg None = Inr bt" using mintBranchTable_split[OF assms] by metis
  from Sign_builds[OF this] show "sealed L bt" unfolding sealed_def by blast
  show "tableEdges bt" using mintBranchTable_ok(3)[OF assms] by (simp add: tableEdges_def)
qed

lemma publish_ok:
  assumes "publish L now s bs = (s', Inr k)" "collisionFree L" "addressed L (sqUni s)"
  obtains bt t where "ID bt = k" "k = sqHead s'" "k \<noteq> []" "records (sqUni s') k = claimRaw bt"
    "sealed L bt" "tableEdges bt" "\<And>i. revises bt i \<longleftrightarrow> i = sqHead s \<and> i \<noteq> []"
    "\<And>b h. restates bt b h \<longleftrightarrow> b \<in> set bs \<and> h = getz (sqHeads s) b"
    "bsTop (sqMarks s') = Some t" "bmHead t = k"
    "sqHeads s' = sqHeads s" "sqOpener s' = sqOpener s" "sqSelf s' = sqSelf s"
    "extends (sqUni s) (sqUni s')" "addressed L (sqUni s')"
proof -
  obtain s1 bt s2 where m: "mintBranchTable L now s bs = (s1, Inr bt)"
      "bookmarkHead L (SeqErr errSequencer) s1 (ID bt) = (s2, Inr ())"
      "tagHead L (SeqErr errSequencer) (s2\<lparr>sqHead := ID bt\<rparr>) = (s', Inr ())" "k = sqHead s'"
    using assms(1) by (auto simp: publish_def andThen_Inr)
  note mint = mintBranchTable_stores[OF m(1) assms(2,3)]
  note mark = bookmarkHead_ok[OF m(2)]
  note tag = tagHead_frame[OF m(3)]
  obtain t where t: "bsTop (sqMarks s2) = Some t" "bmHead t = ID bt" using mark(2) by blast
  have s1: "sqHeads s1 = sqHeads s \<and> sqOpener s1 = sqOpener s \<and> sqSelf s1 = sqSelf s" 
    using mint(4) by (cases s, cases s1) simp
  have s2: "sqHeads s2 = sqHeads s1 \<and> sqOpener s2 = sqOpener s1 \<and> sqSelf s2 = sqSelf s1" 
    using mark(3) by (cases s1, cases s2) simp
  have s': "sqHeads s' = sqHeads s2 \<and> sqOpener s' = sqOpener s2 \<and> sqSelf s' = sqSelf s2 \<and> sqHead s' = ID bt \<and>
      sqMarks s' = sqMarks s2"
    using tag(2) by (cases s2, cases s') simp
  have r: "records (sqUni s') = records (sqUni s1)" using tag(1) mark(1) by simp
  show thesis
    by (rule that[of bt t])
       (use m mint mintBranchTable_ok(1,2)[OF m(1)] minted_sealed[OF m(1)] t s1 s2 s' r in
         \<open>auto simp: extends_def addressed_records[OF r]\<close>)
qed

lemma mintBranchTable_frame:
  assumes "mintBranchTable L now s bs = (s', r)"
  shows "sqHead s' = sqHead s \<and> sqHeads s' = sqHeads s \<and> sqOpener s' = sqOpener s"
  using assms
  by (auto simp: mintBranchTable_def tick_def Let_def andThen_def storeClaim_def split: sum.splits prod.splits if_splits)

lemma map_of_folded: "map_of (fold (\<lambda>(b, h). AList.update b h) ys m) = map_of m ++ map_of (rev ys)"
  by (induction ys arbitrary: m) (auto simp: update_conv' map_add_def fun_eq_iff split: option.split)

lemma folded_entry:
  "b \<in> set (map fst ys) \<Longrightarrow> \<exists>h. (b, h) \<in> set ys \<and> map_of (fold (\<lambda>(b, h). AList.update b h) ys m) b = Some h"
proof -
  assume "b \<in> set (map fst ys)"
  then obtain h where h: "map_of (rev ys) b = Some h"
    by (metis fst_conv image_eqI list.set_map map_of_eq_None_iff not_None_eq set_rev)
  then have "(b, h) \<in> set ys" using map_of_SomeD by fastforce
  then show ?thesis using h by (auto simp: map_of_folded)
qed

lemma folded_other:
  "b \<notin> set (map fst ys) \<Longrightarrow> map_of (fold (\<lambda>(b, h). AList.update b h) ys m) b = map_of m b"
  by (induction ys arbitrary: m) (auto simp: update_conv')

lemma Merge_split:
  assumes "Merge L now s (Some m) = (s', r)" "mgOpener m = sqOpener s" "sqHead s \<noteq> []"
    and "foldBranches L now s (mgHeads m) (mgBranches m) [] = (s1, Inr news)" "news \<noteq> []"
  shows "publish L now (s1\<lparr>sqHeads := fold (\<lambda>(b, h). AList.update b h) news (sqHeads s1)\<rparr>) (map fst news) = (s', r)"
  using assms by (simp add: Merge_def)

section \<open>A sample archive\<close>

text \<open>
  A library whose records are the claims of one run: the key's contributor \<open>hK\<close>, a note
  \<open>hN\<close>, the empty table \<open>haP\<close>, and what founding an archive and merging the note mint.
\<close>

definition mergeTables :: lib where
  "mergeTables = tableLib
     [(''K'', keyNode), (''N'', rawNode ''source'' ''note'' [''kk''] 1 []),
      (''F'', (rawNode ''.c'' ''.c'' [''kk''] 1 [])
         \<lparr>enEncodingClass := ''.a'', enEncodingSub := ''.o'', enContent := ''pk'', enContentSize := 2\<rparr>),
      (''P'', rawNode ''.c'' (aliasToWire ''branches'' nodeSubtypeToAlias) [''kk''] 1 []),
      (''Q'', rawNode ''.c'' (aliasToWire ''branches'' nodeSubtypeToAlias) [''fb'', ''kk'', ''pd''] 2 []),
      (''R'', rawNode ''.c'' (aliasToWire ''branches'' nodeSubtypeToAlias) [''kk'', ''nb'', ''pd''] 2 [])]
     [(''kk'', rawEdge ''.c'' ''.c'' ''hK'' []), (''pd'', rawEdge ''.c'' ''.d'' ''haP'' []),
      (''fb'', rawEdge ''.c'' ''.b'' ''haF'' [(''.n'', ''main'')]), (''nb'', rawEdge ''.c'' ''.b'' ''hN'' [(''.n'', ''main'')])]"

definition mergeLib :: lib where
  "mergeLib = listLib
     \<lparr>libEncNode := libEncNode mergeTables, libDecNode := libDecNode mergeTables,
      libEncEdge := libEncEdge mergeTables, libDecEdge := libDecEdge mergeTables,
      libCoseSign := (\<lambda>k alg p kid. case kid of None \<Rightarrow> Inr (CHR ''a'' # p) | Some i \<Rightarrow> Inr (CHR ''b'' # joinPart i p)),
      libCoseDecode := (\<lambda>raw. case raw of
          [] \<Rightarrow> Inr (sampleMsg [])
        | x # r \<Rightarrow> if x = CHR ''b''
            then Inr ((sampleMsg (snd (splitPart r)))\<lparr>coseProtected := 2, coseKid := fst (splitPart r)\<rparr>)
            else Inr (sampleMsg (if x = CHR ''a'' then r else raw)))\<rparr>"

definition juneFirst :: int where "juneFirst = 1780272000000000000"

definition unfounded :: sequencer where
  "unfounded =
     \<lparr>sqOpener = 1, sqUni = \<lparr>mClaims = [(''hK'', ''K'')], mContent = [], mTags = [], mMarks = []\<rparr>,
      sqMarks = emptyList,
      sqSelf = sampleContributor\<lparr>ctClaim := Claim (MNode (zeroNode\<lparr>nodeId := ''hK''\<rparr>) None) [] (Some ''K'') None []\<rparr>,
      sqClock = (\<lambda>_. juneFirst), sqTicks = 0, sqHead = [], sqHeads = []\<rparr>"

definition opened :: sequencer where
  "opened = unfounded
     \<lparr>sqUni := \<lparr>mClaims = [(''hK'', ''K''), (''hN'', ''N''), (''haP'', ''aP'')], mContent = [], mTags = [], mMarks = []\<rparr>,
      sqMarks := emptyList\<lparr>bsHi := 0, bsWrote := True, bsLoaded := True,
         bsTop := Some \<lparr>bmIndex = 0, bmSeed = ''s'', bmHead = ''haP'', bmSigner = ''hK''\<rparr>\<rparr>,
      sqHead := ''haP''\<rparr>"

definition noteMerge :: mergable where
  "noteMerge = \<lparr>mgOpener = 1, mgBranches = [''main''], mgHeads = [(''main'', [''hN''])], mgIds = [''hN'']\<rparr>"

lemma merge_runs:
  "(case Merge mergeLib juneFirst opened (Some noteMerge) of (s', r) \<Rightarrow>
      resultOf id r = Some ''haR'' \<and> sqHeads s' = [(''main'', ''hN'')] \<and>
      list_all (\<lambda>(i, b). \<not> isl (DecodeClaim mergeLib i b)) (mClaims (sqUni s')))"
  by code_simp

lemma mergeLib_hash: "hashContent mergeLib b = Inr (CHR ''h'' # b)"
  by (simp add: hashContent_def idFromBytes_def mergeLib_def listLib_def signedLib_def tableLib_def)

lemma opened_addressed: "addressed mergeLib (sqUni opened)"
  by (auto simp: addressed_def mergeLib_hash opened_def records_def split: if_splits)

lemma tabled:
  assumes "map_of xs (case find (\<lambda>p. snd p = x) xs of None \<Rightarrow> [] | Some p \<Rightarrow> fst p) = Some y"
    and "distinct (map fst xs)" "[] \<notin> set (map fst xs)"
  shows "y = x"
proof (cases "find (\<lambda>p. snd p = x) xs")
  case None
  then show ?thesis using assms(1,3) by (auto dest!: map_of_SomeD) (metis fst_conv image_eqI)
next
  case (Some p)
  then have p: "p \<in> set xs" "snd p = x" by (auto simp: find_Some_iff)
  then have "map_of xs (fst p) = Some x" using assms(2) by (metis map_of_is_SomeI prod.collapse)
  then show ?thesis using assms(1) Some by simp
qed

lemma tableLib_node:
  "libDecNode (tableLib ns es) (libEncNode (tableLib ns es) x) = Inr y \<Longrightarrow> distinct (map fst ns) \<Longrightarrow>
     [] \<notin> set (map fst ns) \<Longrightarrow> y = x"
  by (rule tabled[of ns x y])
     (cases "map_of ns (case find (\<lambda>p. snd p = x) ns of None \<Rightarrow> [] | Some p \<Rightarrow> fst p)", simp_all add: tableLib_def)

lemma tableLib_edge:
  "libDecEdge (tableLib ns es) (libEncEdge (tableLib ns es) x) = Inr y \<Longrightarrow> distinct (map fst es) \<Longrightarrow>
     [] \<notin> set (map fst es) \<Longrightarrow> y = x"
  by (rule tabled[of es x y])
     (cases "map_of es (case find (\<lambda>p. snd p = x) es of None \<Rightarrow> [] | Some p \<Rightarrow> fst p)", simp_all add: tableLib_def)

lemma mergeLib_laws: "collisionFree mergeLib" "codecLaws mergeLib"
proof -
  show "collisionFree mergeLib" by (simp add: collisionFree_def mergeLib_hash)
  have n: "libDecNode mergeTables (libEncNode mergeTables x) = Inr y \<Longrightarrow> y = x" for x y
    unfolding mergeTables_def by (drule tableLib_node) simp_all
  have e: "libDecEdge mergeTables (libEncEdge mergeTables x) = Inr y \<Longrightarrow> y = x" for x y
    unfolding mergeTables_def by (drule tableLib_edge) simp_all
  show "codecLaws mergeLib"
    using n e by (auto simp: codecLaws_def mergeLib_def sampleMsg_def)
qed

section \<open>Properties\<close>

text \<open>
  Property C11 (merge_publishes): a merge that returns either changes nothing but what it wrote beside,
  answering the head it found, or publishes a new head. What the store then reads at that head is a
  table that revises the head before and no other, restates only branches the contribution names, each
  at the head the branch has now, and every branch whose head changed; the newest bookmark records it.
  No stored claim is replaced.
\<close>

theorem merge_publishes:
  assumes "Merge L now s (Some m) = (s', Inr k)" "collisionFree L" "addressed L (sqUni s)"
    and "codecLaws L" "decodable L (sqUni s')"
  shows "k = sqHead s' \<and> extends (sqUni s) (sqUni s') \<and>
    (k = sqHead s \<and> sqHeads s' = sqHeads s \<and> sqMarks s' = sqMarks s \<or>
     (\<exists>d t. GetClaim (sqRead L s') True k = Inr d \<and> (\<forall>i. revises d i \<longleftrightarrow> i = sqHead s) \<and>
        bsTop (sqMarks s') = Some t \<and> bmHead t = k \<and>
        (\<forall>b h. restates d b h \<longrightarrow> b \<in> set (mgBranches m) \<and> map_of (sqHeads s') b = Some h) \<and>
        (\<forall>b. map_of (sqHeads s') b \<noteq> map_of (sqHeads s) b \<longrightarrow> (\<exists>h. restates d b h))))"
proof -
  have op: "mgOpener m = sqOpener s" "sqHead s \<noteq> []"
    using assms(1) by (auto simp: Merge_def split: if_splits)
  obtain s1 news where f: "foldBranches L now s (mgHeads m) (mgBranches m) [] = (s1, Inr news)"
    using assms(1) op by (auto simp: Merge_def andThen_Inr split: if_splits)
  have g: "grown L s s1" and sub: "set (map fst news) \<subseteq> set (mgBranches m)"
    using foldBranches_ok[OF f assms(2,3)] by auto
  note same = grown_same[OF g]
  show ?thesis
  proof (cases "news = []")
    case True
    then show ?thesis using assms(1) f same op by (auto simp: Merge_def)
  next
    case False
    let ?s2 = "s1\<lparr>sqHeads := fold (\<lambda>(b, h). AList.update b h) news (sqHeads s1)\<rparr>"
    have "addressed L (sqUni ?s2)" using same by simp
    with Merge_split[OF assms(1) op f False] assms(2)
    obtain bt t where p: "ID bt = k" "k = sqHead s'" "k \<noteq> []" "records (sqUni s') k = claimRaw bt"
        "sealed L bt" "tableEdges bt" "\<And>i. revises bt i \<longleftrightarrow> i = sqHead ?s2 \<and> i \<noteq> []"
        "\<And>b h. restates bt b h \<longleftrightarrow> b \<in> set (map fst news) \<and> h = getz (sqHeads ?s2) b"
        "bsTop (sqMarks s') = Some t" "bmHead t = k" "sqHeads s' = sqHeads ?s2" "extends (sqUni ?s2) (sqUni s')"
      by (rule publish_ok) blast
    obtain d where d: "GetClaim (sqRead L s') True k = Inr d" "\<And>b h. restates d b h \<longleftrightarrow> restates bt b h"
        "\<And>i. revises d i \<longleftrightarrow> revises bt i"
      using table_reads[OF assms(4,5) p(5) _ _ p(6)] p(1,3,4) unfolding sqRead_def by metis
    have now: "map_of (sqHeads s') b = Some (getz (sqHeads ?s2) b)" if "b \<in> set (map fst news)" for b
      using folded_entry[OF that, of "sqHeads s1"] p(11) by (auto simp: getz_def)
    have rest: "map_of (sqHeads s') b = map_of (sqHeads s) b" if "b \<notin> set (map fst news)" for b
      using folded_other[OF that] p(11) same by simp
    have "extends (sqUni s) (sqUni s')" using p(12) same extends_trans by auto
    moreover have "\<forall>i. revises d i \<longleftrightarrow> i = sqHead s" using d(3) p(7) same op(2) by auto
    moreover have "b \<in> set (mgBranches m) \<and> map_of (sqHeads s') b = Some h" if "restates d b h" for b h
      using that d(2)[of b h] p(8)[of b h] now[of b] sub by auto
    moreover have "\<exists>h. restates d b h" if "map_of (sqHeads s') b \<noteq> map_of (sqHeads s) b" for b
      using that d(2)[of b] p(8)[of b] rest[of b] by auto
    ultimately show ?thesis using p(2,9,10) d(1) by meson
  qed
qed

lemma merge_ran:
  obtains s' where "Merge mergeLib juneFirst opened (Some noteMerge) = (s', Inr ''haR'')" "sqHeads s' = [(''main'', ''hN'')]"
    "decodable mergeLib (sqUni s')"
proof -
  obtain s' where s': "Merge mergeLib juneFirst opened (Some noteMerge) = (s', Inr ''haR'')" "sqHeads s' = [(''main'', ''hN'')]"
      "list_all (\<lambda>(i, b). \<not> isl (DecodeClaim mergeLib i b)) (mClaims (sqUni s'))"
    using merge_runs by (auto simp: resultOf_Some split: prod.splits)
  have "\<exists>c. DecodeClaim mergeLib i b = Inr c" if "records (sqUni s') i = Some b" for i b
  proof -
    have "\<not> isl (DecodeClaim mergeLib i b)"
      using s'(3) map_of_SomeD[OF that[unfolded records_def]] by (auto simp: list_all_iff)
    then show ?thesis by (cases "DecodeClaim mergeLib i b") auto
  qed
  then show thesis using that s'(1,2) by (simp add: decodable_def)
qed

theorem merge_publishes_witness:
  "\<exists>s' d. Merge mergeLib juneFirst opened (Some noteMerge) = (s', Inr ''haR'') \<and>
     GetClaim (sqRead mergeLib s') True ''haR'' = Inr d \<and> revises d ''haP'' \<and> restates d ''main'' ''hN''"
proof -
  obtain s' where s': "Merge mergeLib juneFirst opened (Some noteMerge) = (s', Inr ''haR'')" "sqHeads s' = [(''main'', ''hN'')]"
      "decodable mergeLib (sqUni s')"
    by (rule merge_ran)
  have o: "sqHead opened = ''haP''" "sqHeads opened = []" by (simp_all add: opened_def unfounded_def)
  note p = merge_publishes[OF s'(1) mergeLib_laws(1) opened_addressed mergeLib_laws(2) s'(3), unfolded o]
  from conjunct2[OF conjunct2[OF p]] show ?thesis
  proof (elim disjE conjE exE)
    fix d t assume d: "GetClaim (sqRead mergeLib s') True ''haR'' = Inr d" "\<forall>i. revises d i \<longleftrightarrow> i = ''haP''"
      "\<forall>b h. restates d b h \<longrightarrow> b \<in> set (mgBranches noteMerge) \<and> map_of (sqHeads s') b = Some h"
      "\<forall>b. map_of (sqHeads s') b \<noteq> map_of [] b \<longrightarrow> (\<exists>h. restates d b h)"
    have "map_of (sqHeads s') ''main'' \<noteq> map_of [] ''main''" by (simp add: s'(2))
    then obtain h where h: "restates d ''main'' h" using d(4) by blast
    then have "h = ''hN''" using d(3) s'(2) by fastforce
    then show ?thesis using s'(1) d(1,2) h by blast
  qed simp
qed

text \<open>
  Property C10 (merge_accumulates): after a merge, each branch's head reaches everything its head before
  reached, and everything the contribution's heads for it reached: nothing leaves a branch.
\<close>

theorem merge_accumulates:
  assumes "Merge L now s (Some m) = (s', Inr k)" "collisionFree L" "addressed L (sqUni s)"
    and "codecLaws L" "decodable L (sqUni s')"
    and "reach (refs (sqRead L s)) (priors (map_of (sqHeads s) b)) i \<or>
      (b \<in> set (mgBranches m) \<and> reach (refs (sqRead L s)) (headsOn (mgHeads m) b) i)"
  shows "reach (refs (sqRead L s')) (priors (map_of (sqHeads s') b)) i"
proof -
  have op: "mgOpener m = sqOpener s" "sqHead s \<noteq> []"
    using assms(1) by (auto simp: Merge_def split: if_splits)
  obtain s1 news where f: "foldBranches L now s (mgHeads m) (mgBranches m) [] = (s1, Inr news)"
    using assms(1) op by (auto simp: Merge_def andThen_Inr split: if_splits)
  obtain minted where g: "grown L s s1" "set (map fst news) \<subseteq> set (mgBranches m)"
      "\<forall>c \<in> set minted. records (sqUni s1) (ID c) = claimRaw c \<and> sealed L c"
      "\<forall>e \<in> set news. entryOk L s s1 (mgHeads m) minted e"
      "\<forall>b \<in> set (mgBranches m). b \<in> set (map fst news) \<or>
         (\<forall>h \<in> set (headsOn (mgHeads m) b). reach (refs (memUni L (sqUni s1))) (priors (map_of (sqHeads s) b)) h)"
    using foldBranches_ok[OF f assms(2,3)] by auto
  have end_state: "extends (sqUni s1) (sqUni s') \<and>
      sqHeads s' = fold (\<lambda>(b, h). AList.update b h) news (sqHeads s)"
  proof (cases "news = []")
    case True
    then show ?thesis using assms(1) f op grown_same[OF g(1)] by (auto simp: Merge_def)
  next
    case False
    let ?s2 = "s1\<lparr>sqHeads := fold (\<lambda>(b, h). AList.update b h) news (sqHeads s1)\<rparr>"
    have ad: "addressed L (sqUni ?s2)" using grown_same[OF g(1)] by simp
    obtain "sqHeads s' = sqHeads ?s2" "extends (sqUni ?s2) (sqUni s')"
      using publish_ok[OF Merge_split[OF assms(1) op f False] assms(2) ad] by metis
    then show ?thesis using grown_same[OF g(1)] by simp
  qed
  have whole: "extends (sqUni s) (sqUni s')" using end_state grown_same[OF g(1)] extends_trans by blast
  show ?thesis
  proof (cases "b \<in> set (map fst news)")
    case True
    then obtain n where n: "(b, n) \<in> set news" "map_of (sqHeads s') b = Some n"
      using folded_entry[OF True] end_state by metis
    obtain m1 where m1: "extends (sqUni s) m1" "extends m1 (sqUni s1)"
        "accumulates L m1 (headsOn (mgHeads m) b @ priors (map_of (sqHeads s) b)) minted n"
      using g(4) n(1) by (fastforce simp: entryOk_def)
    have r: "reach (refs (memUni L m1)) (headsOn (mgHeads m) b @ priors (map_of (sqHeads s) b)) i"
    proof (rule reach_extends[OF m1(1)])
      show "reach (refs (memUni L (sqUni s))) (headsOn (mgHeads m) b @ priors (map_of (sqHeads s) b)) i"
        using assms(6) unfolding reach_union sqRead_def by blast
    qed
    have e: "extends m1 (sqUni s')" using m1(2) end_state extends_trans by blast
    have "\<forall>c \<in> set minted. ID c \<noteq> [] \<longrightarrow> refs (memUni L (sqUni s')) (ID c) = refsOf c"
    proof (intro ballI impI)
      fix c assume c: "c \<in> set minted" "ID c \<noteq> []"
      have "sealed L c" "records (sqUni s1) (ID c) = claimRaw c" using g(3) c(1) by blast+
      with end_state have "records (sqUni s') (ID c) = claimRaw c" using sealed_kept by blast
      then show "refs (memUni L (sqUni s')) (ID c) = refsOf c"
        using sealed_read[OF assms(4,5) \<open>sealed L c\<close>] c(2) by blast
    qed
    then show ?thesis using accumulates_reach[OF m1(3) e _ r] n(2) by (simp add: priors_def sqRead_def)
  next
    case False
    then have heads: "map_of (sqHeads s') b = map_of (sqHeads s) b" using folded_other[OF False] end_state by simp
    have "reach (refs (memUni L (sqUni s'))) (priors (map_of (sqHeads s) b)) h"
      if "h \<in> set (headsOn (mgHeads m) b)" "b \<in> set (mgBranches m)" for h
      using that g(5) False reach_extends end_state by blast
    moreover have "reach (refs (sqRead L s')) hs i" if "reach (refs (sqRead L s)) hs i" for hs
      using that reach_extends[OF whole] by (simp add: sqRead_def)
    ultimately show ?thesis
      using assms(6) reach_heads[of "headsOn (mgHeads m) b" _ "priors (map_of (sqHeads s) b)" i]
      by (auto simp: heads sqRead_def)
  qed
qed

lemma note_refs: "refs (sqRead mergeLib opened) ''hN'' = [''hK'']" "refs (sqRead mergeLib opened) ''hK'' = []"
  by code_simp+

lemma note_reads:
  "\<not> isl (GetClaim (sqRead mergeLib opened) False ''hN'')" "\<not> isl (GetClaim (sqRead mergeLib opened) True ''hN'')"
  "\<not> isl (GetClaim (sqRead mergeLib opened) True ''hK'')"
  by code_simp+

lemma note_gapFree: "gapFree (sqRead mergeLib opened) [''hN'']"
proof -
  have "i = ''hN'' \<or> i = ''hK''" if "reach (refs (sqRead mergeLib opened)) [''hN''] i" for i
    using that by (induction rule: reach.induct) (auto simp: note_refs)
  then show ?thesis using note_reads(2,3) unfolding gapFree_def by (metis sum.collapse(2))
qed

theorem merge_accumulates_witness:
  "\<exists>s'. Merge mergeLib juneFirst opened (Some noteMerge) = (s', Inr ''haR'') \<and>
     reach (refs (sqRead mergeLib s')) [''hN''] ''hK''"
proof -
  obtain s' where s': "Merge mergeLib juneFirst opened (Some noteMerge) = (s', Inr ''haR'')" "sqHeads s' = [(''main'', ''hN'')]"
      "decodable mergeLib (sqUni s')"
    by (rule merge_ran)
  have "reach (refs (sqRead mergeLib opened)) [''hN''] ''hK''"
    by (rule reach_edge) (simp_all add: note_refs)
  then show ?thesis
    using merge_accumulates[OF s'(1) mergeLib_laws(1) opened_addressed mergeLib_laws(2) s'(3), of "''main''" "''hK''"] s'(1,2)
    by (auto simp: noteMerge_def headsOn_def priors_def)
qed

text \<open>
  Where every head the contribution brings is in the closure of its
  branch's head already, and that closure reads without a gap, a merge writes nothing, mints nothing
  and answers the head it found.
\<close>

theorem merge_idempotent:
  assumes "mgOpener m = sqOpener s" "sqHead s \<noteq> []"
    and "\<And>b h. b \<in> set (mgBranches m) \<Longrightarrow> h \<in> set (headsOn (mgHeads m) b) \<Longrightarrow>
      \<exists>p c. map_of (sqHeads s) b = Some p \<and> gapFree (sqRead L s) [p] \<and>
        reach (refs (sqRead L s)) [p] h \<and> GetClaim (sqRead L s) False h = Inr c"
  shows "Merge L now s (Some m) = (s, Inr (sqHead s))"
proof -
  have held: "freshHeads (sqRead L s) (map_of (sqHeads s) b) (headsOn (mgHeads m) b) = Inr []"
    if b: "b \<in> set (mgBranches m)" for b
  proof (rule freshHeads_held, rule ballI)
    fix h assume "h \<in> set (headsOn (mgHeads m) b)"
    then obtain p c where p: "map_of (sqHeads s) b = Some p" "gapFree (sqRead L s) [p]"
        "reach (refs (sqRead L s)) [p] h" "GetClaim (sqRead L s) False h = Inr c"
      using assms(3)[OF b] by blast
    have "InClosure (sqRead L s) BranchUniverse [p] h = Inr True"
      using mem.InClosure_exact[of L "sqUni s" "[p]" h c BranchUniverse] p
      by (simp add: sqRead_def tagged_def namedBranch_def)
    then show "\<exists>p. map_of (sqHeads s) b = Some p \<and> InClosure (sqRead L s) BranchUniverse [p] h = Inr True"
      using p(1) by blast
  qed
  have "foldBranches L now s (mgHeads m) bs [] = (s, Inr [])" if "set bs \<subseteq> set (mgBranches m)" for bs
    using that by (induction bs) (auto simp: foldBranch_def held)
  then show ?thesis using assms(1,2) by (simp add: Merge_def)
qed

lemma note_held:
  assumes "sqUni s = sqUni opened" "b \<in> set (mgBranches noteMerge)" "h \<in> set (headsOn (mgHeads noteMerge) b)"
  shows "\<exists>p c. map_of [(''main'', ''hN'')] b = Some p \<and> gapFree (sqRead mergeLib s) [p] \<and>
    reach (refs (sqRead mergeLib s)) [p] h \<and> GetClaim (sqRead mergeLib s) False h = Inr c"
proof -
  have r: "sqRead mergeLib s = sqRead mergeLib opened" by (simp add: sqRead_def assms(1))
  have "reach (refs (sqRead mergeLib opened)) [''hN''] ''hN''" by (rule reach.root) simp_all
  moreover obtain c where "GetClaim (sqRead mergeLib opened) False ''hN'' = Inr c"
    using note_reads(1) by (cases "GetClaim (sqRead mergeLib opened) False ''hN''") auto
  ultimately show ?thesis using assms(2,3) note_gapFree unfolding r by (simp add: noteMerge_def headsOn_def)
qed

theorem merge_idempotent_witness:
  "Merge mergeLib juneFirst (opened\<lparr>sqHeads := [(''main'', ''hN'')]\<rparr>) (Some noteMerge) =
     (opened\<lparr>sqHeads := [(''main'', ''hN'')]\<rparr>, Inr ''haP'')"
  using merge_idempotent[of noteMerge "opened\<lparr>sqHeads := [(''main'', ''hN'')]\<rparr>" mergeLib juneFirst]
    note_held[of "opened\<lparr>sqHeads := [(''main'', ''hN'')]\<rparr>"]
  by (simp add: noteMerge_def opened_def unfounded_def)

text \<open>
  Property C14 (failed_merge_sticks): a merge whose fold went through and whose table, or the bookmark
  of it, then failed has moved the branches' heads and left the archive's. Once the new heads hold the
  contribution, offering it again is answered with the head before it, as a success: the archive there
  does not carry it.
\<close>

theorem failed_merge_sticks:
  assumes "mgOpener m = sqOpener s" "sqHead s \<noteq> []" "collisionFree L" "addressed L (sqUni s)"
    and "foldBranches L now s (mgHeads m) (mgBranches m) [] = (s1, Inr news)" "news \<noteq> []"
    and "s2 = s1\<lparr>sqHeads := fold (\<lambda>(b, h). AList.update b h) news (sqHeads s1)\<rparr>"
    and "mintBranchTable L now s2 (map fst news) = (s', Inl e) \<or>
      (\<exists>s3 bt. mintBranchTable L now s2 (map fst news) = (s3, Inr bt) \<and>
        bookmarkHead L (SeqErr errSequencer) s3 (ID bt) = (s', Inl e))"
    and "\<And>b h. b \<in> set (mgBranches m) \<Longrightarrow> h \<in> set (headsOn (mgHeads m) b) \<Longrightarrow>
      \<exists>p c. map_of (sqHeads s2) b = Some p \<and> gapFree (sqRead L s') [p] \<and>
        reach (refs (sqRead L s')) [p] h \<and> GetClaim (sqRead L s') False h = Inr c"
  shows "Merge L now s (Some m) = (s', Inl e) \<and> sqHead s' = sqHead s \<and> sqHeads s' = sqHeads s2 \<and>
    Merge L now s' (Some m) = (s', Inr (sqHead s))"
proof -
  have g: "grown L s s1" using foldBranches_ok[OF assms(5,3,4)] by auto
  note same = grown_same[OF g]
  have pub: "publish L now s2 (map fst news) = (s', Inl e)"
    using assms(8) by (auto simp: publish_def)
  have fields: "sqHead s' = sqHead s2 \<and> sqHeads s' = sqHeads s2 \<and> sqOpener s' = sqOpener s2"
    using assms(8)
  proof
    assume "mintBranchTable L now s2 (map fst news) = (s', Inl e)"
    then show ?thesis by (rule mintBranchTable_frame)
  next
    assume "\<exists>s3 bt. mintBranchTable L now s2 (map fst news) = (s3, Inr bt) \<and>
        bookmarkHead L (SeqErr errSequencer) s3 (ID bt) = (s', Inl e)"
    then obtain s3 bt where m: "mintBranchTable L now s2 (map fst news) = (s3, Inr bt)"
        "bookmarkHead L (SeqErr errSequencer) s3 (ID bt) = (s', Inl e)" by blast
    have "sqHead s' = sqHead s3 \<and> sqHeads s' = sqHeads s3 \<and> sqOpener s' = sqOpener s3"
      using bookmarkHead_frame(2)[OF m(2)] by (cases s3, cases s') simp
    then show ?thesis using mintBranchTable_frame[OF m(1)] by simp
  qed
  have s2: "sqHead s2 = sqHead s" "sqOpener s2 = sqOpener s" using same by (simp_all add: assms(7))
  have "Merge L now s' (Some m) = (s', Inr (sqHead s'))"
    by (rule merge_idempotent) (use fields s2 assms(1,2,9) in auto)
  then show ?thesis using assms(1,2,5,6) pub fields s2 by (simp add: Merge_def assms(7))
qed

text \<open>A clock that stands before any claim: the fold mints nothing, the table is refused.\<close>

definition stopped :: sequencer where
  "stopped = opened\<lparr>sqClock := (\<lambda>_. 0)\<rparr>"

lemma stopped_fold:
  "foldBranches mergeLib juneFirst stopped (mgHeads noteMerge) (mgBranches noteMerge) [] = (stopped, Inr [(''main'', ''hN'')])"
  by (simp add: noteMerge_def foldBranch_def headsOn_def foldedHeads_def stopped_def opened_def unfounded_def)

lemma stopped_mint:
  "(case mintBranchTable mergeLib juneFirst (stopped\<lparr>sqHeads := [(''main'', ''hN'')]\<rparr>) [''main''] of
      (s', r) \<Rightarrow> isl r \<and> sqUni s' = sqUni opened)"
  by code_simp

theorem failed_merge_sticks_witness:
  "\<exists>s' e. Merge mergeLib juneFirst stopped (Some noteMerge) = (s', Inl e) \<and>
     Merge mergeLib juneFirst s' (Some noteMerge) = (s', Inr ''haP'')"
proof -
  obtain s' e where s': "mintBranchTable mergeLib juneFirst (stopped\<lparr>sqHeads := [(''main'', ''hN'')]\<rparr>) [''main''] = (s', Inl e)"
      "sqUni s' = sqUni opened"
    using stopped_mint by (auto split: prod.splits simp: isl_def)
  have st: "sqHead stopped = ''haP''" "sqHeads stopped = []" "sqOpener stopped = 1" "sqUni stopped = sqUni opened"
      "mgOpener noteMerge = 1" by (simp_all add: stopped_def opened_def unfounded_def noteMerge_def)
  have two: "stopped\<lparr>sqHeads := [(''main'', ''hN'')]\<rparr> =
      stopped\<lparr>sqHeads := fold (\<lambda>(b, h). AList.update b h) [(''main'', ''hN'')] (sqHeads stopped)\<rparr>"
    by (simp add: st)
  show ?thesis
    using failed_merge_sticks[of noteMerge stopped mergeLib juneFirst stopped "[(''main'', ''hN'')]" _ s' e, OF _ _ mergeLib_laws(1) _ stopped_fold _ two]
      note_held[OF s'(2)] s'(1) opened_addressed by (auto simp: st)
qed

end
