(* ===== verification/Completing.thy ===== *)
theory Completing
  imports Merging
begin

text \<open>
  What the sequencer promises of a contribution it completes, and of the founding of an archive.
\<close>

section \<open>Completing a contribution\<close>

lemma completeBranch_split:
  assumes "completeBranch L now s c b = (s', Inr h)"
  obtains g where "AddClaims (NewGraph (Some (sqUni s))) (map Some (stagedOn c b)) = (g, Inr ())"
    "admitReferences L (s\<lparr>sqUni := gUniverse g\<rparr>) c b = Inr ()"
    "vFailures (runVerification L (gHeads g) (memUni L (gUniverse g)) (newVerifyConfig []) None) = []"
    "consolidateGraph L now (s\<lparr>sqUni := gUniverse g\<rparr>) (Cite g (StrandedByDeletion (gHeads g) (stagedOn c b))) = (s', Inr h)"
proof -
  obtain g r where a: "AddClaims (NewGraph (Some (sqUni s))) (map Some (stagedOn c b)) = (g, r)"
    by (metis prod.exhaust)
  have r: "r = Inr ()" "admitReferences L (s\<lparr>sqUni := gUniverse g\<rparr>) c b = Inr ()"
    using assms by (auto simp: completeBranch_def a Let_def rbind_def wrapping_def split: sum.splits)
  show thesis
    using assms r that[of g] a
    by (auto simp: completeBranch_def Let_def sqRead_def split: list.splits)
qed

lemma roots_Cite:
  "[] \<notin> set is' \<Longrightarrow> set (roots (Cite g is')) = set (roots g) \<union> set is'"
proof -
  assume "[] \<notin> set is'"
  then have "set (fold (\<lambda>i s. if i = [] then s else List.insert i s) is' xs) = set xs \<union> set is'" for xs
    by (induction is' arbitrary: xs) auto
  then show ?thesis by (auto simp: roots_def Cite_def)
qed

section \<open>What completing stores\<close>

text \<open>A claim that is named by the hash of its record, and one that is what its record decodes to.\<close>

definition named :: "lib \<Rightarrow> claim \<Rightarrow> bool" where
  "named L x = (\<exists>raw. claimRaw x = Some raw \<and> hashContent L raw = Inr (ID x))"

definition recorded :: "lib \<Rightarrow> claim \<Rightarrow> bool" where
  "recorded L x =
     (\<exists>raw d. claimRaw x = Some raw \<and> hashContent L raw = Inr (ID x) \<and> DecodeClaim L (ID x) raw = Inr d \<and>
        x = withTags d (claimTags x))"

lemma recorded_named: "recorded L x \<Longrightarrow> named L x"
  by (auto simp: recorded_def named_def)

lemma put_named:
  assumes "memPutClaims m [Some x] = (m', Inr ())" "named L x" "collisionFree L" "addressed L m"
  shows "extends m m'" "addressed L m'" "records m' (ID x) = claimRaw x" "mTags m' = mTags m"
proof -
  obtain e where e: "claimRaw x = Some e" "m' = m\<lparr>mClaims := AList.update (ID x) e (mClaims m)\<rparr>"
    using assms(1) by (auto simp: Envelope_def split: if_splits option.splits)
  have h: "hashContent L e = Inr (ID x)" using assms(2) e(1) by (auto simp: named_def)
  have r: "records m' = (records m)(ID x \<mapsto> e)" by (simp add: e(2) records_def update_conv')
  have old: "records m (ID x) = Some b \<Longrightarrow> b = e" for b
    using assms(3,4) h by (auto simp: collisionFree_def addressed_def)
  then show "extends m m'" unfolding extends_def r by (auto simp: map_le_def dom_def)
  show "addressed L m'" using assms(4) h by (auto simp: addressed_def r)
  show "records m' (ID x) = claimRaw x" unfolding r e(1) by simp
  show "mTags m' = mTags m" by (simp add: e(2))
qed

lemma named_kept: "named L x \<Longrightarrow> records m (ID x) = claimRaw x \<Longrightarrow> extends m m' \<Longrightarrow> records m' (ID x) = claimRaw x"
  by (auto simp: named_def dest: extends_records)

lemma AddClaims_named:
  assumes "AddClaims g (map Some cs) = (g', Inr ())" "collisionFree L" "addressed L (gUniverse g)" "\<forall>x \<in> set cs. named L x"
  shows "extends (gUniverse g) (gUniverse g') \<and> addressed L (gUniverse g') \<and> mTags (gUniverse g') = mTags (gUniverse g) \<and>
    (\<forall>x \<in> set cs. records (gUniverse g') (ID x) = claimRaw x) \<and> set (gHeads g') \<subseteq> set (gHeads g) \<union> ID ` set cs"
  using assms(1,3,4)
proof (induction cs arbitrary: g)
  case (Cons x cs)
  obtain m where m: "memPutClaims (gUniverse g) [Some x] = (m, Inr ())"
      "AddClaims (g\<lparr>gUniverse := m, gHeads := advance x (gHeads g)\<rparr>) (map Some cs) = (g', Inr ())"
    using Cons.prems(1) by (auto split: prod.splits sum.splits)
  have x: "named L x" using Cons.prems(3) by simp
  note put = put_named[OF m(1) x assms(2) Cons.prems(2)]
  have ih: "extends m (gUniverse g') \<and> addressed L (gUniverse g') \<and> mTags (gUniverse g') = mTags m \<and>
      (\<forall>x \<in> set cs. records (gUniverse g') (ID x) = claimRaw x) \<and> set (gHeads g') \<subseteq> set (advance x (gHeads g)) \<union> ID ` set cs"
    using Cons.IH[OF m(2)] put(2) Cons.prems(3) by simp
  then have "records (gUniverse g') (ID x) = claimRaw x" using named_kept[OF x put(3)] by blast
  moreover have "set (advance x (gHeads g)) \<subseteq> set (gHeads g) \<union> {ID x}" by (auto simp: set_advance)
  ultimately show ?case using ih put(1,4) extends_trans by auto
qed simp

text \<open>The head a graph takes is its one root, or a claim minted and stored for it over every root.\<close>

definition minted :: "lib \<Rightarrow> memoryUniverse \<Rightarrow> claim \<Rightarrow> bool" where
  "minted L m head =
     (sealed L head \<and> records m (ID head) = claimRaw head \<and> ID head \<noteq> [] \<and> nFields (own (claimNode head)) = [])"

lemma Consolidate_minted:
  assumes "Consolidate L now g ct ts = (g', Inr head)" "length (roots g) \<noteq> 1" "collisionFree L" "addressed L (gUniverse g)"
  shows "minted L (gUniverse g') head" "extends (gUniverse g) (gUniverse g')" "addressed L (gUniverse g')"
    "mTags (gUniverse g') = mTags (gUniverse g)"
proof -
  have "roots g \<noteq> []" using assms(1) by (auto simp: Consolidate_def Let_def)
  then have h: "headClaim L now (memUni L (gUniverse g)) ct ts (roots g) = Inr head" "AddClaims g (map Some [head]) = (g', Inr ())"
    using assms(1,2)
    by (auto simp: Consolidate_def Let_def simp del: AddClaims.simps split: sum.splits prod.splits)
  obtain cfg where b: "buildClaim L now cfg = Inr head" "blFields cfg = []"
    using h(1) by (auto simp: headClaim_def rbind_eq_Inr NewClaim_def)
  obtain env where "claimRaw head = Some env" "hashContent L env = Inr (ID head)" using b(1) by (rule built_hash)
  then have "named L head" by (simp add: named_def)
  then have put: "extends (gUniverse g) (gUniverse g') \<and> addressed L (gUniverse g') \<and> mTags (gUniverse g') = mTags (gUniverse g) \<and>
      records (gUniverse g') (ID head) = claimRaw head"
    using AddClaims_named[OF h(2) assms(3,4)] by simp
  have "ID head \<noteq> []" using h(2) by (auto split: if_splits prod.splits sum.splits)
  then show "minted L (gUniverse g') head"
    using put b built_fields[OF b(1)] by (auto simp: minted_def sealed_def)
  show "extends (gUniverse g) (gUniverse g')" "addressed L (gUniverse g')" "mTags (gUniverse g') = mTags (gUniverse g)"
    using put by auto
qed

lemma consolidateGraph_ok:
  assumes "consolidateGraph L now s g = (s', Inr h)" "sqUni s = gUniverse g" "collisionFree L" "addressed L (gUniverse g)"
  shows "extends (gUniverse g) (sqUni s') \<and> addressed L (sqUni s') \<and> mTags (sqUni s') = mTags (gUniverse g) \<and>
      s' = s\<lparr>sqUni := sqUni s', sqTicks := sqTicks s'\<rparr>"
    "roots g = [h] \<and> h \<in> set (gHeads g) \<or>
     (\<exists>head. ID head = h \<and> set (roots g) \<subseteq> set (refsOf head) \<and> minted L (sqUni s') head)"
proof -
  have "(extends (gUniverse g) (sqUni s') \<and> addressed L (sqUni s') \<and> mTags (sqUni s') = mTags (gUniverse g) \<and>
      s' = s\<lparr>sqUni := sqUni s', sqTicks := sqTicks s'\<rparr>) \<and>
    (roots g = [h] \<and> h \<in> set (gHeads g) \<or>
     (\<exists>head. ID head = h \<and> set (roots g) \<subseteq> set (refsOf head) \<and> minted L (sqUni s') head))"
  proof (cases "IsConsolidated g")
    case True
    then have h: "h \<in> set (gHeads g)" "s' = s"
      using assms(1) by (cases "gHeads g"; auto simp: consolidateGraph_def)+
    then have "h \<in> set (roots g)" by (auto simp: roots_def)
    then have "roots g = [h]" using True by (cases "roots g") (auto simp: IsConsolidated_def)
    then show ?thesis using h assms(2,4) by simp
  next
    case False
    obtain g' head where c: "Consolidate L now g (sqSelf s) [sqClock s (sqTicks s)] = (g', Inr head)" "h = ID head"
        "s' = s\<lparr>sqTicks := sqTicks s + 1, sqUni := gUniverse g'\<rparr>"
      using assms(1) False by (auto simp: consolidateGraph_def tick_def rbind_eq_Inr split: prod.splits)
    have l: "length (roots g) \<noteq> 1" using False by (simp add: IsConsolidated_def)
    show ?thesis
      using Consolidate_minted[OF c(1) l assms(3,4)] Consolidate_built(1)[OF c(1) l] by (auto simp: c(2,3))
  qed
  then show "extends (gUniverse g) (sqUni s') \<and> addressed L (sqUni s') \<and> mTags (sqUni s') = mTags (gUniverse g) \<and>
      s' = s\<lparr>sqUni := sqUni s', sqTicks := sqTicks s'\<rparr>"
    "roots g = [h] \<and> h \<in> set (gHeads g) \<or>
     (\<exists>head. ID head = h \<and> set (roots g) \<subseteq> set (refsOf head) \<and> minted L (sqUni s') head)"
    by blast+
qed

lemma AddClaims_ids:
  "AddClaims g (map Some cs) = (g', Inr ()) \<Longrightarrow> \<forall>c \<in> set cs. ID c \<noteq> []"
  by (induction cs arbitrary: g) (auto split: prod.splits sum.splits if_splits)

text \<open>One branch, from the store before it to the store after it.\<close>

lemma completeBranch_stores:
  assumes "completeBranch L now s c b = (s', Inr h)" "collisionFree L" "addressed L (sqUni s)"
    and "\<forall>x \<in> set (stagedOn c b). named L x"
  obtains g where "AddClaims (NewGraph (Some (sqUni s))) (map Some (stagedOn c b)) = (g, Inr ())"
    "admitReferences L (s\<lparr>sqUni := gUniverse g\<rparr>) c b = Inr ()"
    "vFailures (runVerification L (gHeads g) (memUni L (gUniverse g)) (newVerifyConfig []) None) = []"
    "extends (sqUni s) (gUniverse g)" "extends (gUniverse g) (sqUni s')" "addressed L (sqUni s')"
    "mTags (gUniverse g) = mTags (sqUni s)" "mTags (sqUni s') = mTags (sqUni s)"
    "\<forall>x \<in> set (stagedOn c b). records (gUniverse g) (ID x) = claimRaw x"
    "roots (Cite g (StrandedByDeletion (gHeads g) (stagedOn c b))) = [h] \<and> h \<in> ID ` set (stagedOn c b) \<or>
     (\<exists>head. ID head = h \<and> minted L (sqUni s') head \<and>
        set (roots (Cite g (StrandedByDeletion (gHeads g) (stagedOn c b)))) \<subseteq> set (refsOf head))"
    "s' = s\<lparr>sqUni := sqUni s', sqTicks := sqTicks s'\<rparr>"
proof -
  obtain g where g: "AddClaims (NewGraph (Some (sqUni s))) (map Some (stagedOn c b)) = (g, Inr ())"
    "admitReferences L (s\<lparr>sqUni := gUniverse g\<rparr>) c b = Inr ()"
    "vFailures (runVerification L (gHeads g) (memUni L (gUniverse g)) (newVerifyConfig []) None) = []"
    "consolidateGraph L now (s\<lparr>sqUni := gUniverse g\<rparr>) (Cite g (StrandedByDeletion (gHeads g) (stagedOn c b))) = (s', Inr h)"
    using assms(1) by (rule completeBranch_split)
  let ?g = "Cite g (StrandedByDeletion (gHeads g) (stagedOn c b))"
  have cite: "gUniverse ?g = gUniverse g" "gHeads ?g = gHeads g" by (simp_all add: Cite_def)
  have new: "gUniverse (NewGraph (Some (sqUni s))) = sqUni s" "gHeads (NewGraph (Some (sqUni s))) = []"
    by (simp_all add: NewGraph_def)
  have add: "extends (sqUni s) (gUniverse g) \<and> addressed L (gUniverse g) \<and> mTags (gUniverse g) = mTags (sqUni s) \<and>
      (\<forall>x \<in> set (stagedOn c b). records (gUniverse g) (ID x) = claimRaw x) \<and> set (gHeads g) \<subseteq> ID ` set (stagedOn c b)"
    using AddClaims_named[OF g(1) assms(2) _ assms(4)] assms(3) new by simp
  have co: "extends (gUniverse g) (sqUni s') \<and> addressed L (sqUni s') \<and> mTags (sqUni s') = mTags (gUniverse g) \<and>
      s' = s\<lparr>sqUni := gUniverse g\<rparr>\<lparr>sqUni := sqUni s', sqTicks := sqTicks s'\<rparr>"
    "roots ?g = [h] \<and> h \<in> set (gHeads g) \<or> (\<exists>head. ID head = h \<and> set (roots ?g) \<subseteq> set (refsOf head) \<and> minted L (sqUni s') head)"
    using consolidateGraph_ok[OF g(4) _ assms(2)] add cite by simp_all
  show thesis
  proof (rule that[OF g(1,2,3)])
    show "roots ?g = [h] \<and> h \<in> ID ` set (stagedOn c b) \<or>
        (\<exists>head. ID head = h \<and> minted L (sqUni s') head \<and> set (roots ?g) \<subseteq> set (refsOf head))"
      using co(2) add by blast
    show "s' = s\<lparr>sqUni := sqUni s', sqTicks := sqTicks s'\<rparr>" using co(1) by (cases s, cases s') simp
  qed (use add co(1) in auto)
qed

section \<open>What survives a planned deletion\<close>

lemma reach_sub:
  assumes "\<And>i. set (f i) \<subseteq> set (f' i)"
  shows "reach f hs i \<Longrightarrow> reach f' hs i"
  by (induction rule: reach.induct) (use assms in \<open>auto intro: reach.intros\<close>)

lemma refs_deleted:
  assumes "[] \<notin> set gone"
  shows "refs (memUni L (fst (memDeleteClaims m gone))) i = (if i \<in> set gone then [] else refs (memUni L m) i)"
proof -
  obtain m' where "memDeleteClaims m gone = (m', Inr ())"
      "map_of (mClaims m') = (\<lambda>i. if i \<in> set gone then None else map_of (mClaims m) i)"
    using memDeleteClaims_ok[of gone m] assms by blast
  then show ?thesis by (simp add: refs_records records_def)
qed

lemma recorded_refs:
  assumes "recorded L x" "records m (ID x) = claimRaw x" "ID x \<noteq> []"
  shows "refs (memUni L m) (ID x) = refsOf x"
proof -
  obtain raw d where "claimRaw x = Some raw" "DecodeClaim L (ID x) raw = Inr d" "x = withTags d (claimTags x)"
    using assms(1) by (auto simp: recorded_def)
  then show ?thesis using assms(2,3) refsOf_withTags[of d "claimTags x"] by (simp add: refs_records)
qed

text \<open>The head minted for a branch is not itself among the claims to delete.\<close>

lemma minted_stays:
  assumes "codecLaws L" "minted L m head" "recorded L x" "records m (ID x) = claimRaw x" "ID x = ID head"
  shows "\<not> scheduledForDeletion x"
proof -
  obtain raw d where x: "claimRaw x = Some raw" "DecodeClaim L (ID x) raw = Inr d" "x = withTags d (claimTags x)"
    using assms(3) by (auto simp: recorded_def)
  obtain now cfg where b: "buildClaim L now cfg = Inr head" using assms(2) by (auto simp: minted_def sealed_def)
  have "claimRaw head = Some raw" using assms(2,4,5) x(1) by (simp add: minted_def)
  then have "nFields (own (claimNode d)) = unaliasFieldKeys (aliasFieldKeys [])"
    using sealed_decodes(4)[OF assms(1) b] x(2) assms(2,5) by (simp add: minted_def)
  then have "nFields (own (claimNode d)) = []" by (simp add: fields_back wfMap_def undottedKeys_def)
  moreover have "claimNode x = claimNode d" by (subst x(3)) simp
  ultimately show ?thesis
    using DecodeClaim_shape(5)[OF x(2)] by (simp add: scheduledForDeletion_def nodeHasField_def fieldMap_def has_def)
qed

text \<open>
  Property C13 (completed_branch_survives): completing a branch gives it a head from which, in the store
  it leaves, every claim staged on it and not itself scheduled for deletion is still reached once the
  scheduled ones have been deleted from that store.
\<close>

theorem completed_branch_survives:
  assumes "completeBranch L now s c b = (s', Inr h)" "distinct (map ID (stagedOn c b))"
    and "\<forall>x \<in> set (stagedOn c b). recorded L x"
    and "collisionFree L" "addressed L (sqUni s)" "codecLaws L" "decodable L (sqUni s')"
    and "cl \<in> set (stagedOn c b)" "\<not> scheduledForDeletion cl"
  shows "reach (refs (memUni L (fst (memDeleteClaims (sqUni s') (map ID (filter scheduledForDeletion (stagedOn c b)))))))
    [h] (ID cl)"
proof -
  let ?mine = "stagedOn c b"
  let ?gone = "map ID (filter scheduledForDeletion ?mine)"
  let ?r = "refs (memUni L (fst (memDeleteClaims (sqUni s') ?gone)))"
  have rec: "recorded L x" if "x \<in> set ?mine" for x using assms(3) that by blast
  have name: "\<forall>x \<in> set ?mine. named L x" using rec recorded_named by blast
  obtain g where g: "AddClaims (NewGraph (Some (sqUni s))) (map Some ?mine) = (g, Inr ())"
      "extends (gUniverse g) (sqUni s')" "\<forall>x \<in> set ?mine. records (gUniverse g) (ID x) = claimRaw x"
    and hd: "roots (Cite g (StrandedByDeletion (gHeads g) ?mine)) = [h] \<and> h \<in> ID ` set ?mine \<or>
     (\<exists>head. ID head = h \<and> minted L (sqUni s') head \<and>
        set (roots (Cite g (StrandedByDeletion (gHeads g) ?mine))) \<subseteq> set (refsOf head))"
    by (rule completeBranch_stores[OF assms(1,4,5) name]) (rule that)
  let ?g = "Cite g (StrandedByDeletion (gHeads g) ?mine)"
  have str: "set (StrandedByDeletion (gHeads g) ?mine) =
      {ID x |x. x \<in> set ?mine \<and> \<not> scheduledForDeletion x \<and> \<not> reach (survivingRefs ?mine) (gHeads g) (ID x)}"
    using stranded_exact[OF assms(2)] .
  have ids: "\<forall>x \<in> set ?mine. ID x \<noteq> []" using AddClaims_ids[OF g(1)] .
  have "[] \<notin> set (StrandedByDeletion (gHeads g) ?mine)" using ids by (auto simp: str)
  then have r: "set (roots ?g) = set (roots g) \<union> set (StrandedByDeletion (gHeads g) ?mine)" by (rule roots_Cite)
  have top: "set (gHeads g) \<subseteq> set (roots g)" by (auto simp: roots_def)
  have walk: "reach (survivingRefs ?mine) (roots ?g) (ID cl)"
  proof (cases "reach (survivingRefs ?mine) (gHeads g) (ID cl)")
    case True
    then show ?thesis using reach_mono[of "gHeads g" "roots ?g"] r top by blast
  next
    case False
    then have "ID cl \<in> set (StrandedByDeletion (gHeads g) ?mine)" unfolding str using assms(8,9) by blast
    then show ?thesis using r ids assms(8) by (auto intro: reach.root)
  qed
  have stored: "records (sqUni s') (ID x) = claimRaw x" if "x \<in> set ?mine" for x
    using named_kept[OF recorded_named[OF rec[OF that]] _ g(2)] g(3) that by blast
  have nil: "[] \<notin> set ?gone" using ids by auto
  have gone: "scheduledForDeletion x" if x: "ID x \<in> set ?gone" "x \<in> set ?mine" for x
  proof -
    obtain y where y: "y \<in> set ?mine" "scheduledForDeletion y" "ID y = ID x" using x(1) by auto
    have "Some y = Some x"
      using mineOf_member[OF assms(2) y(1)] mineOf_member[OF assms(2) x(2)] unfolding y(3) by (rule trans[OF sym])
    then show ?thesis using y(2) by blast
  qed
  have "set (survivingRefs ?mine i) \<subseteq> set (?r i)" for i
  proof (cases "mineOf ?mine i")
    case (Some x)
    then have x: "x \<in> set ?mine" "ID x = i" using mineOf_ID by auto
    show ?thesis
    proof (cases "scheduledForDeletion x")
      case False
      then have "i \<notin> set ?gone" using gone[of x] x by auto
      moreover have "i \<noteq> []" using ids x by blast
      ultimately have "?r i = refsOf x"
        using refs_deleted[OF nil, of L "sqUni s'" i] recorded_refs[OF rec[OF x(1)] stored[OF x(1)]] x(2) by simp
      then show ?thesis using Some False by (simp add: survivingRefs_def)
    qed (simp add: survivingRefs_def Some)
  qed (simp add: survivingRefs_def)
  from reach_sub[of "survivingRefs ?mine" ?r, OF this walk] have walk': "reach ?r (roots ?g) (ID cl)" .
  from hd show ?thesis
  proof
    assume "\<exists>head. ID head = h \<and> minted L (sqUni s') head \<and> set (roots ?g) \<subseteq> set (refsOf head)"
    then obtain head where head: "ID head = h" "minted L (sqUni s') head" "set (roots ?g) \<subseteq> set (refsOf head)" by blast
    have "h \<notin> set ?gone"
      using minted_stays[OF assms(6) head(2) rec stored] head(1) by auto
    moreover have "refs (memUni L (sqUni s')) h = refsOf head"
      using sealed_read[OF assms(6,7)] head(1,2) by (auto simp: minted_def)
    ultimately have "set (roots ?g) \<subseteq> set (?r h)" "h \<noteq> []"
      using refs_deleted[OF nil] head by (auto simp: minted_def)
    then show ?thesis using reach_heads[OF _ walk'] reach_edge by blast
  qed (use walk' in simp)
qed

definition noteContribution :: contribution where
  "noteContribution =
     \<lparr>coOpener = 1, coBaseHead = ''haP'', coBaseTime = juneFirst,
      coConstraints = NewConstraints [WithReferencableBranches [BranchArchive], WithCreatableBranches [''main'']],
      coSealed = False,
      coStaged = [(''main'', [case DecodeClaim mergeLib ''hN'' ''N'' of Inr c \<Rightarrow> c | Inl e \<Rightarrow> ctClaim sampleContributor])],
      coBranches = [''main'']\<rparr>"

lemma note_completes:
  "(case completeBranch mergeLib juneFirst opened noteContribution ''main'' of (s', r) \<Rightarrow>
      resultOf id r = Some ''hN'' \<and> list_all (\<lambda>(i, b). \<not> isl (DecodeClaim mergeLib i b)) (mClaims (sqUni s')))"
  by code_simp

lemma all_decode:
  assumes "list_all (\<lambda>(i, b). \<not> isl (DecodeClaim L i b)) (mClaims m)"
  shows "decodable L m"
proof -
  have "\<exists>c. DecodeClaim L i b = Inr c" if "records m i = Some b" for i b
  proof -
    have "\<not> isl (DecodeClaim L i b)"
      using assms map_of_SomeD[OF that[unfolded records_def]] by (auto simp: list_all_iff)
    then show ?thesis by (cases "DecodeClaim L i b") auto
  qed
  then show ?thesis by (simp add: decodable_def)
qed

lemma note_ran:
  obtains s' where "completeBranch mergeLib juneFirst opened noteContribution ''main'' = (s', Inr ''hN'')"
    "decodable mergeLib (sqUni s')"
  using note_completes all_decode[of mergeLib]
  by (cases "completeBranch mergeLib juneFirst opened noteContribution ''main''") (auto simp: resultOf_Some)

lemma note_decodes:
  "(case DecodeClaim mergeLib ''hN'' ''N'' of Inr c \<Rightarrow> refsOf c = [''hK''] \<and> \<not> scheduledForDeletion c | Inl e \<Rightarrow> False)"
  by code_simp

lemma withTags_same: "withTags c (claimTags c) = c"
  by (cases c) (simp add: withTags_def)

lemma withTags_untagged: "claimTags c = [] \<Longrightarrow> withTags c [] = c"
  using withTags_same[of c] by simp

lemma note_staged:
  obtains x where "stagedOn noteContribution ''main'' = [x]" "ID x = ''hN''" "recorded mergeLib x" "\<not> scheduledForDeletion x"
proof -
  obtain x where x: "DecodeClaim mergeLib ''hN'' ''N'' = Inr x" "\<not> scheduledForDeletion x"
    using note_decodes by (auto split: sum.splits)
  have "stagedOn noteContribution ''main'' = [x]" by (simp add: stagedOn_def noteContribution_def x(1))
  moreover have "recorded mergeLib x"
    using DecodeClaim_shape[OF x(1)] x(1) by (simp add: recorded_def mergeLib_hash withTags_untagged)
  ultimately show thesis using that DecodeClaim_shape(1)[OF x(1)] x(2) by blast
qed

theorem completed_branch_survives_witness:
  "\<exists>s'. completeBranch mergeLib juneFirst opened noteContribution ''main'' = (s', Inr ''hN'') \<and>
     reach (refs (memUni mergeLib (fst (memDeleteClaims (sqUni s')
       (map ID (filter scheduledForDeletion (stagedOn noteContribution ''main''))))))) [''hN''] ''hN''"
proof -
  obtain s' where s': "completeBranch mergeLib juneFirst opened noteContribution ''main'' = (s', Inr ''hN'')"
      "decodable mergeLib (sqUni s')"
    by (rule note_ran)
  obtain x where x: "stagedOn noteContribution ''main'' = [x]" "ID x = ''hN''" "recorded mergeLib x" "\<not> scheduledForDeletion x"
    by (rule note_staged)
  show ?thesis
    using completed_branch_survives[OF s'(1) _ _ mergeLib_laws(1) opened_addressed mergeLib_laws(2) s'(2), of x] x s'(1)
    by auto
qed

section \<open>What completing has verified\<close>

text \<open>Each claim of the closure passes its rules, or is a gap some claim of the closure explains.\<close>

definition closureVerified :: "lib \<Rightarrow> memoryUniverse \<Rightarrow> ident list \<Rightarrow> bool" where
  "closureVerified L m heads =
     (\<forall>i. reach (rawRefs L (memUni L m)) heads i \<longrightarrow>
        passes L (memUni L m) ((newVerifyConfig [])\<lparr>vcExpiry := Some heads\<rparr>) i \<or>
        (absent (memUni L m) i \<and> explained L (memUni L m) heads i))"

lemma clean_closure:
  "vFailures (runVerification L heads (memUni L m) (newVerifyConfig []) None) = [] \<Longrightarrow> closureVerified L m heads"
  unfolding closureVerified_def
  using memRaw.clean_run[of "newVerifyConfig []" L heads m None] by (auto simp: fullRun_def newVerifyConfig_def)

text \<open>
  What holds of a branch once the contribution is complete: between the store the completion started
  from and the one it left there is the store, everything staged on the branch in it, that admission
  and verification read.
\<close>

definition branchDone ::
    "lib \<Rightarrow> sequencer \<Rightarrow> sequencer \<Rightarrow> contribution \<Rightarrow> ident list \<Rightarrow> (string \<times> ident list) list \<Rightarrow> string \<Rightarrow> bool" where
  "branchDone L s s' c ids heads b =
     (ID ` set (stagedOn c b) \<subseteq> set ids \<and>
      (\<forall>x \<in> set (stagedOn c b). records (sqUni s') (ID x) = claimRaw x) \<and>
      (\<exists>h. headsOn heads b = [h] \<and> records (sqUni s') h \<noteq> None) \<and>
      (\<exists>m g. extends (sqUni s) m \<and> mTags m = mTags (sqUni s) \<and>
         AddClaims (NewGraph (Some m)) (map Some (stagedOn c b)) = (g, Inr ()) \<and> extends (gUniverse g) (sqUni s') \<and>
         admitReferences L (s\<lparr>sqUni := gUniverse g\<rparr>) c b = Inr () \<and>
         closureVerified L (gUniverse g) (gHeads g)))"

lemma admitReferences_uni: "admitReferences L (s\<lparr>sqUni := m\<rparr>) c b = admitReferences L (s'\<lparr>sqUni := m\<rparr>) c b"
  by (simp add: admitReferences_def sqRead_def)

lemma branchDone_first:
  assumes "completeBranch L now s c b = (s', Inr h)" "collisionFree L" "addressed L (sqUni s)"
    and "\<forall>x \<in> set (stagedOn c b). named L x" "extends (sqUni s') (sqUni s'')"
    and "ID ` set (stagedOn c b) \<subseteq> set ids" "headsOn heads b = [h]"
  shows "branchDone L s s'' c ids heads b"
proof -
  obtain g where g: "AddClaims (NewGraph (Some (sqUni s))) (map Some (stagedOn c b)) = (g, Inr ())"
    "admitReferences L (s\<lparr>sqUni := gUniverse g\<rparr>) c b = Inr ()"
    "vFailures (runVerification L (gHeads g) (memUni L (gUniverse g)) (newVerifyConfig []) None) = []"
    "extends (gUniverse g) (sqUni s')" "\<forall>x \<in> set (stagedOn c b). records (gUniverse g) (ID x) = claimRaw x"
    and h: "h \<in> ID ` set (stagedOn c b) \<or> (\<exists>head. ID head = h \<and> minted L (sqUni s') head)"
    using completeBranch_stores[OF assms(1-4)] by metis
  have e: "extends (gUniverse g) (sqUni s'')" using g(4) assms(5) extends_trans by blast
  have kept: "\<forall>x \<in> set (stagedOn c b). records (sqUni s'') (ID x) = claimRaw x"
    using named_kept[OF _ _ e] g(5) assms(4) by blast
  have "records (sqUni s'') h \<noteq> None" using h
  proof
    assume "h \<in> ID ` set (stagedOn c b)"
    then show ?thesis using kept assms(4) by (auto simp: named_def)
  next
    assume "\<exists>head. ID head = h \<and> minted L (sqUni s') head"
    then obtain head now cfg where "ID head = h" "records (sqUni s') h = claimRaw head" "buildClaim L now cfg = Inr head"
      by (auto simp: minted_def sealed_def)
    moreover from this(3) obtain env where "claimRaw head = Some env" by (rule built_hash)
    ultimately show ?thesis using extends_records[OF assms(5)] by simp
  qed
  then show ?thesis
    unfolding branchDone_def using assms(6,7) kept e g(1,2) clean_closure[OF g(3)]
    by (intro conjI exI[of _ h] exI[of _ "sqUni s"] exI[of _ g]) simp_all
qed

lemma branchDone_later:
  assumes "branchDone L s1 s' c ids heads b" "extends (sqUni s) (sqUni s1)" "mTags (sqUni s1) = mTags (sqUni s)"
  shows "branchDone L s s' c ids heads b"
proof -
  obtain m g where mg: "extends (sqUni s1) m" "mTags m = mTags (sqUni s1)"
      "AddClaims (NewGraph (Some m)) (map Some (stagedOn c b)) = (g, Inr ())" "extends (gUniverse g) (sqUni s')"
      "admitReferences L (s1\<lparr>sqUni := gUniverse g\<rparr>) c b = Inr ()" "closureVerified L (gUniverse g) (gHeads g)"
    using assms(1) unfolding branchDone_def by (elim conjE exE) (rule that)
  have "extends (sqUni s) m" using assms(2) mg(1) by (rule extends_trans)
  moreover have "admitReferences L (s\<lparr>sqUni := gUniverse g\<rparr>) c b = Inr ()"
    using mg(5) admitReferences_uni[where s = s1 and s' = s] by simp
  ultimately have "\<exists>m g. extends (sqUni s) m \<and> mTags m = mTags (sqUni s) \<and>
         AddClaims (NewGraph (Some m)) (map Some (stagedOn c b)) = (g, Inr ()) \<and> extends (gUniverse g) (sqUni s') \<and>
         admitReferences L (s\<lparr>sqUni := gUniverse g\<rparr>) c b = Inr () \<and> closureVerified L (gUniverse g) (gHeads g)"
    using mg assms(3) by (intro exI[of _ m] exI[of _ g]) simp
  then show ?thesis using assms(1) unfolding branchDone_def by (elim conjE) (intro conjI)
qed

lemma completeBranches_ok:
  assumes "completeBranches L now s c bs ids heads = (s', Inr (ids', heads'))" "collisionFree L" "addressed L (sqUni s)"
    and "\<forall>b \<in> set bs. \<forall>x \<in> set (stagedOn c b). named L x"
  shows "extends (sqUni s) (sqUni s') \<and> set ids \<subseteq> set ids' \<and> (\<forall>b. b \<notin> set bs \<longrightarrow> map_of heads' b = map_of heads b) \<and>
    (\<forall>b \<in> set bs. branchDone L s s' c ids' heads' b)"
  using assms(1,3,4)
proof (induction bs arbitrary: s ids heads)
  case (Cons b bs)
  obtain s1 h where h: "completeBranch L now s c b = (s1, Inr h)"
      "completeBranches L now s1 c bs (ids @ map ID (stagedOn c b)) (AList.update b [h] heads) = (s', Inr (ids', heads'))"
    using Cons.prems by (auto simp: andThen_Inr)
  have st: "\<forall>x \<in> set (stagedOn c b). named L x" using Cons.prems(3) by simp
  have one: "extends (sqUni s) (sqUni s1)" "addressed L (sqUni s1)" "mTags (sqUni s1) = mTags (sqUni s)"
    using completeBranch_stores[OF h(1) assms(2) Cons.prems(2) st] extends_trans by metis+
  have ih: "extends (sqUni s1) (sqUni s')" "set (ids @ map ID (stagedOn c b)) \<subseteq> set ids'"
      "\<forall>b'. b' \<notin> set bs \<longrightarrow> map_of heads' b' = map_of (AList.update b [h] heads) b'"
      "\<forall>b \<in> set bs. branchDone L s1 s' c ids' heads' b"
    using Cons.IH[OF h(2) one(2)] Cons.prems(3) by simp_all
  have "branchDone L s s' c ids' heads' b"
  proof (cases "b \<in> set bs")
    case False
    then have "headsOn heads' b = [h]" using ih(3) by (simp add: headsOn_def update_conv')
    then show ?thesis using branchDone_first[OF h(1) assms(2) Cons.prems(2) st ih(1)] ih(2) by simp
  qed (use ih(4) branchDone_later one in blast)
  moreover have "extends (sqUni s) (sqUni s')" using one(1) ih(1) extends_trans by blast
  moreover have "\<forall>b' \<in> set bs. branchDone L s s' c ids' heads' b'" using ih(4) branchDone_later one by blast
  ultimately show ?case using ih(2,3) by (auto simp: update_conv')
qed simp

text \<open>
  Property C12 (completed_contribution_verified): a contribution that completes was open and named a
  branch, and no stored claim was replaced. For each branch it names, everything staged on it is in the
  store after, under its id, as is the one head the branch takes; and in a store that holds what the
  sequencer's held before, all of this, and nothing the store after lacks, the branch's admission
  against the base succeeded and the verifier ran over the closure of what was staged and left no
  failure: each claim there passes its rules, or is a gap some claim of the closure explains.
\<close>

theorem completed_contribution_verified:
  assumes "CompleteAndVerify L now s c = (s', Inr v)" "collisionFree L" "addressed L (sqUni s)"
    and "\<forall>b \<in> set (coBranches c). \<forall>x \<in> set (stagedOn c b). named L x"
  shows "\<not> coSealed c \<and> coBranches c \<noteq> [] \<and> veContribution v = c\<lparr>coSealed := True\<rparr> \<and> extends (sqUni s) (sqUni s') \<and>
    (\<forall>b \<in> set (coBranches c). ID ` set (stagedOn c b) \<subseteq> set (veIds v) \<and>
       (\<forall>x \<in> set (stagedOn c b). records (sqUni s') (ID x) = claimRaw x) \<and>
       (\<exists>h. headsOn (veHeads v) b = [h] \<and> records (sqUni s') h \<noteq> None) \<and>
       (\<exists>m g. extends (sqUni s) m \<and> mTags m = mTags (sqUni s) \<and>
          AddClaims (NewGraph (Some m)) (map Some (stagedOn c b)) = (g, Inr ()) \<and> extends (gUniverse g) (sqUni s') \<and>
          admitReferences L (s\<lparr>sqUni := gUniverse g\<rparr>) c b = Inr () \<and>
          closureVerified L (gUniverse g) (gHeads g)))"
proof -
  obtain ids heads where r: "\<not> coSealed c" "coBranches c \<noteq> []"
      "completeBranches L now s c (coBranches c) [] [] = (s', Inr (ids, heads))"
      "v = \<lparr>veContribution = c\<lparr>coSealed := True\<rparr>, veIds = ids, veHeads = heads\<rparr>"
    using assms(1) by (auto simp: CompleteAndVerify_def andThen_Inr split: if_splits)
  show ?thesis
    using completeBranches_ok[OF r(3) assms(2-4)] r(1,2,4) by (simp add: branchDone_def)
qed

theorem completed_contribution_verified_witness:
  "\<exists>s' v m g. CompleteAndVerify mergeLib juneFirst opened noteContribution = (s', Inr v) \<and>
     extends (sqUni opened) m \<and> AddClaims (NewGraph (Some m)) (map Some (stagedOn noteContribution ''main'')) = (g, Inr ()) \<and>
     extends (gUniverse g) (sqUni s') \<and> closureVerified mergeLib (gUniverse g) (gHeads g)"
proof -
  obtain s' where s': "completeBranch mergeLib juneFirst opened noteContribution ''main'' = (s', Inr ''hN'')"
    by (rule note_ran)
  have c: "coBranches noteContribution = [''main'']" "\<not> coSealed noteContribution" by (simp_all add: noteContribution_def)
  have "\<exists>r. completeBranches mergeLib juneFirst opened noteContribution [''main''] [] [] = (s', Inr r)"
    by (simp only: completeBranches.simps s' andThen_simps) (rule exI, rule refl)
  then obtain r where r: "completeBranches mergeLib juneFirst opened noteContribution [''main''] [] [] = (s', Inr r)" ..
  have run: "CompleteAndVerify mergeLib juneFirst opened noteContribution =
      (s', Inr \<lparr>veContribution = noteContribution\<lparr>coSealed := True\<rparr>, veIds = fst r, veHeads = snd r\<rparr>)"
    unfolding CompleteAndVerify_def c(1) r andThen_simps using c(2) by (cases r) simp
  obtain x where x: "stagedOn noteContribution ''main'' = [x]" "recorded mergeLib x" by (rule note_staged)
  have "\<forall>b \<in> set (coBranches noteContribution). \<forall>x \<in> set (stagedOn noteContribution b). named mergeLib x"
    using x recorded_named c(1) by auto
  note v = completed_contribution_verified[OF run mergeLib_laws(1) opened_addressed this]
  have "''main'' \<in> set (coBranches noteContribution)" by (simp only: c) simp
  from bspec[OF conjunct2[OF conjunct2[OF conjunct2[OF conjunct2[OF v]]]] this] run show ?thesis by blast
qed

text \<open>
  The hypothesis that a staged claim is named by its record is not checked where claims are staged: a
  decode takes the id it is told. The store is populated before the verification, so that a claim
  staged under the id of another replaces its record, and stays when the verification then refuses it.
\<close>

definition forgedContribution :: contribution where
  "forgedContribution = noteContribution
     \<lparr>coStaged := [(''main'', [case DecodeClaim mergeLib ''haP'' ''N'' of Inr c \<Rightarrow> c | Inl e \<Rightarrow> ctClaim sampleContributor])]\<rparr>"

theorem refused_claim_replaces:
  "(case CompleteAndVerify mergeLib juneFirst opened forgedContribution of (s', r) \<Rightarrow>
      (case r of Inl e \<Rightarrow> errorsIs e (ShapeErr ErrIDMismatch) | Inr v \<Rightarrow> False) \<and>
      records (sqUni opened) ''haP'' = Some ''aP'' \<and> records (sqUni s') ''haP'' = Some ''N'')"
  by code_simp

section \<open>Founding\<close>

lemma storeClaim_frame:
  "storeClaim pre s c = (s', r) \<Longrightarrow> s' = s\<lparr>sqUni := sqUni s'\<rparr>"
  by (auto simp: storeClaim_def split: prod.splits)

lemma storeClaim_sealed:
  assumes "storeClaim pre s c = (s', Inr ())" "sealed L c" "collisionFree L"
  shows "records (sqUni s') (ID c) = claimRaw c" "ID c \<noteq> []"
    "sealed L x \<Longrightarrow> records (sqUni s) (ID x) = claimRaw x \<Longrightarrow> records (sqUni s') (ID x) = claimRaw x"
proof -
  obtain e where e: "claimRaw c = Some e" "ID c \<noteq> []"
      "s' = s\<lparr>sqUni := (sqUni s)\<lparr>mClaims := AList.update (ID c) e (mClaims (sqUni s))\<rparr>\<rparr>"
    using assms(1) by (rule storeClaim_ok)
  have h: "hashContent L e = Inr (ID c)" using assms(2) e(1) built_hash unfolding sealed_def by fastforce
  have r: "records (sqUni s') = (records (sqUni s))(ID c \<mapsto> e)"
    by (simp add: e(3) records_def update_conv')
  show "records (sqUni s') (ID c) = claimRaw c" "ID c \<noteq> []" using e(1,2) by (simp_all add: r)
  show "records (sqUni s') (ID x) = claimRaw x" if x: "sealed L x" "records (sqUni s) (ID x) = claimRaw x"
  proof -
    obtain f where f: "claimRaw x = Some f" "hashContent L f = Inr (ID x)"
      using x(1) built_hash unfolding sealed_def by metis
    then show ?thesis using assms(3) h x(2) by (auto simp: r collisionFree_def)
  qed
qed

text \<open>
  Property C15 (found_once): an archive is founded where there is none. What the store then reads at its
  head, which the newest bookmark records, is a table that restates the branch at the first contributor
  and nothing else, over a table, read too, that restates nothing and revises nothing; the contributor
  is stored. Founding again is refused and changes nothing.
\<close>

theorem found_once:
  assumes "Found L now s pubkey branch = (s', Inr c)" "collisionFree L" "codecLaws L" "decodable L (sqUni s')"
  shows "InGenesis s \<and> \<not> InGenesis s' \<and> map_of (sqHeads s') = (map_of (sqHeads s))(branch \<mapsto> ID c) \<and>
    records (sqUni s') (ID c) = claimRaw c \<and> claimRaw c \<noteq> None \<and>
    (\<exists>d1 k0 d0 t. GetClaim (sqRead L s') True (sqHead s') = Inr d1 \<and> (\<forall>i. revises d1 i \<longleftrightarrow> i = k0) \<and>
       (\<forall>b h. restates d1 b h \<longleftrightarrow> b = branch \<and> h = ID c) \<and>
       GetClaim (sqRead L s') True k0 = Inr d0 \<and> (\<forall>i. \<not> revises d0 i) \<and> (\<forall>b h. \<not> restates d0 b h) \<and>
       bsTop (sqMarks s') = Some t \<and> bmHead t = sqHead s') \<and>
    (\<forall>pubkey' branch'. \<exists>e. Found L now s' pubkey' branch' = (s', Inl e))"
proof -
  have f: "sqHead s = []" "found L now s pubkey branch = (s', Inr c)"
    using assms(1) by (auto simp: Found_def split: sum.splits if_splits)
  obtain s1 b s3 s4 bt0 s5 bt1 s6 where st:
      "storeClaim (SeqErr errFound) s (ctClaim (sqSelf s)) = (s1, Inr ())"
      "Sign L now b None = Inr c"
      "storeClaim (SeqErr errFound) (s1\<lparr>sqTicks := sqTicks s1 + 1\<rparr>) c = (s3, Inr ())"
      "mintBranchTable L now s3 [] = (s4, Inr bt0)"
      "mintBranchTable L now (s4\<lparr>sqHead := ID bt0, sqHeads := AList.update branch (ID c) (sqHeads s4)\<rparr>) [branch] = (s5, Inr bt1)"
      "bookmarkHead L (SeqErr errFound) s5 (ID bt1) = (s6, Inr ())"
      "tagHead L (SeqErr errFound) (s6\<lparr>sqHead := ID bt1\<rparr>) = (s', Inr ())"
    using f(2) by (auto simp: found_def andThen_Inr tick_def case_Inr)
  let ?s4 = "s4\<lparr>sqHead := ID bt0, sqHeads := AList.update branch (ID c) (sqHeads s4)\<rparr>"
  have heads: "sqHeads s3 = sqHeads s \<and> sqHead s3 = sqHead s \<and> sqHeads s4 = sqHeads s3"
    using storeClaim_frame[OF st(1)] storeClaim_frame[OF st(3)] mintBranchTable_frame[OF st(4)]
    by (cases s, cases s1, cases s3) simp
  have s': "sqHead s' = ID bt1 \<and> sqHeads s' = sqHeads s6 \<and> sqMarks s' = sqMarks s6"
    using tagHead_frame(2)[OF st(7)] by (cases s6, cases s') simp
  have s6: "sqHeads s6 = sqHeads s5" using bookmarkHead_frame(2)[OF st(6)] by (cases s5, cases s6) simp
  have map: "map_of (sqHeads s') = (map_of (sqHeads s))(branch \<mapsto> ID c)"
    using s' s6 mintBranchTable_frame[OF st(5)] heads by (simp add: update_conv' fun_eq_iff)
  have c: "sealed L c" using Sign_builds[OF st(2)] by (auto simp: sealed_def)
  note t0 = minted_sealed[OF st(4)] and t1 = minted_sealed[OF st(5)]
  obtain p0 p1 where put: "storeClaim p0 (s3\<lparr>sqTicks := sqTicks s3 + 1\<rparr>) bt0 = (s4, Inr ())"
      "storeClaim p1 (?s4\<lparr>sqTicks := sqTicks ?s4 + 1\<rparr>) bt1 = (s5, Inr ())"
    using mintBranchTable_split[OF st(4)] mintBranchTable_split[OF st(5)] by metis
  note w = storeClaim_sealed[OF st(3) c assms(2)] and w0 = storeClaim_sealed[OF put(1) t0(1) assms(2)]
    and w1 = storeClaim_sealed[OF put(2) t1(1) assms(2)]
  have "records (sqUni s') = records (sqUni s5)"
    using tagHead_frame(1)[OF st(7)] bookmarkHead_frame(1)[OF st(6)] by simp
  then have stored: "records (sqUni s') (ID bt1) = claimRaw bt1" "records (sqUni s') (ID bt0) = claimRaw bt0"
      "records (sqUni s') (ID c) = claimRaw c"
    using w1(1) w1(3)[OF t0(1)] w0(1) w1(3)[OF c] w0(3)[OF c] w(1) by simp_all
  have raw: "claimRaw c \<noteq> None" using c built_hash unfolding sealed_def by fastforce
  obtain d1 where d1: "GetClaim (sqRead L s') True (ID bt1) = Inr d1" "\<And>b h. restates d1 b h \<longleftrightarrow> restates bt1 b h"
      "\<And>i. revises d1 i \<longleftrightarrow> revises bt1 i"
    using table_reads[OF assms(3,4) t1(1) stored(1) w1(2) t1(2)] unfolding sqRead_def by metis
  obtain d0 where d0: "GetClaim (sqRead L s') True (ID bt0) = Inr d0" "\<And>b h. restates d0 b h \<longleftrightarrow> restates bt0 b h"
      "\<And>i. revises d0 i \<longleftrightarrow> revises bt0 i"
    using table_reads[OF assms(3,4) t0(1) stored(2) w0(2) t0(2)] unfolding sqRead_def by metis
  have k1: "\<forall>i. revises d1 i \<longleftrightarrow> i = ID bt0" "\<forall>b h. restates d1 b h \<longleftrightarrow> b = branch \<and> h = ID c"
    using d1(2,3) mintBranchTable_ok(1,2)[OF st(5)] w0(2) by (auto simp: getz_def update_conv')
  have k0: "\<forall>i. \<not> revises d0 i" "\<forall>b h. \<not> restates d0 b h"
    using d0(2,3) mintBranchTable_ok(1,2)[OF st(4)] heads f(1) by auto
  obtain t where t: "bsTop (sqMarks s6) = Some t" "bmHead t = ID bt1" using bookmarkHead_ok(2)[OF st(6)] by blast
  have again: "\<exists>e. Found L now s' p b = (s', Inl e)" for p b
    using s' w1(2) by (auto simp: Found_def split: sum.splits)
  have "GetClaim (sqRead L s') True (sqHead s') = Inr d1" "bsTop (sqMarks s') = Some t" "bmHead t = sqHead s'"
    using d1(1) t s' by simp_all
  then have tables: "\<exists>d1 k0 d0 t. GetClaim (sqRead L s') True (sqHead s') = Inr d1 \<and> (\<forall>i. revises d1 i \<longleftrightarrow> i = k0) \<and>
       (\<forall>b h. restates d1 b h \<longleftrightarrow> b = branch \<and> h = ID c) \<and>
       GetClaim (sqRead L s') True k0 = Inr d0 \<and> (\<forall>i. \<not> revises d0 i) \<and> (\<forall>b h. \<not> restates d0 b h) \<and>
       bsTop (sqMarks s') = Some t \<and> bmHead t = sqHead s'"
    using k1 k0 d0(1) by blast
  have "InGenesis s" "\<not> InGenesis s'" using f(1) s' w1(2) by (simp_all add: InGenesis_def)
  then show ?thesis using map stored(3) raw tables again by blast
qed

lemma unfounded_runs:
  "(case Found mergeLib juneFirst unfounded (Some ''pk'') ''main'' of (s', r) \<Rightarrow>
      resultOf ID r = Some ''haF'' \<and>
      mClaims (sqUni s') = [(''hK'', ''K''), (''haF'', ''aF''), (''haP'', ''aP''), (''haQ'', ''aQ'')])"
  by code_simp

lemma unfounded_decodes:
  "list_all (\<lambda>(i, b). \<not> isl (DecodeClaim mergeLib i b))
     [(''hK'', ''K''), (''haF'', ''aF''), (''haP'', ''aP''), (''haQ'', ''aQ'')]"
  by code_simp

theorem found_once_witness:
  "\<exists>s' c d1 k0 d0. Found mergeLib juneFirst unfounded (Some ''pk'') ''main'' = (s', Inr c) \<and> ID c = ''haF'' \<and>
     \<not> InGenesis s' \<and> map_of (sqHeads s') ''main'' = Some ''haF'' \<and>
     GetClaim (sqRead mergeLib s') True (sqHead s') = Inr d1 \<and> restates d1 ''main'' ''haF'' \<and> revises d1 k0 \<and>
     GetClaim (sqRead mergeLib s') True k0 = Inr d0 \<and>
     (\<exists>e. Found mergeLib juneFirst s' None ''other'' = (s', Inl e))"
proof -
  obtain s' c where f: "Found mergeLib juneFirst unfounded (Some ''pk'') ''main'' = (s', Inr c)" "ID c = ''haF''"
      "mClaims (sqUni s') = [(''hK'', ''K''), (''haF'', ''aF''), (''haP'', ''aP''), (''haQ'', ''aQ'')]"
    using unfounded_runs
    by (cases "Found mergeLib juneFirst unfounded (Some ''pk'') ''main''") (auto simp: resultOf_Some)
  have dec: "decodable mergeLib (sqUni s')"
    by (rule all_decode, subst f(3), rule unfounded_decodes)
  note o = found_once[OF f(1) mergeLib_laws dec]
  have main: "map_of (sqHeads s') ''main'' = Some ''haF''" using conjunct1[OF conjunct2[OF conjunct2[OF o]]] f(2) by simp
  have again: "\<exists>e. Found mergeLib juneFirst s' None ''other'' = (s', Inl e)"
    using conjunct2[OF conjunct2[OF conjunct2[OF conjunct2[OF conjunct2[OF conjunct2[OF o]]]]]] by blast
  from conjunct1[OF conjunct2[OF conjunct2[OF conjunct2[OF conjunct2[OF conjunct2[OF o]]]]]]
  obtain d1 k0 d0 where d: "GetClaim (sqRead mergeLib s') True (sqHead s') = Inr d1" "\<forall>i. revises d1 i \<longleftrightarrow> i = k0"
      "\<forall>b h. restates d1 b h \<longleftrightarrow> b = ''main'' \<and> h = ID c" "GetClaim (sqRead mergeLib s') True k0 = Inr d0"
    by (elim exE conjE) (rule that)
  have "restates d1 ''main'' ''haF''" "revises d1 k0" using d(2,3) f(2) by simp_all
  then show ?thesis using f(1,2) main again d(1,4) conjunct1[OF conjunct2[OF o]] by blast
qed

text \<open>
  A clock that stops before the second table is minted: the head is set to the empty table already, which
  no bookmark records, and the sequencer can neither be founded again nor counts as founded on its list.
\<close>

definition stalling :: sequencer where
  "stalling = unfounded\<lparr>sqClock := (\<lambda>n. if n < 2 then juneFirst else 0)\<rparr>"

theorem partial_founding_sticks:
  "(case Found mergeLib juneFirst stalling (Some ''pk'') ''main'' of (s', r) \<Rightarrow>
      isl r \<and> \<not> InGenesis s' \<and> bsTop (sqMarks s') = None \<and>
      isl (snd (Found mergeLib juneFirst s' (Some ''pk'') ''main'')))"
  by code_simp

end
