(* ===== verification/Partition.thy ===== *)
theory Partition
  imports Tagger
begin

text \<open>
  One Universe over several shards (\<open>adapter/storage/partition\<close>): each id is routed to the shard
  its hash names. The reads are modelled over shards of any kind, the writes over shards that are
  memory stores. The number of shards is far below the width of the word the code reduces in, so
  that the routing is computed on naturals. Sync, Close and the events of a report are left out.
\<close>

section \<open>Routing\<close>

definition shardOf :: "lib \<Rightarrow> nat \<Rightarrow> ident \<Rightarrow> nat" where
  "shardOf L n i = foldl (\<lambda>x c. (x * 256 + of_char c) mod n) 0 (libIdString L i)"

definition groupIds :: "lib \<Rightarrow> nat \<Rightarrow> ident list \<Rightarrow> nat list list" where
  "groupIds L n ids =
     map (\<lambda>s. filter (\<lambda>k. ids ! k \<noteq> [] \<and> shardOf L n (ids ! k) = s) [0..<length ids]) [0..<n]"

definition atIndexes :: "'k list \<Rightarrow> nat list \<Rightarrow> 'k list" where
  "atIndexes xs idx = map (\<lambda>k. xs ! k) idx"

text \<open>Ask each shard for its part and put the answers in their places, shard by shard.\<close>

definition place :: "nat list \<Rightarrow> 'a list \<Rightarrow> 'a option list \<Rightarrow> 'a option list" where
  "place idx got out = fold (\<lambda>(k, v) xs. xs[k := Some v]) (zip idx got) out"

fun gather ::
    "(nat \<Rightarrow> 'k list \<Rightarrow> 'a list result) \<Rightarrow> 'k list \<Rightarrow> (nat \<times> nat list) list \<Rightarrow> 'a option list \<Rightarrow> 'a option list result" where
  "gather ask ks [] out = Inr out"
| "gather ask ks ((s, idx) # gs) out =
     (if idx = [] then gather ask ks gs out
      else rbind (ask s (atIndexes ks idx)) (\<lambda>got. gather ask ks gs (place idx got out)))"

definition routed :: "lib \<Rightarrow> nat \<Rightarrow> (nat \<Rightarrow> ident list \<Rightarrow> 'a list result) \<Rightarrow> ident list \<Rightarrow> 'a option list result" where
  "routed L n ask ids = gather ask ids (enumerate 0 (groupIds L n ids)) (replicate (length ids) None)"

section \<open>Reads\<close>

definition nilPointer :: err where "nilPointer = LibErr ''nil pointer dereference''"

text \<open>
  A nil id is asked of no shard and its place stays nil. A list of claims has no nil here, so that
  such an answer is the failure its reader meets.
\<close>

definition derefs :: "'a option list \<Rightarrow> 'a list result" where
  "derefs xs = mapM (\<lambda>x. case x of None \<Rightarrow> Inl nilPointer | Some y \<Rightarrow> Inr y) xs"

definition partDelta :: "lib \<Rightarrow> uni list \<Rightarrow> ident list \<Rightarrow> claim option list result" where
  "partDelta L shards ids = routed L (length shards) (\<lambda>s. uGetClaims (shards ! s) True) ids"

definition partLoad :: "lib \<Rightarrow> uni list \<Rightarrow> ident \<Rightarrow> claim result" where
  "partLoad L shards i = rbind (partDelta L shards [i]) (\<lambda>out. rbind (derefs out) first)"

definition partStored :: "lib \<Rightarrow> uni list \<Rightarrow> ident list" where
  "partStored L shards =
     concat (map (\<lambda>s. filter (\<lambda>i. i \<noteq> [] \<and> shardOf L (length shards) i = s) (uStored (shards ! s)))
       [0..<length shards])"

text \<open>A diff's predecessor may lie on another shard: the deltas are merged above the shards.\<close>

definition partGetClaims :: "lib \<Rightarrow> uni list \<Rightarrow> bool \<Rightarrow> ident list \<Rightarrow> claim list result" where
  "partGetClaims L shards delta ids =
     rbind (partDelta L shards ids) (\<lambda>out.
     rbind (derefs out) (\<lambda>cs.
       DefaultMaterialize (length (partStored L shards)) (partLoad L shards) delta cs))"

definition partHasClaims :: "lib \<Rightarrow> uni list \<Rightarrow> ident list \<Rightarrow> bool list result" where
  "partHasClaims L shards ids =
     rbind (routed L (length shards) (\<lambda>s. uHasClaims (shards ! s)) ids) (\<lambda>out. Inr (map (\<lambda>b. b = Some True) out))"

definition partGetClaimsRaw :: "lib \<Rightarrow> uni list \<Rightarrow> ident list \<Rightarrow> bytes list result" where
  "partGetClaimsRaw L shards ids =
     rbind (routed L (length shards) (\<lambda>s. uGetClaimsRaw (shards ! s)) ids) (\<lambda>out.
       Inr (map (\<lambda>b. case b of None \<Rightarrow> [] | Some x \<Rightarrow> x) out))"

definition partGetClaimTags :: "lib \<Rightarrow> uni list \<Rightarrow> ident list \<Rightarrow> gomap list result" where
  "partGetClaimTags L shards ids =
     rbind (routed L (length shards) (\<lambda>s. uGetClaimTags (shards ! s)) ids) (\<lambda>out.
       Inr (map (\<lambda>t. case t of None \<Rightarrow> [] | Some x \<Rightarrow> x) out))"

definition groupRefs :: "lib \<Rightarrow> nat \<Rightarrow> contentRef list \<Rightarrow> nat list list" where
  "groupRefs L n rs =
     map (\<lambda>s. filter (\<lambda>k. shardOf L n (the (refHash (rs ! k))) = s) [0..<length rs]) [0..<n]"

definition partGetContents :: "lib \<Rightarrow> uni list \<Rightarrow> contentRef list \<Rightarrow> bytes list result" where
  "partGetContents L shards rs =
     (if \<exists>r \<in> set rs. refHash r = None then Inl (AdapterErr errShardNilHash)
      else rbind (gather (\<lambda>s. uGetContents (shards ! s)) rs (enumerate 0 (groupRefs L (length shards) rs))
                   (replicate (length rs) None)) (\<lambda>out.
             Inr (map (\<lambda>b. case b of None \<Rightarrow> [] | Some x \<Rightarrow> x) out)))"

definition idOfHash :: "ident option \<Rightarrow> ident" where
  "idOfHash h = (case h of None \<Rightarrow> [] | Some i \<Rightarrow> i)"

definition partHasContents :: "lib \<Rightarrow> uni list \<Rightarrow> ident option list \<Rightarrow> bool list result" where
  "partHasContents L shards hs =
     rbind (routed L (length shards) (\<lambda>s ks. uHasContents (shards ! s) (map Some ks)) (map idOfHash hs)) (\<lambda>out.
       Inr (map (\<lambda>b. b = Some True) out))"

definition partStreamContent :: "lib \<Rightarrow> uni list \<Rightarrow> ident option \<Rightarrow> u64 \<Rightarrow> bytes result" where
  "partStreamContent L shards h sz =
     (case h of None \<Rightarrow> Inl (AdapterErr errShardNilHash)
      | Some i \<Rightarrow> uStreamContent (shards ! shardOf L (length shards) i) h sz)"

definition partUni :: "lib \<Rightarrow> uni list \<Rightarrow> uni" where
  "partUni L shards =
     \<lparr>uStored = partStored L shards,
      uGetClaims = partGetClaims L shards,
      uGetClaimsRaw = partGetClaimsRaw L shards,
      uHasClaims = partHasClaims L shards,
      uGetClaimHeights = DefaultGetClaimHeights (partGetClaims L shards),
      uGetContents = partGetContents L shards,
      uHasContents = partHasContents L shards,
      uStreamContent = partStreamContent L shards,
      uGetClaimTags = partGetClaimTags L shards\<rparr>"

definition NewPartition :: "lib \<Rightarrow> uni option list \<Rightarrow> uni result" where
  "NewPartition L us =
     (if us = [] then Inl (AdapterErr errNoShards)
      else if None \<in> set us then Inl (AdapterErr errNilShard)
      else if length us = 1 then Inr (the (hd us))
      else Inr (partUni L (map the us)))"

definition partClaimsInBranches :: "lib \<Rightarrow> uni list \<Rightarrow> (string \<times> ident) list \<Rightarrow> ident list \<Rightarrow> bool list result" where
  "partClaimsInBranches L shards = DefaultClaimsInBranches (partUni L shards)"

definition partCapabilities :: "capabilities list \<Rightarrow> capabilities" where
  "partCapabilities cs =
     \<lparr>capOverwrite = list_all capOverwrite cs, capDelete = list_all capDelete cs,
      capEnumerate = list_all capEnumerate cs, capPersistent = list_all capPersistent cs,
      capReverseWalk = list_all capReverseWalk cs, capRawClaims = list_all capRawClaims cs,
      capExternalContent = list_all capExternalContent cs, capContentCap = 0,
      capTags = list_all capTags cs, capBookmarks = list_all capBookmarks cs,
      capTier = (case cs of [] \<Rightarrow> TierOther [] | c # _ \<Rightarrow> capTier c)\<rparr>"

section \<open>Writes\<close>

definition groupBy :: "lib \<Rightarrow> nat \<Rightarrow> ('a \<Rightarrow> ident) \<Rightarrow> 'a list \<Rightarrow> (nat \<times> 'a list) list" where
  "groupBy L n key xs = map (\<lambda>s. (s, filter (\<lambda>x. shardOf L n (key x) = s) xs)) [0..<n]"

text \<open>Each shard with a part takes it in one call; the first failure ends the write.\<close>

fun putShards :: "('m \<Rightarrow> 'a list \<Rightarrow> 'm \<times> unit result) \<Rightarrow> (nat \<times> 'a list) list \<Rightarrow> 'm list \<Rightarrow> 'm list \<times> unit result" where
  "putShards put [] ms = (ms, Inr ())"
| "putShards put ((s, g) # gs) ms =
     (if g = [] then putShards put gs ms
      else case put (ms ! s) g of
          (m, Inl e) \<Rightarrow> (ms[s := m], Inl e)
        | (m, Inr _) \<Rightarrow> putShards put gs (ms[s := m]))"

definition claimKey :: "claim option \<Rightarrow> ident" where
  "claimKey c = (case c of None \<Rightarrow> [] | Some d \<Rightarrow> ID d)"

definition partPutClaims :: "lib \<Rightarrow> memoryUniverse list \<Rightarrow> claim option list \<Rightarrow> memoryUniverse list \<times> unit result" where
  "partPutClaims L ms cs =
     (if \<exists>c \<in> set cs. claimKey c = [] then (ms, Inl (AdapterErr errShardNilClaim))
      else putShards memPutClaims (groupBy L (length ms) claimKey cs) ms)"

definition partPutContents ::
    "lib \<Rightarrow> memoryUniverse list \<Rightarrow> (ident option \<times> bytes) list \<Rightarrow> memoryUniverse list \<times> unit result" where
  "partPutContents L ms bs =
     (if \<exists>b \<in> set bs. fst b = None then (ms, Inl (AdapterErr errShardNilHash))
      else putShards memPutContents (groupBy L (length ms) (idOfHash \<circ> fst) bs) ms)"

definition partDeleteClaims :: "lib \<Rightarrow> memoryUniverse list \<Rightarrow> ident list \<Rightarrow> memoryUniverse list \<times> unit result" where
  "partDeleteClaims L ms ids =
     putShards memDeleteClaims (groupBy L (length ms) id (filter (\<lambda>i. i \<noteq> []) ids)) ms"

definition partDeleteContents ::
    "lib \<Rightarrow> memoryUniverse list \<Rightarrow> ident option list \<Rightarrow> memoryUniverse list \<times> unit result" where
  "partDeleteContents L ms hs =
     putShards memDeleteContents (groupBy L (length ms) idOfHash (filter (\<lambda>h. idOfHash h \<noteq> []) hs)) ms"

text \<open>
  The keys of a tag write are id texts, parsed before anything is written; a shard keeps the tags
  under the id a text stands for, the text of an id being its own \<open>String\<close>.
\<close>

definition partSetClaimsTags ::
    "lib \<Rightarrow> (string \<Rightarrow> bytes result) \<Rightarrow> memoryUniverse list \<Rightarrow> string list \<Rightarrow> (string \<times> gomap) list \<Rightarrow>
     memoryUniverse list \<times> unit result" where
  "partSetClaimsTags L multibase ms clear tags =
     (case mapM (\<lambda>(s, kv). rbind (ParseId L multibase s) (\<lambda>i. Inr (i, kv))) tags of
        Inl e \<Rightarrow> (ms, Inl e)
      | Inr ts \<Rightarrow> putShards (\<lambda>m g. (memSetClaimsTags m clear g, Inr ())) (groupBy L (length ms) fst ts) ms)"

text \<open>Tagging and the bookmarks are broadcast.\<close>

fun broadcast :: "('m \<Rightarrow> 'm \<times> unit result) \<Rightarrow> 'm list \<Rightarrow> 'm list \<times> unit result" where
  "broadcast f [] = ([], Inr ())"
| "broadcast f (m # ms) =
     (case f m of
        (m', Inl e) \<Rightarrow> (m' # ms, Inl e)
      | (m', Inr _) \<Rightarrow> (case broadcast f ms of (ms', r) \<Rightarrow> (m' # ms', r)))"

definition partTag :: "lib \<Rightarrow> memoryUniverse list \<Rightarrow> ident \<Rightarrow> memoryUniverse list \<times> unit result" where
  "partTag L ms head = broadcast (\<lambda>m. DefaultTag L m head) ms"

definition partMarksPut :: "memoryUniverse list \<Rightarrow> ident \<Rightarrow> bytes \<Rightarrow> memoryUniverse list \<times> unit result" where
  "partMarksPut ms k r = broadcast (\<lambda>m. marksPut m k r) ms"

fun firstAnswer :: "(nat \<Rightarrow> bytes result) \<Rightarrow> err \<Rightarrow> nat list \<Rightarrow> bytes result" where
  "firstAnswer get lastErr [] = Inl lastErr"
| "firstAnswer get lastErr (s # ss) =
     (case get s of
        Inr r \<Rightarrow> Inr r
      | Inl e \<Rightarrow> if errorsIs e (StoreErr ErrNotFound) then firstAnswer get e ss else Inl e)"

definition partMarksGet :: "memoryUniverse list \<Rightarrow> ident \<Rightarrow> bytes result" where
  "partMarksGet ms k = firstAnswer (\<lambda>s. marksGet (ms ! s) k) (StoreErr ErrNotFound) [0..<length ms]"

section \<open>What the routing answers\<close>

lemma shardOf_less: "0 < n \<Longrightarrow> shardOf L n i < n"
proof -
  assume "0 < n"
  then have "x < n \<Longrightarrow> foldl (\<lambda>x c. (x * 256 + of_char c) mod n) x s < n" for x and s :: string
    by (induction s arbitrary: x) auto
  with \<open>0 < n\<close> show ?thesis by (simp add: shardOf_def)
qed

lemma place_length [simp]: "length (place idx got out) = length out"
proof -
  have "length (fold (\<lambda>(k, v) xs. xs[k := Some v]) ps out) = length out" for ps
    by (induction ps arbitrary: out) auto
  then show ?thesis by (simp add: place_def)
qed

lemma place_other:
  assumes "k \<notin> set idx"
  shows "place idx got out ! k = out ! k"
proof -
  have "k \<notin> fst ` set ps \<Longrightarrow> fold (\<lambda>(k, v) xs. xs[k := Some v]) ps out ! k = out ! k" for ps
    by (induction ps arbitrary: out) auto
  moreover have "k \<notin> fst ` set (zip idx got)" using assms by (auto dest: set_zip_leftD)
  ultimately show ?thesis by (simp add: place_def)
qed

lemma place_at:
  "distinct idx \<Longrightarrow> length got = length idx \<Longrightarrow> j < length idx \<Longrightarrow> idx ! j < length out \<Longrightarrow>
     place idx got out ! (idx ! j) = Some (got ! j)"
proof (induction idx got arbitrary: out j rule: list_induct2')
  case (4 k idx v got)
  show ?case
  proof (cases j)
    case 0
    have "place (k # idx) (v # got) out ! k = place idx got (out[k := Some v]) ! k" by (simp add: place_def)
    also have "\<dots> = Some v" using 4(2,5) 0 by (subst place_other) auto
    finally show ?thesis using 0 by simp
  next
    case (Suc i)
    then show ?thesis using 4(1)[of i "out[k := Some v]"] 4(2-5) by (simp add: place_def)
  qed
qed simp_all

text \<open>Each index of a group is answered by its shard, and an index of no group keeps its place.\<close>

definition gathered ::
    "(nat \<Rightarrow> 'k \<Rightarrow> 'a \<Rightarrow> bool) \<Rightarrow> 'k list \<Rightarrow> (nat \<times> nat list) list \<Rightarrow> 'a option list \<Rightarrow> 'a option list \<Rightarrow> bool" where
  "gathered P ks gs out out' \<longleftrightarrow> length out' = length out \<and>
     (\<forall>s idx. (s, idx) \<in> set gs \<longrightarrow> (\<forall>k \<in> set idx. \<exists>v. out' ! k = Some v \<and> P s (ks ! k) v)) \<and>
     (\<forall>k. (\<forall>s idx. (s, idx) \<in> set gs \<longrightarrow> k \<notin> set idx) \<longrightarrow> out' ! k = out ! k)"

lemma gather_sound:
  assumes "gather ask ks gs out = Inr out'"
    and "\<And>s idx xs vs. (s, idx) \<in> set gs \<Longrightarrow> ask s xs = Inr vs \<Longrightarrow> list_all2 (P s) xs vs"
    and "\<And>s idx. (s, idx) \<in> set gs \<Longrightarrow> distinct idx \<and> (\<forall>k \<in> set idx. k < length out \<and> owner k = s)"
    and "distinct (map fst gs)"
  shows "gathered P ks gs out out'"
  using assms
proof (induction gs arbitrary: out)
  case (Cons g gs)
  obtain s idx where g: "g = (s, idx)" by fastforce
  have fresh: "\<And>idx'. (s, idx') \<notin> set gs" and d: "distinct (map fst gs)"
    using Cons.prems(4) g by (force simp: image_iff)+
  have rest: "\<And>s' idx'. (s', idx') \<in> set gs \<Longrightarrow> distinct idx' \<and> (\<forall>k \<in> set idx'. k < length out \<and> owner k = s')"
    by (rule Cons.prems(3)) simp
  have answers: "\<And>s' idx' xs vs. (s', idx') \<in> set gs \<Longrightarrow> ask s' xs = Inr vs \<Longrightarrow> list_all2 (P s') xs vs"
    using Cons.prems(2) by (metis list.set_intros(2))
  show ?case
  proof (cases "idx = []")
    case True
    then have "gathered P ks gs out out'" using Cons.IH[OF _ answers rest d] Cons.prems(1) by (simp add: g)
    then show ?thesis using True by (auto simp: gathered_def g)
  next
    case False
    obtain got where got: "ask s (atIndexes ks idx) = Inr got" "gather ask ks gs (place idx got out) = Inr out'"
      using Cons.prems(1) False by (auto simp: g rbind_eq_Inr)
    have la: "list_all2 (P s) (atIndexes ks idx) got" by (rule Cons.prems(2)[of s idx, OF _ got(1)]) (simp add: g)
    have idx: "distinct idx" "\<forall>k \<in> set idx. k < length out \<and> owner k = s"
      using Cons.prems(3)[of s idx] by (simp_all add: g)
    have ih: "gathered P ks gs (place idx got out) out'"
      using Cons.IH[OF got(2) answers _ d] rest by simp
    have here: "\<exists>v. out' ! k = Some v \<and> P s (ks ! k) v" if k: "k \<in> set idx" for k
    proof -
      from k obtain j where j: "j < length idx" "idx ! j = k" by (auto simp: in_set_conv_nth)
      have len: "length got = length idx" using list_all2_lengthD[OF la] by (simp add: atIndexes_def)
      have "place idx got out ! k = Some (got ! j)" using place_at[OF idx(1) len j(1)] idx(2) k j(2) by auto
      moreover have "P s (ks ! k) (got ! j)" using list_all2_nthD[OF la, of j] j by (simp add: atIndexes_def)
      moreover have "k \<notin> set idx'" if "(s', idx') \<in> set gs" for s' idx'
        using that rest[OF that] idx(2) k fresh by metis
      ultimately show ?thesis using ih by (auto simp: gathered_def)
    qed
    have other: "out' ! k = out ! k" if "k \<notin> set idx" "\<forall>s' idx'. (s', idx') \<in> set gs \<longrightarrow> k \<notin> set idx'" for k
      using ih that place_other[of k idx got out] by (simp add: gathered_def)
    show ?thesis
      unfolding gathered_def g
    proof (intro conjI allI impI ballI)
      show "length out' = length out" using ih by (simp add: gathered_def)
      show "\<exists>v. out' ! k = Some v \<and> P s' (ks ! k) v" if "(s', idx') \<in> set ((s, idx) # gs)" "k \<in> set idx'" for s' idx' k
        using that here ih unfolding gathered_def by fastforce
      show "out' ! k = out ! k" if "\<forall>s' idx'. (s', idx') \<in> set ((s, idx) # gs) \<longrightarrow> k \<notin> set idx'" for k
        using that other by simp
    qed
  qed
qed (simp add: gathered_def)

lemma gather_total:
  assumes "\<And>s idx. (s, idx) \<in> set gs \<Longrightarrow> idx \<noteq> [] \<Longrightarrow> \<exists>vs. ask s (atIndexes ks idx) = Inr vs"
  shows "\<exists>out'. gather ask ks gs out = Inr out'"
  using assms
proof (induction gs arbitrary: out)
  case (Cons g gs)
  obtain s idx where g: "g = (s, idx)" by fastforce
  have rest: "\<exists>out'. gather ask ks gs out = Inr out'" for out using Cons.IH Cons.prems by simp
  show ?case
  proof (cases "idx = []")
    case False
    then obtain vs where "ask s (atIndexes ks idx) = Inr vs" using Cons.prems[of s idx] by (auto simp: g)
    then show ?thesis using rest False by (simp add: g)
  qed (use rest in \<open>simp add: g\<close>)
qed simp

lemma groupIds_member:
  "(s, idx) \<in> set (enumerate 0 (groupIds L n ids)) \<longleftrightarrow>
     s < n \<and> idx = filter (\<lambda>k. ids ! k \<noteq> [] \<and> shardOf L n (ids ! k) = s) [0..<length ids]"
  by (auto simp: in_set_enumerate_eq groupIds_def)

lemma routed_sound:
  fixes out :: "'a option list"
  assumes "routed L n ask ids = Inr out" "0 < n"
    and "\<And>s xs vs. s < n \<Longrightarrow> ask s xs = Inr vs \<Longrightarrow> list_all2 (P s) xs vs"
  shows "list_all2 (\<lambda>i v. if i = [] then v = None else \<exists>x. v = Some x \<and> P (shardOf L n i) i x) ids out"
proof -
  let ?owner = "\<lambda>k. shardOf L n (ids ! k)" and ?gs = "enumerate 0 (groupIds L n ids)"
  have "gathered P ids ?gs (replicate (length ids) None) out"
  proof (rule gather_sound[OF assms(1)[unfolded routed_def], of P])
    show "distinct idx \<and> (\<forall>k \<in> set idx. k < length (replicate (length ids) (None :: 'a option)) \<and> ?owner k = s)"
      if "(s, idx) \<in> set ?gs" for s idx
      using that by (auto simp: groupIds_member)
    show "list_all2 (P s) xs vs" if "(s, idx) \<in> set ?gs" "ask s xs = Inr vs" for s idx xs vs
      using that by (intro assms(3)) (auto simp: groupIds_member)
  qed (simp add: map_fst_enumerate)
  then have len: "length out = length ids"
    and asked: "\<And>s idx k. (s, idx) \<in> set ?gs \<Longrightarrow> k \<in> set idx \<Longrightarrow> \<exists>v. out ! k = Some v \<and> P s (ids ! k) v"
    and skipped: "\<And>k. (\<And>s idx. (s, idx) \<in> set ?gs \<Longrightarrow> k \<notin> set idx) \<Longrightarrow> out ! k = replicate (length ids) None ! k"
    unfolding gathered_def by (simp, blast, blast)
  show ?thesis
    unfolding list_all2_conv_all_nth
  proof (intro conjI allI impI)
    fix k assume k: "k < length ids"
    let ?idx = "filter (\<lambda>j. ids ! j \<noteq> [] \<and> shardOf L n (ids ! j) = ?owner k) [0..<length ids]"
    show "if ids ! k = [] then out ! k = None else \<exists>x. out ! k = Some x \<and> P (?owner k) (ids ! k) x"
    proof (cases "ids ! k = []")
      case True
      then have "out ! k = replicate (length ids) None ! k"
        by (intro skipped) (auto simp: groupIds_member)
      then show ?thesis using True k by simp
    next
      case False
      have "(?owner k, ?idx) \<in> set ?gs" using shardOf_less[OF assms(2)] by (simp add: groupIds_member)
      from asked[OF this, of k] show ?thesis using False k by simp
    qed
  qed (simp add: len)
qed

lemma routed_total:
  assumes "\<And>s xs. s < n \<Longrightarrow> (\<forall>i \<in> set xs. i \<in> set ids \<and> i \<noteq> [] \<and> shardOf L n i = s) \<Longrightarrow> \<exists>vs. ask s xs = Inr vs"
  shows "\<exists>out. routed L n ask ids = Inr out"
  unfolding routed_def by (rule gather_total) (auto simp: groupIds_member atIndexes_def intro!: assms)

text \<open>A read of one id goes to one shard.\<close>

lemma gather_one:
  assumes "distinct (map fst gs)" "(s, idx) \<in> set gs" "idx \<noteq> []" "\<And>s' idx'. (s', idx') \<in> set gs \<Longrightarrow> s' \<noteq> s \<Longrightarrow> idx' = []"
  shows "gather ask ks gs out = rbind (ask s (atIndexes ks idx)) (\<lambda>got. Inr (place idx got out))"
  using assms
proof (induction gs)
  case (Cons g gs)
  have none: "\<forall>(s', idx') \<in> set hs. idx' = [] \<Longrightarrow> gather ask ks hs out = Inr out" for hs out
    by (induction hs) auto
  show ?case
  proof (cases "g = (s, idx)")
    case True
    then have "\<forall>(s', idx') \<in> set gs. idx' = []" using Cons.prems(1,4) by (force simp: image_iff)
    then show ?thesis using True Cons.prems(3) by (simp add: none)
  next
    case False
    then obtain s' where "g = (s', [])" using Cons.prems by (cases g) (force simp: image_iff)
    then show ?thesis using False Cons by auto
  qed
qed simp

lemma routed_single:
  assumes "i \<noteq> []" "0 < n"
  shows "routed L n ask [i] = rbind (ask (shardOf L n i) [i]) (\<lambda>got. Inr (place [0] got [None]))"
proof -
  have "routed L n ask [i] =
      rbind (ask (shardOf L n i) (atIndexes [i] [0])) (\<lambda>got. Inr (place [0] got (replicate (length [i]) None)))"
    unfolding routed_def
    by (rule gather_one) (use assms shardOf_less in \<open>auto simp: groupIds_member map_fst_enumerate\<close>)
  then show ?thesis by (simp add: atIndexes_def)
qed

section \<open>A partition of stores is a store\<close>

locale partition =
  fixes L :: lib and shards :: "uni list"
  assumes some_shard: "shards \<noteq> []"
    and each_store: "s < length shards \<Longrightarrow> byte_store (shards ! s)"

context partition
begin

definition shard :: "ident \<Rightarrow> uni" where
  "shard i = shards ! shardOf L (length shards) i"

lemma count: "0 < length shards"
  using some_shard by simp

lemma shard_store: "byte_store (shard i)"
  unfolding shard_def by (rule each_store) (simp add: shardOf_less some_shard)

lemma shard_universe: "universe (shard i)"
  using shard_store by (rule byte_store.axioms(1))

lemma shard_id: "GetClaim (shard i) d j = Inr c \<Longrightarrow> ID c = j \<and> j \<noteq> [] \<and> j \<in> set (uStored (shard i))"
  using universe.get_id[OF shard_universe] .

text \<open>The deltas the shards answer.\<close>

lemma routed_delta:
  assumes "partDelta L shards ids = Inr out"
  shows "list_all2 (\<lambda>i v. if i = [] then v = None else \<exists>x. v = Some x \<and> GetClaim (shard i) True i = Inr x) ids out"
proof -
  have "list_all2 (\<lambda>i v. if i = [] then v = None
      else \<exists>x. v = Some x \<and> GetClaim (shards ! shardOf L (length shards) i) True i = Inr x) ids out"
    by (rule routed_sound[OF assms[unfolded partDelta_def] count, of "\<lambda>s i c. GetClaim (shards ! s) True i = Inr c"])
       (use universe.get_bulk[OF byte_store.axioms(1)[OF each_store]] in blast)
  then show ?thesis unfolding shard_def .
qed

lemma delta_total:
  assumes la: "list_all2 (\<lambda>i c. GetClaim (shard i) True i = Inr c) ids cs"
  shows "\<exists>out. partDelta L shards ids = Inr out"
  unfolding partDelta_def
proof (rule routed_total)
  fix s xs
  assume s: "s < length shards" "\<forall>i \<in> set xs. i \<in> set ids \<and> i \<noteq> [] \<and> shardOf L (length shards) i = s"
  have "\<forall>i \<in> set ids. \<exists>c. GetClaim (shard i) True i = Inr c"
    using la by (auto simp: list_all2_conv_all_nth in_set_conv_nth)
  then have "\<forall>i \<in> set xs. \<exists>c. GetClaim (shards ! s) True i = Inr c" using s(2) unfolding shard_def by metis
  then obtain f where "\<forall>i \<in> set xs. GetClaim (shards ! s) True i = Inr (f i)" by metis
  then have "list_all2 (\<lambda>i c. GetClaim (shards ! s) True i = Inr c) xs (map f xs)"
    by (simp add: list_all2_conv_all_nth)
  then show "\<exists>vs. uGetClaims (shards ! s) True xs = Inr vs"
    using universe.get_bulk[OF byte_store.axioms(1)[OF each_store[OF s(1)]]] by blast
qed

lemma deltas:
  "rbind (partDelta L shards ids) derefs = Inr cs \<longleftrightarrow> list_all2 (\<lambda>i c. GetClaim (shard i) True i = Inr c) ids cs"
proof
  assume "rbind (partDelta L shards ids) derefs = Inr cs"
  then obtain out where out: "partDelta L shards ids = Inr out" "derefs out = Inr cs" by (auto simp: rbind_eq_Inr)
  have "list_all2 (\<lambda>v c. v = Some c) out cs"
    using out(2) unfolding derefs_def mapM_Inr_iff by (auto elim!: list_all2_mono split: option.splits)
  with routed_delta[OF out(1)] show "list_all2 (\<lambda>i c. GetClaim (shard i) True i = Inr c) ids cs"
    by (simp add: list_all2_conv_all_nth) (metis option.distinct(1) option.inject)
next
  assume la: "list_all2 (\<lambda>i c. GetClaim (shard i) True i = Inr c) ids cs"
  then obtain out where out: "partDelta L shards ids = Inr out" using delta_total by blast
  have "list_all2 (\<lambda>v c. v = Some c) out cs"
    using routed_delta[OF out] la shard_id unfolding list_all2_conv_all_nth by fastforce
  then have "derefs out = Inr cs"
    unfolding derefs_def mapM_Inr_iff by (auto elim!: list_all2_mono)
  then show "rbind (partDelta L shards ids) derefs = Inr cs" using out by simp
qed

lemma load: "partLoad L shards i = Inr c \<longleftrightarrow> GetClaim (shard i) True i = Inr c"
proof -
  have "partLoad L shards i = rbind (rbind (partDelta L shards [i]) derefs) first"
    by (cases "partDelta L shards [i]") (simp_all add: partLoad_def)
  then have "partLoad L shards i = Inr c \<longleftrightarrow> (\<exists>cs. rbind (partDelta L shards [i]) derefs = Inr cs \<and> first cs = Inr c)"
    by (simp only: rbind_eq_Inr)
  then show ?thesis by (auto simp: deltas list_all2_Cons1)
qed

definition readOne :: "bool \<Rightarrow> ident \<Rightarrow> claim result" where
  "readOne delta i =
     rbind (partLoad L shards i) (\<lambda>d. if delta then Inr d
       else materializeOne (length (partStored L shards)) (partLoad L shards) d)"

lemma reads: "partGetClaims L shards delta ids = Inr cs \<longleftrightarrow> list_all2 (\<lambda>i c. readOne delta i = Inr c) ids cs"
proof -
  let ?f = "if delta then Inr else materializeOne (length (partStored L shards)) (partLoad L shards)"
  have one: "readOne delta i = Inr c \<longleftrightarrow> (\<exists>d. GetClaim (shard i) True i = Inr d \<and> ?f d = Inr c)" for i c
    by (auto simp: readOne_def rbind_eq_Inr load)
  have keep: "mapM Inr xs = Inr xs" for xs :: "claim list" by (induction xs) simp_all
  have "partGetClaims L shards delta ids =
      rbind (rbind (partDelta L shards ids) derefs) (\<lambda>cs. mapM ?f cs)"
    by (cases "partDelta L shards ids"; cases delta) (simp_all add: partGetClaims_def DefaultMaterialize_def keep)
  then have "partGetClaims L shards delta ids = Inr cs \<longleftrightarrow>
      (\<exists>ds. rbind (partDelta L shards ids) derefs = Inr ds \<and> mapM ?f ds = Inr cs)"
    by (simp only: rbind_eq_Inr)
  also have "\<dots> \<longleftrightarrow>
      (\<exists>ds. list_all2 (\<lambda>i d. GetClaim (shard i) True i = Inr d) ids ds \<and> list_all2 (\<lambda>d c. ?f d = Inr c) ds cs)"
    by (simp only: deltas mapM_Inr_iff)
  also have "\<dots> \<longleftrightarrow> list_all2 (\<lambda>i c. \<exists>d. GetClaim (shard i) True i = Inr d \<and> ?f d = Inr c) ids cs"
    using list.rel_compp[of "\<lambda>i d. GetClaim (shard i) True i = Inr d" "\<lambda>d c. ?f d = Inr c"]
    by (simp add: OO_def fun_eq_iff)
  finally show ?thesis by (simp add: one)
qed

lemma GetClaim_part: "GetClaim (partUni L shards) delta i = Inr c \<longleftrightarrow> readOne delta i = Inr c"
  by (auto simp: GetClaim_def partUni_def rbind_eq_Inr reads list_all2_Cons1)

lemma readOne_ok:
  assumes "readOne delta i = Inr c"
  obtains d where "GetClaim (shard i) True i = Inr d" "sameRecord c d" "delta \<Longrightarrow> c = d"
  using assms by (auto simp: readOne_def rbind_eq_Inr load dest: materializeOne_same split: if_splits)

lemma part_delta [simp]: "GetClaim (partUni L shards) True i = Inr c \<longleftrightarrow> GetClaim (shard i) True i = Inr c"
  by (auto simp: GetClaim_part readOne_def rbind_eq_Inr load)

lemma part_stored: "i \<in> set (uStored (partUni L shards)) \<longleftrightarrow> i \<noteq> [] \<and> i \<in> set (uStored (shard i))"
  using shardOf_less[OF count, of L i] by (auto simp: partUni_def partStored_def shard_def)

lemma part_has:
  assumes "partHasClaims L shards ids = Inr bs"
  shows "bs = map (\<lambda>i. i \<noteq> [] \<and> i \<in> set (uStored (shard i))) ids"
proof -
  obtain out where out: "routed L (length shards) (\<lambda>s. uHasClaims (shards ! s)) ids = Inr out"
      and bs: "bs = map (\<lambda>b. b = Some True) out"
    using assms by (auto simp: partHasClaims_def rbind_eq_Inr)
  have "list_all2 (\<lambda>i v. if i = [] then v = None
      else \<exists>x. v = Some x \<and> x = (i \<in> set (uStored (shards ! shardOf L (length shards) i)))) ids out"
  proof (rule routed_sound[OF out count, of "\<lambda>s i b. b = (i \<in> set (uStored (shards ! s)))"])
    fix s xs vs assume "s < length shards" "uHasClaims (shards ! s) xs = Inr vs"
    then have "vs = map (\<lambda>i. i \<in> set (uStored (shards ! s))) xs"
      using universe.has_bulk[OF byte_store.axioms(1)[OF each_store]] by blast
    then show "list_all2 (\<lambda>i b. b = (i \<in> set (uStored (shards ! s)))) xs vs"
      by (simp add: list_all2_conv_all_nth)
  qed
  then show ?thesis
    unfolding bs shard_def by (auto simp: list_all2_conv_all_nth intro!: nth_equalityI split: if_splits)
qed

text \<open>A raw read of one id is the raw read of its shard.\<close>

lemma part_raw:
  assumes "i \<noteq> []" "uGetClaimsRaw (shard i) [i] = Inr [b]"
  shows "uGetClaimsRaw (partUni L shards) [i] = Inr [b]"
  using assms(2) by (simp add: partUni_def partGetClaimsRaw_def routed_single[OF assms(1) count] shard_def[symmetric] place_def)

end

sublocale partition \<subseteq> whole: byte_store "partUni L shards"
proof (unfold_locales, goal_cases)
  case (1 d ids cs)
  show ?case by (simp add: GetClaim_part) (simp add: partUni_def reads)
next
  case (2 d i c)
  then obtain x where x: "GetClaim (shard i) True i = Inr x" "sameRecord c x"
    by (auto simp: GetClaim_part elim: readOne_ok)
  show ?case using shard_id[OF x(1)] sameRecord_reads[OF x(2)] by (simp add: part_stored)
next
  case (3 i c)
  then have "GetClaim (shard i) True i = Inr c" by simp
  then show ?case by (rule universe.get_delta[OF shard_universe])
next
  case (4 i c)
  then show ?case by (auto simp: GetClaim_part[of False] elim: readOne_ok)
next
  case (5 ids bs)
  then have "partHasClaims L shards ids = Inr bs" by (simp add: partUni_def)
  then show ?case by (simp add: part_has part_stored)
next
  case (6 ids hs)
  then obtain cs where cs: "partGetClaims L shards True ids = Inr cs" "hs = map claimHeight cs"
    by (auto simp: partUni_def DefaultGetClaimHeights_def rbind_eq_Inr)
  then show ?case by (auto simp: reads GetClaim_part list_all2_conv_all_nth simp del: part_delta)
next
  case (7 i c)
  then have c: "GetClaim (shard i) True i = Inr c" by simp
  obtain b where "claimRaw c = Some b" "uGetClaimsRaw (shard i) [i] = Inr [b]"
    using byte_store.get_raw[OF shard_store c] by blast
  then show ?case using part_raw shard_id[OF c] by blast
qed

context partition
begin

lemma part_held: "GetClaim (partUni L shards) delta i = Inr c \<Longrightarrow> i \<in> set (uStored (partUni L shards))"
  by (rule whole.get_held)

end

interpretation memShards: partition L "map (memUni L) (m # ms)" for L m ms
proof (rule partition.intro)
  fix s assume "s < length (map (memUni L) (m # ms))"
  then show "byte_store (map (memUni L) (m # ms) ! s)"
    by (cases s) (simp_all add: mem.byte_store_axioms)
qed simp

section \<open>What a write leaves\<close>

text \<open>The abstract store of a partition: each id is looked up in its shard.\<close>

definition wholeRecords :: "lib \<Rightarrow> memoryUniverse list \<Rightarrow> ident \<rightharpoonup> bytes" where
  "wholeRecords L ms i = records (ms ! shardOf L (length ms) i) i"

text \<open>No shard holds an id another one is asked for.\<close>

definition routedOnly :: "lib \<Rightarrow> memoryUniverse list \<Rightarrow> bool" where
  "routedOnly L ms \<longleftrightarrow> (\<forall>s < length ms. \<forall>i \<in> dom (records (ms ! s)). shardOf L (length ms) i = s)"

lemma putShards_ok:
  assumes "distinct (map fst gs)"
    and "\<And>s g. (s, g) \<in> set gs \<Longrightarrow> s < length ms \<and> snd (put (ms ! s) g) = Inr () \<and> fst (put (ms ! s) []) = ms ! s"
  shows "\<exists>ms'. putShards put gs ms = (ms', Inr ()) \<and> length ms' = length ms \<and>
    (\<forall>s g. (s, g) \<in> set gs \<longrightarrow> ms' ! s = fst (put (ms ! s) g)) \<and> (\<forall>s. s \<notin> fst ` set gs \<longrightarrow> ms' ! s = ms ! s)"
  using assms
proof (induction gs arbitrary: ms)
  case (Cons a gs)
  obtain s g where a: "a = (s, g)" by fastforce
  let ?ms = "ms[s := fst (put (ms ! s) g)]"
  have here: "s < length ms" "snd (put (ms ! s) g) = Inr ()" "fst (put (ms ! s) []) = ms ! s"
    using Cons.prems(2)[of s g] by (simp_all add: a)
  have "putShards put (a # gs) ms = putShards put gs ?ms"
  proof (cases "g = []")
    case True
    then show ?thesis using here(3) by (simp add: a)
  next
    case False
    then show ?thesis using here(2) by (cases "put (ms ! s) g") (simp add: a split: sum.split)
  qed
  moreover have "\<exists>ms'. putShards put gs ?ms = (ms', Inr ()) \<and> length ms' = length ?ms \<and>
      (\<forall>s g. (s, g) \<in> set gs \<longrightarrow> ms' ! s = fst (put (?ms ! s) g)) \<and> (\<forall>s. s \<notin> fst ` set gs \<longrightarrow> ms' ! s = ?ms ! s)"
  proof (rule Cons.IH)
    fix s' g' assume g': "(s', g') \<in> set gs"
    then have "s' \<noteq> s" using Cons.prems(1) by (force simp: a image_iff)
    then show "s' < length ?ms \<and> snd (put (?ms ! s') g') = Inr () \<and> fst (put (?ms ! s') []) = ?ms ! s'"
      using Cons.prems(2)[of s' g'] g' by simp
  qed (use Cons.prems(1) in simp)
  moreover have "s \<notin> fst ` set gs" using Cons.prems(1) by (simp add: a)
  ultimately show ?case
    using here(1) by (clarsimp simp: a) (metis image_eqI fst_conv nth_list_update_eq nth_list_update_neq)
qed simp

lemma putShards_grouped:
  assumes "\<And>s. s < length ms \<Longrightarrow> snd (put (ms ! s) (filter (\<lambda>x. shardOf L (length ms) (key x) = s) xs)) = Inr ()"
    and "\<And>m. fst (put m []) = m"
  shows "putShards put (groupBy L (length ms) key xs) ms =
    (map (\<lambda>s. fst (put (ms ! s) (filter (\<lambda>x. shardOf L (length ms) (key x) = s) xs))) [0..<length ms], Inr ())"
proof -
  let ?gs = "groupBy L (length ms) key xs"
  have "distinct (map fst ?gs)" by (simp add: groupBy_def comp_def)
  moreover have "s < length ms \<and> snd (put (ms ! s) g) = Inr () \<and> fst (put (ms ! s) []) = ms ! s"
    if "(s, g) \<in> set ?gs" for s g
    using that assms by (auto simp: groupBy_def)
  ultimately obtain ms' where ms': "putShards put ?gs ms = (ms', Inr ())" "length ms' = length ms"
      "\<And>s g. (s, g) \<in> set ?gs \<Longrightarrow> ms' ! s = fst (put (ms ! s) g)"
    using putShards_ok[of ?gs ms put] by blast
  have "ms' ! s = fst (put (ms ! s) (filter (\<lambda>x. shardOf L (length ms) (key x) = s) xs))" if "s < length ms" for s
    using that by (intro ms'(3)) (simp add: groupBy_def)
  then show ?thesis by (auto simp: ms'(1,2) intro!: nth_equalityI)
qed

lemma recordPair_key: "recordPair c = Some (k, b) \<Longrightarrow> claimKey c = k \<and> k \<noteq> []"
  by (auto simp: recordPair_def claimKey_def split: option.splits if_splits)

lemma stored_filter:
  assumes "\<forall>c \<in> set cs. recordPair c \<noteq> None"
  shows "stored (filter (\<lambda>c. Q (claimKey c)) cs) = filter (\<lambda>p. Q (fst p)) (stored cs)"
  using assms
proof (induction cs)
  case (Cons c cs)
  then obtain k b where "recordPair c = Some (k, b)" by fastforce
  then show ?case using Cons recordPair_key[of c k b] by simp
qed simp

lemma map_of_filter_key: "Q i \<Longrightarrow> map_of (filter (\<lambda>p. Q (fst p)) ps) i = map_of ps i"
  by (induction ps) auto

lemma broadcast_fails:
  assumes "m \<in> set ms" "snd (f m) = Inl e"
  shows "\<exists>ms' e. broadcast f ms = (ms', Inl e)"
  using assms
proof (induction ms)
  case (Cons a ms)
  show ?case
  proof (cases "snd (f a)")
    case (Inl x)
    then show ?thesis by (cases "f a") simp
  next
    case (Inr u)
    then have "m \<in> set ms" using Cons.prems by auto
    then obtain ms' x where "broadcast f ms = (ms', Inl x)" using Cons by blast
    then show ?thesis using Inr by (cases "f a") simp
  qed
qed simp

lemma DefaultTag_missing:
  assumes "head \<noteq> []" "records m head = None"
  shows "\<exists>e. snd (DefaultTag L m head) = Inl e"
proof -
  have "GetClaim (memUni L m) False head \<noteq> Inr c" for c
    using assms(2) by (auto simp: GetClaim_memUni records_def elim!: memRead_ok dest: memLoad_ok(5))
  then obtain e where "GetClaim (memUni L m) False head = Inl e"
    by (cases "GetClaim (memUni L m) False head") auto
  then show ?thesis using assms(1) by (simp add: DefaultTag_def NewArchive_def wrapping_def)
qed

text \<open>A store dealt out over shards, for the witnesses.\<close>

definition splitShards :: "lib \<Rightarrow> nat \<Rightarrow> memoryUniverse \<Rightarrow> memoryUniverse list" where
  "splitShards L n m =
     map (\<lambda>s. m\<lparr>mClaims := filter (\<lambda>p. shardOf L n (fst p) = s) (mClaims m)\<rparr>) [0..<n]"

lemma splitShards_whole:
  assumes "0 < n"
  shows "wholeRecords L (splitShards L n m) = records m" "routedOnly L (splitShards L n m)"
    "length (splitShards L n m) = n" "splitShards L n m \<noteq> []"
    "mTags (splitShards L n m ! shardOf L n i) = mTags m"
  using assms shardOf_less[OF assms, of L] map_of_filter_key[of "\<lambda>k. shardOf L n k = shardOf L n _"]
  by (auto simp: splitShards_def wholeRecords_def records_def routedOnly_def fun_eq_iff dest!: map_of_SomeD)

section \<open>Properties\<close>

text \<open>
  Property C31 (partition_writes): over memory shards, with each id looked up in the shard it is
  routed to, a bulk put of storable claims succeeds and is the map update a single store would do,
  and a bulk delete succeeds and is the removal of the ids it names, nil ids left out; a put keeps
  every record in the shard that is asked for it.
\<close>

theorem partition_writes:
  assumes "ms \<noteq> []" "list_all (\<lambda>c. recordPair c \<noteq> None) cs"
  shows "\<exists>ms' ms''. partPutClaims L ms cs = (ms', Inr ()) \<and> length ms' = length ms \<and>
    wholeRecords L ms' = wholeRecords L ms ++ map_of (rev (stored cs)) \<and>
    (routedOnly L ms \<longrightarrow> routedOnly L ms') \<and>
    partDeleteClaims L ms ids = (ms'', Inr ()) \<and> length ms'' = length ms \<and>
    wholeRecords L ms'' = wholeRecords L ms |` (- (set ids - {[]}))"
proof -
  let ?n = "length ms"
  have less: "shardOf L ?n i < ?n" for i by (rule shardOf_less) (use assms(1) in simp)
  let ?part = "\<lambda>s. filter (\<lambda>c. shardOf L ?n (claimKey c) = s) cs"
  let ?ms' = "map (\<lambda>s. fst (memPutClaims (ms ! s) (?part s))) [0..<?n]"
  let ?gone = "\<lambda>s. filter (\<lambda>i. shardOf L ?n (id i) = s) (filter (\<lambda>i. i \<noteq> []) ids)"
  let ?ms'' = "map (\<lambda>s. fst (memDeleteClaims (ms ! s) (?gone s))) [0..<?n]"
  have ok: "\<forall>c \<in> set cs. recordPair c \<noteq> None" using assms(2) by (simp add: list_all_iff)
  then have "\<forall>c \<in> set cs. claimKey c \<noteq> []" using recordPair_key by fastforce
  then have put: "partPutClaims L ms cs = (?ms', Inr ())"
    unfolding partPutClaims_def using ok by (simp add: putShards_grouped memPutClaims_ok)
  have del: "partDeleteClaims L ms ids = (?ms'', Inr ())"
    unfolding partDeleteClaims_def by (rule putShards_grouped) (simp_all add: memDeleteClaims_records(1))
  have rec: "records (?ms' ! s) = records (ms ! s) ++ map_of (rev (filter (\<lambda>p. shardOf L ?n (fst p) = s) (stored cs)))"
    if "s < ?n" for s
    using that stored_filter[OF ok, of "\<lambda>k. shardOf L ?n k = s"] by (simp add: memPutClaims_records)
  have "wholeRecords L ?ms' i = (wholeRecords L ms ++ map_of (rev (stored cs))) i" for i
    using rec[OF less] map_of_filter_key[of "\<lambda>k. shardOf L ?n k = shardOf L ?n i" i "rev (stored cs)"]
    unfolding wholeRecords_def map_add_def by (simp add: rev_filter del: nth_map)
  moreover have "wholeRecords L ?ms'' i = (wholeRecords L ms |` (- (set ids - {[]}))) i" for i
    using less[of i] by (simp add: wholeRecords_def memDeleteClaims_records(2) restrict_map_def)
  moreover have "routedOnly L ?ms'" if "routedOnly L ms"
    using that rec by (auto simp: routedOnly_def simp del: nth_map dest!: map_of_SomeD)
  ultimately show ?thesis using put del by (intro exI[of _ ?ms'] exI[of _ ?ms'']) (simp add: fun_eq_iff)
qed

theorem partition_writes_witness:
  "\<exists>ms'. partPutClaims graphLib [graphMem, NewMemoryUniverse]
       [Some (Claim (MNode (zeroNode\<lparr>nodeId := ''hZ''\<rparr>) None) [] (Some ''A'') None [])] = (ms', Inr ()) \<and>
     wholeRecords graphLib ms' ''hZ'' = Some ''A''"
  using partition_writes[of "[graphMem, NewMemoryUniverse]"
      "[Some (Claim (MNode (zeroNode\<lparr>nodeId := ''hZ''\<rparr>) None) [] (Some ''A'') None [])]" graphLib "[]"]
  by (auto simp: recordPair_def ID_def)

lemma materializeOne_loads:
  assumes "\<And>i c. load i = Inr c \<longleftrightarrow> load' i = Inr c"
  shows "materializeOne d load c = Inr x \<longleftrightarrow> materializeOne d load' c = Inr x"
proof (induction d arbitrary: c x)
  case 0
  then show ?case by (simp add: materializeOne.simps[of _ _ c] split: option.split)
next
  case (Suc d)
  then show ?case using assms
    by (simp add: materializeOne.simps[of _ _ c] rbind_eq_Inr split: option.split)
qed

lemma memLoad_whole:
  assumes "records m = wholeRecords L ms"
    and "\<And>i. getm (mTags m) i = getm (mTags (ms ! shardOf L (length ms) i)) i"
  shows "memLoad L m i = memLoad L (ms ! shardOf L (length ms) i) i"
proof -
  have "map_of (mClaims m) i = map_of (mClaims (ms ! shardOf L (length ms) i)) i"
    using fun_cong[OF assms(1), of i] by (simp add: records_def wholeRecords_def)
  then show ?thesis unfolding memLoad_def assms(2)[of i] by simp
qed

lemma memPartition:
  assumes "ms \<noteq> []"
  shows "partition (map (memUni L) ms)"
proof -
  obtain m ms' where "ms = m # ms'" using assms by (cases ms) auto
  then show ?thesis using memShards.partition_axioms[of L m ms'] by simp
qed

lemma partLoad_mem:
  assumes "ms \<noteq> []"
  shows "partLoad L (map (memUni L) ms) i = Inr c \<longleftrightarrow> memLoad L (ms ! shardOf L (length ms) i) i = Inr c"
  using assms shardOf_less[of "length ms" L i]
  by (simp add: partition.load[OF memPartition] partition.shard_def[OF memPartition] GetClaim_memUni_delta)

text \<open>
  Property C30 (partition_reads): a partition of memory shards reads as the one store that holds what
  each shard is asked for: every delta read, the references and so every closure agree, and where
  diffs sit above what they revise every materialised read does too, a diff and what it revises
  lying on different shards or not.
\<close>

theorem partition_reads:
  assumes "ms \<noteq> []" "records m = wholeRecords L ms"
    and "\<forall>i. getm (mTags m) i = getm (mTags (ms ! shardOf L (length ms) i)) i"
    and "diffsDescend (memLoad L m)"
  shows "(GetClaim (partUni L (map (memUni L) ms)) delta i = Inr c) = (GetClaim (memUni L m) delta i = Inr c) \<and>
    refs (partUni L (map (memUni L) ms)) = refs (memUni L m)"
proof -
  let ?p = "partUni L (map (memUni L) ms)" and ?load = "partLoad L (map (memUni L) ms)"
  note part = memPartition[OF assms(1), of L]
  have loads: "?load i = Inr c \<longleftrightarrow> memLoad L m i = Inr c" for i c
    using partLoad_mem[OF assms(1)] memLoad_whole[OF assms(2)] assms(3) by simp
  have delta: "GetClaim ?p True i = Inr c \<longleftrightarrow> memLoad L m i = Inr c" for i c
    by (simp add: partition.GetClaim_part[OF part] partition.readOne_def[OF part] rbind_eq_Inr loads)
  have "refs ?p = refs (memUni L m)"
  proof
    fix i
    show "refs ?p i = refs (memUni L m) i"
    proof (cases "memLoad L m i")
      case (Inr c)
      then have "GetClaim ?p True i = Inr c" by (rule iffD2[OF delta])
      then show ?thesis using Inr by (simp add: refs_def GetClaim_memUni_delta)
    next
      case (Inl e)
      then have "GetClaim ?p True i \<noteq> Inr c" for c using iffD1[OF delta, of i c] by auto
      then obtain e' where "GetClaim ?p True i = Inl e'" by (cases "GetClaim ?p True i") auto
      then show ?thesis using Inl by (simp add: refs_def GetClaim_memUni_delta)
    qed
  qed
  moreover have "GetClaim ?p False i = Inr c \<longleftrightarrow> GetClaim (memUni L m) False i = Inr c"
  proof -
    let ?held = "set (partStored L (map (memUni L) ms))"
    let ?n = "length (partStored L (map (memUni L) ms))"
    have held: "k \<in> ?held" if "memLoad L m k = Inr d" for k d
      using partition.part_held[OF part iffD2[OF delta, OF that]] by (simp add: partUni_def)
    have deep: "materializeOne ?n (memLoad L m) d = materializeOne (length (mClaims m)) (memLoad L m) d"
      if d: "memLoad L m i = Inr d" for d
    proof -
      let ?below = "{k \<in> ?held. \<exists>q. memLoad L m k = Inr q \<and> claimHeight q < claimHeight d}"
      let ?N = "max ?n (length (mClaims m))"
      have "?below \<subseteq> ?held - {i}" using d by auto
      then have "card ?below \<le> card (?held - {i})" by (rule card_mono[rotated]) simp
      also have "\<dots> < card ?held" using held[OF d] by (intro psubset_card_mono) auto
      also have "\<dots> \<le> ?n" by (rule card_length)
      finally have "materializeOne ?n (memLoad L m) d = materializeOne ?N (memLoad L m) d"
        by (intro materializeOne_depth[OF _ held assms(4) d]) simp_all
      moreover have "materializeOne (length (mClaims m)) (memLoad L m) d = materializeOne ?N (memLoad L m) d"
        using memRead_depth[OF assms(4) d, of ?N] memRead_depth[OF assms(4) d, of "length (mClaims m)"] by simp
      ultimately show ?thesis by simp
    qed
    then show ?thesis
      by (auto simp: partition.GetClaim_part[OF part] partition.readOne_def[OF part] GetClaim_memUni memRead_def
          rbind_eq_Inr loads materializeOne_loads[OF loads] deep)
  qed
  ultimately show ?thesis using delta[of i c] by (cases delta) (simp_all add: GetClaim_memUni_delta)
qed

theorem partition_reads_witness:
  "\<forall>c. (GetClaim (partUni graphLib (map (memUni graphLib) (splitShards graphLib 2 graphMem))) False ''hD'' = Inr c) =
     (GetClaim (memUni graphLib graphMem) False ''hD'' = Inr c)"
proof
  fix c
  have split: "0 < (2::nat)" by simp
  show "(GetClaim (partUni graphLib (map (memUni graphLib) (splitShards graphLib 2 graphMem))) False ''hD'' = Inr c) =
      (GetClaim (memUni graphLib graphMem) False ''hD'' = Inr c)"
    using partition_reads[OF splitShards_whole(4)[OF split, of graphLib graphMem]
        splitShards_whole(1)[OF split, of graphLib graphMem, symmetric]]
      graph_descends
    by (simp add: splitShards_whole(3,5)[OF split])
qed

text \<open>
  Property C32 (partition_tag_fails): over two or more memory shards, each holding only what it is
  asked for, tagging an archive head always fails: the signal goes to every shard, and a shard that
  does not hold the head cannot read it.
\<close>

theorem partition_tag_fails:
  assumes "2 \<le> length ms" "routedOnly L ms" "head \<noteq> []"
  shows "\<exists>ms' e. partTag L ms head = (ms', Inl e)"
proof -
  obtain s where s: "s < length ms" "s \<noteq> shardOf L (length ms) head"
    by (rule that[of "if shardOf L (length ms) head = 0 then 1 else 0"]) (use assms(1) in auto)
  then have "records (ms ! s) head = None" using assms(2) by (auto simp: routedOnly_def)
  then obtain e where "snd (DefaultTag L (ms ! s) head) = Inl e" using DefaultTag_missing[OF assms(3)] by blast
  with s(1) show ?thesis unfolding partTag_def by (intro broadcast_fails[of "ms ! s"]) simp_all
qed

theorem partition_tag_fails_witness:
  "\<exists>ms' e. partTag graphLib (splitShards graphLib 2 graphMem) ''hB'' = (ms', Inl e)"
  using partition_tag_fails[of "splitShards graphLib 2 graphMem"] splitShards_whole[of 2 graphLib graphMem] by simp

end
