(* ===== verification/GoDuration.thy ===== *)
theory GoDuration
  imports Query Complex_Main
begin

text \<open>
  The text of a duration (\<open>time.Duration.String\<close>, \<open>time.ParseDuration\<close>), which the wire form of a
  query spells its time budget in. A duration is its nanoseconds, of 64 bits. The fraction of a unit
  is computed in \<open>float64\<close>, whose rounding is \<open>roundF64\<close>.
\<close>

declare trimZeros.simps [simp del]

section \<open>Printing\<close>

definition fracText :: "nat \<Rightarrow> int \<Rightarrow> string" where
  "fracText prec u = (let ds = trimZeros (fixedDigits prec u) in if ds = [] then [] else CHR ''.'' # ds)"

definition microSign :: string where "microSign = [CHR 0xC2, CHR 0xB5]"

definition durationText :: "int \<Rightarrow> string" where
  "durationText d =
     (let u = \<bar>d\<bar> in
       (if d < 0 then ''-'' else []) @
       (if u = 0 then ''0s''
        else if u < 1000 then decDigits u @ ''ns''
        else if u < 1000000 then decDigits (u div 1000) @ fracText 3 u @ microSign @ ''s''
        else if u < 1000000000 then decDigits (u div 1000000) @ fracText 6 u @ ''ms''
        else
          let s = u div 1000000000; m = s div 60; h = m div 60 in
            (if 0 < h then decDigits h @ ''h'' else []) @
            (if 0 < m then decDigits (m mod 60) @ ''m'' else []) @
            decDigits (s mod 60) @ fracText 9 u @ ''s''))"

section \<open>Floating point\<close>

definition pow2 :: "int \<Rightarrow> rat" where
  "pow2 e = (if 0 \<le> e then 2 ^ nat e else 1 / 2 ^ nat (- e))"

definition halfEven :: "rat \<Rightarrow> int" where
  "halfEven x = (let f = \<lfloor>x\<rfloor>; r = x - of_int f in
     if r < 1 / 2 \<or> (r = 1 / 2 \<and> even f) then f else f + 1)"

text \<open>A positive rational rounded to 53 bits; the ones met here are far from the ends of the range.\<close>

definition roundF64 :: "rat \<Rightarrow> rat" where
  "roundF64 x =
     (if x \<le> 0 then x
      else
        let (p, q) = quotient_of x;
            k = int (bitLen (nat p)) - int (bitLen (nat q));
            e = (if pow2 k \<le> x then k else k - 1) - 52
        in of_int (halfEven (x / pow2 e)) * pow2 e)"

section \<open>Parsing\<close>

fun leadingInt :: "int \<Rightarrow> string \<Rightarrow> (int \<times> string) option" where
  "leadingInt x [] = Some (x, [])"
| "leadingInt x (c # s) =
     (if \<not> isDigit c then Some (x, c # s)
      else if 2 ^ 63 div 10 < x then None
      else let y = x * 10 + digitVal c in if 2 ^ 63 < y then None else leadingInt y s)"

text \<open>Digits past the ones that fit are skipped.\<close>

fun leadingFraction :: "bool \<Rightarrow> int \<Rightarrow> int \<Rightarrow> string \<Rightarrow> int \<times> int \<times> string" where
  "leadingFraction over x scale [] = (x, scale, [])"
| "leadingFraction over x scale (c # s) =
     (if \<not> isDigit c then (x, scale, c # s)
      else if over \<or> (2 ^ 63 - 1) div 10 < x then leadingFraction True x scale s
      else let y = x * 10 + digitVal c in
        if 2 ^ 63 < y then leadingFraction True x scale s else leadingFraction False y (scale * 10) s)"

definition unitMap :: "(string \<times> int) list" where
  "unitMap =
     [(''ns'', 1), (''us'', 1000), (microSign @ ''s'', 1000), ([CHR 0xCE, CHR 0xBC] @ ''s'', 1000),
      (''ms'', 1000000), (''s'', 1000000000), (''m'', 60000000000), (''h'', 3600000000000)]"

definition fractionOf :: "int \<Rightarrow> int \<Rightarrow> int \<Rightarrow> int" where
  "fractionOf f unit scale = \<lfloor>roundF64 (roundF64 (of_int f) * roundF64 (of_int unit / of_int scale))\<rfloor>"

definition unitChar :: "char \<Rightarrow> bool" where
  "unitChar c = (c \<noteq> CHR ''.'' \<and> \<not> isDigit c)"

text \<open>The fraction after a point, if there is one, and whether it had a digit.\<close>

definition optFraction :: "string \<Rightarrow> int \<times> int \<times> string \<times> bool" where
  "optFraction s =
     (if s \<noteq> [] \<and> hd s = CHR ''.'' then
        (let (f, scale, r) = leadingFraction False 0 1 (tl s) in (f, scale, r, length r \<noteq> length (tl s)))
      else (0, 1, s, False))"

text \<open>One number with its unit: the nanoseconds it adds and the rest of the text.\<close>

definition durationPart :: "string \<Rightarrow> (int \<times> string) option" where
  "durationPart s =
     (if \<not> (hd s = CHR ''.'' \<or> isDigit (hd s)) then None
      else case leadingInt 0 s of
          None \<Rightarrow> None
        | Some (v, s1) \<Rightarrow>
            (case optFraction s1 of
               (f, scale, s2, post) \<Rightarrow>
                 if length s1 = length s \<and> \<not> post then None
                 else case map_of unitMap (takeWhile unitChar s2) of
                     None \<Rightarrow> None
                   | Some unit \<Rightarrow>
                       if 2 ^ 63 div unit < v then None
                       else
                         let w = v * unit + (if 0 < f then fractionOf f unit scale else 0) in
                           if 2 ^ 63 < w then None else Some (w, dropWhile unitChar s2)))"

text \<open>Each part takes at least one byte, so that the length of the text is enough fuel.\<close>

fun durationParts :: "nat \<Rightarrow> int \<Rightarrow> string \<Rightarrow> int option" where
  "durationParts fuel d [] = Some d"
| "durationParts 0 d (c # s) = None"
| "durationParts (Suc fuel) d (c # s) =
     (case durationPart (c # s) of
        None \<Rightarrow> None
      | Some (v, rest) \<Rightarrow>
          let d' = (d + v) mod 2 ^ 64 in if 2 ^ 63 < d' then None else durationParts fuel d' rest)"

definition ParseDuration :: "string \<Rightarrow> int option" where
  "ParseDuration s =
     (let neg = (s \<noteq> [] \<and> hd s = CHR ''-'');
          body = (if s \<noteq> [] \<and> (hd s = CHR ''-'' \<or> hd s = CHR ''+'') then tl s else s)
      in if body = ''0'' then Some 0
         else if body = [] then None
         else case durationParts (length body) 0 body of
             None \<Rightarrow> None
           | Some d \<Rightarrow> if neg then Some (- d) else if 2 ^ 63 - 1 < d then None else Some d)"

section \<open>Rounding keeps small integers\<close>

lemma bitLen_le: "n < 2 ^ k \<Longrightarrow> bitLen n \<le> k"
proof (induction k arbitrary: n)
  case 0
  then show ?case by (simp add: bitLen.simps)
next
  case (Suc k)
  then show ?case by (simp add: bitLen.simps[of n] less_mult_imp_div_less)
qed

lemma halfEven_int [simp]: "halfEven (of_int n) = n"
  by (simp add: halfEven_def)

lemma bitLen_one: "bitLen (Suc 0) = 1"
  by (simp add: bitLen.simps)

lemma roundF64_small: "0 \<le> n \<Longrightarrow> n < 2 ^ 53 \<Longrightarrow> roundF64 (of_int n) = of_int n"
proof (cases "n = 0")
  case False
  assume n: "0 \<le> n" "n < 2 ^ 53"
  have "bitLen (nat n) \<le> 53" by (rule bitLen_le) (use n in simp)
  then have le: "int (bitLen (nat n)) - 53 \<le> 0" "int (bitLen (nat n)) - 54 \<le> 0" by simp_all
  have keep: "of_int (halfEven (of_int n / pow2 e)) * pow2 e = (of_int n :: rat)" if "e \<le> 0" for e
  proof (cases "e = 0")
    case False
    then have p: "pow2 e = 1 / of_int (2 ^ nat (- e))" using that by (simp add: pow2_def)
    have "of_int n / pow2 e = (of_int (n * 2 ^ nat (- e)) :: rat)" by (simp add: p)
    then have "halfEven (of_int n / pow2 e) = n * 2 ^ nat (- e)" by (simp only: halfEven_int)
    then show ?thesis by (simp add: p)
  qed (simp add: pow2_def)
  show ?thesis
    using n False keep[OF le(1)] keep[OF le(2)] by (simp add: roundF64_def bitLen_one Let_def)
qed (simp add: roundF64_def)

lemma fractionOf_exact:
  assumes "0 \<le> f" "f < 10 ^ j" "j \<le> p" "p \<le> 9"
  shows "fractionOf f (10 ^ p) (10 ^ j) = f * 10 ^ (p - j)"
proof -
  have b: "10 ^ k \<le> (10 ^ 9 :: int)" if "k \<le> 9" for k :: nat
    using that by (intro power_increasing) auto
  have split: "(10::int) ^ p = 10 ^ j * 10 ^ (p - j)" using assms(3) by (simp flip: power_add)
  have q: "(of_int (10 ^ p) / of_int (10 ^ j) :: rat) = of_int (10 ^ (p - j))"
    unfolding split of_int_mult by simp
  have "f * 10 ^ (p - j) < 10 ^ j * 10 ^ (p - j)" using assms(2) by (intro mult_strict_right_mono) auto
  then have w: "f * 10 ^ (p - j) < 10 ^ p" using split by simp
  have "f < 2 ^ 53" using assms(2,3,4) b[of j] by simp
  then have rf: "roundF64 (of_int f) = of_int f" by (rule roundF64_small[OF assms(1)])
  have "(10::int) ^ (p - j) < 2 ^ 53" using b[of "p - j"] assms(4) by (simp add: le_diff_conv)
  then have ru: "roundF64 (of_int (10 ^ (p - j))) = of_int (10 ^ (p - j))" by (intro roundF64_small) simp_all
  have le: "f * 10 ^ (p - j) < 2 ^ 53" using w b[OF assms(4)] by simp
  have "0 \<le> f * 10 ^ (p - j)" using assms(1) by simp
  then have rp: "roundF64 (of_int (f * 10 ^ (p - j))) = of_int (f * 10 ^ (p - j))" using le by (rule roundF64_small)
  have "roundF64 (of_int f) * roundF64 (of_int (10 ^ (p - j))) = of_int (f * 10 ^ (p - j))"
    unfolding rf ru by (rule of_int_mult[symmetric])
  then show ?thesis unfolding fractionOf_def q by (simp only: rp floor_of_int)
qed

section \<open>Reading what was printed\<close>

lemma decVal_append: "decVal (a @ b) = decVal a * 10 ^ length b + decVal b"
proof -
  have "foldl (\<lambda>v c. v * 10 + digitVal c) x b = x * 10 ^ length b + decVal b" for x
  proof (induction b arbitrary: x)
    case (Cons c b)
    show ?case using Cons[of "x * 10 + digitVal c"] Cons[of "digitVal c"] by (simp add: decVal_def algebra_simps)
  qed (simp add: decVal_def)
  moreover have "decVal (a @ b) = foldl (\<lambda>v c. v * 10 + digitVal c) (decVal a) b" by (simp add: decVal_def)
  ultimately show ?thesis by metis
qed

lemma decDigits_digits: "0 \<le> n \<Longrightarrow> list_all isDigit (decDigits n) \<and> decDigits n \<noteq> [] \<and> decVal (decDigits n) = n"
proof (induction n rule: decDigits.induct)
  case (1 n)
  then show ?case by (simp add: decDigits.simps[of n] decVal_append) (simp add: decVal_def)
qed

lemma digitVal_nonneg: "isDigit c \<Longrightarrow> 0 \<le> digitVal c"
  by (auto simp: isDigit_def digitVal_def less_eq_char_def)

lemma decVal_nonneg: "list_all isDigit s \<Longrightarrow> 0 \<le> decVal s"
proof (induction s rule: rev_induct)
  case (snoc c s)
  then show ?case using digitVal_nonneg[of c] by (simp add: decVal_append) (simp add: decVal_def)
qed (simp add: decVal_def)

definition stops :: "string \<Rightarrow> bool" where
  "stops s = (s = [] \<or> \<not> isDigit (hd s))"

lemma leadingInt_digits:
  assumes "list_all isDigit ds" "0 \<le> x" "x * 10 ^ length ds + decVal ds \<le> 2 ^ 63" "stops rest"
  shows "leadingInt x (ds @ rest) = Some (x * 10 ^ length ds + decVal ds, rest)"
  using assms(1-3)
proof (induction ds arbitrary: x)
  case Nil
  then show ?case using assms(4) by (cases rest) (auto simp: stops_def decVal_def)
next
  case (Cons c ds)
  let ?y = "x * 10 + digitVal c"
  have v: "x * 10 ^ length (c # ds) + decVal (c # ds) = ?y * 10 ^ length ds + decVal ds"
    using decVal_append[of "[c]" ds] by (simp add: decVal_def algebra_simps)
  have ge: "0 \<le> ?y" "0 \<le> decVal ds" using Cons.prems digitVal_nonneg decVal_nonneg by auto
  then have "?y * 1 \<le> ?y * 10 ^ length ds" by (intro mult_left_mono) auto
  then have le: "?y \<le> 2 ^ 63" using ge(2) Cons.prems(3) v by simp
  then have "x \<le> 2 ^ 63 div 10" using digitVal_nonneg[of c] Cons.prems(1) by simp
  then show ?case using Cons.IH[of ?y] Cons.prems le ge(1) v by (simp add: not_less)
qed

lemma leadingFraction_digits:
  assumes "list_all isDigit ds" "0 \<le> x" "x * 10 ^ length ds + decVal ds < 2 ^ 63" "stops rest"
  shows "leadingFraction False x scale (ds @ rest) = (x * 10 ^ length ds + decVal ds, scale * 10 ^ length ds, rest)"
  using assms(1-3)
proof (induction ds arbitrary: x scale)
  case Nil
  then show ?case using assms(4) by (cases rest) (auto simp: stops_def decVal_def)
next
  case (Cons c ds)
  let ?y = "x * 10 + digitVal c"
  have v: "x * 10 ^ length (c # ds) + decVal (c # ds) = ?y * 10 ^ length ds + decVal ds"
    using decVal_append[of "[c]" ds] by (simp add: decVal_def algebra_simps)
  have ge: "0 \<le> ?y" "0 \<le> decVal ds" using Cons.prems digitVal_nonneg decVal_nonneg by auto
  then have "?y * 1 \<le> ?y * 10 ^ length ds" by (intro mult_left_mono) auto
  then have le: "?y < 2 ^ 63" using ge(2) Cons.prems(3) v by simp
  then have "x \<le> (2 ^ 63 - 1) div 10" using digitVal_nonneg[of c] Cons.prems(1) by simp
  then show ?case using Cons.IH[of ?y "scale * 10"] Cons.prems le ge(1) v by (simp add: not_less)
qed

text \<open>Dropping the zeros at the end of a fraction keeps its value.\<close>

lemma trimZeros_split: "\<exists>k. s = trimZeros s @ replicate k (CHR ''0'')"
proof -
  have "rev s = takeWhile (\<lambda>c. c = CHR ''0'') (rev s) @ dropWhile (\<lambda>c. c = CHR ''0'') (rev s)" by simp
  then have "s = trimZeros s @ rev (takeWhile (\<lambda>c. c = CHR ''0'') (rev s))"
    by (metis rev_append rev_rev_ident trimZeros.simps)
  moreover have "rev (takeWhile (\<lambda>c. c = CHR ''0'') (rev s)) =
      replicate (length (takeWhile (\<lambda>c. c = CHR ''0'') (rev s))) (CHR ''0'')"
    by (rule replicate_eqI) (auto dest: set_takeWhileD)
  ultimately show ?thesis by metis
qed

lemma decVal_zeros: "decVal (replicate k (CHR ''0'')) = 0"
  by (induction k) (simp_all add: decVal_def digitVal_def)

lemma trimZeros_value:
  assumes "0 \<le> v" "v < 10 ^ p"
  defines "t \<equiv> trimZeros (fixedDigits p v)"
  shows "list_all isDigit t" "length t \<le> p" "decVal t * 10 ^ (p - length t) = v" "t = [] \<longrightarrow> v = 0"
proof -
  obtain k where k: "fixedDigits p v = t @ replicate k (CHR ''0'')" using trimZeros_split t_def by blast
  have len: "p = length t + k" using arg_cong[OF k, of length] by simp
  then show "length t \<le> p" by simp
  show "list_all isDigit t" using fixedDigits_digits[of p v] by (simp add: k)
  have "v = decVal t * 10 ^ k" using decVal_fixedDigits[OF assms(1,2)] by (simp add: k decVal_append decVal_zeros)
  then show "decVal t * 10 ^ (p - length t) = v" "t = [] \<longrightarrow> v = 0" using len by (simp_all add: decVal_def)
qed

lemma unit_span:
  assumes "list_all unitChar unit" "rest = [] \<or> isDigit (hd rest)"
  shows "takeWhile unitChar (unit @ rest) = unit" "dropWhile unitChar (unit @ rest) = rest"
  using assms by (induction unit) (cases rest; auto simp: unitChar_def)+

text \<open>One part: digits, a fraction of at most the precision of the unit, and the unit.\<close>

lemma durationPart_text:
  assumes "0 \<le> v" "0 \<le> u" "p \<le> 9" "map_of unitMap unit = Some (10 ^ p)" "list_all unitChar unit" "unit \<noteq> []"
    and "v * 10 ^ p + u mod 10 ^ p \<le> 2 ^ 63" "rest = [] \<or> isDigit (hd rest)"
  shows "durationPart (decDigits v @ fracText p (u mod 10 ^ p) @ unit @ rest) = Some (v * 10 ^ p + u mod 10 ^ p, rest)"
proof -
  let ?f = "u mod 10 ^ p" and ?ds = "decDigits v"
  let ?t = "trimZeros (fixedDigits p ?f)" and ?tail = "fracText p ?f @ unit @ rest"
  have ds: "list_all isDigit ?ds" "?ds \<noteq> []" "decVal ?ds = v" using decDigits_digits[OF assms(1)] by auto
  have f: "0 \<le> ?f" "?f < 10 ^ p" by simp_all
  note t = trimZeros_value[OF f]
  have us: "stops (unit @ rest)" using assms(5,6) by (cases unit) (auto simp: stops_def unitChar_def)
  then have ts: "stops ?tail" by (auto simp: fracText_def Let_def stops_def isDigit_def)
  have v: "v \<le> v * 10 ^ p" using assms(1) mult_left_mono[of 1 "10 ^ p" v] by simp
  then have small: "v \<le> 2 ^ 63" using assms(7) f(1) by linarith
  have int: "leadingInt 0 (?ds @ ?tail) = Some (v, ?tail)"
    using leadingInt_digits[OF ds(1) _ _ ts, of 0] small ds(3) by simp
  have frac: "optFraction ?tail = (decVal ?t, 10 ^ length ?t, unit @ rest, ?t \<noteq> [])"
  proof (cases "?t = []")
    case True
    then have none: "?tail = unit @ rest" by (simp add: fracText_def Let_def)
    have "hd (unit @ rest) \<noteq> CHR ''.''" using assms(5,6) by (cases unit) (simp_all add: unitChar_def)
    then show ?thesis unfolding none optFraction_def True using assms(6) by (simp add: decVal_def)
  next
    case False
    have "decVal ?t \<le> decVal ?t * 10 ^ (p - length ?t)"
      using decVal_nonneg[OF t(1)] mult_left_mono[of 1 "10 ^ (p - length ?t)" "decVal ?t"] by simp
    also have "\<dots> < 10 ^ p" using t(3) f(2) by simp
    also have "(10::int) ^ p \<le> 10 ^ 9" using assms(3) by (intro power_increasing) auto
    finally have "decVal ?t < 2 ^ 63" by simp
    then show ?thesis
      using leadingFraction_digits[OF t(1) _ _ us, of 0 1] False by (simp add: optFraction_def fracText_def Let_def)
  qed
  have "decVal ?t < 10 ^ length ?t"
    using t(3) f(2) t(2) by (metis le_add_diff_inverse mult_less_cancel_right_pos power_add zero_less_numeral zero_less_power)
  then have part: "fractionOf (decVal ?t) (10 ^ p) (10 ^ length ?t) = ?f"
    using fractionOf_exact[OF decVal_nonneg[OF t(1)] _ t(2) assms(3)] t(3) by simp
  have "v \<le> 2 ^ 63 div 10 ^ p"
  proof -
    have "v * 10 ^ p \<le> 2 ^ 63" using assms(7) f(1) by linarith
    then have "v * 10 ^ p div 10 ^ p \<le> 2 ^ 63 div 10 ^ p" by (rule zdiv_mono1) simp
    then show ?thesis by simp
  qed
  moreover have "(if 0 < decVal ?t then fractionOf (decVal ?t) (10 ^ p) (10 ^ length ?t) else 0) = ?f"
    using part t(3) decVal_nonneg[OF t(1)] by (cases "decVal ?t = 0") auto
  moreover have "isDigit (hd (?ds @ ?tail))" using ds by (cases ?ds) auto
  moreover have "length ?tail \<noteq> length (?ds @ ?tail)" using ds(2) by simp
  ultimately show ?thesis
    using assms(4,7) unfolding durationPart_def int
    by (simp add: frac unit_span[OF assms(5,8)] not_less Let_def)
qed

lemma durationPart_whole:
  assumes "0 \<le> v" "map_of unitMap unit = Some n" "0 < n" "list_all unitChar unit" "unit \<noteq> []"
    and "v * n \<le> 2 ^ 63" "rest = [] \<or> isDigit (hd rest)"
  shows "durationPart (decDigits v @ unit @ rest) = Some (v * n, rest)"
proof -
  have ds: "list_all isDigit (decDigits v)" "decDigits v \<noteq> []" "decVal (decDigits v) = v"
    using decDigits_digits[OF assms(1)] by auto
  have us: "stops (unit @ rest)" "hd (unit @ rest) \<noteq> CHR ''.''" "unit @ rest \<noteq> []"
    using assms(4,5) by (cases unit; auto simp: stops_def unitChar_def)+
  have "v * 1 \<le> v * n" using assms(1,3) by (intro mult_left_mono) auto
  then have int: "leadingInt 0 (decDigits v @ unit @ rest) = Some (v, unit @ rest)"
    using leadingInt_digits[OF ds(1) _ _ us(1), of 0] assms(6) ds(3) by simp
  have "v * n div n \<le> 2 ^ 63 div n" using assms(6,3) by (rule zdiv_mono1)
  then have "v \<le> 2 ^ 63 div n" using assms(3) by simp
  moreover have "isDigit (hd (decDigits v @ unit @ rest))" using ds by (cases "decDigits v") auto
  ultimately show ?thesis
    using assms(2,6) us ds(2) unfolding durationPart_def int
    by (simp add: optFraction_def unit_span[OF assms(4,7)] not_less Let_def)
qed

lemma fixedDigits_mod: "fixedDigits w (n mod 10 ^ w) = fixedDigits w n"
proof (induction w arbitrary: n)
  case (Suc w)
  have "(n mod 10 ^ Suc w) div 10 = (n div 10) mod 10 ^ w" by (simp add: zmod_zmult2_eq)
  moreover have "(n mod 10 ^ Suc w) mod 10 = n mod 10" by (simp add: mod_mod_cancel)
  ultimately show ?case using Suc[of "n div 10"] by (simp only: fixedDigits.simps)
qed simp

lemma fracText_mod: "fracText w (n mod 10 ^ w) = fracText w n"
  by (simp add: fracText_def fixedDigits_mod)

lemma durationPart_frac:
  assumes "0 \<le> v" "0 \<le> u" "p \<le> 9" "map_of unitMap unit = Some (10 ^ p)" "list_all unitChar unit" "unit \<noteq> []"
    and "v * 10 ^ p + u mod 10 ^ p \<le> 2 ^ 63" "rest = [] \<or> isDigit (hd rest)"
  shows "durationPart (decDigits v @ fracText p u @ unit @ rest) = Some (v * 10 ^ p + u mod 10 ^ p, rest)"
  using durationPart_text[OF assms] by (simp only: fracText_mod)

lemma durationParts_step:
  assumes "durationPart s = Some (v, rest)" "s \<noteq> []" "0 \<le> d + v" "d + v \<le> 2 ^ 63"
  shows "durationParts (Suc n) d s = durationParts n (d + v) rest"
proof -
  have "(d + v) mod 2 ^ 64 = d + v" using assms(3,4) by simp
  then show ?thesis using assms by (cases s) (simp_all add: Let_def)
qed

text \<open>The seconds and what is below them.\<close>

lemma seconds_part:
  assumes "0 \<le> u" "u < 2 ^ 63"
  shows "durationPart (decDigits (u div 1000000000 mod 60) @ fracText 9 u @ ''s'') =
    Some (u mod 60000000000, [])"
proof -
  let ?s = "u div 1000000000 mod 60"
  have e: "?s * 10 ^ 9 + u mod 10 ^ 9 = u mod 60000000000"
    using zmod_zmult2_eq[of 60 u 1000000000] by simp
  have "u mod 60000000000 < 60000000000" by simp
  then have le: "?s * 10 ^ 9 + u mod 10 ^ 9 \<le> 2 ^ 63" unfolding e by simp
  have "map_of unitMap ''s'' = Some (10 ^ 9)" "list_all unitChar ''s''"
    by (simp_all add: unitMap_def microSign_def unitChar_def isDigit_def less_eq_char_def)
  from durationPart_frac[OF _ assms(1) _ this _ le, of "[]"] show ?thesis unfolding e by simp
qed

lemma decDigits_hd: "0 \<le> n \<Longrightarrow> decDigits n \<noteq> [] \<and> isDigit (hd (decDigits n))"
  using decDigits_digits[of n] by (cases "decDigits n") auto

lemma unit_facts:
  "map_of unitMap ''ns'' = Some (10 ^ 0)" "map_of unitMap (microSign @ ''s'') = Some (10 ^ 3)"
  "map_of unitMap ''ms'' = Some (10 ^ 6)" "map_of unitMap ''m'' = Some 60000000000"
  "map_of unitMap ''h'' = Some 3600000000000"
  "list_all unitChar ''ns''" "list_all unitChar (microSign @ ''s'')" "list_all unitChar ''ms''"
  "list_all unitChar ''m''" "list_all unitChar ''h''" "microSign @ ''s'' \<noteq> []"
  by (simp_all add: unitMap_def microSign_def unitChar_def isDigit_def less_eq_char_def)

lemma parts_below_second:
  assumes "0 < u" "u < 1000000000"
  shows "durationParts (Suc n) 0 (durationText u) = Some u"
proof -
  have one: "durationParts (Suc n) 0 (decDigits (u div 10 ^ p) @ fracText p u @ unit) = Some u"
    if "p \<le> 9" "map_of unitMap unit = Some (10 ^ p)" "list_all unitChar unit" "unit \<noteq> []" for p unit
  proof -
    have u: "u div 10 ^ p * 10 ^ p + u mod 10 ^ p = u" by (rule div_mult_mod_eq)
    have part: "durationPart (decDigits (u div 10 ^ p) @ fracText p u @ unit @ []) =
        Some (u div 10 ^ p * 10 ^ p + u mod 10 ^ p, [])"
      by (rule durationPart_frac[OF _ _ that], unfold u) (use assms in \<open>simp_all add: pos_imp_zdiv_nonneg_iff\<close>)
    show ?thesis
      using durationParts_step[OF part[unfolded u], of 0 n] assms decDigits_hd[of "u div 10 ^ p"]
      by (simp add: pos_imp_zdiv_nonneg_iff)
  qed
  have zero: "fracText 0 u = []" by (simp add: fracText_def trimZeros.simps)
  show ?thesis
    using one[of 0 "''ns''"] one[of 3 "microSign @ ''s''"] one[of 6 "''ms''"] assms unit_facts zero
    by (simp add: durationText_def)
qed

lemma durationText_above:
  assumes "1000000000 \<le> u"
  shows "durationText u = (let s = u div 1000000000; m = s div 60; h = m div 60 in
    (if 0 < h then decDigits h @ ''h'' else []) @ (if 0 < m then decDigits (m mod 60) @ ''m'' else []) @
    decDigits (s mod 60) @ fracText 9 u @ ''s'')"
proof -
  have f: "(u < 0) = False" "(u = 0) = False" "(u < 1000) = False" "(u < 1000000) = False" "(u < 1000000000) = False"
      "\<bar>u\<bar> = u"
    using assms by auto
  show ?thesis unfolding durationText_def by (simp only: Let_def f if_False append_Nil)
qed

lemma parts_from_second:
  assumes "1000000000 \<le> u" "u < 2 ^ 63"
  shows "durationParts (Suc (Suc (Suc n))) 0 (durationText u) = Some u"
proof -
  define s m h where "s = u div 1000000000" and "m = s div 60" and "h = m div 60"
  have pos: "0 \<le> s" "0 \<le> m" "0 \<le> h" using assms(1) by (simp_all add: s_def m_def h_def pos_imp_zdiv_nonneg_iff)
  let ?sec = "decDigits (s mod 60) @ fracText 9 u @ ''s''"
  have sec: "durationPart ?sec = Some (u mod 60000000000, [])"
    using seconds_part[of u] assms by (simp add: s_def)
  have hd: "isDigit (hd ?sec)" "?sec \<noteq> []" using decDigits_hd[of "s mod 60"] by simp_all
  have m': "m = u div 60000000000" unfolding m_def s_def by (simp add: zdiv_zmult2_eq[symmetric])
  have um: "u = m * 60000000000 + u mod 60000000000" unfolding m' by simp
  have mh: "m = h * 60 + m mod 60" unfolding h_def by simp
  have last: "durationParts (Suc k) d ?sec = Some (d + u mod 60000000000)"
    if "0 \<le> d" "d + u mod 60000000000 \<le> 2 ^ 63" for k d
    using durationParts_step[OF sec hd(2), of d k] that by simp
  let ?min = "decDigits (m mod 60) @ ''m'' @ ?sec"
  have minp: "durationParts (Suc (Suc k)) d ?min = Some (d + m mod 60 * 60000000000 + u mod 60000000000)"
    if "0 \<le> d" "d + m mod 60 * 60000000000 + u mod 60000000000 \<le> 2 ^ 63" for k d
  proof -
    have b: "0 \<le> m mod 60" "0 \<le> u mod 60000000000" by simp_all
    have "durationPart ?min = Some (m mod 60 * 60000000000, ?sec)"
      using durationPart_whole[of "m mod 60" "''m''" 60000000000 ?sec] unit_facts hd that b by simp
    from durationParts_step[OF this, of d "Suc k"] last[of "d + m mod 60 * 60000000000" k] that b
    show ?thesis using decDigits_hd[of "m mod 60"] by simp
  qed
  have minhd: "isDigit (hd ?min)" using decDigits_hd[of "m mod 60"] by simp
  let ?hour = "decDigits h @ ''h'' @ ?min"
  have b: "0 \<le> m mod 60" "0 \<le> u mod 60000000000" by simp_all
  have hour: "durationParts (Suc (Suc (Suc n))) 0 ?hour = Some u" 
  proof -
    have e: "h * 3600000000000 + m mod 60 * 60000000000 + u mod 60000000000 = u" using um mh by linarith
    have "durationPart ?hour = Some (h * 3600000000000, ?min)"
      using durationPart_whole[of h "''h''" 3600000000000 ?min] unit_facts minhd e assms(2) b pos by simp
    from durationParts_step[OF this, of 0 "Suc (Suc n)"] minp[of "h * 3600000000000" n] e assms pos b
    show ?thesis using decDigits_hd[of h] by simp
  qed
  have spelled: "durationText u = (if 0 < h then decDigits h @ ''h'' else []) @ (if 0 < m then decDigits (m mod 60) @ ''m'' else []) @ ?sec"
    unfolding s_def m_def h_def durationText_above[OF assms(1)] by (simp only: Let_def)
  consider "0 < h" | "h = 0" "0 < m" | "m = 0" "h = 0" using pos h_def by fastforce
  then show ?thesis
  proof cases
    case 1
    then have "0 < m" using mh b(1) by linarith
    then show ?thesis using 1 hour by (simp add: spelled)
  next
    case 2
    then have "m mod 60 = m" using mh by simp
    then show ?thesis using 2 minp[of 0 "Suc n"] um assms by (simp add: spelled)
  next
    case 3
    then show ?thesis using last[of 0 "Suc (Suc n)"] um assms by (simp add: spelled)
  qed
qed

text \<open>The length of the text is enough fuel: any more reads the same.\<close>

lemma durationPart_consumes:
  assumes "durationPart s = Some (v, rest)"
  shows "length rest < length s"
proof -
  have int: "length r \<le> length t" if "leadingInt x t = Some (y, r)" for x t y r
    using that by (induction x t rule: leadingInt.induct) (auto simp: Let_def split: if_splits)
  have frac: "length (snd (snd (leadingFraction b x sc t))) \<le> length t" for b x sc t
    by (induction b x sc t rule: leadingFraction.induct) (auto simp: Let_def)
  obtain v1 s1 f sc s2 post unit where p: "leadingInt 0 s = Some (v1, s1)" "optFraction s1 = (f, sc, s2, post)"
      "map_of unitMap (takeWhile unitChar s2) = Some unit" "rest = dropWhile unitChar s2"
    using assms by (auto simp: durationPart_def Let_def split: if_splits option.splits prod.splits)
  have "length s2 \<le> length s1"
    using p(2) frac[of False 0 1 "tl s1"] by (auto simp: optFraction_def split: if_splits prod.splits)
  moreover have "takeWhile unitChar s2 \<noteq> []" using p(3) by (auto simp: unitMap_def microSign_def split: if_splits)
  then have "length rest < length s2"
    using p(4) arg_cong[OF takeWhile_dropWhile_id[of unitChar s2], of length] by (cases "takeWhile unitChar s2") auto
  ultimately show ?thesis using int[OF p(1)] by simp
qed

lemma durationParts_fuel: "length s \<le> n \<Longrightarrow> length s \<le> k \<Longrightarrow> durationParts n d s = durationParts k d s"
proof (induction n arbitrary: k d s)
  case (Suc n)
  show ?case
  proof (cases s)
    case (Cons c t)
    then obtain j where k: "k = Suc j" using Suc.prems by (cases k) auto
    show ?thesis
      using Suc.IH Suc.prems durationPart_consumes[of s] unfolding Cons k
      by (fastforce simp: Let_def split: option.split)
  qed (cases k; simp)
qed (cases k; simp)

lemma digits_first:
  assumes "x \<noteq> [] \<and> isDigit (hd x)" "y \<noteq> [] \<and> isDigit (hd y)" "z \<noteq> [] \<and> isDigit (hd z)"
  shows "isDigit (hd ((if a then x @ p else []) @ (if b then y @ q else []) @ z @ f @ ''s'')) \<and>
    last ((if a then x @ p else []) @ (if b then y @ q else []) @ z @ f @ ''s'') = CHR ''s'' \<and>
    (if a then x @ p else []) @ (if b then y @ q else []) @ z @ f @ ''s'' \<noteq> []"
  using assms by simp

lemma durationText_shape:
  assumes "0 < d"
  shows "isDigit (hd (durationText d)) \<and> last (durationText d) = CHR ''s'' \<and> durationText d \<noteq> []"
proof (cases "d < 1000000000")
  case True
  have dig: "decDigits n \<noteq> [] \<and> isDigit (hd (decDigits n))" if "0 \<le> n" for n using decDigits_hd[OF that] .
  show ?thesis using dig[of "d div 1000"] dig[of "d div 1000000"] dig[of d] True assms
    by (simp add: durationText_def pos_imp_zdiv_nonneg_iff)
next
  case False
  then have "1000000000 \<le> d" by simp
  then show ?thesis
    unfolding durationText_above[OF \<open>1000000000 \<le> d\<close>] Let_def
    by (intro digits_first decDigits_hd) (simp_all add: pos_imp_zdiv_nonneg_iff)
qed

lemma ParseDuration_text:
  assumes "0 \<le> d" "d < 2 ^ 63"
  shows "ParseDuration (durationText d) = Some d"
proof (cases "d = 0")
  case True
  show ?thesis unfolding True by code_simp
next
  case False
  then have d: "0 < d" using assms(1) by simp
  note shape = durationText_shape[OF d]
  let ?n = "length (durationText d)"
  have "durationParts (Suc (Suc (Suc ?n))) 0 (durationText d) = Some d"
    using parts_below_second[OF d] parts_from_second[OF _ assms(2)] by (cases "d < 1000000000") auto
  then have parts: "durationParts ?n 0 (durationText d) = Some d"
    using durationParts_fuel[of "durationText d" ?n "Suc (Suc (Suc ?n))" 0] by simp
  have "hd (durationText d) \<noteq> CHR ''-''" "hd (durationText d) \<noteq> CHR ''+''"
    using isDigit_nonsign[of "hd (durationText d)"] shape by simp_all
  moreover have "durationText d \<noteq> ''0''" using shape by auto
  ultimately show ?thesis using parts assms(2) shape by (simp add: ParseDuration_def Let_def)
qed

end
