(* ===== verification/Utf8.thy ===== *)
theory Utf8
  imports GoPath
begin

text \<open>
  Text as the JSON and CBOR libraries hold it: what writing a Go string as UTF-8 makes of its bytes,
  and which strings it leaves as they are.
\<close>

text \<open>A text is written with every byte that is no UTF-8 replaced by U+FFFD.\<close>

function utf8Text :: "string \<Rightarrow> string" where
  "utf8Text s =
     (if s = [] then []
      else let (r, w) = decodeRune s in
        (if r = runeError \<and> w = 1 then [CHR 0xEF, CHR 0xBF, CHR 0xBD] else take w s) @ utf8Text (drop w s))"
  by pat_completeness auto
termination
proof (relation "measure length")
  fix s :: string and x r w assume "s \<noteq> []" "x = decodeRune s" "(r, w) = x"
  then have "0 < w" "0 < length s" using decodeRune_pos[of s] by (simp_all add: prod_eq_iff)
  then show "(drop w s, s) \<in> measure length" by simp
qed simp

declare utf8Text.simps [simp del]

definition utf8 :: "string \<Rightarrow> bool" where "utf8 s = (utf8Text s = s)"

lemma utf8_ascii: "list_all (\<lambda>c. byte c < 128) s \<Longrightarrow> utf8Text s = s"
proof (induction s)
  case (Cons c s)
  then have "decodeRune (c # s) = (byte c, 1)" by (simp add: decodeRune_def)
  then show ?case using Cons by (subst utf8Text.simps) (simp add: runeError_def)
qed (simp add: utf8Text.simps)

lemma utf8_nil [simp]: "utf8 []"
  by (simp add: utf8_def utf8Text.simps)

end
