(* ===== verification/QueryCodec.thy ===== *)
theory QueryCodec
  imports GoDuration Utf8 "HOL-Library.AList"
begin

text \<open>
  The wire form of a query (\<open>query_codec.go\<close>): the parallel wire types, the mapping in both
  directions, and what \<open>encoding/json\<close> does between a wire value and the tree of a JSON document.
  Documents are trees whose objects have distinct keys (also under the folding of cases the library
  matches names with); splitting text into tokens is left out. A slice that is nil and one that is
  empty are one list, apart from the path and the anchor, where the code tells them apart.
\<close>

section \<open>The tree of a document\<close>

text \<open>
  A number carries what its two readers take from the literal: the integer, where it is one, and
  the \<open>float64\<close> nearest to it, as \<open>m / 2^k\<close>.
\<close>

datatype jtree =
    JTNull
  | JTBool bool
  | JTText string
  | JTNum "int option" int nat
  | JTArr "jtree list"
  | JTObj "(string \<times> jtree) list"

section \<open>The wire types\<close>

record wireStep =
  wiEdges :: "string list"
  wiDir :: string
  wiMin :: "int option"
  wiMax :: "int option"
  wiNodes :: "string list"

record wireSelect =
  wiBranch :: string
  wiHead :: "string option"
  wiClaim :: "string list option"
  wiPath :: "wireStep list option"

datatype wireWhere =
  WireWhere (wwAnd: "wireWhere list") (wwOr: "wireWhere list") (wwNot: "wireWhere option")
    (wwField: string) (wwTest: "(string \<times> qvalue) option")

record wireContent =
  wiMaxBytes :: int
  wiOverflow :: string

record wireOutput =
  wiShape :: string
  wiDetail :: string
  wiForm :: string
  wiContent :: "wireContent option"
  wiEncoding :: string

record wireOrderKey =
  wiField :: string
  wiCompare :: string
  wiOrderDir :: string

record wireLimit =
  wiResults :: "int option"
  wiTime :: "string option"

record wireExecution =
  wiLayer :: "string option"
  wiReport :: string

record wireQuery =
  wiSelect :: wireSelect
  wiWhere :: "wireWhere option"
  wiOutput :: "wireOutput option"
  wiOrder :: "wireOrderKey list"
  wiLimit :: "wireLimit option"
  wiExecution :: "wireExecution option"

section \<open>From a query to the wire types\<close>

definition newWireStep :: "pathStep \<Rightarrow> wireStep" where
  "newWireStep s =
     \<lparr>wiEdges = psEdges s, wiDir = psDir s, wiMin = psMin s,
      wiMax = (if psMax s = 0 then None else Some (psMax s)), wiNodes = psNodes s\<rparr>"

text \<open>Each anchor once, nil ones left out.\<close>

fun onceEach :: "string list \<Rightarrow> string list \<Rightarrow> string list" where
  "onceEach seen [] = []"
| "onceEach seen (s # ss) = (if s \<in> set seen then onceEach seen ss else s # onceEach (s # seen) ss)"

definition newWireSelect :: "lib \<Rightarrow> selection \<Rightarrow> wireSelect" where
  "newWireSelect L sel =
     (let ids = onceEach [] (map (libIdString L) (filter (\<lambda>i. i \<noteq> []) (slClaim sel))) in
       \<lparr>wiBranch = slBranch sel,
        wiHead = (if slHead sel = [] then None else Some (libIdString L (slHead sel))),
        wiClaim = (if ids = [] then None else Some ids),
        wiPath = map_option (map newWireStep) (slPath sel)\<rparr>)"

text \<open>The operator that is set, \<open>glob\<close> when no other is.\<close>

definition newWireComparison :: "comparison \<Rightarrow> string \<times> qvalue" where
  "newWireComparison c =
     (case cmEq c of Some v \<Rightarrow> (''eq'', v) | None \<Rightarrow>
      (case cmNe c of Some v \<Rightarrow> (''ne'', v) | None \<Rightarrow>
       (case cmLt c of Some v \<Rightarrow> (''lt'', v) | None \<Rightarrow>
        (case cmLe c of Some v \<Rightarrow> (''le'', v) | None \<Rightarrow>
         (case cmGt c of Some v \<Rightarrow> (''gt'', v) | None \<Rightarrow>
          (case cmGe c of Some v \<Rightarrow> (''ge'', v) | None \<Rightarrow>
           (case cmIn c of Some vs \<Rightarrow> (''in'', VList vs) | None \<Rightarrow> (''glob'', VStr (cmGlob c)))))))))"

fun newWireWhere :: "where_tree \<Rightarrow> wireWhere" where
  "newWireWhere (WhereTree ands ors neg field test) =
     WireWhere (map newWireWhere ands) (map newWireWhere ors) (map_option newWireWhere neg) field
       (map_option newWireComparison test)"

definition newWireOutput :: "outputSpec \<Rightarrow> wireOutput option" where
  "newWireOutput out =
     (let encoding = (if ouEncoding out = ''native'' then [] else ouEncoding out) in
       if ouShape out = [] \<and> ouDetail out = [] \<and> ouForm out = [] \<and> ouContent out = None \<and> encoding = [] then None
       else Some \<lparr>wiShape = ouShape out, wiDetail = ouDetail out, wiForm = ouForm out,
         wiContent = map_option (\<lambda>c. \<lparr>wiMaxBytes = ocMax c, wiOverflow = ocOverflow c\<rparr>) (ouContent out),
         wiEncoding = encoding\<rparr>)"

definition newWireQuery :: "lib \<Rightarrow> query \<Rightarrow> wireQuery" where
  "newWireQuery L q =
     \<lparr>wiSelect = newWireSelect L (qSelect q),
      wiWhere = map_option newWireWhere (qWhere q),
      wiOutput = newWireOutput (qOutput q),
      wiOrder = map (\<lambda>k. \<lparr>wiField = okField k, wiCompare = okCompare k, wiOrderDir = okDir k\<rparr>) (qOrder q),
      wiLimit =
        (if qLimitResults q = 0 \<and> qLimitTime q = 0 then None
         else Some \<lparr>wiResults = (if qLimitResults q = 0 then None else Some (qLimitResults q)),
           wiTime = (if qLimitTime q = 0 then None else Some (durationText (qLimitTime q)))\<rparr>),
      wiExecution =
        (if qLayer q = [] \<and> qReport q = [] then None
         else Some \<lparr>wiLayer = (if qLayer q = [] then None else Some (qLayer q)), wiReport = qReport q\<rparr>)\<rparr>"

section \<open>From the wire types to the tree\<close>

definition jfield :: "string \<Rightarrow> bool \<Rightarrow> jtree \<Rightarrow> (string \<times> jtree) list" where
  "jfield name present v = (if present then [(name, v)] else [])"

definition jtext :: "string \<Rightarrow> jtree" where "jtext s = JTText (utf8Text s)"

definition jint :: "int \<Rightarrow> jtree" where "jint n = JTNum (Some n) (toFloat64 n) 0"

definition jtextField :: "string \<Rightarrow> string \<Rightarrow> (string \<times> jtree) list" where
  "jtextField name s = jfield name (s \<noteq> []) (jtext s)"

definition jptr :: "string \<Rightarrow> ('a \<Rightarrow> jtree) \<Rightarrow> 'a option \<Rightarrow> (string \<times> jtree) list" where
  "jptr name f v = (case v of None \<Rightarrow> [] | Some x \<Rightarrow> [(name, f x)])"

text \<open>A \<open>float64\<close> prints as an integer literal when it is one below \<open>1e21\<close>.\<close>

definition wholeFloat :: "int \<Rightarrow> nat \<Rightarrow> int option" where
  "wholeFloat m k = (if m mod 2 ^ k = 0 \<and> \<bar>m div 2 ^ k\<bar> < 10 ^ 21 then Some (m div 2 ^ k) else None)"

definition rfc3339NanoText :: "int \<Rightarrow> string" where
  "rfc3339NanoText t =
     (let (y, m, d) = dateOf t; frac = trimZeros (appendInt (t mod 1000000000) 9)
      in appendInt y 4 @ ''-'' @ appendInt m 2 @ ''-'' @ appendInt d 2 @ ''T'' @
         appendInt (hoursOf t mod 24) 2 @ '':'' @ appendInt (minsOf t mod 60) 2 @ '':'' @
         appendInt (secsOf t mod 60) 2 @ (if frac = [] then [] else ''.'' @ frac) @ ''Z'')"

definition jsonErr :: err where "jsonErr = LibErr ''json''"

fun marshalValue :: "qvalue \<Rightarrow> jtree result" where
  "marshalValue VNil = Inr JTNull"
| "marshalValue (VStr s) = Inr (jtext s)"
| "marshalValue (VInt n) = Inr (jint n)"
| "marshalValue (VFloat m k) = Inr (JTNum (wholeFloat m k) m k)"
| "marshalValue (VTime t) =
     (if 0 \<le> yearOf t \<and> yearOf t < 10000 then Inr (jtext (rfc3339NanoText t)) else Inl jsonErr)"
| "marshalValue (VBool b) = Inr (JTBool b)"
| "marshalValue (VList vs) = rbind (mapM marshalValue vs) (\<lambda>js. Inr (JTArr js))"
| "marshalValue (VMap kvs) =
     rbind (mapM (\<lambda>p. rbind (marshalValue (snd p)) (\<lambda>j. Inr (utf8Text (fst p), j))) kvs) (\<lambda>js. Inr (JTObj js))"

definition marshalComparison :: "string \<times> qvalue \<Rightarrow> jtree result" where
  "marshalComparison c =
     wrapping (QueryErr errEncodeQuery) (rbind (marshalValue (snd c)) (\<lambda>j. Inr (JTObj [(utf8Text (fst c), j)])))"

definition marshalOpt :: "string \<Rightarrow> ('a \<Rightarrow> jtree result) \<Rightarrow> 'a option \<Rightarrow> (string \<times> jtree) list result" where
  "marshalOpt name f v = (case v of None \<Rightarrow> Inr [] | Some x \<Rightarrow> rbind (f x) (\<lambda>j. Inr [(name, j)]))"

fun marshalWhere :: "wireWhere \<Rightarrow> jtree result" where
  "marshalWhere (WireWhere ands ors neg field test) =
     rbind (mapM marshalWhere ands) (\<lambda>as.
     rbind (mapM marshalWhere ors) (\<lambda>os.
     rbind (case neg of None \<Rightarrow> Inr [] | Some n \<Rightarrow> rbind (marshalWhere n) (\<lambda>j. Inr [(''not'', j)])) (\<lambda>ns.
     rbind (marshalOpt ''test'' marshalComparison test) (\<lambda>ts.
       Inr (JTObj (jfield ''and'' (as \<noteq> []) (JTArr as) @ jfield ''or'' (os \<noteq> []) (JTArr os) @ ns @
         jtextField ''field'' field @ ts))))))"

definition marshalStep :: "wireStep \<Rightarrow> jtree" where
  "marshalStep s =
     JTObj (jfield ''edges'' (wiEdges s \<noteq> []) (JTArr (map jtext (wiEdges s))) @ jtextField ''dir'' (wiDir s) @
       jptr ''min'' jint (wiMin s) @ jptr ''max'' jint (wiMax s) @
       jfield ''nodes'' (wiNodes s \<noteq> []) (JTArr (map jtext (wiNodes s))))"

text \<open>\<open>wireAnchor.MarshalJSON\<close>: one anchor is the id itself; none is left out.\<close>

definition marshalAnchor :: "string list \<Rightarrow> jtree" where
  "marshalAnchor ids = (case ids of [i] \<Rightarrow> jtext i | _ \<Rightarrow> JTArr (map jtext ids))"

definition anchorList :: "string list option \<Rightarrow> string list" where
  "anchorList a = (case a of None \<Rightarrow> [] | Some ids \<Rightarrow> ids)"

definition marshalSelect :: "wireSelect \<Rightarrow> jtree" where
  "marshalSelect s =
     JTObj ((''branch'', jtext (wiBranch s)) # jptr ''head'' jtext (wiHead s) @
       jfield ''claim'' (anchorList (wiClaim s) \<noteq> []) (marshalAnchor (anchorList (wiClaim s))) @
       jptr ''path'' (\<lambda>steps. JTArr (map marshalStep steps)) (wiPath s))"

definition marshalOutput :: "wireOutput \<Rightarrow> jtree" where
  "marshalOutput out =
     JTObj (jtextField ''shape'' (wiShape out) @ jtextField ''detail'' (wiDetail out) @ jtextField ''form'' (wiForm out) @
       jptr ''content'' (\<lambda>c. JTObj [(''max'', jint (wiMaxBytes c)), (''overflow'', jtext (wiOverflow c))]) (wiContent out) @
       jtextField ''encoding'' (wiEncoding out))"

definition marshalOrderKey :: "wireOrderKey \<Rightarrow> jtree" where
  "marshalOrderKey k =
     JTObj ((''field'', jtext (wiField k)) # jtextField ''compare'' (wiCompare k) @ jtextField ''dir'' (wiOrderDir k))"

definition marshalLimit :: "wireLimit \<Rightarrow> jtree" where
  "marshalLimit l = JTObj (jptr ''results'' jint (wiResults l) @ jptr ''time'' jtext (wiTime l))"

definition marshalExecution :: "wireExecution \<Rightarrow> jtree" where
  "marshalExecution e = JTObj (jptr ''layer'' jtext (wiLayer e) @ jtextField ''report'' (wiReport e))"

definition marshalQuery :: "wireQuery \<Rightarrow> jtree result" where
  "marshalQuery w =
     rbind (marshalOpt ''where'' marshalWhere (wiWhere w)) (\<lambda>wh.
       Inr (JTObj ((''select'', marshalSelect (wiSelect w)) # wh @
         jptr ''output'' marshalOutput (wiOutput w) @
         jfield ''order'' (wiOrder w \<noteq> []) (JTArr (map marshalOrderKey (wiOrder w))) @
         jptr ''limit'' marshalLimit (wiLimit w) @ jptr ''execution'' marshalExecution (wiExecution w))))"

definition EncodeQuery :: "lib \<Rightarrow> query \<Rightarrow> jtree result" where
  "EncodeQuery L q =
     rbind (ValidateQuery q) (\<lambda>_. wrapping (QueryErr errEncodeQuery) (marshalQuery (newWireQuery L q)))"

section \<open>From the tree to the wire types\<close>

text \<open>
  What \<open>json.Decoder\<close> does with a value: it aborts where a type's own \<open>UnmarshalJSON\<close> fails
  (\<open>Inl\<close>), and where a value has the wrong type or a field is unknown it keeps the first
  complaint, which the decoding ends with, and goes on.
\<close>

type_synonym 'a decoded = "err + ('a \<times> err option)"

definition decOk :: "'a \<Rightarrow> 'a decoded" where "decOk x = Inr (x, None)"

definition decBad :: "'a \<Rightarrow> 'a decoded" where "decBad x = Inr (x, Some jsonErr)"

definition dthen :: "'a decoded \<Rightarrow> ('a \<Rightarrow> 'b decoded) \<Rightarrow> 'b decoded" where
  "dthen m f =
     (case m of
        Inl e \<Rightarrow> Inl e
      | Inr (x, c) \<Rightarrow>
          (case f x of Inl e \<Rightarrow> Inl e | Inr (y, c') \<Rightarrow> Inr (y, case c of None \<Rightarrow> c' | Some e \<Rightarrow> Some e)))"

lemma dthen_simps [simp]:
  "dthen (Inl e) f = Inl e" "dthen (decOk x) f = f x" "dthen (dthen m g) f = dthen m (\<lambda>x. dthen (g x) f)"
  by (auto simp: dthen_def decOk_def split: sum.split option.split)

lemma decOk_inject [simp]: "decOk x = decOk y \<longleftrightarrow> x = y"
  by (simp add: decOk_def)

lemma dthen_cong [fundef_cong]:
  "m = m' \<Longrightarrow> (\<And>x c. m' = Inr (x, c) \<Longrightarrow> f x = f' x) \<Longrightarrow> dthen m f = dthen m' f'"
  by (auto simp: dthen_def split: sum.split)

fun decAll :: "(jtree \<Rightarrow> 'a decoded) \<Rightarrow> jtree list \<Rightarrow> 'a list decoded" where
  "decAll f [] = decOk []"
| "decAll f (j # js) = dthen (f j) (\<lambda>x. dthen (decAll f js) (\<lambda>xs. decOk (x # xs)))"

lemma decAll_cong [fundef_cong]:
  "js = js' \<Longrightarrow> (\<And>j. j \<in> set js' \<Longrightarrow> f j = f' j) \<Longrightarrow> decAll f js = decAll f' js'"
  by (induction js arbitrary: js') auto

text \<open>The kinds of values: a string, an integer, a slice, a pointer, a struct.\<close>

fun decText :: "jtree \<Rightarrow> string decoded" where
  "decText (JTText s) = decOk s"
| "decText JTNull = decOk []"
| "decText _ = decBad []"

fun decInt :: "jtree \<Rightarrow> int decoded" where
  "decInt (JTNum (Some n) m k) = (if - (2 ^ 63) \<le> n \<and> n < 2 ^ 63 then decOk n else decBad 0)"
| "decInt JTNull = decOk 0"
| "decInt _ = decBad 0"

fun decSlice :: "(jtree \<Rightarrow> 'a decoded) \<Rightarrow> jtree \<Rightarrow> 'a list decoded" where
  "decSlice f (JTArr js) = decAll f js"
| "decSlice f JTNull = decOk []"
| "decSlice f _ = decBad []"

lemma decSlice_cong [fundef_cong]:
  "j = j' \<Longrightarrow> (\<And>x js. j' = JTArr js \<Longrightarrow> x \<in> set js \<Longrightarrow> f x = f' x) \<Longrightarrow> decSlice f j = decSlice f' j'"
  by (cases j') (auto intro: decAll_cong)

definition decPtr :: "(jtree \<Rightarrow> 'a decoded) \<Rightarrow> jtree \<Rightarrow> 'a option decoded" where
  "decPtr f j = (if j = JTNull then decOk None else dthen (f j) (\<lambda>x. decOk (Some x)))"

lemma decPtr_cong [fundef_cong]: "j = j' \<Longrightarrow> (j' \<noteq> JTNull \<Longrightarrow> f j' = f' j') \<Longrightarrow> decPtr f j = decPtr f' j'"
  by (simp add: decPtr_def)

text \<open>
  A name matches a field exactly or under the folding of cases, which takes the long s and the
  Kelvin sign to their letters.
\<close>

fun foldName :: "string \<Rightarrow> string" where
  "foldName [] = []"
| "foldName (c # s) =
     (if c = CHR 0xC5 \<and> s \<noteq> [] \<and> hd s = CHR 0xBF then CHR ''S'' # foldName (tl s)
      else if c = CHR 0xE2 \<and> take 2 s = [CHR 0x84, CHR 0xAA] then CHR ''K'' # foldName (drop 2 s)
      else (if CHR ''a'' \<le> c \<and> c \<le> CHR ''z'' then char_of (byte c - 32) else c) # foldName s)"

definition fieldOf :: "string list \<Rightarrow> string \<Rightarrow> string option" where
  "fieldOf names k = (if k \<in> set names then Some k else find (\<lambda>n. foldName n = foldName k) names)"

fun decFields :: "(string \<Rightarrow> jtree \<Rightarrow> 'r \<Rightarrow> 'r decoded) \<Rightarrow> string list \<Rightarrow> (string \<times> jtree) list \<Rightarrow> 'r \<Rightarrow> 'r decoded" where
  "decFields f names [] r = decOk r"
| "decFields f names (kv # kvs) r =
     dthen (case fieldOf names (fst kv) of None \<Rightarrow> decBad r | Some n \<Rightarrow> f n (snd kv) r) (decFields f names kvs)"

lemma decFields_cong [fundef_cong]:
  "names = names' \<Longrightarrow> kvs = kvs' \<Longrightarrow> r = r' \<Longrightarrow> (\<And>n kv x. kv \<in> set kvs' \<Longrightarrow> f n (snd kv) x = f' n (snd kv) x) \<Longrightarrow>
     decFields f names kvs r = decFields f' names' kvs' r'"
proof (induction kvs arbitrary: kvs' r r')
  case (Cons kv kvs)
  have rest: "decFields f names kvs x = decFields f' names kvs x" for x
    using Cons.IH[of kvs x x] Cons.prems(4) unfolding Cons.prems(1,2)[symmetric] by simp
  have here: "f n (snd kv) x = f' n (snd kv) x" for n x using Cons.prems(2,4) by (metis list.set_intros(1))
  show ?case
    unfolding Cons.prems(1)[symmetric] Cons.prems(2)[symmetric] Cons.prems(3)[symmetric] decFields.simps
    by (rule dthen_cong) (simp_all add: here rest split: option.split)
qed auto

fun decStruct :: "(string \<Rightarrow> jtree \<Rightarrow> 'r \<Rightarrow> 'r decoded) \<Rightarrow> string list \<Rightarrow> 'r \<Rightarrow> jtree \<Rightarrow> 'r decoded" where
  "decStruct f names r (JTObj kvs) = decFields f names kvs r"
| "decStruct f names r JTNull = decOk r"
| "decStruct f names r _ = decBad r"

text \<open>A value of type \<open>any\<close>.\<close>

fun insertKey :: "string \<times> qvalue \<Rightarrow> (string \<times> qvalue) list \<Rightarrow> (string \<times> qvalue) list" where
  "insertKey p [] = [p]"
| "insertKey p (q # qs) = (if fst p < fst q then p # q # qs else q # insertKey p qs)"

fun anyValue :: "jtree \<Rightarrow> qvalue" where
  "anyValue JTNull = VNil"
| "anyValue (JTBool b) = VBool b"
| "anyValue (JTText s) = VStr s"
| "anyValue (JTNum i m k) = VFloat m k"
| "anyValue (JTArr js) = VList (map anyValue js)"
| "anyValue (JTObj kvs) = VMap (foldr insertKey (map (\<lambda>p. (fst p, anyValue (snd p))) kvs) [])"

text \<open>\<open>wireComparison.UnmarshalJSON\<close>: an object of one operator.\<close>

fun unmarshalComparison :: "jtree \<Rightarrow> (string \<times> qvalue) decoded" where
  "unmarshalComparison (JTObj [(k, v)]) = decOk (k, anyValue v)"
| "unmarshalComparison (JTObj kvs) = Inl (QueryErr ErrQueryComparisonForm)"
| "unmarshalComparison JTNull = Inl (QueryErr ErrQueryComparisonForm)"
| "unmarshalComparison _ = Inl (Wrap (QueryErr errDecodeQuery) jsonErr)"

text \<open>\<open>wireAnchor.UnmarshalJSON\<close>: one id, or an array of them; \<open>null\<close> reads as one empty id.\<close>

fun unmarshalAnchor :: "jtree \<Rightarrow> string list option decoded" where
  "unmarshalAnchor (JTText s) = decOk (Some [s])"
| "unmarshalAnchor JTNull = decOk (Some [[]])"
| "unmarshalAnchor (JTArr js) =
     (case decAll decText js of
        Inr (ids, None) \<Rightarrow> decOk (Some ids)
      | _ \<Rightarrow> Inl (QueryErr ErrQueryAnchorSet))"
| "unmarshalAnchor _ = Inl (QueryErr ErrQueryAnchorSet)"

definition setStep :: "string \<Rightarrow> jtree \<Rightarrow> wireStep \<Rightarrow> wireStep decoded" where
  "setStep n j s =
     (if n = ''edges'' then dthen (decSlice decText j) (\<lambda>x. decOk (s\<lparr>wiEdges := x\<rparr>))
      else if n = ''dir'' then dthen (decText j) (\<lambda>x. decOk (s\<lparr>wiDir := x\<rparr>))
      else if n = ''min'' then dthen (decPtr decInt j) (\<lambda>x. decOk (s\<lparr>wiMin := x\<rparr>))
      else if n = ''max'' then dthen (decPtr decInt j) (\<lambda>x. decOk (s\<lparr>wiMax := x\<rparr>))
      else dthen (decSlice decText j) (\<lambda>x. decOk (s\<lparr>wiNodes := x\<rparr>)))"

definition unmarshalStep :: "jtree \<Rightarrow> wireStep decoded" where
  "unmarshalStep =
     decStruct setStep [''edges'', ''dir'', ''min'', ''max'', ''nodes'']
       \<lparr>wiEdges = [], wiDir = [], wiMin = None, wiMax = None, wiNodes = []\<rparr>"

definition emptySelect :: wireSelect where
  "emptySelect = \<lparr>wiBranch = [], wiHead = None, wiClaim = None, wiPath = None\<rparr>"

definition setSelect :: "string \<Rightarrow> jtree \<Rightarrow> wireSelect \<Rightarrow> wireSelect decoded" where
  "setSelect n j s =
     (if n = ''branch'' then dthen (decText j) (\<lambda>x. decOk (s\<lparr>wiBranch := x\<rparr>))
      else if n = ''head'' then dthen (decPtr decText j) (\<lambda>x. decOk (s\<lparr>wiHead := x\<rparr>))
      else if n = ''claim'' then dthen (unmarshalAnchor j) (\<lambda>x. decOk (s\<lparr>wiClaim := x\<rparr>))
      else dthen (decPtr (decSlice unmarshalStep) j) (\<lambda>x. decOk (s\<lparr>wiPath := x\<rparr>)))"

definition unmarshalSelect :: "jtree \<Rightarrow> wireSelect decoded" where
  "unmarshalSelect =
     decStruct setSelect [''branch'', ''head'', ''claim'', ''path''] emptySelect"

text \<open>
  One node of the filter tree. The fields are set one by one, so that the node is built from the
  five values found so far.
\<close>

definition whereNames :: "string list" where
  "whereNames = [''and'', ''or'', ''not'', ''field'', ''test'']"

lemma size_elem: "x \<in> set js \<Longrightarrow> size x < size (JTArr js)"
  by (induction js) auto

lemma size_field: "kv \<in> set kvs \<Longrightarrow> size (snd kv) < size (JTObj kvs)"
  by (induction kvs) (auto simp: size_prod_simp)

function unmarshalWhere :: "jtree \<Rightarrow> wireWhere decoded" where
  "unmarshalWhere (JTObj kvs) =
     decFields (\<lambda>n v w.
       if n = ''and'' then
         dthen (decSlice unmarshalWhere v) (\<lambda>x. decOk (WireWhere x (wwOr w) (wwNot w) (wwField w) (wwTest w)))
       else if n = ''or'' then
         dthen (decSlice unmarshalWhere v) (\<lambda>x. decOk (WireWhere (wwAnd w) x (wwNot w) (wwField w) (wwTest w)))
       else if n = ''not'' then
         dthen (decPtr unmarshalWhere v) (\<lambda>x. decOk (WireWhere (wwAnd w) (wwOr w) x (wwField w) (wwTest w)))
       else if n = ''field'' then
         dthen (decText v) (\<lambda>x. decOk (WireWhere (wwAnd w) (wwOr w) (wwNot w) x (wwTest w)))
       else
         dthen (decPtr unmarshalComparison v) (\<lambda>x. decOk (WireWhere (wwAnd w) (wwOr w) (wwNot w) (wwField w) x)))
     whereNames kvs (WireWhere [] [] None [] None)"
| "unmarshalWhere JTNull = decOk (WireWhere [] [] None [] None)"
| "unmarshalWhere (JTBool b) = decBad (WireWhere [] [] None [] None)"
| "unmarshalWhere (JTText s) = decBad (WireWhere [] [] None [] None)"
| "unmarshalWhere (JTNum i m k) = decBad (WireWhere [] [] None [] None)"
| "unmarshalWhere (JTArr js) = decBad (WireWhere [] [] None [] None)"
  by pat_completeness auto
termination
proof (relation "measure size", goal_cases)
  case (2 kvs n kv w x js)
  then show ?case using size_elem[of x js] size_field[of kv kvs] by simp
next
  case (3 kvs n kv w x js)
  then show ?case using size_elem[of x js] size_field[of kv kvs] by simp
next
  case (4 kvs n kv w)
  then show ?case using size_field[of kv kvs] by simp
qed simp

definition setContent :: "string \<Rightarrow> jtree \<Rightarrow> wireContent \<Rightarrow> wireContent decoded" where
  "setContent n j c =
     (if n = ''max'' then dthen (decInt j) (\<lambda>x. decOk (c\<lparr>wiMaxBytes := x\<rparr>))
      else dthen (decText j) (\<lambda>x. decOk (c\<lparr>wiOverflow := x\<rparr>)))"

definition unmarshalContent :: "jtree \<Rightarrow> wireContent decoded" where
  "unmarshalContent = decStruct setContent [''max'', ''overflow''] \<lparr>wiMaxBytes = 0, wiOverflow = []\<rparr>"

definition setOutput :: "string \<Rightarrow> jtree \<Rightarrow> wireOutput \<Rightarrow> wireOutput decoded" where
  "setOutput n j out =
     (if n = ''shape'' then dthen (decText j) (\<lambda>x. decOk (out\<lparr>wiShape := x\<rparr>))
      else if n = ''detail'' then dthen (decText j) (\<lambda>x. decOk (out\<lparr>wiDetail := x\<rparr>))
      else if n = ''form'' then dthen (decText j) (\<lambda>x. decOk (out\<lparr>wiForm := x\<rparr>))
      else if n = ''content'' then dthen (decPtr unmarshalContent j) (\<lambda>x. decOk (out\<lparr>wiContent := x\<rparr>))
      else dthen (decText j) (\<lambda>x. decOk (out\<lparr>wiEncoding := x\<rparr>)))"

definition unmarshalOutput :: "jtree \<Rightarrow> wireOutput decoded" where
  "unmarshalOutput =
     decStruct setOutput [''shape'', ''detail'', ''form'', ''content'', ''encoding'']
       \<lparr>wiShape = [], wiDetail = [], wiForm = [], wiContent = None, wiEncoding = []\<rparr>"

definition setOrderKey :: "string \<Rightarrow> jtree \<Rightarrow> wireOrderKey \<Rightarrow> wireOrderKey decoded" where
  "setOrderKey n j k =
     (if n = ''field'' then dthen (decText j) (\<lambda>x. decOk (k\<lparr>wiField := x\<rparr>))
      else if n = ''compare'' then dthen (decText j) (\<lambda>x. decOk (k\<lparr>wiCompare := x\<rparr>))
      else dthen (decText j) (\<lambda>x. decOk (k\<lparr>wiOrderDir := x\<rparr>)))"

definition unmarshalOrderKey :: "jtree \<Rightarrow> wireOrderKey decoded" where
  "unmarshalOrderKey =
     decStruct setOrderKey [''field'', ''compare'', ''dir''] \<lparr>wiField = [], wiCompare = [], wiOrderDir = []\<rparr>"

definition setLimit :: "string \<Rightarrow> jtree \<Rightarrow> wireLimit \<Rightarrow> wireLimit decoded" where
  "setLimit n j l =
     (if n = ''results'' then dthen (decPtr decInt j) (\<lambda>x. decOk (l\<lparr>wiResults := x\<rparr>))
      else dthen (decPtr decText j) (\<lambda>x. decOk (l\<lparr>wiTime := x\<rparr>)))"

definition unmarshalLimit :: "jtree \<Rightarrow> wireLimit decoded" where
  "unmarshalLimit = decStruct setLimit [''results'', ''time''] \<lparr>wiResults = None, wiTime = None\<rparr>"

definition setExecution :: "string \<Rightarrow> jtree \<Rightarrow> wireExecution \<Rightarrow> wireExecution decoded" where
  "setExecution n j e =
     (if n = ''layer'' then dthen (decPtr decText j) (\<lambda>x. decOk (e\<lparr>wiLayer := x\<rparr>))
      else dthen (decText j) (\<lambda>x. decOk (e\<lparr>wiReport := x\<rparr>)))"

definition unmarshalExecution :: "jtree \<Rightarrow> wireExecution decoded" where
  "unmarshalExecution = decStruct setExecution [''layer'', ''report''] \<lparr>wiLayer = None, wiReport = []\<rparr>"

definition setQuery :: "string \<Rightarrow> jtree \<Rightarrow> wireQuery \<Rightarrow> wireQuery decoded" where
  "setQuery n j w =
     (if n = ''select'' then dthen (unmarshalSelect j) (\<lambda>x. decOk (w\<lparr>wiSelect := x\<rparr>))
      else if n = ''where'' then dthen (decPtr unmarshalWhere j) (\<lambda>x. decOk (w\<lparr>wiWhere := x\<rparr>))
      else if n = ''output'' then dthen (decPtr unmarshalOutput j) (\<lambda>x. decOk (w\<lparr>wiOutput := x\<rparr>))
      else if n = ''order'' then dthen (decSlice unmarshalOrderKey j) (\<lambda>x. decOk (w\<lparr>wiOrder := x\<rparr>))
      else if n = ''limit'' then dthen (decPtr unmarshalLimit j) (\<lambda>x. decOk (w\<lparr>wiLimit := x\<rparr>))
      else dthen (decPtr unmarshalExecution j) (\<lambda>x. decOk (w\<lparr>wiExecution := x\<rparr>)))"

definition unmarshalQuery :: "jtree \<Rightarrow> wireQuery decoded" where
  "unmarshalQuery =
     decStruct setQuery [''select'', ''where'', ''output'', ''order'', ''limit'', ''execution'']
       \<lparr>wiSelect = emptySelect, wiWhere = None, wiOutput = None, wiOrder = [], wiLimit = None, wiExecution = None\<rparr>"

section \<open>From the wire types to a query\<close>

definition parseOptionalId :: "(string \<Rightarrow> ident result) \<Rightarrow> string option \<Rightarrow> ident result" where
  "parseOptionalId parse s = (case s of None \<Rightarrow> Inr [] | Some t \<Rightarrow> wrapping (QueryErr errDecodeQuery) (parse t))"

fun anchorIds :: "(string \<Rightarrow> ident result) \<Rightarrow> string list \<Rightarrow> string list \<Rightarrow> ident list result" where
  "anchorIds parse seen [] = Inr []"
| "anchorIds parse seen (s # ss) =
     (if s \<in> set seen then Inl (QueryErr ErrQueryAnchorSet)
      else rbind (wrapping (QueryErr errDecodeQuery) (parse s)) (\<lambda>i.
        rbind (anchorIds parse (s # seen) ss) (\<lambda>is. Inr (i # is))))"

definition wireAnchorIds :: "(string \<Rightarrow> ident result) \<Rightarrow> string list option \<Rightarrow> ident list result" where
  "wireAnchorIds parse a =
     (case a of None \<Rightarrow> Inr []
      | Some ids \<Rightarrow> if ids = [] then Inl (QueryErr ErrQueryAnchorSet) else anchorIds parse [] ids)"

definition derefOr :: "'a option \<Rightarrow> 'a \<Rightarrow> 'a" where
  "derefOr p fallback = (case p of None \<Rightarrow> fallback | Some x \<Rightarrow> x)"

definition stepOf :: "wireStep \<Rightarrow> pathStep" where
  "stepOf s =
     \<lparr>psEdges = wiEdges s, psDir = wiDir s, psMin = wiMin s, psMax = derefOr (wiMax s) 0, psNodes = wiNodes s\<rparr>"

definition selectionOf :: "(string \<Rightarrow> ident result) \<Rightarrow> wireSelect \<Rightarrow> selection result" where
  "selectionOf parse w =
     rbind (parseOptionalId parse (wiHead w)) (\<lambda>head.
     rbind (wireAnchorIds parse (wiClaim w)) (\<lambda>anchors.
       Inr \<lparr>slBranch = wiBranch w, slHead = head, slClaim = anchors, slPath = map_option (map stepOf) (wiPath w)\<rparr>))"

text \<open>A nil operand leaves its operator unset.\<close>

definition setOperand :: "qvalue \<Rightarrow> qvalue option" where
  "setOperand v = (if v = VNil then None else Some v)"

definition noComparison :: comparison where
  "noComparison =
     \<lparr>cmEq = None, cmNe = None, cmLt = None, cmLe = None, cmGt = None, cmGe = None, cmIn = None, cmGlob = []\<rparr>"

definition comparisonOf :: "string \<times> qvalue \<Rightarrow> comparison result" where
  "comparisonOf c =
     (let v = snd c; bad = Inl (QueryErr ErrQueryComparisonForm) in
       if fst c = ''eq'' then Inr (noComparison\<lparr>cmEq := setOperand v\<rparr>)
       else if fst c = ''ne'' then Inr (noComparison\<lparr>cmNe := setOperand v\<rparr>)
       else if fst c = ''lt'' then Inr (noComparison\<lparr>cmLt := setOperand v\<rparr>)
       else if fst c = ''le'' then Inr (noComparison\<lparr>cmLe := setOperand v\<rparr>)
       else if fst c = ''gt'' then Inr (noComparison\<lparr>cmGt := setOperand v\<rparr>)
       else if fst c = ''ge'' then Inr (noComparison\<lparr>cmGe := setOperand v\<rparr>)
       else if fst c = ''in'' then
         (case v of VList vs \<Rightarrow> Inr (noComparison\<lparr>cmIn := Some vs\<rparr>) | _ \<Rightarrow> bad)
       else if fst c = ''glob'' then
         (case v of VStr s \<Rightarrow> Inr (noComparison\<lparr>cmGlob := s\<rparr>) | _ \<Rightarrow> bad)
       else bad)"

fun whereOf :: "wireWhere \<Rightarrow> where_tree result" where
  "whereOf (WireWhere ands ors neg field test) =
     rbind (mapM whereOf ands) (\<lambda>as.
     rbind (mapM whereOf ors) (\<lambda>os.
     rbind (case neg of None \<Rightarrow> Inr None | Some n \<Rightarrow> rbind (whereOf n) (\<lambda>x. Inr (Some x))) (\<lambda>n.
     rbind (case test of None \<Rightarrow> Inr None | Some t \<Rightarrow> rbind (comparisonOf t) (\<lambda>x. Inr (Some x))) (\<lambda>t.
       Inr (WhereTree as os n field t)))))"

definition outputOf :: "wireOutput \<Rightarrow> outputSpec" where
  "outputOf w =
     \<lparr>ouShape = wiShape w, ouDetail = wiDetail w, ouForm = wiForm w,
      ouContent = map_option (\<lambda>c. \<lparr>ocMax = wiMaxBytes c, ocOverflow = wiOverflow c\<rparr>) (wiContent w),
      ouEncoding = wiEncoding w\<rparr>"

definition noOutput :: outputSpec where
  "noOutput = \<lparr>ouShape = [], ouDetail = [], ouForm = [], ouContent = None, ouEncoding = []\<rparr>"

text \<open>The bound and the budget.\<close>

definition limitOf :: "wireLimit \<Rightarrow> (int \<times> int) result" where
  "limitOf w =
     (case wiTime w of
        None \<Rightarrow> Inr (derefOr (wiResults w) 0, 0)
      | Some s \<Rightarrow>
          (case ParseDuration s of
             None \<Rightarrow> Inl (Wrap (QueryErr errDecodeQuery) (LibErr ''time: invalid duration''))
           | Some d \<Rightarrow> Inr (derefOr (wiResults w) 0, d)))"

definition executionOf :: "wireExecution option \<Rightarrow> (string \<times> string) result" where
  "executionOf e =
     (case e of
        None \<Rightarrow> Inr ([], [])
      | Some x \<Rightarrow>
          (case wiLayer x of
             None \<Rightarrow> Inr ([], wiReport x)
           | Some l \<Rightarrow> if blank l then Inl (QueryErr ErrQueryLayerName) else Inr (l, wiReport x)))"

definition wireOnlyEnums :: "wireQuery \<Rightarrow> unit result" where
  "wireOnlyEnums w =
     rbind (case wiOutput w of None \<Rightarrow> Inr () | Some out \<Rightarrow> oneOf (wiEncoding out) [[], ''json'', ''cbor'']) (\<lambda>_.
       case wiExecution w of None \<Rightarrow> Inr ()
       | Some e \<Rightarrow> oneOf (wiReport e) [[], ''info'', ''debug'', ''trace''])"

definition queryOf :: "(string \<Rightarrow> ident result) \<Rightarrow> wireQuery \<Rightarrow> query result" where
  "queryOf parse w =
     rbind (selectionOf parse (wiSelect w)) (\<lambda>sel.
     rbind (case wiWhere w of None \<Rightarrow> Inr None | Some t \<Rightarrow> rbind (whereOf t) (\<lambda>x. Inr (Some x))) (\<lambda>wh.
     rbind (case wiLimit w of None \<Rightarrow> Inr (0, 0) | Some l \<Rightarrow> limitOf l) (\<lambda>(results, time).
     rbind (executionOf (wiExecution w)) (\<lambda>(layer, report).
     rbind (wireOnlyEnums w) (\<lambda>_.
       Inr \<lparr>qSelect = sel, qWhere = wh,
         qOutput = (case wiOutput w of None \<Rightarrow> noOutput | Some out \<Rightarrow> outputOf out),
         qOrder = map (\<lambda>k. \<lparr>okField = wiField k, okCompare = wiCompare k, okDir = wiOrderDir k\<rparr>) (wiOrder w),
         qLimitResults = results, qLimitTime = time, qLayer = layer, qReport = report\<rparr>)))))"

definition DecodeQuery :: "lib \<Rightarrow> (string \<Rightarrow> bytes result) \<Rightarrow> jtree \<Rightarrow> query result" where
  "DecodeQuery L multibase j =
     (case unmarshalQuery j of
        Inl e \<Rightarrow> Inl (Wrap (QueryErr errDecodeQuery) e)
      | Inr (w, Some e) \<Rightarrow> Inl (Wrap (QueryErr errDecodeQuery) e)
      | Inr (w, None) \<Rightarrow>
          rbind (queryOf (ParseId L multibase) w) (\<lambda>q. rbind (ValidateQuery q) (\<lambda>_. Inr q)))"

section \<open>A written value reads back\<close>

named_theorems wire_simps \<open>reading what was written, field by field\<close>

definition goInt :: "int \<Rightarrow> bool" where "goInt n = (- (2 ^ 63) \<le> n \<and> n < 2 ^ 63)"

lemma decText_jtext [wire_simps]: "utf8 s \<Longrightarrow> decText (jtext s) = decOk s"
  by (simp add: jtext_def utf8_def)

lemma decInt_jint [wire_simps]: "goInt n \<Longrightarrow> decInt (jint n) = decOk n"
  by (simp add: jint_def goInt_def)

lemma dthen_decOk [wire_simps]: "dthen m decOk = m"
  by (auto simp: dthen_def decOk_def split: sum.split option.split)

lemma decPtr_some [wire_simps]: "f j = decOk x \<Longrightarrow> j \<noteq> JTNull \<Longrightarrow> decPtr f j = decOk (Some x)"
  by (simp add: decPtr_def)

lemma not_null [simp, wire_simps]: "jtext s \<noteq> JTNull" "jint n \<noteq> JTNull"
  by (simp_all add: jtext_def jint_def)

lemma decAll_map: "(\<And>x. x \<in> set xs \<Longrightarrow> f (g x) = decOk (h x)) \<Longrightarrow> decAll f (map g xs) = decOk (map h xs)"
  by (induction xs) simp_all

lemma decAll_texts [wire_simps]: "\<forall>s \<in> set ss. utf8 s \<Longrightarrow> decAll decText (map jtext ss) = decOk ss"
  using decAll_map[of ss decText jtext id] by (simp add: decText_jtext)

lemma decFields_append [wire_simps]:
  "decFields f names (a @ b) r = dthen (decFields f names a r) (decFields f names b)"
proof (induction a arbitrary: r)
  case (Cons kv a)
  have "decFields f names (a @ b) = (\<lambda>r. dthen (decFields f names a r) (decFields f names b))"
    by (rule ext) (rule Cons.IH)
  then show ?case by simp
qed simp

lemma decFields_field [wire_simps]:
  "n \<in> set names \<Longrightarrow> decFields f names (jfield n p v) r = (if p then f n v r else decOk r)"
  by (simp add: jfield_def fieldOf_def dthen_def decOk_def split: sum.split option.split)

lemma decFields_text [wire_simps]:
  "n \<in> set names \<Longrightarrow> decFields f names (jtextField n s) r = (if s = [] then decOk r else f n (jtext s) r)"
  by (simp add: jtextField_def decFields_field)

lemma decFields_ptr [wire_simps]:
  "n \<in> set names \<Longrightarrow> decFields f names (jptr n g v) r = (case v of None \<Rightarrow> decOk r | Some x \<Rightarrow> f n (g x) r)"
  by (simp add: jptr_def fieldOf_def dthen_def decOk_def split: sum.split option.split)

lemma decFields_cons [wire_simps]:
  "n \<in> set names \<Longrightarrow> decFields f names ((n, v) # kvs) r = dthen (f n v r) (decFields f names kvs)"
  by (simp add: fieldOf_def)

declare decFields.simps(2) [simp del]

section \<open>What can be written\<close>

fun utf8Value :: "qvalue \<Rightarrow> bool" where
  "utf8Value (VStr s) = utf8 s"
| "utf8Value (VList vs) = list_all utf8Value vs"
| "utf8Value (VMap kvs) = list_all (\<lambda>p. utf8 (fst p) \<and> utf8Value (snd p)) kvs"
| "utf8Value _ = True"

lemma unmarshal_step:
  assumes "\<forall>s \<in> set (wiEdges w). utf8 s" "utf8 (wiDir w)" "\<forall>s \<in> set (wiNodes w). utf8 s"
    and "\<forall>n \<in> set_option (wiMin w). goInt n" "\<forall>n \<in> set_option (wiMax w). goInt n"
  shows "unmarshalStep (marshalStep w) = decOk w"
  using assms
  by (cases w; cases "wiMin w"; cases "wiMax w")
     (auto simp: unmarshalStep_def marshalStep_def setStep_def wire_simps)

lemma unmarshal_content:
  assumes "utf8 (wiOverflow c)" "goInt (wiMaxBytes c)"
  shows "unmarshalContent (JTObj [(''max'', jint (wiMaxBytes c)), (''overflow'', jtext (wiOverflow c))]) = decOk c"
  using assms by (cases c) (simp add: unmarshalContent_def setContent_def wire_simps)

lemma unmarshal_output:
  assumes "list_all utf8 [wiShape w, wiDetail w, wiForm w, wiEncoding w]"
    and "\<forall>c \<in> set_option (wiContent w). utf8 (wiOverflow c) \<and> goInt (wiMaxBytes c)"
  shows "unmarshalOutput (marshalOutput w) = decOk w"
  using assms
  by (cases w; cases "wiContent w")
     (auto simp: unmarshalOutput_def marshalOutput_def setOutput_def wire_simps unmarshal_content)

lemma unmarshal_orderKey:
  assumes "list_all utf8 [wiField k, wiCompare k, wiOrderDir k]"
  shows "unmarshalOrderKey (marshalOrderKey k) = decOk k"
  using assms by (cases k) (auto simp: unmarshalOrderKey_def marshalOrderKey_def setOrderKey_def wire_simps)

lemma unmarshal_limit:
  assumes "\<forall>n \<in> set_option (wiResults l). goInt n" "\<forall>s \<in> set_option (wiTime l). utf8 s"
  shows "unmarshalLimit (marshalLimit l) = decOk l"
  using assms
  by (cases l; cases "wiResults l"; cases "wiTime l")
     (auto simp: unmarshalLimit_def marshalLimit_def setLimit_def wire_simps)

lemma unmarshal_execution:
  assumes "\<forall>s \<in> set_option (wiLayer e). utf8 s" "utf8 (wiReport e)"
  shows "unmarshalExecution (marshalExecution e) = decOk e"
  using assms
  by (cases e; cases "wiLayer e")
     (auto simp: unmarshalExecution_def marshalExecution_def setExecution_def wire_simps)

lemma unmarshal_anchor:
  assumes "\<forall>s \<in> set ids. utf8 s" "ids \<noteq> []"
  shows "unmarshalAnchor (marshalAnchor ids) = decOk (Some ids)"
proof (cases "\<exists>i. ids = [i]")
  case True
  then show ?thesis using assms(1) by (auto simp: marshalAnchor_def jtext_def utf8_def)
next
  case False
  then have "marshalAnchor ids = JTArr (map jtext ids)" by (auto simp: marshalAnchor_def split: list.split)
  then show ?thesis using decAll_texts[OF assms(1)] by (simp add: decOk_def)
qed

lemma unmarshal_select:
  assumes "utf8 (wiBranch w)" "\<forall>s \<in> set_option (wiHead w). utf8 s" "\<forall>ids \<in> set_option (wiClaim w). ids \<noteq> [] \<and> (\<forall>s \<in> set ids. utf8 s)"
    and "\<forall>steps \<in> set_option (wiPath w). \<forall>s \<in> set steps. unmarshalStep (marshalStep s) = decOk s"
  shows "unmarshalSelect (marshalSelect w) = decOk w"
proof -
  have path: "decPtr (decSlice unmarshalStep) (JTArr (map marshalStep steps)) = decOk (Some steps)" if "wiPath w = Some steps" for steps
    using assms(4) that decAll_map[of steps unmarshalStep marshalStep id] by (simp add: decPtr_def)
  show ?thesis
    using assms(1-3) path
    by (cases w; cases "wiHead w"; cases "wiClaim w"; cases "wiPath w")
       (auto simp: unmarshalSelect_def marshalSelect_def setSelect_def emptySelect_def anchorList_def wire_simps unmarshal_anchor)
qed

section \<open>What a query becomes on the wire\<close>

text \<open>
  Every number reads back as a \<open>float64\<close>, a time as its text, a map in the order of its keys.
\<close>

fun wireValue :: "qvalue \<Rightarrow> qvalue" where
  "wireValue VNil = VNil"
| "wireValue (VStr s) = VStr (utf8Text s)"
| "wireValue (VInt n) = VFloat (toFloat64 n) 0"
| "wireValue (VFloat m k) = VFloat m k"
| "wireValue (VTime t) = VStr (utf8Text (rfc3339NanoText t))"
| "wireValue (VBool b) = VBool b"
| "wireValue (VList vs) = VList (map wireValue vs)"
| "wireValue (VMap kvs) = VMap (foldr insertKey (map (\<lambda>p. (utf8Text (fst p), wireValue (snd p))) kvs) [])"

lemma marshalValue_back: "marshalValue v = Inr j \<Longrightarrow> anyValue j = wireValue v"
proof (induction v arbitrary: j rule: marshalValue.induct)
  case (7 vs)
  then obtain js where js: "list_all2 (\<lambda>v j. marshalValue v = Inr j) vs js" "j = JTArr js"
    by (auto simp: rbind_eq_Inr mapM_Inr_iff)
  have "map anyValue js = map wireValue vs"
    using js(1) 7(1) by (induction rule: list_all2_induct) auto
  then show ?case by (simp add: js(2))
next
  case (8 kvs)
  let ?one = "\<lambda>p. rbind (marshalValue (snd p)) (\<lambda>j. Inr (utf8Text (fst p), j))"
  obtain js where js: "list_all2 (\<lambda>p q. ?one p = Inr q) kvs js" "j = JTObj js"
    using 8(2) by (auto simp: rbind_eq_Inr mapM_Inr_iff)
  have "map (\<lambda>p. (fst p, anyValue (snd p))) js = map (\<lambda>p. (utf8Text (fst p), wireValue (snd p))) kvs"
    using js(1) 8(1)
  proof (induction rule: list_all2_induct)
    case (Cons p ps q qs)
    obtain x where "marshalValue (snd p) = Inr x" "q = (utf8Text (fst p), x)"
      using Cons.hyps(1) by (auto simp: rbind_eq_Inr)
    then show ?case using Cons.prems[of p x] Cons.IH Cons.prems by simp
  qed simp
  then show ?case by (simp add: js(2))
qed (auto simp: jtext_def jint_def split: if_splits)

definition wireComparison :: "comparison \<Rightarrow> comparison" where
  "wireComparison c =
     \<lparr>cmEq = map_option wireValue (cmEq c), cmNe = map_option wireValue (cmNe c), cmLt = map_option wireValue (cmLt c),
      cmLe = map_option wireValue (cmLe c), cmGt = map_option wireValue (cmGt c), cmGe = map_option wireValue (cmGe c),
      cmIn = map_option (map wireValue) (cmIn c), cmGlob = cmGlob c\<rparr>"

definition scalarOperands :: "comparison \<Rightarrow> qvalue option list" where
  "scalarOperands c = [cmEq c, cmNe c, cmLt c, cmLe c, cmGt c, cmGe c]"

definition wireableComparison :: "comparison \<Rightarrow> bool" where
  "wireableComparison c \<longleftrightarrow>
     length (filter id (operators c)) = 1 \<and> utf8 (cmGlob c) \<and> Some VNil \<notin> set (scalarOperands c) \<and>
     list_all (pred_option utf8Value) (scalarOperands c) \<and> pred_option (list_all utf8Value) (cmIn c)"

lemma wireValue_nil [simp]: "wireValue v = VNil \<longleftrightarrow> v = VNil"
  by (cases v) simp_all

lemma operator_names [simp]:
  "utf8Text ''eq'' = ''eq''" "utf8Text ''ne'' = ''ne''" "utf8Text ''lt'' = ''lt''" "utf8Text ''le'' = ''le''"
  "utf8Text ''gt'' = ''gt''" "utf8Text ''ge'' = ''ge''" "utf8Text ''in'' = ''in''" "utf8Text ''glob'' = ''glob''"
  by (simp_all add: utf8_ascii byte_def)

lemma one_true:
  "length (filter id bs) = 1 \<Longrightarrow> \<exists>i < length bs. \<forall>j < length bs. bs ! j = (j = i)"
proof (induction bs)
  case (Cons b bs)
  show ?case
  proof (cases b)
    case True
    then have "\<forall>x \<in> set bs. \<not> x" using Cons.prems by (simp add: filter_empty_conv)
    then have "(b # bs) ! j = (j = 0)" if "j < length (b # bs)" for j using that True nth_mem by (cases j) auto
    then show ?thesis by (intro exI[of _ 0]) simp
  next
    case False
    then obtain i where i: "i < length bs" "\<forall>j < length bs. bs ! j = (j = i)" using Cons by auto
    have "(b # bs) ! j = (j = Suc i)" if "j < length (b # bs)" for j using that i False by (cases j) auto
    then show ?thesis using i(1) by (intro exI[of _ "Suc i"]) simp
  qed
qed simp

lemma one_of_eight:
  assumes "length (filter id [a, b, c, d, e, f, g, h]) = 1"
  shows "(a \<and> \<not> b \<and> \<not> c \<and> \<not> d \<and> \<not> e \<and> \<not> f \<and> \<not> g \<and> \<not> h) \<or>
     (\<not> a \<and> b \<and> \<not> c \<and> \<not> d \<and> \<not> e \<and> \<not> f \<and> \<not> g \<and> \<not> h) \<or>
     (\<not> a \<and> \<not> b \<and> c \<and> \<not> d \<and> \<not> e \<and> \<not> f \<and> \<not> g \<and> \<not> h) \<or>
     (\<not> a \<and> \<not> b \<and> \<not> c \<and> d \<and> \<not> e \<and> \<not> f \<and> \<not> g \<and> \<not> h) \<or>
     (\<not> a \<and> \<not> b \<and> \<not> c \<and> \<not> d \<and> e \<and> \<not> f \<and> \<not> g \<and> \<not> h) \<or>
     (\<not> a \<and> \<not> b \<and> \<not> c \<and> \<not> d \<and> \<not> e \<and> f \<and> \<not> g \<and> \<not> h) \<or>
     (\<not> a \<and> \<not> b \<and> \<not> c \<and> \<not> d \<and> \<not> e \<and> \<not> f \<and> g \<and> \<not> h) \<or>
     (\<not> a \<and> \<not> b \<and> \<not> c \<and> \<not> d \<and> \<not> e \<and> \<not> f \<and> \<not> g \<and> h)"
proof -
  obtain i where i: "i < 8" "\<forall>j < 8. [a, b, c, d, e, f, g, h] ! j = (j = i)" proof -
    have l: "length [a, b, c, d, e, f, g, h] = 8" by simp
    show ?thesis using one_true[OF assms] that unfolding l by blast
  qed
  have bits: "a = (i = 0)" "b = (i = 1)" "c = (i = 2)" "d = (i = 3)" "e = (i = 4)" "f = (i = 5)" "g = (i = 6)" "h = (i = 7)"
    using spec[OF i(2), of 0] spec[OF i(2), of 1] spec[OF i(2), of 2] spec[OF i(2), of 3]
      spec[OF i(2), of 4] spec[OF i(2), of 5] spec[OF i(2), of 6] spec[OF i(2), of 7] by auto
  have "i = 0 \<or> i = 1 \<or> i = 2 \<or> i = 3 \<or> i = 4 \<or> i = 5 \<or> i = 6 \<or> i = 7" using i(1) by linarith
  then show ?thesis unfolding bits by (elim disjE) simp_all
qed

lemma comparison_back:
  assumes "marshalComparison (newWireComparison c) = Inr j" "wireableComparison c"
  shows "\<exists>p. unmarshalComparison j = decOk p \<and> comparisonOf p = Inr (wireComparison c) \<and> j \<noteq> JTNull"
proof -
  obtain v where v: "marshalValue (snd (newWireComparison c)) = Inr v"
      and j: "j = JTObj [(utf8Text (fst (newWireComparison c)), v)]"
    using assms(1) by (auto simp: marshalComparison_def rbind_eq_Inr wrapping_eq_Inr)
  have one: "length (filter id (operators c)) = 1" and rest: "utf8 (cmGlob c)" "Some VNil \<notin> set [cmEq c, cmNe c, cmLt c, cmLe c, cmGt c, cmGe c]"
    using assms(2) by (simp_all add: wireableComparison_def scalarOperands_def)
  have "comparisonOf (utf8Text (fst (newWireComparison c)), wireValue (snd (newWireComparison c))) = Inr (wireComparison c)"
    using one_of_eight[OF one[unfolded operators_def]] rest
    by (elim disjE conjE; cases c)
       (auto simp: newWireComparison_def comparisonOf_def wireComparison_def noComparison_def
         setOperand_def utf8_def Let_def)
  then show ?thesis using marshalValue_back[OF v] by (simp add: j decOk_def)
qed

fun wireTree :: "where_tree \<Rightarrow> where_tree" where
  "wireTree (WhereTree ands ors neg field test) =
     WhereTree (map wireTree ands) (map wireTree ors) (map_option wireTree neg) field (map_option wireComparison test)"

fun wireableTree :: "where_tree \<Rightarrow> bool" where
  "wireableTree (WhereTree ands ors neg field test) \<longleftrightarrow>
     list_all wireableTree ands \<and> list_all wireableTree ors \<and> pred_option wireableTree neg \<and> utf8 field \<and>
     pred_option wireableComparison test"

lemma where_lists_back:
  assumes "mapM marshalWhere (map newWireWhere ts) = Inr js"
    and "\<And>t j. t \<in> set ts \<Longrightarrow> marshalWhere (newWireWhere t) = Inr j \<Longrightarrow>
      \<exists>w. unmarshalWhere j = decOk w \<and> whereOf w = Inr (wireTree t)"
  shows "\<exists>ws. decAll unmarshalWhere js = decOk ws \<and> mapM whereOf ws = Inr (map wireTree ts) \<and> (js = [] \<longleftrightarrow> ts = [])"
  using assms
proof (induction ts arbitrary: js)
  case (Cons t ts)
  obtain j js' where j: "marshalWhere (newWireWhere t) = Inr j" "mapM marshalWhere (map newWireWhere ts) = Inr js'"
      "js = j # js'"
    using Cons.prems(1) by (auto simp: rbind_eq_Inr)
  obtain w where w: "unmarshalWhere j = decOk w" "whereOf w = Inr (wireTree t)" using Cons.prems(2)[OF _ j(1)] by auto
  obtain ws where "decAll unmarshalWhere js' = decOk ws" "mapM whereOf ws = Inr (map wireTree ts)"
    using Cons.IH[OF j(2)] Cons.prems(2) by auto
  then show ?case using w by (intro exI[of _ "w # ws"]) (simp add: j(3))
qed simp

lemma marshalWhere_object: "marshalWhere w = Inr j \<Longrightarrow> j \<noteq> JTNull"
  by (cases w) (auto simp: rbind_eq_Inr)

lemma where_back:
  assumes "marshalWhere (newWireWhere t) = Inr j" "wireableTree t"
  shows "\<exists>w. unmarshalWhere j = decOk w \<and> whereOf w = Inr (wireTree t)"
  using assms
proof (induction t arbitrary: j rule: newWireWhere.induct)
  case (1 ands ors neg field test)
  obtain as os ns ts where
      as: "mapM marshalWhere (map newWireWhere ands) = Inr as" and os: "mapM marshalWhere (map newWireWhere ors) = Inr os"
    and ns: "(case map_option newWireWhere neg of None \<Rightarrow> Inr [] | Some n \<Rightarrow> rbind (marshalWhere n) (\<lambda>j. Inr [(''not'', j)])) = Inr ns"
    and ts: "marshalOpt ''test'' marshalComparison (map_option newWireComparison test) = Inr ts"
    and j: "j = JTObj (jfield ''and'' (as \<noteq> []) (JTArr as) @ jfield ''or'' (os \<noteq> []) (JTArr os) @ ns @
         jtextField ''field'' field @ ts)"
    using "1.prems"(1) by (auto simp: rbind_eq_Inr)
  obtain aw where aw: "decAll unmarshalWhere as = decOk aw" "mapM whereOf aw = Inr (map wireTree ands)" "as = [] \<longleftrightarrow> ands = []"
    using where_lists_back[OF as] "1.IH"(1) "1.prems"(2) by (auto simp: list_all_iff)
  obtain ow where ow: "decAll unmarshalWhere os = decOk ow" "mapM whereOf ow = Inr (map wireTree ors)" "os = [] \<longleftrightarrow> ors = []"
    using where_lists_back[OF os] "1.IH"(2) "1.prems"(2) by (auto simp: list_all_iff)
  obtain nw where nw: "ns = (case nw of None \<Rightarrow> [] | Some (x, w) \<Rightarrow> [(''not'', x)])"
      "\<forall>x w. nw = Some (x, w) \<longrightarrow> unmarshalWhere x = decOk w \<and> x \<noteq> JTNull \<and> whereOf w = Inr (wireTree (the neg))"
      "nw = None \<longleftrightarrow> neg = None"
  proof (cases neg)
    case (Some n)
    then obtain x where "marshalWhere (newWireWhere n) = Inr x" "ns = [(''not'', x)]" using ns by (auto simp: rbind_eq_Inr)
    moreover from this obtain w where "unmarshalWhere x = decOk w" "whereOf w = Inr (wireTree n)"
      using "1.IH"(3)[of n x] "1.prems"(2) Some by auto
    ultimately show ?thesis using that[of "Some (x, w)"] Some marshalWhere_object by auto
  qed (use ns that[of None] in auto)
  obtain tw where tw: "ts = (case tw of None \<Rightarrow> [] | Some (x, p) \<Rightarrow> [(''test'', x)])"
      "\<forall>x p. tw = Some (x, p) \<longrightarrow> unmarshalComparison x = decOk p \<and> x \<noteq> JTNull \<and> comparisonOf p = Inr (wireComparison (the test))"
      "tw = None \<longleftrightarrow> test = None"
  proof (cases test)
    case (Some c)
    then obtain x where x: "marshalComparison (newWireComparison c) = Inr x" "ts = [(''test'', x)]"
      using ts by (auto simp: marshalOpt_def rbind_eq_Inr)
    obtain p where "unmarshalComparison x = decOk p" "comparisonOf p = Inr (wireComparison c)" "x \<noteq> JTNull"
      using comparison_back[OF x(1)] "1.prems"(2) Some by auto
    then show ?thesis using that[of "Some (x, p)"] Some x(2) by auto
  qed (use ts that[of None] in \<open>auto simp: marshalOpt_def\<close>)
  let ?w = "WireWhere aw ow (map_option snd nw) field (map_option snd tw)"
  have "unmarshalWhere j = decOk ?w"
    using aw ow nw(2) tw(2) "1.prems"(2) unfolding j nw(1) tw(1)
    by (cases nw; cases tw) (auto simp: wire_simps whereNames_def)
  moreover have "whereOf ?w = Inr (wireTree (WhereTree ands ors neg field test))"
    using aw(2) ow(2) nw(2,3) tw(2,3) by (cases nw; cases tw; cases neg; cases test) auto
  ultimately show ?case by blast
qed

section \<open>The whole query\<close>

text \<open>Each anchor that is not nil, once.\<close>

fun wireAnchors :: "ident list \<Rightarrow> ident list \<Rightarrow> ident list" where
  "wireAnchors seen [] = []"
| "wireAnchors seen (i # is) =
     (if i = [] \<or> i \<in> set seen then wireAnchors seen is else i # wireAnchors (i # seen) is)"

definition wireForm :: "query \<Rightarrow> query" where
  "wireForm q =
     q\<lparr>qSelect := (qSelect q)\<lparr>slClaim := wireAnchors [] (slClaim (qSelect q))\<rparr>,
       qWhere := map_option wireTree (qWhere q),
       qOutput := (qOutput q)\<lparr>ouEncoding := (if ouEncoding (qOutput q) = ''native'' then [] else ouEncoding (qOutput q))\<rparr>\<rparr>"

definition wireableStep :: "pathStep \<Rightarrow> bool" where
  "wireableStep s \<longleftrightarrow>
     list_all utf8 (psEdges s) \<and> utf8 (psDir s) \<and> list_all utf8 (psNodes s) \<and> goInt (psMax s) \<and>
     pred_option goInt (psMin s)"

text \<open>
  What the wire can carry: valid UTF-8, integers of Go's width, no nil operand where the code would
  take the operator for unset, and ids whose text reads back.
\<close>

definition readsBack :: "lib \<Rightarrow> (string \<Rightarrow> bytes result) \<Rightarrow> ident \<Rightarrow> bool" where
  "readsBack L multibase i \<longleftrightarrow>
     i = [] \<or> (utf8 (libIdString L i) \<and> ParseId L multibase (libIdString L i) = Inr i)"

definition wireable :: "lib \<Rightarrow> (string \<Rightarrow> bytes result) \<Rightarrow> query \<Rightarrow> bool" where
  "wireable L multibase q \<longleftrightarrow>
     (let sel = qSelect q; out = qOutput q in
       utf8 (slBranch sel) \<and> list_all (readsBack L multibase) (slHead sel # slClaim sel) \<and>
       pred_option (list_all wireableStep) (slPath sel) \<and> pred_option wireableTree (qWhere q) \<and>
       list_all utf8 [ouShape out, ouDetail out, ouForm out, ouEncoding out] \<and>
       pred_option (\<lambda>c. goInt (ocMax c) \<and> utf8 (ocOverflow c)) (ouContent out) \<and>
       list_all (\<lambda>k. list_all utf8 [okField k, okCompare k, okDir k]) (qOrder q) \<and>
       goInt (qLimitResults q) \<and> qLimitTime q < 2 ^ 63 \<and> utf8 (qLayer q) \<and> utf8 (qReport q))"

lemma anchors_back:
  assumes "\<forall>i \<in> set is. i = [] \<or> parse (txt i) = Inr i" "\<forall>i \<in> set seen. parse (txt i) = Inr i"
  shows "anchorIds parse (map txt seen) (onceEach (map txt seen) (map txt (filter (\<lambda>i. i \<noteq> []) is))) =
    Inr (wireAnchors seen is)"
  using assms
proof (induction "is" arbitrary: seen)
  case (Cons i "is")
  show ?case
  proof (cases "i = []")
    case False
    have same: "txt i \<in> txt ` set seen \<longleftrightarrow> i \<in> set seen"
    proof
      assume "txt i \<in> txt ` set seen"
      then obtain k where "k \<in> set seen" "txt i = txt k" by auto
      then show "i \<in> set seen" using Cons.prems False by (metis list.set_intros(1) sum.inject(2))
    qed simp
    show ?thesis
      using Cons.IH[of seen] Cons.IH[of "i # seen"] Cons.prems False same by simp
  qed (use Cons in simp)
qed simp

lemma onceEach_in: "s \<in> set (onceEach seen ss) \<Longrightarrow> s \<in> set ss"
  by (induction ss arbitrary: seen) (auto split: if_splits)

lemma onceEach_empty: "onceEach [] ss = [] \<longleftrightarrow> ss = []"
  by (cases ss) simp_all

lemma wireAnchors_empty: "wireAnchors [] is = [] \<longleftrightarrow> filter (\<lambda>i. i \<noteq> []) is = []"
proof -
  have "wireAnchors [] is = [] \<Longrightarrow> \<forall>i \<in> set is. i = []" by (induction "is") (auto split: if_splits)
  moreover have "\<forall>i \<in> set is. i = [] \<Longrightarrow> wireAnchors [] is = []" by (induction "is") auto
  ultimately show ?thesis by (auto simp: filter_empty_conv)
qed

lemma select_back:
  assumes "utf8 (slBranch sel)" "list_all (readsBack L multibase) (slHead sel # slClaim sel)"
    and "pred_option (list_all wireableStep) (slPath sel)"
  shows "unmarshalSelect (marshalSelect (newWireSelect L sel)) = decOk (newWireSelect L sel)"
    and "selectionOf (ParseId L multibase) (newWireSelect L sel) = Inr (sel\<lparr>slClaim := wireAnchors [] (slClaim sel)\<rparr>)"
proof -
  let ?ids = "onceEach [] (map (libIdString L) (filter (\<lambda>i. i \<noteq> []) (slClaim sel)))"
  have ids: "\<forall>s \<in> set ?ids. utf8 s"
    using assms(2) by (auto dest!: onceEach_in simp: readsBack_def list_all_iff)
  have head: "slHead sel = [] \<or> (utf8 (libIdString L (slHead sel)) \<and> ParseId L multibase (libIdString L (slHead sel)) = Inr (slHead sel))"
    using assms(2) by (simp add: readsBack_def)
  have steps: "unmarshalStep (marshalStep (newWireStep s)) = decOk (newWireStep s)" if "wireableStep s" for s
    by (intro unmarshal_step)
       (use that in \<open>auto simp: newWireStep_def wireableStep_def list_all_iff option.pred_set split: if_splits\<close>)
  show "unmarshalSelect (marshalSelect (newWireSelect L sel)) = decOk (newWireSelect L sel)"
    by (intro unmarshal_select)
       (use assms(1,3) ids head steps in \<open>auto simp: newWireSelect_def Let_def list_all_iff option.pred_set split: if_splits\<close>)
  have "\<forall>i \<in> set (slClaim sel). i = [] \<or> ParseId L multibase (libIdString L i) = Inr i"
    using assms(2) by (auto simp: readsBack_def list_all_iff)
  with anchors_back[of "slClaim sel" "ParseId L multibase" "libIdString L" "[]"]
  have "wireAnchorIds (ParseId L multibase) (if ?ids = [] then None else Some ?ids) = Inr (wireAnchors [] (slClaim sel))"
    by (auto simp: wireAnchorIds_def)
  moreover have "map (stepOf \<circ> newWireStep) steps = steps" for steps
    by (induction steps) (auto simp: stepOf_def newWireStep_def derefOr_def)
  ultimately show "selectionOf (ParseId L multibase) (newWireSelect L sel) = Inr (sel\<lparr>slClaim := wireAnchors [] (slClaim sel)\<rparr>)"
    using head by (cases sel; cases "slPath sel") (auto simp: selectionOf_def newWireSelect_def parseOptionalId_def Let_def)
qed

section \<open>The checks on what reads back\<close>

lemma operandOk_wire:
  assumes "operandOk check v = Inr ()" "pred_option utf8Value v"
  shows "operandOk check (map_option wireValue v) = Inr ()"
proof (cases v)
  case (Some x)
  then show ?thesis using assms by (cases x) (auto simp: operandOk_def utf8_def split: if_splits)
qed (simp add: operandOk_def)

lemma operators_wire: "operators (wireComparison c) = operators c"
  by (simp add: operators_def wireComparison_def)

lemma validateComparison_wire:
  assumes "validateComparison field c = Inr ()" "wireableComparison c"
  shows "validateComparison field (wireComparison c) = Inr ()"
proof (cases "timeOperandCheck field")
  case None
  then show ?thesis using assms(1) by (simp add: validateComparison_def operators_wire split: if_splits)
next
  case (Some check)
  have one: "length (filter id (operators c)) = 1" and glob: "cmGlob c = []"
    and ok: "\<forall>v \<in> set (scalarOperands c). operandOk check v = Inr ()"
      "\<forall>vs. cmIn c = Some vs \<longrightarrow> (\<forall>v \<in> set vs. operandOk check (Some v) = Inr ())"
    using assms(1) Some
    by (auto simp: validateComparison_def scalarOperands_def rbind_eq_Inr checkAll_Inr_iff split: if_splits)
  have "scalarOperands (wireComparison c) = map (map_option wireValue) (scalarOperands c)"
    by (simp add: scalarOperands_def wireComparison_def)
  then have "\<forall>v \<in> set (scalarOperands (wireComparison c)). operandOk check v = Inr ()"
    using ok(1) assms(2) operandOk_wire[of check] by (auto simp: wireableComparison_def list_all_iff)
  moreover have "\<forall>vs. cmIn (wireComparison c) = Some vs \<longrightarrow> (\<forall>v \<in> set vs. operandOk check (Some v) = Inr ())"
  proof (intro allI impI ballI)
    fix vs v assume "cmIn (wireComparison c) = Some vs" "v \<in> set vs"
    then obtain us u where u: "cmIn c = Some us" "u \<in> set us" "v = wireValue u" by (auto simp: wireComparison_def)
    then have "operandOk check (map_option wireValue (Some u)) = Inr ()"
      using ok(2) assms(2) by (intro operandOk_wire) (auto simp: wireableComparison_def list_all_iff)
    then show "operandOk check (Some v) = Inr ()" using u(3) by simp
  qed
  moreover have "cmGlob (wireComparison c) = []" using glob by (simp add: wireComparison_def)
  ultimately show ?thesis
    using one Some unfolding validateComparison_def operators_wire
    by (cases "cmIn (wireComparison c)") (simp_all add: scalarOperands_def rbind_eq_Inr checkAll_Inr_iff)
qed

lemma validateWhere_wire:
  assumes "validateWhere t = Inr ()" "wireableTree t"
  shows "validateWhere (wireTree t) = Inr ()"
  using assms
proof (induction t rule: newWireWhere.induct)
  case (1 ands ors neg field test)
  let ?t = "WhereTree ands ors neg field test"
  have forms: "whereForms (wireTree ?t) = whereForms ?t" "leafForm (wireTree ?t) = leafForm ?t"
    by (simp_all add: whereForms_def leafForm_def)
  have one: "whereForms ?t = 1" using "1.prems"(1) by (auto simp: Let_def split: if_splits)
  show ?case
  proof (cases "leafForm ?t")
    case True
    then obtain c where "field \<noteq> []" "test = Some c" "validateComparison field c = Inr ()"
      using "1.prems"(1) one by (auto simp: Let_def split: if_splits option.splits)
    then show ?thesis using True one forms validateComparison_wire "1.prems"(2) by (simp add: Let_def)
  next
    case False
    have subs: "\<forall>w \<in> set ands. validateWhere w = Inr ()" "\<forall>w \<in> set ors. validateWhere w = Inr ()"
        "\<forall>w. neg = Some w \<longrightarrow> validateWhere w = Inr ()"
      using "1.prems"(1) one False by (auto simp: Let_def rbind_eq_Inr checkAll_Inr_iff)
    have "\<forall>w \<in> set ands. validateWhere (wireTree w) = Inr ()" "\<forall>w \<in> set ors. validateWhere (wireTree w) = Inr ()"
        "\<forall>w. neg = Some w \<longrightarrow> validateWhere (wireTree w) = Inr ()"
      using "1.IH" one False subs "1.prems"(2) by (auto simp: list_all_iff)
    then show ?thesis
      using one False forms by (cases neg) (auto simp: Let_def rbind_eq_Inr checkAll_Inr_iff)
  qed
qed

lemma ValidateQuery_wire:
  assumes "ValidateQuery q = Inr ()" "pred_option wireableTree (qWhere q)"
  shows "ValidateQuery (wireForm q) = Inr ()"
proof -
  have "validateOutput (qOutput (wireForm q)) = Inr ()" if "validateOutput (qOutput q) = Inr ()"
    using that
    by (auto simp: wireForm_def validateOutput_def rbind_eq_Inr oneOf_def validateEnvelopeOutput_def split: if_splits option.splits)
  moreover have "validateWhere (wireTree t) = Inr ()" if "qWhere q = Some t" "validateWhere t = Inr ()" for t
    using validateWhere_wire that assms(2) by simp
  ultimately show ?thesis
    using assms(1) by (cases "qWhere q") (auto simp: ValidateQuery_def wireForm_def Let_def rbind_eq_Inr split: if_splits)
qed

section \<open>The text of a budget\<close>

definition ascii :: "string \<Rightarrow> bool" where "ascii = list_all (\<lambda>c. byte c < 128)"

lemma utf8Text_append: "ascii a \<Longrightarrow> utf8Text (a @ b) = a @ utf8Text b"
proof (induction a)
  case (Cons c a)
  then have "decodeRune (c # a @ b) = (byte c, 1)" "byte c < 128" by (simp_all add: decodeRune_def ascii_def)
  then show ?case using Cons by (simp add: utf8Text.simps[of "c # a @ b"] runeError_def ascii_def)
qed simp

lemma utf8Text_micro: "utf8Text (microSign @ b) = microSign @ utf8Text b"
proof -
  have "decodeRune (microSign @ b) = (181, 2)" by (simp add: decodeRune_def microSign_def byte_def cont_def)
  then show ?thesis by (subst utf8Text.simps) (simp add: runeError_def microSign_def numeral_2_eq_2)
qed

lemma digits_ascii: "list_all isDigit s \<Longrightarrow> ascii s"
  by (auto simp: ascii_def list_all_iff isDigit_def less_eq_char_def byte_def)

lemma decDigits_ascii: "0 \<le> n \<Longrightarrow> ascii (decDigits n)"
  using decDigits_digits[of n] by (auto intro: digits_ascii)

lemma fracText_ascii: "ascii (fracText p u)"
proof -
  obtain k where "fixedDigits p u = trimZeros (fixedDigits p u) @ replicate k (CHR ''0'')" using trimZeros_split by blast
  then have "list_all isDigit (trimZeros (fixedDigits p u))" using fixedDigits_digits[of p u] by (metis list_all_append)
  then show ?thesis using digits_ascii by (simp add: fracText_def Let_def ascii_def byte_def)
qed

lemma ascii_parts [simp]: "ascii [] " "ascii (a @ b) \<longleftrightarrow> ascii a \<and> ascii b" "ascii ''s''" "ascii ''ms''" "ascii ''ns''"
    "ascii ''m''" "ascii ''h''" "ascii ''0s''"
  by (simp_all add: ascii_def byte_def)

lemma utf8_duration:
  assumes "0 < d"
  shows "utf8 (durationText d)"
proof (cases "d < 1000000000")
  case True
  have dig: "ascii (decDigits n)" if "0 \<le> n" for n using decDigits_ascii[OF that] .
  have micro: "utf8Text (microSign @ ''s'') = microSign @ ''s''" by (simp add: utf8Text_micro utf8_ascii byte_def)
  have "utf8Text (decDigits (d div 1000) @ fracText 3 d @ microSign @ ''s'') = decDigits (d div 1000) @ fracText 3 d @ microSign @ ''s''"
    using assms dig[of "d div 1000"] fracText_ascii[of 3 d] micro by (simp add: utf8Text_append pos_imp_zdiv_nonneg_iff)
  moreover have "utf8Text (decDigits d @ ''ns'') = decDigits d @ ''ns''"
    using assms dig[of d] utf8_ascii[of "decDigits d @ ''ns''"] by (simp flip: ascii_def)
  moreover have "utf8Text (decDigits (d div 1000000) @ fracText 6 d @ ''ms'') = decDigits (d div 1000000) @ fracText 6 d @ ''ms''"
    using assms dig[of "d div 1000000"] fracText_ascii[of 6 d] utf8_ascii[of "decDigits (d div 1000000) @ fracText 6 d @ ''ms''"]
    by (simp add: pos_imp_zdiv_nonneg_iff flip: ascii_def)
  ultimately show ?thesis using True assms by (simp add: utf8_def durationText_def)
next
  case False
  then have le: "1000000000 \<le> d" by simp
  have "ascii (durationText d)"
    unfolding durationText_above[OF le] Let_def
    using assms by (auto simp: decDigits_ascii fracText_ascii pos_imp_zdiv_nonneg_iff)
  then show ?thesis using utf8_ascii by (simp add: utf8_def ascii_def)
qed

section \<open>Properties\<close>

lemma marshalled_objects: "marshalOutput a \<noteq> JTNull" "marshalLimit l \<noteq> JTNull" "marshalExecution e \<noteq> JTNull"
  by (simp_all add: marshalOutput_def marshalLimit_def marshalExecution_def)

lemma unmarshal_parts:
  assumes "unmarshalSelect (marshalSelect (wiSelect w)) = decOk (wiSelect w)"
    and "\<forall>(x, y) \<in> set_option wh. unmarshalWhere x = decOk y \<and> x \<noteq> JTNull"
    and "\<forall>x \<in> set_option (wiOutput w). unmarshalOutput (marshalOutput x) = decOk x"
    and "decAll unmarshalOrderKey (map marshalOrderKey (wiOrder w)) = decOk (wiOrder w)"
    and "\<forall>x \<in> set_option (wiLimit w). unmarshalLimit (marshalLimit x) = decOk x"
    and "\<forall>x \<in> set_option (wiExecution w). unmarshalExecution (marshalExecution x) = decOk x"
  shows "unmarshalQuery (JTObj ((''select'', marshalSelect (wiSelect w)) #
         (case wh of None \<Rightarrow> [] | Some (x, y) \<Rightarrow> [(''where'', x)]) @
         jptr ''output'' marshalOutput (wiOutput w) @
         jfield ''order'' (wiOrder w \<noteq> []) (JTArr (map marshalOrderKey (wiOrder w))) @
         jptr ''limit'' marshalLimit (wiLimit w) @ jptr ''execution'' marshalExecution (wiExecution w))) =
      decOk (w\<lparr>wiWhere := map_option snd wh\<rparr>)"
proof -
  have wh: "decFields setQuery names (case wh of None \<Rightarrow> [] | Some (x, y) \<Rightarrow> [(''where'', x)]) r =
      decOk (r\<lparr>wiWhere := map_option snd wh\<rparr>)"
    if "''where'' \<in> set names" "wiWhere r = None" for names r
    using assms(2) that by (cases wh) (auto simp: wire_simps setQuery_def)
  obtain sel wo out ord lim ex where w: "w = \<lparr>wiSelect = sel, wiWhere = wo, wiOutput = out, wiOrder = ord, wiLimit = lim, wiExecution = ex\<rparr>"
    by (cases w)
  have parts: "wiOutput r = None \<Longrightarrow> decFields setQuery names (jptr ''output'' marshalOutput out) r = decOk (r\<lparr>wiOutput := out\<rparr>)"
    "wiOrder r = [] \<Longrightarrow> decFields setQuery names (jfield ''order'' (ord \<noteq> []) (JTArr (map marshalOrderKey ord))) r = decOk (r\<lparr>wiOrder := ord\<rparr>)"
    "wiLimit r = None \<Longrightarrow> decFields setQuery names (jptr ''limit'' marshalLimit lim) r = decOk (r\<lparr>wiLimit := lim\<rparr>)"
    "wiExecution r = None \<Longrightarrow> decFields setQuery names (jptr ''execution'' marshalExecution ex) r = decOk (r\<lparr>wiExecution := ex\<rparr>)"
    if "{''output'', ''order'', ''limit'', ''execution''} \<subseteq> set names" for names r
    using that assms(3-6) marshalled_objects
    by (auto simp: wire_simps setQuery_def w split: option.split)
  show ?thesis
    using assms(1) unfolding unmarshalQuery_def w
    by (simp add: decFields_cons decFields_append parts wh setQuery_def)
qed

lemma unmarshal_query:
  assumes "marshalQuery (newWireQuery L q) = Inr j" "wireable L multibase q" "ValidateQuery q = Inr ()"
  shows "\<exists>wh. unmarshalQuery j = decOk ((newWireQuery L q)\<lparr>wiWhere := wh\<rparr>) \<and>
    (case wh of None \<Rightarrow> qWhere q = None | Some w \<Rightarrow> \<exists>t. qWhere q = Some t \<and> whereOf w = Inr (wireTree t))"
proof -
  let ?w = "newWireQuery L q"
  obtain ws where ws: "marshalOpt ''where'' marshalWhere (wiWhere ?w) = Inr ws"
      and j: "j = JTObj ((''select'', marshalSelect (wiSelect ?w)) # ws @
         jptr ''output'' marshalOutput (wiOutput ?w) @
         jfield ''order'' (wiOrder ?w \<noteq> []) (JTArr (map marshalOrderKey (wiOrder ?w))) @
         jptr ''limit'' marshalLimit (wiLimit ?w) @ jptr ''execution'' marshalExecution (wiExecution ?w))"
    using assms(1) by (auto simp: marshalQuery_def rbind_eq_Inr)
  have nonneg: "0 \<le> qLimitTime q" using assms(3) by (auto simp: ValidateQuery_def Let_def rbind_eq_Inr split: if_splits)
  have sel: "unmarshalSelect (marshalSelect (wiSelect ?w)) = decOk (wiSelect ?w)"
    using select_back(1)[of "qSelect q" L multibase] assms(2) by (simp add: wireable_def Let_def newWireQuery_def)
  have out: "unmarshalOutput (marshalOutput x) = decOk x" if "wiOutput ?w = Some x" for x
    using that assms(2)
    by (intro unmarshal_output)
       (cases "ouContent (qOutput q)"; auto simp: newWireQuery_def newWireOutput_def wireable_def Let_def utf8_nil split: if_splits)+
  have keys: "unmarshalOrderKey (marshalOrderKey x) = decOk x" if "x \<in> set (wiOrder ?w)" for x
    using that assms(2)
    by (intro unmarshal_orderKey) (auto simp: newWireQuery_def wireable_def Let_def list_all_iff)
  have ord: "decAll unmarshalOrderKey (map marshalOrderKey (wiOrder ?w)) = decOk (wiOrder ?w)"
    using decAll_map[of "wiOrder ?w" unmarshalOrderKey marshalOrderKey id, simplified] keys by blast
  have lim: "unmarshalLimit (marshalLimit x) = decOk x" if "wiLimit ?w = Some x" for x
    using that assms(2) nonneg
    by (intro unmarshal_limit) (auto simp: newWireQuery_def wireable_def Let_def utf8_duration split: if_splits)
  have ex: "unmarshalExecution (marshalExecution x) = decOk x" if "wiExecution ?w = Some x" for x
    using that assms(2)
    by (intro unmarshal_execution) (auto simp: newWireQuery_def wireable_def Let_def split: if_splits)
  obtain wh where wh: "ws = (case wh of None \<Rightarrow> [] | Some (x, w) \<Rightarrow> [(''where'', x)])"
      "case wh of None \<Rightarrow> qWhere q = None
        | Some (x, w) \<Rightarrow> unmarshalWhere x = decOk w \<and> x \<noteq> JTNull \<and> (\<exists>t. qWhere q = Some t \<and> whereOf w = Inr (wireTree t))"
  proof (cases "qWhere q")
    case (Some t)
    then obtain x where x: "marshalWhere (newWireWhere t) = Inr x" "ws = [(''where'', x)]"
      using ws by (auto simp: marshalOpt_def newWireQuery_def rbind_eq_Inr)
    obtain w where "unmarshalWhere x = decOk w" "whereOf w = Inr (wireTree t)"
      using where_back[OF x(1)] assms(2) Some by (auto simp: wireable_def Let_def)
    then show ?thesis using that[of "Some (x, w)"] x Some marshalWhere_object by auto
  qed (use ws that[of None] in \<open>auto simp: marshalOpt_def newWireQuery_def\<close>)
  have objects: "marshalOutput a \<noteq> JTNull" "marshalLimit l \<noteq> JTNull" "marshalExecution e \<noteq> JTNull" for a l e
    by (simp_all add: marshalOutput_def marshalLimit_def marshalExecution_def)
  have "unmarshalQuery j = decOk (?w\<lparr>wiWhere := map_option snd wh\<rparr>)"
    unfolding j wh(1) by (rule unmarshal_parts) (use sel out ord lim ex wh(2) objects in \<open>auto split: option.splits\<close>)
  then show ?thesis using wh(2) by (intro exI[of _ "map_option snd wh"]) (auto split: option.splits)
qed

lemma limit_back:
  assumes "0 \<le> qLimitTime q" "qLimitTime q < 2 ^ 63"
  shows "(case wiLimit (newWireQuery L q) of None \<Rightarrow> Inr (0, 0) | Some l \<Rightarrow> limitOf l) = Inr (qLimitResults q, qLimitTime q)"
  using ParseDuration_text[OF assms] by (simp add: newWireQuery_def limitOf_def derefOr_def)

lemma execution_back:
  assumes "qLayer q \<noteq> [] \<longrightarrow> \<not> blank (qLayer q)"
  shows "executionOf (wiExecution (newWireQuery L q)) = Inr (qLayer q, qReport q)"
  using assms by (simp add: newWireQuery_def executionOf_def)

lemma output_back:
  "(case wiOutput (newWireQuery L q) of None \<Rightarrow> noOutput | Some x \<Rightarrow> outputOf x) = qOutput (wireForm q)"
proof -
  have content: "map_option ((\<lambda>c. \<lparr>ocMax = wiMaxBytes c, ocOverflow = wiOverflow c\<rparr>) \<circ>
      (\<lambda>c. \<lparr>wiMaxBytes = ocMax c, wiOverflow = ocOverflow c\<rparr>)) oc = oc" for oc :: "outputContent option"
    by (cases oc) simp_all
  show ?thesis
    by (cases "qOutput q")
       (auto simp: newWireQuery_def newWireOutput_def noOutput_def outputOf_def wireForm_def option.map_comp content)
qed

lemma enums_back:
  assumes "ValidateQuery q = Inr ()" "w = (newWireQuery L q)\<lparr>wiWhere := x\<rparr>"
  shows "wireOnlyEnums w = (if qReport q \<in> {''error'', ''warn''} then Inl (QueryErr ErrQueryEnum) else Inr ())"
proof -
  have report: "oneOf (qReport q) [[], ''error'', ''warn'', ''info'', ''debug'', ''trace''] = Inr ()"
    using assms(1) by (auto simp: ValidateQuery_def Let_def rbind_eq_Inr split: if_splits)
  have "validateOutput (qOutput q) = Inr ()"
    using assms(1) by (auto simp: ValidateQuery_def Let_def rbind_eq_Inr split: if_splits)
  then have "oneOf (ouEncoding (qOutput q)) [[], ''native'', ''json'', ''cbor''] = Inr ()"
    by (auto simp: validateOutput_def rbind_eq_Inr)
  then have "(case wiOutput w of None \<Rightarrow> Inr () | Some x \<Rightarrow> oneOf (wiEncoding x) [[], ''json'', ''cbor'']) = Inr ()"
    using assms(2) by (auto simp: newWireQuery_def newWireOutput_def Let_def oneOf_def split: if_splits)
  moreover have "(case wiExecution w of None \<Rightarrow> Inr () | Some e \<Rightarrow> oneOf (wiReport e) [[], ''info'', ''debug'', ''trace'']) =
      (if qReport q \<in> {''error'', ''warn''} then Inl (QueryErr ErrQueryEnum) else Inr ())"
    using assms(2) report by (auto simp: newWireQuery_def oneOf_def split: if_splits)
  ultimately show ?thesis by (simp add: wireOnlyEnums_def)
qed

lemma query_back:
  assumes "marshalQuery (newWireQuery L q) = Inr j" "wireable L multibase q" "ValidateQuery q = Inr ()"
  shows "DecodeQuery L multibase j =
    (if qReport q \<in> {''error'', ''warn''} then Inl (QueryErr ErrQueryEnum) else Inr (wireForm q))"
proof -
  obtain wh where w: "unmarshalQuery j = decOk ((newWireQuery L q)\<lparr>wiWhere := wh\<rparr>)"
      and wh: "case wh of None \<Rightarrow> qWhere q = None | Some w \<Rightarrow> \<exists>t. qWhere q = Some t \<and> whereOf w = Inr (wireTree t)"
    using unmarshal_query[OF assms] by blast
  let ?w = "(newWireQuery L q)\<lparr>wiWhere := wh\<rparr>"
  have sel: "selectionOf (ParseId L multibase) (wiSelect ?w) = Inr (qSelect (wireForm q))"
    using select_back(2)[of "qSelect q" L multibase] assms(2)
    by (simp add: wireable_def Let_def newWireQuery_def wireForm_def)
  have tree: "(case wiWhere ?w of None \<Rightarrow> Inr None | Some t \<Rightarrow> rbind (whereOf t) (\<lambda>x. Inr (Some x))) = Inr (qWhere (wireForm q))"
    using wh by (cases wh) (auto simp: wireForm_def)
  have valid: "0 \<le> qLimitTime q" "qLayer q \<noteq> [] \<longrightarrow> \<not> blank (qLayer q)"
    using assms(3) by (auto simp: ValidateQuery_def Let_def rbind_eq_Inr split: if_splits)
  have limit: "(case wiLimit ?w of None \<Rightarrow> Inr (0, 0) | Some l \<Rightarrow> limitOf l) = Inr (qLimitResults q, qLimitTime q)"
    using limit_back[of q L] valid(1) assms(2) by (simp add: wireable_def Let_def)
  have exec: "executionOf (wiExecution ?w) = Inr (qLayer q, qReport q)"
    using execution_back[of q L] valid(2) by simp
  have out: "(case wiOutput ?w of None \<Rightarrow> noOutput | Some x \<Rightarrow> outputOf x) = qOutput (wireForm q)"
    using output_back[of L q] by simp
  have "map (\<lambda>k. \<lparr>okField = wiField k, okCompare = wiCompare k, okDir = wiOrderDir k\<rparr>) (wiOrder ?w) = qOrder q"
    by (simp add: newWireQuery_def o_def) (simp add: map_idI)
  moreover have "pred_option wireableTree (qWhere q)" using assms(2) by (simp add: wireable_def Let_def)
  moreover have "\<lparr>qSelect = qSelect (wireForm q), qWhere = qWhere (wireForm q), qOutput = qOutput (wireForm q), qOrder = qOrder q,
      qLimitResults = qLimitResults q, qLimitTime = qLimitTime q, qLayer = qLayer q, qReport = qReport q\<rparr> = wireForm q"
    by (cases q) (simp add: wireForm_def)
  ultimately show ?thesis
    unfolding DecodeQuery_def w queryOf_def decOk_def sum.case prod.case option.case sel tree limit exec out
      rbind_Inr
    using ValidateQuery_wire[OF assms(3)] enums_back[OF assms(3) refl, of wh L] by simp
qed

text \<open>
  Property C28 (query_roundtrip): a query the wire can carry, encoded, decodes to the query it
  started as, with repeated and nil anchors dropped, the native encoding left unset and numbers and
  times in the form JSON has; only a report level of error or warn, which encodes, is refused.
\<close>

theorem query_roundtrip:
  assumes "wireable L multibase q" "EncodeQuery L q = Inr j"
  shows "DecodeQuery L multibase j =
    (if qReport q \<in> {''error'', ''warn''} then Inl (QueryErr ErrQueryEnum) else Inr (wireForm q))"
proof -
  have "ValidateQuery q = Inr ()" "marshalQuery (newWireQuery L q) = Inr j"
    using assms(2) by (auto simp: EncodeQuery_def rbind_eq_Inr)
  then show ?thesis using query_back assms(1) by blast
qed

definition sampleQuery :: query where
  "sampleQuery =
     \<lparr>qSelect = \<lparr>slBranch = ''main'', slHead = ''hD'', slClaim = [''hA'', [], ''hB'', ''hA''], slPath = Some []\<rparr>,
      qWhere = Some (WhereTree [] [] None ''type'' (Some (noComparison\<lparr>cmIn := Some [VStr ''note'', VInt 7]\<rparr>))),
      qOutput = \<lparr>ouShape = [], ouDetail = ''claims'', ouForm = [], ouContent = None, ouEncoding = ''native''\<rparr>,
      qOrder = [\<lparr>okField = ''time'', okCompare = [], okDir = []\<rparr>], qLimitResults = 10, qLimitTime = 90000000000,
      qLayer = ''cold'', qReport = ''debug''\<rparr>"

lemma sample_wireable: "wireable graphLib Inr sampleQuery"
  by (simp add: wireable_def sampleQuery_def readsBack_def utf8_def utf8_ascii byte_def ParseId_def idFromBytes_def
      graphLib_def tableLib_def goInt_def wireableComparison_def operators_def noComparison_def scalarOperands_def)

lemma not_blank_cold: "\<not> blank ''cold''"
  by (subst blank.simps) (simp add: decodeRune_def isSpaceRune_def byte_def)

lemma sample_valid: "ValidateQuery sampleQuery = Inr ()"
  by (simp add: ValidateQuery_def sampleQuery_def not_blank_cold BranchUniverse_def whereForms_def leafForm_def
      validateComparison_def timeOperandCheck_def operators_def noComparison_def validateOutput_def
      validateEnvelopeOutput_def validateOrderKey_def oneOf_def)

lemma query_roundtrip_witness:
  "\<exists>j. EncodeQuery graphLib sampleQuery = Inr j \<and> DecodeQuery graphLib Inr j = Inr (wireForm sampleQuery)"
proof -
  have "\<exists>j. marshalQuery (newWireQuery graphLib sampleQuery) = Inr j"
    by (simp add: marshalQuery_def newWireQuery_def marshalOpt_def sampleQuery_def newWireComparison_def noComparison_def
        marshalComparison_def)
  then obtain j where j: "EncodeQuery graphLib sampleQuery = Inr j" by (auto simp: EncodeQuery_def sample_valid)
  have "qReport sampleQuery = ''debug''" by (simp add: sampleQuery_def)
  with query_roundtrip[OF sample_wireable j] j show ?thesis by auto
qed

end
