(* ===== verification/Wire.thy ===== *)
theory Wire
  imports Contribution Utf8
begin

text \<open>
  The wire form of a contribution (\<open>codec_wire.go\<close>): the constraints a stream declares and
  how two declarations compose, the writer and the reader. The CBOR library is the record
  \<open>cborLib\<close>: a record of the stream is the list of its raw elements, each read on its own.
\<close>

section \<open>Declared constraints\<close>

record wireConstraints =
  wcBranches :: "string list"
  wcReferencable :: "string list"
  wcLifted :: "string list"
  wcCreatable :: "string list"

definition noConstraints :: wireConstraints where
  "noConstraints = \<lparr>wcBranches = [], wcReferencable = [], wcLifted = [], wcCreatable = []\<rparr>"

text \<open>The entries both lists carry, in the order of the first, each once.\<close>

definition intersect :: "string list \<Rightarrow> string list \<Rightarrow> string list" where
  "intersect a b = fold (\<lambda>s out. if s \<in> set b \<and> s \<notin> set out then out @ [s] else out) a []"

text \<open>Read scopes, the widest first.\<close>

definition narrowScopes :: "string list \<Rightarrow> string list \<Rightarrow> string list" where
  "narrowScopes a b =
     (if BranchUniverse \<in> set a then b
      else if BranchUniverse \<in> set b then a
      else if BranchArchive \<in> set a then b
      else if BranchArchive \<in> set b then a
      else intersect a b)"

definition Narrow :: "wireConstraints \<Rightarrow> wireConstraints \<Rightarrow> wireConstraints" where
  "Narrow w v =
     \<lparr>wcBranches = intersect (wcBranches w) (wcBranches v),
      wcReferencable = narrowScopes (wcReferencable w) (wcReferencable v),
      wcLifted = intersect (wcLifted w) (wcLifted v),
      wcCreatable = intersect (wcCreatable w) (wcCreatable v)\<rparr>"

text \<open>\<open>Options\<close>: the declarations as the options a contribution opens under.\<close>

definition wireOptions :: "wireConstraints \<Rightarrow> (constraints \<Rightarrow> constraints) list" where
  "wireOptions w =
     [WithReferencableBranches (wcReferencable w)] @
     (if wcLifted w = [] then [] else [WithLiftedTypes (wcLifted w)]) @
     (if wcCreatable w = [] then [] else [WithCreatableBranches (wcCreatable w)])"

section \<open>Records\<close>

abbreviation "WireClaim \<equiv> (0 :: u64)"
abbreviation "WireContent \<equiv> (1 :: u64)"
abbreviation "WireBranches \<equiv> (2 :: u64)"
abbreviation "WireReferencable \<equiv> (3 :: u64)"
abbreviation "WireLifted \<equiv> (4 :: u64)"
abbreviation "WireCreatable \<equiv> (5 :: u64)"

definition constraintKind :: "u64 \<Rightarrow> bool" where
  "constraintKind k = (k \<in> {WireBranches, WireReferencable, WireLifted, WireCreatable})"

text \<open>The elements the writer puts in a record.\<close>

datatype wireVal = WvUint u64 | WvBytes bytes | WvText string | WvTexts "string list"

text \<open>
  The library: the canonical bytes of a record; \<open>Decoder.Decode\<close>, which takes the next record off
  the input and answers its raw elements with what is left, or end of file; and \<open>Unmarshal\<close> of one
  raw element into each of the types read.
\<close>

record cborLib =
  cbMarshal :: "wireVal list \<Rightarrow> bytes result"
  cbDecode :: "bytes \<Rightarrow> (bytes list \<times> bytes) option result"
  cbUint :: "bytes \<Rightarrow> u64 result"
  cbBytes :: "bytes \<Rightarrow> bytes result"
  cbText :: "bytes \<Rightarrow> string result"
  cbTexts :: "bytes \<Rightarrow> string list result"

text \<open>A decoded record, under the kind it has.\<close>

datatype wireRecord = RecClaim claim string | RecContent ident bytes

section \<open>The writer\<close>

text \<open>The state of the \<open>io.Writer\<close> is of any type; \<open>put\<close> is its method.\<close>

record 's wireWriter =
  wtW :: 's
  wtCons :: wireConstraints
  wtHeaded :: bool

definition NewWireWriter :: "'s \<Rightarrow> wireConstraints \<Rightarrow> 's wireWriter" where
  "NewWireWriter w cons = \<lparr>wtW = w, wtCons = cons, wtHeaded = False\<rparr>"

type_synonym 's sink = "'s \<Rightarrow> bytes \<Rightarrow> 's \<times> unit result"

definition wireMarshal :: "cborLib \<Rightarrow> 's sink \<Rightarrow> 's wireWriter \<Rightarrow> wireVal list \<Rightarrow> 's wireWriter \<times> unit result" where
  "wireMarshal W put t rec =
     (case cbMarshal W rec of
        Inl e \<Rightarrow> (t, Inl (Wrap (ContribErr ErrWire) e))
      | Inr b \<Rightarrow> (case put (wtW t) b of (w, r) \<Rightarrow> (t\<lparr>wtW := w\<rparr>, wrapping (ContribErr ErrWire) r)))"

fun marshalAll :: "cborLib \<Rightarrow> 's sink \<Rightarrow> 's wireWriter \<Rightarrow> wireVal list list \<Rightarrow> 's wireWriter \<times> unit result" where
  "marshalAll W put t [] = (t, Inr ())"
| "marshalAll W put t (rec # recs) =
     (case wireMarshal W put t rec of
        (t', Inl e) \<Rightarrow> (t', Inl e)
      | (t', Inr _) \<Rightarrow> marshalAll W put t' recs)"

text \<open>The two required declarations are written even when empty.\<close>

definition headerOf :: "wireConstraints \<Rightarrow> wireVal list list" where
  "headerOf c =
     [[WvUint WireBranches, WvTexts (wcBranches c)], [WvUint WireReferencable, WvTexts (wcReferencable c)]] @
     (if wcLifted c = [] then [] else [[WvUint WireLifted, WvTexts (wcLifted c)]]) @
     (if wcCreatable c = [] then [] else [[WvUint WireCreatable, WvTexts (wcCreatable c)]])"

definition wireWrite :: "cborLib \<Rightarrow> 's sink \<Rightarrow> 's wireWriter \<Rightarrow> wireVal list \<Rightarrow> 's wireWriter \<times> unit result" where
  "wireWrite W put t rec =
     (if wtHeaded t then wireMarshal W put t rec
      else marshalAll W put (t\<lparr>wtHeaded := True\<rparr>) (headerOf (wtCons t) @ [rec]))"

definition WriteClaim ::
    "cborLib \<Rightarrow> 's sink \<Rightarrow> 's wireWriter \<Rightarrow> string \<Rightarrow> claim option \<Rightarrow> 's wireWriter \<times> unit result" where
  "WriteClaim W put t b oc =
     (case oc of
        None \<Rightarrow> (t, Inl (BuildErr errNilClaim))
      | Some c \<Rightarrow>
          if ID c = [] then (t, Inl (BuildErr errNilClaim))
          else if b = [] then (t, Inl (ContribErr ErrWireNoBranch))
          else if b \<notin> set (wcBranches (wtCons t)) then (t, Inl (ContribErr ErrWireUndeclared))
          else (case Envelope c of
              Inl e \<Rightarrow> (t, Inl e)
            | Inr raw \<Rightarrow> wireWrite W put t [WvUint WireClaim, WvBytes (ID c), WvBytes raw, WvText b]))"

definition WriteContent ::
    "cborLib \<Rightarrow> 's sink \<Rightarrow> 's wireWriter \<Rightarrow> ident option \<times> bytes \<Rightarrow> 's wireWriter \<times> unit result" where
  "WriteContent W put t blob =
     (case fst blob of
        None \<Rightarrow> (t, Inl (BuildErr errNilHash))
      | Some h \<Rightarrow> wireWrite W put t [WvUint WireContent, WvBytes h, WvBytes (snd blob)])"

section \<open>The reader\<close>

text \<open>The error is the first that stopped the stream; the record the last one \<open>Next\<close> decoded.\<close>

record wireReader =
  rdIn :: bytes
  rdRec :: "wireRecord option"
  rdErr :: "err option"
  rdCons :: wireConstraints
  rdPending :: "bytes list option"
  rdHeaded :: bool

definition NewWireReader :: "bytes \<Rightarrow> wireReader" where
  "NewWireReader r =
     \<lparr>rdIn = r, rdRec = None, rdErr = None, rdCons = noConstraints, rdPending = None, rdHeaded = False\<rparr>"

text \<open>A record takes at least one byte of the input.\<close>

definition wireDecode :: "cborLib \<Rightarrow> bytes \<Rightarrow> (bytes list \<times> bytes) option result" where
  "wireDecode W s =
     wrapping (ContribErr ErrWire)
       (rbind (cbDecode W s) (\<lambda>r.
          case r of
            None \<Rightarrow> Inr None
          | Some (raw, rest) \<Rightarrow> if length rest < length s then Inr r else Inl (LibErr ''cbor'')))"

definition wireKindOf :: "cborLib \<Rightarrow> bytes list \<Rightarrow> u64 result" where
  "wireKindOf W raw =
     (case raw of
        [] \<Rightarrow> Inl (ContribErr ErrWire)
      | k # _ \<Rightarrow> wrapping (ContribErr ErrWire) (cbUint W k))"

text \<open>Where a kind's declaration is held, and how a repeat of it merges.\<close>

definition slotMerge :: "u64 \<Rightarrow> string list \<Rightarrow> string list \<Rightarrow> string list" where
  "slotMerge k = (if k = WireReferencable then narrowScopes else intersect)"

definition onSlot :: "u64 \<Rightarrow> (string list \<Rightarrow> string list) \<Rightarrow> wireConstraints \<Rightarrow> wireConstraints" where
  "onSlot k f c =
     (if k = WireBranches then c\<lparr>wcBranches := f (wcBranches c)\<rparr>
      else if k = WireReferencable then c\<lparr>wcReferencable := f (wcReferencable c)\<rparr>
      else if k = WireCreatable then c\<lparr>wcCreatable := f (wcCreatable c)\<rparr>
      else c\<lparr>wcLifted := f (wcLifted c)\<rparr>)"

definition readConstraint ::
    "cborLib \<Rightarrow> u64 \<Rightarrow> bytes list \<Rightarrow> u64 list \<Rightarrow> wireConstraints \<Rightarrow> wireConstraints result" where
  "readConstraint W k raw seen c =
     (case raw of
        _ # l # _ \<Rightarrow>
          rbind (wrapping (ContribErr ErrWire) (cbTexts W l)) (\<lambda>list.
            Inr (onSlot k (\<lambda>old. if k \<in> set seen then slotMerge k old list else list) c))
      | _ \<Rightarrow> Inl (ContribErr ErrWire))"

definition failed :: "wireReader \<Rightarrow> err \<Rightarrow> wireReader \<times> unit result" where
  "failed r e = (r\<lparr>rdErr := Some e\<rparr>, Inl e)"

text \<open>Both required declarations, unless the stream is empty.\<close>

definition closeHeader :: "wireReader \<Rightarrow> u64 list \<Rightarrow> wireReader \<times> unit result" where
  "closeHeader r seen =
     (if seen = [] \<and> rdPending r = None then (r, Inr ())
      else if WireBranches \<notin> set seen \<or> WireReferencable \<notin> set seen
      then failed r (ContribErr ErrWireNoHeader)
      else (r, Inr ()))"

lemma wireDecode_shorter: "wireDecode W s = Inr (Some (raw, rest)) \<Longrightarrow> length rest < length s"
  by (auto simp: wireDecode_def rbind_eq_Inr split: option.splits if_splits)

function readHeader :: "cborLib \<Rightarrow> wireReader \<Rightarrow> u64 list \<Rightarrow> wireReader \<times> unit result" where
  "readHeader W r seen =
     (case wireDecode W (rdIn r) of
        Inl e \<Rightarrow> failed r e
      | Inr None \<Rightarrow> closeHeader r seen
      | Inr (Some (raw, rest)) \<Rightarrow>
          (case wireKindOf W raw of
             Inl e \<Rightarrow> failed (r\<lparr>rdIn := rest\<rparr>) e
           | Inr k \<Rightarrow>
               if \<not> constraintKind k then closeHeader (r\<lparr>rdIn := rest, rdPending := Some raw\<rparr>) seen
               else (case readConstraint W k raw seen (rdCons r) of
                   Inl e \<Rightarrow> failed (r\<lparr>rdIn := rest\<rparr>) e
                 | Inr c \<Rightarrow> readHeader W (r\<lparr>rdIn := rest, rdCons := c\<rparr>) (k # seen))))"
  by pat_completeness auto
termination
  by (relation "measure (\<lambda>(W, r, seen). length (rdIn r))") (auto dest: wireDecode_shorter)

declare readHeader.simps [simp del]

definition readConstraints :: "cborLib \<Rightarrow> wireReader \<Rightarrow> wireReader \<times> unit result" where
  "readConstraints W r =
     (if rdHeaded r then (r, case rdErr r of None \<Rightarrow> Inr () | Some e \<Rightarrow> Inl e)
      else readHeader W (r\<lparr>rdHeaded := True\<rparr>) [])"

definition Constraints :: "cborLib \<Rightarrow> wireReader \<Rightarrow> wireReader \<times> wireConstraints result" where
  "Constraints W r =
     (case readConstraints W r of
        (r', Inl e) \<Rightarrow> (r', Inl e)
      | (r', Inr _) \<Rightarrow> (r', Inr (rdCons r')))"

definition keyPayload :: "cborLib \<Rightarrow> lib \<Rightarrow> bytes \<Rightarrow> bytes \<Rightarrow> (ident \<times> bytes) result" where
  "keyPayload W L rawKey rawPayload =
     wrapping (ContribErr ErrWire)
       (rbind (cbBytes W rawKey) (\<lambda>k.
        rbind (cbBytes W rawPayload) (\<lambda>payload.
        rbind (idFromBytes L k) (\<lambda>key. Inr (key, payload)))))"

text \<open>The branch of a claim must be one the header declared.\<close>

definition readClaim ::
    "cborLib \<Rightarrow> lib \<Rightarrow> wireConstraints \<Rightarrow> bytes list \<Rightarrow> ident \<Rightarrow> bytes \<Rightarrow> wireRecord result" where
  "readClaim W L cons raw key payload =
     (if length raw < 4 then Inl (ContribErr ErrWireNoBranch)
      else
        rbind (wrapping (ContribErr ErrWire) (cbText W (raw ! 3))) (\<lambda>b.
          if b = [] then Inl (ContribErr ErrWireNoBranch)
          else if b \<notin> set (wcBranches cons) then Inl (ContribErr ErrWireUndeclared)
          else rbind (wrapping (ContribErr ErrWire) (DecodeClaim L key payload)) (\<lambda>c. Inr (RecClaim c b))))"

text \<open>The bytes of content must hash to the key.\<close>

definition readContent :: "lib \<Rightarrow> ident \<Rightarrow> bytes \<Rightarrow> wireRecord result" where
  "readContent L key payload =
     rbind (wrapping (ContribErr ErrWire) (hashContent L payload)) (\<lambda>sum.
       if sum \<noteq> key then Inl (StoreErr ErrIntegrity) else Inr (RecContent key payload))"

text \<open>One payload record.\<close>

definition payloadRecord :: "cborLib \<Rightarrow> lib \<Rightarrow> wireConstraints \<Rightarrow> bytes list \<Rightarrow> wireRecord result" where
  "payloadRecord W L cons raw =
     rbind (wireKindOf W raw) (\<lambda>k.
       if constraintKind k then Inl (ContribErr ErrWireLateConstraint)
       else if k \<noteq> WireClaim \<and> k \<noteq> WireContent then Inl (ContribErr ErrWireKind)
       else if length raw < 3 then Inl (ContribErr ErrWire)
       else rbind (keyPayload W L (raw ! 1) (raw ! 2)) (\<lambda>(key, payload).
         if k = WireClaim then readClaim W L cons raw key payload else readContent L key payload))"

definition nextRaw :: "cborLib \<Rightarrow> wireReader \<Rightarrow> (bytes list \<times> bytes) option result" where
  "nextRaw W r = (case rdPending r of Some raw \<Rightarrow> Inr (Some (raw, rdIn r)) | None \<Rightarrow> wireDecode W (rdIn r))"

definition Next :: "cborLib \<Rightarrow> lib \<Rightarrow> wireReader \<Rightarrow> wireReader \<times> bool" where
  "Next W L r =
     (case readConstraints W r of
        (r1, Inl _) \<Rightarrow> (r1, False)
      | (r1, Inr _) \<Rightarrow>
          (case nextRaw W r1 of
             Inl e \<Rightarrow> (r1\<lparr>rdErr := Some e\<rparr>, False)
           | Inr None \<Rightarrow> (r1, False)
           | Inr (Some (raw, rest)) \<Rightarrow>
               (let r2 = r1\<lparr>rdPending := None, rdIn := rest\<rparr> in
                  case payloadRecord W L (rdCons r2) raw of
                    Inl e \<Rightarrow> (r2\<lparr>rdErr := Some e\<rparr>, False)
                  | Inr rec \<Rightarrow> (r2\<lparr>rdRec := Some rec\<rparr>, True))))"

section \<open>Narrowing\<close>

lemma intersect_set: "set (intersect a b) = set a \<inter> set b"
proof -
  have "set (fold (\<lambda>s out. if s \<in> set b \<and> s \<notin> set out then out @ [s] else out) a out) = set out \<union> (set a \<inter> set b)" for out
    by (induction a arbitrary: out) auto
  then show ?thesis by (simp add: intersect_def)
qed

text \<open>What a list of read scopes lets a contribution read, and a list of creations bring into being.\<close>

definition mayRead :: "string list \<Rightarrow> string \<Rightarrow> bool" where
  "mayRead l s \<longleftrightarrow> BranchUniverse \<in> set l \<or> (BranchArchive \<in> set l \<and> s \<noteq> BranchUniverse) \<or> s \<in> set l"

definition mayCreate :: "string list \<Rightarrow> string \<Rightarrow> bool" where
  "mayCreate l b \<longleftrightarrow> b \<in> set l \<or> TargetBranches \<in> set l"

lemma narrowScopes_reads: "mayRead (narrowScopes a b) s \<longleftrightarrow> mayRead a s \<and> mayRead b s"
  by (auto simp: mayRead_def narrowScopes_def intersect_set)

text \<open>
  Property C22 (narrow_meets): two declarations narrow to what both permit: the branches written, the
  scopes read (under the order universe, archive, branch) and the types lifted. Only for the branches
  created is the result less: where one side alone grants every branch, a name the other grants is lost.
\<close>

theorem narrow_meets:
  "set (wcBranches (Narrow w v)) = set (wcBranches w) \<inter> set (wcBranches v) \<and>
   set (wcLifted (Narrow w v)) = set (wcLifted w) \<inter> set (wcLifted v) \<and>
   (\<forall>s. mayRead (wcReferencable (Narrow w v)) s = (mayRead (wcReferencable w) s \<and> mayRead (wcReferencable v) s)) \<and>
   (\<forall>b. mayCreate (wcCreatable (Narrow w v)) b =
      (mayCreate (wcCreatable w) b \<and> mayCreate (wcCreatable v) b \<and>
       ((TargetBranches \<in> set (wcCreatable w)) = (TargetBranches \<in> set (wcCreatable v)) \<or>
        b \<in> set (wcCreatable w) \<inter> set (wcCreatable v))))"
  by (auto simp: Narrow_def intersect_set narrowScopes_reads mayCreate_def)

lemma options_open:
  "NewConstraints (wireOptions w) =
     \<lparr>csLifted = wcLifted w, csReferencable = wcReferencable w, csCreatable = wcCreatable w\<rparr>"
  by (simp add: NewConstraints_def wireOptions_def WithReferencableBranches_def WithLiftedTypes_def WithCreatableBranches_def)

section \<open>What is written reads back\<close>

text \<open>
  What the code relies on of the library: a record it wrote is the next one it decodes, its elements
  read back, and an empty input is the end of file. Texts must be UTF-8, and a list at most as long as
  the decoder takes.
\<close>

fun cborPlain :: "wireVal \<Rightarrow> bool" where
  "cborPlain (WvUint n) = True"
| "cborPlain (WvBytes b) = True"
| "cborPlain (WvText s) = utf8 s"
| "cborPlain (WvTexts ss) = (list_all utf8 ss \<and> length ss \<le> 131072)"

fun cborReads :: "cborLib \<Rightarrow> wireVal \<Rightarrow> bytes \<Rightarrow> bool" where
  "cborReads W (WvUint n) raw = (cbUint W raw = Inr n)"
| "cborReads W (WvBytes b) raw = (cbBytes W raw = Inr b)"
| "cborReads W (WvText s) raw = (cbText W raw = Inr s)"
| "cborReads W (WvTexts ss) raw = (cbTexts W raw = Inr ss)"

definition cborLaws :: "cborLib \<Rightarrow> bool" where
  "cborLaws W \<longleftrightarrow>
     cbDecode W [] = Inr None \<and>
     (\<forall>rec b rest. list_all cborPlain rec \<longrightarrow> cbMarshal W rec = Inr b \<longrightarrow>
        b \<noteq> [] \<and> (\<exists>raw. cbDecode W (b @ rest) = Inr (Some (raw, rest)) \<and> list_all2 (cborReads W) rec raw))"

text \<open>A stream that holds these records.\<close>

definition encodes :: "cborLib \<Rightarrow> wireVal list list \<Rightarrow> bytes \<Rightarrow> bool" where
  "encodes W recs s \<longleftrightarrow> (\<exists>bs. list_all2 (\<lambda>rec b. cbMarshal W rec = Inr b) recs bs \<and> s = concat bs)"

lemma encodes_nil [simp]: "encodes W [] s \<longleftrightarrow> s = []"
  by (simp add: encodes_def)

lemma encodes_append: "encodes W xs s \<Longrightarrow> encodes W ys t \<Longrightarrow> encodes W (xs @ ys) (s @ t)"
  unfolding encodes_def by (elim exE conjE, rename_tac bs cs, rule_tac x = "bs @ cs" in exI) (simp add: list_all2_appendI)

lemma decode_end: "cborLaws W \<Longrightarrow> wireDecode W [] = Inr None"
  by (simp add: cborLaws_def wireDecode_def)

lemma decode_next:
  assumes "cborLaws W" "encodes W (rec # recs) s" "list_all cborPlain rec"
  obtains raw rest where "wireDecode W s = Inr (Some (raw, rest))" "list_all2 (cborReads W) rec raw" "encodes W recs rest"
proof -
  obtain b bs where b: "cbMarshal W rec = Inr b" "list_all2 (\<lambda>rec b. cbMarshal W rec = Inr b) recs bs" "s = b @ concat bs"
    using assms(2) by (auto simp: encodes_def list_all2_Cons1)
  moreover obtain raw where "b \<noteq> []" "cbDecode W (b @ concat bs) = Inr (Some (raw, concat bs))" "list_all2 (cborReads W) rec raw"
    using assms(1,3) b(1) unfolding cborLaws_def by blast
  ultimately show thesis using that[of raw "concat bs"] by (auto simp: wireDecode_def encodes_def)
qed

definition appendSink :: "bytes sink" where "appendSink s b = (s @ b, Inr ())"

lemma wireMarshal_appends:
  "wireMarshal W appendSink t rec = (t', Inr ()) \<longleftrightarrow> (\<exists>b. cbMarshal W rec = Inr b \<and> t' = t\<lparr>wtW := wtW t @ b\<rparr>)"
  by (auto simp: wireMarshal_def appendSink_def split: sum.split)

lemma marshalAll_appends:
  assumes "marshalAll W appendSink t recs = (t', Inr ())"
  shows "\<exists>s. encodes W recs s \<and> t' = t\<lparr>wtW := wtW t @ s\<rparr>"
  using assms
proof (induction recs arbitrary: t)
  case (Cons rec recs)
  obtain b where b: "cbMarshal W rec = Inr b" "marshalAll W appendSink (t\<lparr>wtW := wtW t @ b\<rparr>) recs = (t', Inr ())"
    using Cons.prems by (auto split: prod.splits sum.splits simp: wireMarshal_appends)
  obtain s where "encodes W recs s" "t' = t\<lparr>wtW := wtW t @ b @ s\<rparr>" using Cons.IH[OF b(2)] by auto
  moreover have "encodes W [rec] b" using b(1) by (auto simp: encodes_def list_all2_Cons1)
  ultimately show ?case using encodes_append[of W "[rec]" b recs s] by auto
qed simp

text \<open>The records of a stream, and the client's loops over it.\<close>

fun recordVals :: "wireRecord \<Rightarrow> wireVal list" where
  "recordVals (RecClaim c b) =
     [WvUint WireClaim, WvBytes (ID c), WvBytes (case claimRaw c of None \<Rightarrow> [] | Some raw \<Rightarrow> raw), WvText b]"
| "recordVals (RecContent h bs) = [WvUint WireContent, WvBytes h, WvBytes bs]"

fun writeRecord :: "cborLib \<Rightarrow> 's sink \<Rightarrow> 's wireWriter \<Rightarrow> wireRecord \<Rightarrow> 's wireWriter \<times> unit result" where
  "writeRecord W put t (RecClaim c b) = WriteClaim W put t b (Some c)"
| "writeRecord W put t (RecContent h bs) = WriteContent W put t (Some h, bs)"

fun writeRecords :: "cborLib \<Rightarrow> 's sink \<Rightarrow> 's wireWriter \<Rightarrow> wireRecord list \<Rightarrow> 's wireWriter \<times> unit result" where
  "writeRecords W put t [] = (t, Inr ())"
| "writeRecords W put t (rec # recs) =
     (case writeRecord W put t rec of
        (t', Inl e) \<Rightarrow> (t', Inl e)
      | (t', Inr _) \<Rightarrow> writeRecords W put t' recs)"

definition readerSize :: "wireReader \<Rightarrow> nat" where
  "readerSize r = 2 * length (rdIn r) + (case rdPending r of None \<Rightarrow> 0 | Some _ \<Rightarrow> 1)"

text \<open>The ways the header can end.\<close>

lemma readHeader_induct [case_names failing closing pending more]:
  assumes "\<And>r seen rest e. length rest \<le> length (rdIn r) \<Longrightarrow> P r seen (failed (r\<lparr>rdIn := rest\<rparr>) e)"
    and "\<And>r seen. P r seen (closeHeader r seen)"
    and "\<And>r seen raw rest. length rest < length (rdIn r) \<Longrightarrow>
      P r seen (closeHeader (r\<lparr>rdIn := rest, rdPending := Some raw\<rparr>) seen)"
    and "\<And>r seen raw rest k c. length rest < length (rdIn r) \<Longrightarrow> constraintKind k \<Longrightarrow>
      readConstraint W k raw seen (rdCons r) = Inr c \<Longrightarrow>
      P (r\<lparr>rdIn := rest, rdCons := c\<rparr>) (k # seen) (readHeader W (r\<lparr>rdIn := rest, rdCons := c\<rparr>) (k # seen)) \<Longrightarrow>
      P r seen (readHeader W (r\<lparr>rdIn := rest, rdCons := c\<rparr>) (k # seen))"
  shows "P r seen (readHeader W r seen)"
proof (induction "length (rdIn r)" arbitrary: r seen rule: less_induct)
  case less
  show ?case
  proof (cases "wireDecode W (rdIn r)")
    case (Inl e)
    then show ?thesis using assms(1)[of "rdIn r" r seen e] by (simp add: readHeader.simps[of W r])
  next
    case d: (Inr d)
    show ?thesis
    proof (cases d)
      case (Some p)
      obtain raw rest where p: "d = Some (raw, rest)" using Some by (cases p) simp
      have short: "length rest < length (rdIn r)" using d p wireDecode_shorter by blast
      show ?thesis
      proof (cases "wireKindOf W raw")
        case (Inl e)
        then show ?thesis using assms(1)[of rest r seen e] short by (simp add: readHeader.simps[of W r] d p)
      next
        case k: (Inr k)
        show ?thesis
        proof (cases "constraintKind k")
          case True
          have again: "P (r\<lparr>rdIn := rest, rdCons := c\<rparr>) (k # seen) (readHeader W (r\<lparr>rdIn := rest, rdCons := c\<rparr>) (k # seen))" for c
            using less[of "r\<lparr>rdIn := rest, rdCons := c\<rparr>" "k # seen"] short by simp
          show ?thesis
          proof (cases "readConstraint W k raw seen (rdCons r)")
            case (Inr c)
            then show ?thesis using k d p True assms(4)[OF short True Inr again] by (simp add: readHeader.simps[of W r])
          qed (use k d p True short assms(1)[of rest r seen] in \<open>simp add: readHeader.simps[of W r]\<close>)
        qed (use k d p assms(3)[OF short, of seen raw] in \<open>simp add: readHeader.simps[of W r]\<close>)
      qed
    qed (use d assms(2)[of r seen] in \<open>simp add: readHeader.simps[of W r]\<close>)
  qed
qed

lemma closeHeader_frame [simp]:
  "rdIn (fst (closeHeader r seen)) = rdIn r" "rdPending (fst (closeHeader r seen)) = rdPending r"
  "rdRec (fst (closeHeader r seen)) = rdRec r" "rdCons (fst (closeHeader r seen)) = rdCons r"
  "rdHeaded (fst (closeHeader r seen)) = rdHeaded r"
  by (auto simp: closeHeader_def failed_def)

lemma readHeader_size: "readerSize (fst (readHeader W r seen)) \<le> readerSize r"
  by (rule readHeader_induct[where P = "\<lambda>r seen x. readerSize (fst x) \<le> readerSize r"])
     (auto simp: readerSize_def failed_def split: option.split)

lemma Next_shorter: "Next W L r = (r', True) \<Longrightarrow> readerSize r' < readerSize r"
proof -
  assume n: "Next W L r = (r', True)"
  obtain r1 u where r1: "readConstraints W r = (r1, Inr u)"
    using n by (auto simp: Next_def split: prod.splits sum.splits)
  have le: "readerSize r1 \<le> readerSize r"
    using r1 readHeader_size[of W "r\<lparr>rdHeaded := True\<rparr>" "[]"]
    by (auto simp: readConstraints_def readerSize_def split: if_splits)
  obtain raw rest rec where nx: "nextRaw W r1 = Inr (Some (raw, rest))" "r' = r1\<lparr>rdPending := None, rdIn := rest, rdRec := Some rec\<rparr>"
    using n unfolding Next_def r1 by (auto simp: Let_def split: sum.splits option.splits prod.splits)
  then have "readerSize r' < readerSize r1"
    by (auto simp: nextRaw_def readerSize_def split: option.splits dest: wireDecode_shorter)
  with le show ?thesis by simp
qed

text \<open>\<open>for wr.Next() { wr.Record() }\<close>.\<close>

function readRecords :: "cborLib \<Rightarrow> lib \<Rightarrow> wireReader \<Rightarrow> wireReader \<times> wireRecord option list" where
  "readRecords W L r =
     (case Next W L r of
        (r', False) \<Rightarrow> (r', [])
      | (r', True) \<Rightarrow> (case readRecords W L r' of (r'', recs) \<Rightarrow> (r'', rdRec r' # recs)))"
  by pat_completeness auto
termination
  by (relation "measure (\<lambda>(W, L, r). readerSize r)") (auto dest: Next_shorter[OF sym])

declare readRecords.simps [simp del]

lemma marshalAll_append:
  "marshalAll W put t (xs @ ys) =
     (case marshalAll W put t xs of (t', Inl e) \<Rightarrow> (t', Inl e) | (t', Inr _) \<Rightarrow> marshalAll W put t' ys)"
  by (induction xs arbitrary: t) (auto split: prod.splits sum.splits)

lemma wireMarshal_frame [simp]:
  "wtCons (fst (wireMarshal W put t rec)) = wtCons t" "wtHeaded (fst (wireMarshal W put t rec)) = wtHeaded t"
  by (auto simp: wireMarshal_def split: sum.split prod.split)

lemma marshalAll_frame [simp]:
  "wtCons (fst (marshalAll W put t recs)) = wtCons t \<and> wtHeaded (fst (marshalAll W put t recs)) = wtHeaded t"
proof (induction recs arbitrary: t)
  case (Cons rec recs)
  then show ?case using wireMarshal_frame[of W put t rec]
    by (cases "wireMarshal W put t rec"; cases "snd (wireMarshal W put t rec)") (simp_all del: wireMarshal_frame)
qed simp

definition declared :: "wireConstraints \<Rightarrow> wireRecord \<Rightarrow> bool" where
  "declared cons rec =
     (case rec of
        RecClaim c b \<Rightarrow> b \<noteq> [] \<and> b \<in> set (wcBranches cons) \<and> claimRaw c \<noteq> None
      | RecContent h bs \<Rightarrow> True)"

text \<open>What a writer that succeeds has checked and marshalled.\<close>

lemma writeRecord_ok:
  assumes "writeRecord W put t rec = (t', Inr ())"
  shows "declared (wtCons t) rec \<and> wireWrite W put t (recordVals rec) = (t', Inr ())"
  using assms
  by (cases rec) (auto simp: WriteClaim_def WriteContent_def declared_def Envelope_def split: if_splits option.splits)

lemma wireWrite_headed: "wireWrite W put t rec = (t', Inr ()) \<Longrightarrow> wtHeaded t' \<and> wtCons t' = wtCons t"
proof (cases "wtHeaded t")
  case True
  moreover assume "wireWrite W put t rec = (t', Inr ())"
  ultimately show ?thesis using wireMarshal_frame[of W put t rec] by (simp add: wireWrite_def del: wireMarshal_frame)
next
  case False
  moreover assume "wireWrite W put t rec = (t', Inr ())"
  ultimately have "t' = fst (marshalAll W put (t\<lparr>wtHeaded := True\<rparr>) (headerOf (wtCons t) @ [rec]))"
    by (simp add: wireWrite_def)
  then show ?thesis using marshalAll_frame[of W put "t\<lparr>wtHeaded := True\<rparr>"] by simp
qed

lemma writeRecords_headed:
  assumes "writeRecords W put t recs = (t', Inr ())" "wtHeaded t"
  shows "(\<forall>rec \<in> set recs. declared (wtCons t) rec) \<and> marshalAll W put t (map recordVals recs) = (t', Inr ())"
  using assms
proof (induction recs arbitrary: t)
  case (Cons rec recs)
  obtain t1 where t1: "writeRecord W put t rec = (t1, Inr ())" "writeRecords W put t1 recs = (t', Inr ())"
    using Cons.prems(1) by (auto split: prod.splits sum.splits)
  note w = writeRecord_ok[OF t1(1)]
  then have "wtHeaded t1" "wtCons t1 = wtCons t" "wireMarshal W put t (recordVals rec) = (t1, Inr ())"
    using wireWrite_headed[of W put t "recordVals rec" t1] Cons.prems(2) by (simp_all add: wireWrite_def)
  then show ?case using Cons.IH[OF t1(2)] w by simp
qed simp

lemma writeRecords_stream:
  assumes "writeRecords W appendSink (NewWireWriter [] cons) recs = (t, Inr ())" "recs \<noteq> []"
  shows "(\<forall>rec \<in> set recs. declared cons rec) \<and> encodes W (headerOf cons @ map recordVals recs) (wtW t)"
proof -
  obtain rec rs where recs: "recs = rec # rs" using assms(2) by (cases recs) auto
  let ?t0 = "NewWireWriter [] cons"
  obtain t1 where t1: "writeRecord W appendSink ?t0 rec = (t1, Inr ())" "writeRecords W appendSink t1 rs = (t, Inr ())"
    using assms(1) recs by (auto split: prod.splits sum.splits)
  note w = writeRecord_ok[OF t1(1)]
  then have t1h: "wtHeaded t1" "wtCons t1 = cons" using wireWrite_headed[of W appendSink ?t0] by (auto simp: NewWireWriter_def)
  have "marshalAll W appendSink (?t0\<lparr>wtHeaded := True\<rparr>) (headerOf cons @ [recordVals rec]) = (t1, Inr ())"
    using w by (simp add: wireWrite_def NewWireWriter_def)
  then have "marshalAll W appendSink (?t0\<lparr>wtHeaded := True\<rparr>) ((headerOf cons @ [recordVals rec]) @ map recordVals rs) = (t, Inr ())"
    unfolding marshalAll_append[of _ _ _ "headerOf cons @ [recordVals rec]"]
    using writeRecords_headed[OF t1(2) t1h(1)] by simp
  then obtain s where "encodes W ((headerOf cons @ [recordVals rec]) @ map recordVals rs) s" "wtW t = s"
    by (auto dest: marshalAll_appends simp: NewWireWriter_def)
  then show ?thesis using w writeRecords_headed[OF t1(2) t1h(1)] t1h by (auto simp: recs NewWireWriter_def)
qed

text \<open>The header reads back slot by slot.\<close>

lemma header_step:
  assumes "cborLaws W" "encodes W ([WvUint k, WvTexts l] # recs) (rdIn r)" "constraintKind k" "cborPlain (WvTexts l)"
  obtains rest where "encodes W recs rest"
    "readHeader W r seen =
       readHeader W (r\<lparr>rdIn := rest, rdCons := onSlot k (\<lambda>old. if k \<in> set seen then slotMerge k old l else l) (rdCons r)\<rparr>) (k # seen)"
proof -
  obtain raw rest where d: "wireDecode W (rdIn r) = Inr (Some (raw, rest))"
      "list_all2 (cborReads W) [WvUint k, WvTexts l] raw" "encodes W recs rest"
    by (rule decode_next[OF assms(1,2)]) (use assms(4) in auto)
  obtain x y where "raw = [x, y]" "cbUint W x = Inr k" "cbTexts W y = Inr l"
    using d(2) by (auto simp: list_all2_Cons1)
  then show thesis
    using that[OF d(3)] d(1) assms(3)
    by (simp add: readHeader.simps[of W r] wireKindOf_def readConstraint_def)
qed

lemma kind_of_payload: "list_all2 (cborReads W) (recordVals rec) raw \<Longrightarrow> \<exists>k. wireKindOf W raw = Inr k \<and> \<not> constraintKind k"
  by (cases rec) (auto simp: list_all2_Cons1 wireKindOf_def constraintKind_def)

lemma header_end:
  assumes "cborLaws W" "encodes W (recordVals rec # recs) (rdIn r)" "list_all cborPlain (recordVals rec)"
  obtains raw rest where "encodes W recs rest" "list_all2 (cborReads W) (recordVals rec) raw"
    "readHeader W r seen = closeHeader (r\<lparr>rdIn := rest, rdPending := Some raw\<rparr>) seen"
proof -
  obtain raw rest where d: "wireDecode W (rdIn r) = Inr (Some (raw, rest))"
      "list_all2 (cborReads W) (recordVals rec) raw" "encodes W recs rest"
    by (rule decode_next[OF assms])
  obtain k where "wireKindOf W raw = Inr k" "\<not> constraintKind k" using kind_of_payload[OF d(2)] by blast
  then show thesis using that[OF d(3,2)] d(1) by (simp add: readHeader.simps[of W r])
qed

text \<open>What the reader needs of a record: the claim decodes from its envelope, the content hashes to its key.\<close>

definition wireStored :: "lib \<Rightarrow> wireRecord \<Rightarrow> bool" where
  "wireStored L rec =
     (case rec of
        RecClaim c b \<Rightarrow>
          idFromBytes L (ID c) = Inr (ID c) \<and> (\<forall>raw. claimRaw c = Some raw \<longrightarrow> DecodeClaim L (ID c) raw = Inr c)
      | RecContent h bs \<Rightarrow> hashContent L bs = Inr h)"

lemma payload_back:
  assumes "list_all2 (cborReads W) (recordVals rec) raw" "declared cons rec" "wireStored L rec"
  shows "payloadRecord W L cons raw = Inr rec"
proof (cases rec)
  case (RecClaim c b)
  then obtain env where env: "claimRaw c = Some env" using assms(2) by (auto simp: declared_def)
  obtain k x y z where "raw = [k, x, y, z]" "cbUint W k = Inr WireClaim" "cbBytes W x = Inr (ID c)"
      "cbBytes W y = Inr env" "cbText W z = Inr b"
    using assms(1) RecClaim env by (auto simp: list_all2_Cons1)
  then show ?thesis
    using assms(2,3) RecClaim env
    by (simp add: payloadRecord_def wireKindOf_def constraintKind_def keyPayload_def readClaim_def declared_def wireStored_def)
next
  case (RecContent h bs)
  obtain k x y where "raw = [k, x, y]" "cbUint W k = Inr WireContent" "cbBytes W x = Inr h" "cbBytes W y = Inr bs"
    using assms(1) RecContent by (auto simp: list_all2_Cons1)
  moreover have "idFromBytes L h = Inr h"
    using assms(3) RecContent by (auto simp: wireStored_def hashContent_def rbind_eq_Inr idFromBytes_Inr)
  ultimately show ?thesis
    using assms(3) RecContent
    by (simp add: payloadRecord_def wireKindOf_def constraintKind_def keyPayload_def readContent_def wireStored_def)
qed

text \<open>The records a reader has still to answer.\<close>

definition holds :: "cborLib \<Rightarrow> wireReader \<Rightarrow> wireRecord list \<Rightarrow> bool" where
  "holds W r recs \<longleftrightarrow>
     (case rdPending r of
        None \<Rightarrow> encodes W (map recordVals recs) (rdIn r)
      | Some raw \<Rightarrow> \<exists>rec rest. recs = rec # rest \<and> list_all2 (cborReads W) (recordVals rec) raw \<and>
          encodes W (map recordVals rest) (rdIn r))"

lemma holds_next:
  assumes "cborLaws W" "holds W r (rec # recs)" "list_all cborPlain (recordVals rec)"
  obtains raw rest where "nextRaw W r = Inr (Some (raw, rest))" "list_all2 (cborReads W) (recordVals rec) raw"
    "encodes W (map recordVals recs) rest"
proof (cases "rdPending r")
  case None
  then show thesis using decode_next[OF assms(1) _ assms(3), of "map recordVals recs" "rdIn r"] that assms(2)
    by (auto simp: holds_def nextRaw_def)
next
  case (Some raw)
  then show thesis using that[of raw "rdIn r"] assms(2) by (auto simp: holds_def nextRaw_def)
qed

lemma readRecords_back:
  assumes "cborLaws W" "holds W r recs" "rdHeaded r" "rdErr r = None"
    and "\<forall>rec \<in> set recs. declared (rdCons r) rec \<and> wireStored L rec \<and> list_all cborPlain (recordVals rec)"
  shows "\<exists>r'. readRecords W L r = (r', map Some recs) \<and> rdErr r' = None \<and> rdCons r' = rdCons r"
  using assms(2-5)
proof (induction recs arbitrary: r)
  case Nil
  then have "rdPending r = None" "rdIn r = []" by (auto simp: holds_def split: option.splits)
  then have "nextRaw W r = Inr None" using decode_end[OF assms(1)] by (simp add: nextRaw_def)
  then have "Next W L r = (r, False)" using Nil.prems(2,3) by (simp add: Next_def readConstraints_def)
  then show ?case using Nil.prems(3) by (subst readRecords.simps) simp
next
  case (Cons rec recs)
  obtain raw rest where n: "nextRaw W r = Inr (Some (raw, rest))" "list_all2 (cborReads W) (recordVals rec) raw"
      "encodes W (map recordVals recs) rest"
    using holds_next[OF assms(1) Cons.prems(1)] Cons.prems(4) by auto
  let ?r = "r\<lparr>rdPending := None, rdIn := rest, rdRec := Some rec\<rparr>"
  have "payloadRecord W L (rdCons r) raw = Inr rec" using payload_back[OF n(2)] Cons.prems(4) by simp
  then have next_rec: "Next W L r = (?r, True)" using n(1) Cons.prems(2,3) by (simp add: Next_def readConstraints_def Let_def)
  obtain r' where "readRecords W L ?r = (r', map Some recs)" "rdErr r' = None" "rdCons r' = rdCons r"
    using Cons.IH[of ?r] Cons.prems(2-4) n(3) by (auto simp: holds_def)
  then show ?case unfolding readRecords.simps[of W L r] next_rec by simp
qed

definition plainConstraints :: "wireConstraints \<Rightarrow> bool" where
  "plainConstraints c \<longleftrightarrow> list_all (\<lambda>l. cborPlain (WvTexts l)) [wcBranches c, wcReferencable c, wcLifted c, wcCreatable c]"

text \<open>A block of declarations, read in order.\<close>

fun declareAll :: "(u64 \<times> string list) list \<Rightarrow> u64 list \<Rightarrow> wireConstraints \<Rightarrow> wireConstraints" where
  "declareAll [] seen c = c"
| "declareAll ((k, l) # ds) seen c =
     declareAll ds (k # seen) (onSlot k (\<lambda>old. if k \<in> set seen then slotMerge k old l else l) c)"

definition declVals :: "u64 \<times> string list \<Rightarrow> wireVal list" where
  "declVals d = [WvUint (fst d), WvTexts (snd d)]"

definition declsOf :: "wireConstraints \<Rightarrow> (u64 \<times> string list) list" where
  "declsOf c =
     [(WireBranches, wcBranches c), (WireReferencable, wcReferencable c)] @
     (if wcLifted c = [] then [] else [(WireLifted, wcLifted c)]) @
     (if wcCreatable c = [] then [] else [(WireCreatable, wcCreatable c)])"

definition goodDecl :: "u64 \<times> string list \<Rightarrow> bool" where
  "goodDecl d \<longleftrightarrow> constraintKind (fst d) \<and> cborPlain (WvTexts (snd d))"

lemma headerOf_decls: "headerOf c = map declVals (declsOf c)"
  by (simp add: headerOf_def declsOf_def declVals_def)

lemma declsOf_good: "plainConstraints c \<Longrightarrow> list_all goodDecl (declsOf c)"
  by (simp add: declsOf_def goodDecl_def plainConstraints_def constraintKind_def)

lemma declareAll_decls: "declareAll (declsOf c) [] noConstraints = c"
  by (cases c) (simp add: declsOf_def onSlot_def noConstraints_def)

lemma header_block:
  assumes "cborLaws W" "encodes W (map declVals ds @ recs) (rdIn r)" "list_all goodDecl ds"
  shows "\<exists>rest. encodes W recs rest \<and>
    readHeader W r seen = readHeader W (r\<lparr>rdIn := rest, rdCons := declareAll ds seen (rdCons r)\<rparr>) (rev (map fst ds) @ seen)"
  using assms(2,3)
proof (induction ds arbitrary: r seen)
  case (Cons d ds)
  obtain k l where d: "d = (k, l)" by (cases d)
  have kl: "constraintKind k" "cborPlain (WvTexts l)" using Cons.prems(2) d by (simp_all add: goodDecl_def)
  have "encodes W ([WvUint k, WvTexts l] # (map declVals ds @ recs)) (rdIn r)"
    using Cons.prems(1) by (simp add: d declVals_def[of "(k, l)"])
  then obtain s1 where s1: "encodes W (map declVals ds @ recs) s1"
      "readHeader W r seen =
       readHeader W (r\<lparr>rdIn := s1, rdCons := onSlot k (\<lambda>old. if k \<in> set seen then slotMerge k old l else l) (rdCons r)\<rparr>) (k # seen)"
    by (rule header_step[OF assms(1) _ kl])
  let ?r = "r\<lparr>rdIn := s1, rdCons := onSlot k (\<lambda>old. if k \<in> set seen then slotMerge k old l else l) (rdCons r)\<rparr>"
  have "list_all goodDecl ds" "encodes W (map declVals ds @ recs) (rdIn ?r)" using Cons.prems(2) s1(1) by simp_all
  from Cons.IH[OF this(2,1), of "k # seen"] show ?case unfolding s1(2) by (simp add: d)
next
  case Nil
  then show ?case by (intro exI[of _ "rdIn r"]) simp
qed

lemma header_back:
  assumes "cborLaws W" "encodes W (map declVals ds @ map recordVals recs) s" "recs \<noteq> []" "list_all goodDecl ds"
    and "{WireBranches, WireReferencable} \<subseteq> set (map fst ds)" "\<forall>rec \<in> set recs. list_all cborPlain (recordVals rec)"
  shows "\<exists>r. readConstraints W (NewWireReader s) = (r, Inr ()) \<and> holds W r recs \<and> rdHeaded r \<and> rdErr r = None \<and>
    rdCons r = declareAll ds [] noConstraints"
proof -
  let ?r0 = "(NewWireReader s)\<lparr>rdHeaded := True\<rparr>"
  obtain rec rs where recs: "recs = rec # rs" using assms(3) by (cases recs) auto
  have "rdIn ?r0 = s" by (simp add: NewWireReader_def)
  then obtain s1 where s1: "encodes W (map recordVals recs) s1"
      "readHeader W ?r0 [] = readHeader W (?r0\<lparr>rdIn := s1, rdCons := declareAll ds [] (rdCons ?r0)\<rparr>) (rev (map fst ds) @ [])"
    using header_block[of W ds "map recordVals recs" ?r0 "[]"] assms(1,2,4) by auto
  let ?r1 = "?r0\<lparr>rdIn := s1, rdCons := declareAll ds [] (rdCons ?r0)\<rparr>" and ?seen = "rev (map fst ds) @ []"
  have "encodes W (recordVals rec # map recordVals rs) (rdIn ?r1)" "list_all cborPlain (recordVals rec)"
    using s1(1) assms(6) recs by simp_all
  from header_end[OF assms(1) this, of ?seen]
  obtain raw rest where e: "encodes W (map recordVals rs) rest" "list_all2 (cborReads W) (recordVals rec) raw"
      "readHeader W ?r1 ?seen = closeHeader (?r1\<lparr>rdIn := rest, rdPending := Some raw\<rparr>) ?seen" by metis
  have "closeHeader (?r1\<lparr>rdIn := rest, rdPending := Some raw\<rparr>) ?seen = (?r1\<lparr>rdIn := rest, rdPending := Some raw\<rparr>, Inr ())"
    using assms(5) by (auto simp: closeHeader_def)
  then have "readConstraints W (NewWireReader s) = (?r1\<lparr>rdIn := rest, rdPending := Some raw\<rparr>, Inr ())"
    using s1(2) e(3) by (simp add: readConstraints_def NewWireReader_def)
  then show ?thesis using e(1,2) recs by (simp add: holds_def NewWireReader_def)
qed

lemma recordVals_plain: "plainConstraints cons \<Longrightarrow> declared cons rec \<Longrightarrow> list_all cborPlain (recordVals rec)"
  by (cases rec) (auto simp: declared_def plainConstraints_def list_all_iff)

lemma readRecords_headed:
  assumes "readConstraints W r = (r1, Inr ())" "rdHeaded r1" "rdErr r1 = None"
  shows "readRecords W L r = readRecords W L r1"
proof -
  have "readConstraints W r1 = (r1, Inr ())" using assms(2,3) by (simp add: readConstraints_def)
  then have "Next W L r = Next W L r1" using assms(1) by (simp add: Next_def)
  then show ?thesis unfolding readRecords.simps[of W L r] readRecords.simps[of W L r1] by simp
qed

lemma stream_back:
  assumes "cborLaws W" "plainConstraints cons" "recs \<noteq> []" "\<forall>rec \<in> set recs. wireStored L rec"
    and "writeRecords W appendSink (NewWireWriter [] cons) recs = (t, Inr ())"
  shows "snd (Constraints W (NewWireReader (wtW t))) = Inr cons \<and>
    (\<exists>r. readRecords W L (NewWireReader (wtW t)) = (r, map Some recs) \<and> rdErr r = None)"
proof -
  note w = writeRecords_stream[OF assms(5,3)]
  then have decl: "\<forall>rec \<in> set recs. declared cons rec" and plain: "\<forall>rec \<in> set recs. list_all cborPlain (recordVals rec)"
    using recordVals_plain assms(2) by blast+
  have enc: "encodes W (map declVals (declsOf cons) @ map recordVals recs) (wtW t)" using w by (simp add: headerOf_decls)
  have "{WireBranches, WireReferencable} \<subseteq> set (map fst (declsOf cons))" by (simp add: declsOf_def)
  from header_back[OF assms(1) enc assms(3) declsOf_good[OF assms(2)] this plain]
  obtain r where r: "readConstraints W (NewWireReader (wtW t)) = (r, Inr ())" "holds W r recs" "rdHeaded r" "rdErr r = None"
      "rdCons r = cons" by (auto simp: declareAll_decls)
  obtain r' where "readRecords W L r = (r', map Some recs)" "rdErr r' = None"
    using readRecords_back[OF assms(1) r(2-4), of L] decl plain assms(4) r(5) by auto
  then show ?thesis using r readRecords_headed[OF r(1,3,4)] by (simp add: Constraints_def)
qed

text \<open>
  Property C21 (wire_stream_roundtrip): what a writer streamed without an error, a reader takes back:
  the constraints as declared, every record in order, no error at the end.
\<close>

theorem wire_stream_roundtrip:
  assumes "cborLaws W" "plainConstraints cons" "recs \<noteq> []" "\<forall>rec \<in> set recs. wireStored L rec"
    and "writeRecords W appendSink (NewWireWriter [] cons) recs = (t, Inr ())"
  shows "snd (Constraints W (NewWireReader (wtW t))) = Inr cons \<and>
    (\<exists>r. readRecords W L (NewWireReader (wtW t)) = (r, map Some recs) \<and> rdErr r = None)"
  using stream_back[OF assms] .

text \<open>A library that keeps the laws: every element and every record under its length in unary.\<close>

definition frame :: "bytes \<Rightarrow> bytes" where "frame s = replicate (length s) (CHR 0x01) @ CHR 0x00 # s"

definition unframe :: "bytes \<Rightarrow> (bytes \<times> bytes) option" where
  "unframe s =
     (let n = length (takeWhile (\<lambda>c. c = CHR 0x01) s); r = drop (Suc n) s in
        if length s \<le> n \<or> length r < n then None else Some (take n r, drop n r))"

fun unframes :: "nat \<Rightarrow> bytes \<Rightarrow> bytes list option" where
  "unframes n [] = Some []"
| "unframes 0 s = None"
| "unframes (Suc n) s =
     (case unframe s of None \<Rightarrow> None | Some (x, t) \<Rightarrow> map_option (\<lambda>xs. x # xs) (unframes n t))"

fun valBytes :: "wireVal \<Rightarrow> bytes" where
  "valBytes (WvUint n) = replicate (unat n) (CHR 0x01)"
| "valBytes (WvBytes b) = b"
| "valBytes (WvText s) = s"
| "valBytes (WvTexts ss) = concat (map frame ss)"

definition framed :: cborLib where
  "framed =
     \<lparr>cbMarshal = (\<lambda>rec. Inr (frame (concat (map (frame \<circ> valBytes) rec)))),
      cbDecode = (\<lambda>s. if s = [] then Inr None
        else case unframe s of
            None \<Rightarrow> Inl (LibErr ''cbor'')
          | Some (b, rest) \<Rightarrow>
              (case unframes (length b) b of None \<Rightarrow> Inl (LibErr ''cbor'') | Some raw \<Rightarrow> Inr (Some (raw, rest)))),
      cbUint = (\<lambda>raw. Inr (of_nat (length raw))), cbBytes = Inr, cbText = Inr,
      cbTexts = (\<lambda>raw. case unframes (length raw) raw of None \<Rightarrow> Inl (LibErr ''cbor'') | Some ss \<Rightarrow> Inr ss)\<rparr>"

lemma frame_nonempty [simp]: "frame s \<noteq> []"
  by (simp add: frame_def)

lemma unframe_frame: "unframe (frame s @ t) = Some (s, t)"
proof -
  have "takeWhile (\<lambda>c. c = CHR 0x01) (frame s @ t) = replicate (length s) (CHR 0x01)"
    unfolding frame_def by (induction "length s" arbitrary: s) (simp_all add: takeWhile_append)
  then show ?thesis by (simp add: unframe_def Let_def frame_def)
qed

lemma unframes_frames: "length (concat (map frame xs)) \<le> n \<Longrightarrow> unframes n (concat (map frame xs)) = Some xs"
proof (induction xs arbitrary: n)
  case (Cons x xs)
  have "length (frame x) = Suc (2 * length x)" by (simp add: frame_def)
  then obtain m where m: "n = Suc m" "length (concat (map frame xs)) \<le> m" using Cons.prems by (cases n) auto
  obtain c t where "frame x @ concat (map frame xs) = c # t" by (cases "frame x") auto
  then show ?case using unframe_frame[of x "concat (map frame xs)"] Cons.IH[OF m(2)] m(1) by (simp del: frame_nonempty)
qed (cases n, simp_all)

lemma framed_laws: "cborLaws framed"
proof -
  have one: "cborReads framed v (valBytes v)" for v
    by (cases v) (simp_all add: framed_def unframes_frames)
  have "list_all2 (cborReads framed) rec (map valBytes rec)" for rec
    by (induction rec) (simp_all add: one)
  moreover have "cbDecode framed (frame (concat (map (frame \<circ> valBytes) rec)) @ rest) = Inr (Some (map valBytes rec, rest))" for rec rest
    using unframes_frames[of "map valBytes rec"] by (simp add: framed_def unframe_frame)
  moreover have "cbMarshal framed rec = Inr (frame (concat (map (frame \<circ> valBytes) rec)))" for rec
    by (simp add: framed_def)
  moreover have "cbDecode framed [] = Inr None" by (simp add: framed_def)
  ultimately show ?thesis unfolding cborLaws_def by auto
qed

definition wireSample :: wireConstraints where
  "wireSample = \<lparr>wcBranches = [''main''], wcReferencable = [''$archive''], wcLifted = [], wcCreatable = [''main'']\<rparr>"

definition wireClaim :: claim where
  "wireClaim = (case DecodeClaim graphLib ''hA'' ''A'' of Inr c \<Rightarrow> c | Inl e \<Rightarrow> Claim (MNode zeroNode None) [] None None [])"

definition wireRecords :: "wireRecord list" where
  "wireRecords = [RecContent ''hxy'' ''xy'', RecClaim wireClaim ''main'']"

lemma wire_claim: "DecodeClaim graphLib ''hA'' ''A'' = Inr wireClaim" "ID wireClaim = ''hA''" "claimRaw wireClaim = Some ''A''"
proof -
  obtain c where "DecodeClaim graphLib ''hA'' ''A'' = Inr c"
    using graph_loads(1) by (auto simp: resultOf_Some memLoad_def graphMem_def rbind_eq_Inr split: option.splits)
  then show dec: "DecodeClaim graphLib ''hA'' ''A'' = Inr wireClaim" by (simp add: wireClaim_def)
  show "ID wireClaim = ''hA''" "claimRaw wireClaim = Some ''A''" using DecodeClaim_shape(1,2)[OF dec] by simp_all
qed

lemma wire_written: "\<exists>t. writeRecords framed appendSink (NewWireWriter [] wireSample) wireRecords = (t, Inr ())"
  by (simp add: wireRecords_def WriteContent_def WriteClaim_def NewWireWriter_def wireWrite_def headerOf_def wireSample_def
      wireMarshal_def appendSink_def framed_def Envelope_def wire_claim)

lemma wire_sample: "plainConstraints wireSample" "wireRecords \<noteq> []" "\<forall>rec \<in> set wireRecords. wireStored graphLib rec"
  by (simp_all add: plainConstraints_def wireSample_def utf8_def utf8_ascii byte_def wireRecords_def wireStored_def wire_claim
      hashContent_def) (simp_all add: graphLib_def tableLib_def idFromBytes_def)

lemma wire_stream_roundtrip_witness:
  "\<exists>t r. writeRecords framed appendSink (NewWireWriter [] wireSample) wireRecords = (t, Inr ()) \<and>
     snd (Constraints framed (NewWireReader (wtW t))) = Inr wireSample \<and>
     readRecords framed graphLib (NewWireReader (wtW t)) = (r, map Some wireRecords)"
proof -
  obtain t where t: "writeRecords framed appendSink (NewWireWriter [] wireSample) wireRecords = (t, Inr ())"
    using wire_written by blast
  show ?thesis using wire_stream_roundtrip[OF framed_laws wire_sample t] t by auto
qed

end
