(* ===== verification/WireFill.thy ===== *)
theory WireFill
  imports Wire Sequencer
begin

text \<open>
  Filling a contribution from a stream: \<open>DrainWire\<close> (\<open>contribution.go\<close>) and \<open>AddWire\<close> of the
  blocking sequencer. The Universe the content lands in is the memory store.
\<close>

section \<open>The fill\<close>

text \<open>One record: content lands under its hash, a claim stages under its branch. \<open>None\<close> is the zero record.\<close>

definition fillRecord ::
    "contribution \<Rightarrow> memoryUniverse \<Rightarrow> wireRecord option \<Rightarrow> contribution \<times> memoryUniverse \<times> unit result" where
  "fillRecord c m orec =
     (case orec of
        Some (RecContent h bs) \<Rightarrow> (case memPutContents m [(Some h, bs)] of (m', x) \<Rightarrow> (c, m', x))
      | Some (RecClaim cl b) \<Rightarrow>
          (case contribAddClaims c b [Some cl] of Inl e \<Rightarrow> (c, m, Inl e) | Inr c' \<Rightarrow> (c', m, Inr ()))
      | None \<Rightarrow> (case contribAddClaims c [] [None] of Inl e \<Rightarrow> (c, m, Inl e) | Inr c' \<Rightarrow> (c', m, Inr ())))"

function DrainWire ::
    "cborLib \<Rightarrow> lib \<Rightarrow> contribution \<Rightarrow> memoryUniverse \<Rightarrow> wireReader \<Rightarrow>
     wireReader \<times> contribution \<times> memoryUniverse \<times> unit result" where
  "DrainWire W L c m r =
     (case Next W L r of
        (r', False) \<Rightarrow> (r', c, m, case rdErr r' of None \<Rightarrow> Inr () | Some e \<Rightarrow> Inl e)
      | (r', True) \<Rightarrow>
          (case fillRecord c m (rdRec r') of
             (c', m', Inl e) \<Rightarrow> (r', c', m', Inl e)
           | (c', m', Inr _) \<Rightarrow> DrainWire W L c' m' r'))"
  by pat_completeness auto
termination
  by (relation "measure (\<lambda>(W, L, c, m, r). readerSize r)") (auto dest: Next_shorter[OF sym])

declare DrainWire.simps [simp del]

definition AddWire ::
    "cborLib \<Rightarrow> lib \<Rightarrow> sequencer \<Rightarrow> contribution \<Rightarrow> wireReader \<Rightarrow> wireReader \<times> sequencer \<times> contribution \<times> unit result" where
  "AddWire W L s c r =
     (case DrainWire W L c (sqUni s) r of (r', c', m', x) \<Rightarrow> (r', s\<lparr>sqUni := m'\<rparr>, c', x))"

section \<open>What a record has passed\<close>

definition checkedRecord :: "lib \<Rightarrow> wireConstraints \<Rightarrow> wireRecord \<Rightarrow> bool" where
  "checkedRecord L cons rec =
     (case rec of
        RecClaim c b \<Rightarrow> b \<noteq> [] \<and> b \<in> set (wcBranches cons) \<and>
          (\<exists>env. claimRaw c = Some env \<and> DecodeClaim L (ID c) env = Inr c)
      | RecContent h bs \<Rightarrow> hashContent L bs = Inr h)"

lemma readClaim_checked:
  assumes "readClaim W L cons raw key payload = Inr rec"
  shows "checkedRecord L cons rec"
proof -
  obtain b c where b: "b \<noteq> []" "b \<in> set (wcBranches cons)" "DecodeClaim L key payload = Inr c" "rec = RecClaim c b"
    using assms by (auto simp: readClaim_def rbind_eq_Inr split: if_splits)
  then show ?thesis using DecodeClaim_shape(1,2)[OF b(3)] by (simp add: checkedRecord_def)
qed

lemma readContent_checked: "readContent L key payload = Inr rec \<Longrightarrow> checkedRecord L cons rec"
  by (auto simp: readContent_def rbind_eq_Inr checkedRecord_def split: if_splits)

lemma payloadRecord_checked:
  assumes "payloadRecord W L cons raw = Inr rec"
  shows "checkedRecord L cons rec"
proof -
  obtain key payload where "readClaim W L cons raw key payload = Inr rec \<or> readContent L key payload = Inr rec"
    using assms by (auto simp: payloadRecord_def rbind_eq_Inr split: if_splits)
  then show ?thesis using readClaim_checked readContent_checked by blast
qed

lemma Next_checked:
  assumes "Next W L r = (r', b)" "rdHeaded r"
  shows "rdHeaded r' \<and> rdCons r' = rdCons r \<and> (b \<longrightarrow> (\<exists>rec. rdRec r' = Some rec \<and> checkedRecord L (rdCons r) rec))"
  using assms
  by (auto simp: Next_def readConstraints_def Let_def split: sum.splits option.splits prod.splits dest: payloadRecord_checked)

section \<open>What a fill leaves\<close>

lemma stagedOn_add:
  assumes "contribAddClaims c b (map Some cls) = Inr c'"
  shows "stagedOn c' b' = stagedOn c b' @ (if b' = b then cls else [])"
    and "\<forall>cl \<in> set cls. admissible c cl = Inr ()"
    and "coBaseTime c' = coBaseTime c" "coConstraints c' = coConstraints c" "coSealed c' = coSealed c"
proof -
  have all: "admitAll c (map Some cls) = Inr x \<Longrightarrow> x = cls \<and> (\<forall>cl \<in> set cls. admissible c cl = Inr ())" for x
    by (induction cls arbitrary: x) (auto simp: rbind_eq_Inr)
  obtain x where x: "admitAll c (map Some cls) = Inr x"
      "c' = (note_branch c b)\<lparr>coStaged := AList.update b (stagedOn c b @ x) (coStaged c)\<rparr>"
    using assms by (auto simp: contribAddClaims_def rbind_eq_Inr split: if_splits)
  then show "stagedOn c' b' = stagedOn c b' @ (if b' = b then cls else [])" "\<forall>cl \<in> set cls. admissible c cl = Inr ()"
    using all by (auto simp: stagedOn_def update_conv')
  show "coBaseTime c' = coBaseTime c" "coConstraints c' = coConstraints c" "coSealed c' = coSealed c"
    using x(2) by (simp_all add: note_branch_def)
qed

text \<open>What was staged on each branch, and what content came in, since \<open>(c, m)\<close>.\<close>

definition filledWithin ::
    "lib \<Rightarrow> wireConstraints \<Rightarrow> contribution \<Rightarrow> memoryUniverse \<Rightarrow> contribution \<Rightarrow> memoryUniverse \<Rightarrow> bool" where
  "filledWithin L cons c m c' m' \<longleftrightarrow>
     (\<forall>b. \<exists>cls. stagedOn c' b = stagedOn c b @ cls \<and> (cls \<noteq> [] \<longrightarrow> b \<in> set (wcBranches cons)) \<and>
        (\<forall>cl \<in> set cls. admissible c cl = Inr () \<and> (\<exists>env. claimRaw cl = Some env \<and> DecodeClaim L (ID cl) env = Inr cl))) \<and>
     (\<forall>h bs. map_of (mContent m') h = Some bs \<longrightarrow> map_of (mContent m) h = Some bs \<or> hashContent L bs = Inr h) \<and>
     mClaims m' = mClaims m \<and> mTags m' = mTags m \<and> mMarks m' = mMarks m \<and>
     coBaseTime c' = coBaseTime c \<and> coConstraints c' = coConstraints c"

lemma filledWithin_refl: "filledWithin L cons c m c m"
  by (auto simp: filledWithin_def)

lemma filledWithin_trans:
  assumes "filledWithin L cons c m c1 m1" "filledWithin L cons c1 m1 c2 m2"
  shows "filledWithin L cons c m c2 m2"
proof -
  have same: "admissible c1 cl = admissible c cl" for cl
    using assms(1) by (simp add: admissible_def filledWithin_def)
  have "\<exists>cls. stagedOn c2 b = stagedOn c b @ cls \<and> (cls \<noteq> [] \<longrightarrow> b \<in> set (wcBranches cons)) \<and>
      (\<forall>cl \<in> set cls. admissible c cl = Inr () \<and> (\<exists>env. claimRaw cl = Some env \<and> DecodeClaim L (ID cl) env = Inr cl))" for b
  proof -
    obtain xs where xs: "stagedOn c1 b = stagedOn c b @ xs" "xs \<noteq> [] \<longrightarrow> b \<in> set (wcBranches cons)"
        "\<forall>cl \<in> set xs. admissible c cl = Inr () \<and> (\<exists>env. claimRaw cl = Some env \<and> DecodeClaim L (ID cl) env = Inr cl)"
      using assms(1) unfolding filledWithin_def by meson
    obtain ys where ys: "stagedOn c2 b = stagedOn c1 b @ ys" "ys \<noteq> [] \<longrightarrow> b \<in> set (wcBranches cons)"
        "\<forall>cl \<in> set ys. admissible c cl = Inr () \<and> (\<exists>env. claimRaw cl = Some env \<and> DecodeClaim L (ID cl) env = Inr cl)"
      using assms(2) unfolding filledWithin_def same by meson
    show ?thesis using xs ys by (intro exI[of _ "xs @ ys"]) auto
  qed
  moreover have "map_of (mContent m) h = Some bs \<or> hashContent L bs = Inr h" if "map_of (mContent m2) h = Some bs" for h bs
    using assms that unfolding filledWithin_def by meson
  ultimately show ?thesis using assms unfolding filledWithin_def by simp
qed

lemma fillRecord_within:
  assumes "fillRecord c m (Some rec) = (c', m', x)" "checkedRecord L cons rec"
  shows "filledWithin L cons c m c' m'"
proof (cases rec)
  case (RecClaim cl b)
  show ?thesis
  proof (cases "contribAddClaims c b [Some cl]")
    case (Inr c1)
    then have c1: "contribAddClaims c b (map Some [cl]) = Inr c1" by simp
    have "c' = c1" "m' = m" using assms(1) RecClaim Inr by (simp_all add: fillRecord_def)
    then show ?thesis
      using stagedOn_add[OF c1] assms(2) RecClaim by (auto simp: filledWithin_def checkedRecord_def)
  qed (use assms(1) RecClaim filledWithin_refl in \<open>simp add: fillRecord_def\<close>)
next
  case (RecContent h bs)
  then have "c' = c" "m' = m\<lparr>mContent := AList.update h bs (mContent m)\<rparr>"
    using assms(1) by (simp_all add: fillRecord_def)
  then show ?thesis using assms(2) RecContent by (auto simp: filledWithin_def checkedRecord_def update_conv')
qed

lemma DrainWire_within:
  assumes "DrainWire W L c m r = (r', c', m', x)" "rdHeaded r"
  shows "filledWithin L (rdCons r) c m c' m' \<and> (x = Inr () \<longrightarrow> rdErr r' = None)"
  using assms
proof (induction W L c m r rule: DrainWire.induct)
  case (1 W L c m r)
  obtain r1 b where n: "Next W L r = (r1, b)" by (cases "Next W L r")
  note ck = Next_checked[OF n "1.prems"(2)]
  show ?case
  proof (cases b)
    case False
    then show ?thesis
      using "1.prems"(1) filledWithin_refl unfolding DrainWire.simps[of W L c m r] n by (auto split: option.splits)
  next
    case True
    then obtain rec where rec: "rdRec r1 = Some rec" "checkedRecord L (rdCons r) rec" using ck by blast
    obtain c1 m1 y where f: "fillRecord c m (Some rec) = (c1, m1, y)" by (cases "fillRecord c m (Some rec)")
    note one = fillRecord_within[OF f rec(2)]
    show ?thesis
    proof (cases y)
      case (Inl e)
      have "(r', c', m', x) = (r1, c1, m1, Inl e)"
        using "1.prems"(1) True Inl rec(1) f unfolding DrainWire.simps[of W L c m r] n by simp
      then show ?thesis using one by simp
    next
      case (Inr u)
      have "DrainWire W L c1 m1 r1 = (r', c', m', x)"
        using "1.prems"(1) True Inr rec(1) f unfolding DrainWire.simps[of W L c m r] n by simp
      then have "filledWithin L (rdCons r1) c1 m1 c' m' \<and> (x = Inr () \<longrightarrow> rdErr r' = None)"
        using "1.IH" n True rec(1) f Inr ck by (metis (no_types, lifting))
      then show ?thesis using filledWithin_trans[OF one] ck by simp
    qed
  qed
qed

lemma readConstraints_headed: "readConstraints W r = (r', x) \<Longrightarrow> rdHeaded r'"
proof -
  have "rdHeaded r \<longrightarrow> rdHeaded (fst (readHeader W r seen))" for r seen
    by (rule readHeader_induct[where P = "\<lambda>r seen x. rdHeaded r \<longrightarrow> rdHeaded (fst x)"]) (simp_all add: failed_def)
  from this[of "r\<lparr>rdHeaded := True\<rparr>" "[]"]
  show "readConstraints W r = (r', x) \<Longrightarrow> rdHeaded r'"
    by (auto simp: readConstraints_def split: if_splits)
qed

text \<open>
  Property C19 (wire_fill_confined): the constraints read ahead of a fill bind all of it, whatever the
  stream holds and wherever it fails: claims are staged on declared branches alone, each admissible
  and decoded from the envelope its id names, content lands under the hash of its bytes, and nothing
  else of the archive changes.
\<close>

theorem wire_fill_confined:
  assumes "Constraints W (NewWireReader stream) = (r0, Inr cons)" "AddWire W L s c r0 = (r', s', c', x)"
  shows "filledWithin L cons c (sqUni s) c' (sqUni s') \<and> s' = s\<lparr>sqUni := sqUni s'\<rparr> \<and>
    (x = Inr () \<longrightarrow> rdErr r' = None)"
proof -
  obtain u where r0: "readConstraints W (NewWireReader stream) = (r0, Inr u)" "cons = rdCons r0"
    using assms(1) by (auto simp: Constraints_def split: prod.splits sum.splits)
  obtain m' where "DrainWire W L c (sqUni s) r0 = (r', c', m', x)" "s' = s\<lparr>sqUni := m'\<rparr>"
    using assms(2) by (auto simp: AddWire_def split: prod.splits)
  then show ?thesis using DrainWire_within[of W L c "sqUni s" r0] readConstraints_headed[OF r0(1)] r0(2) by simp
qed

section \<open>A fill is what the records do\<close>

fun fillAll ::
    "contribution \<Rightarrow> memoryUniverse \<Rightarrow> wireRecord list \<Rightarrow> contribution \<times> memoryUniverse \<times> unit result" where
  "fillAll c m [] = (c, m, Inr ())"
| "fillAll c m (rec # recs) =
     (case fillRecord c m (Some rec) of
        (c', m', Inl e) \<Rightarrow> (c', m', Inl e)
      | (c', m', Inr _) \<Rightarrow> fillAll c' m' recs)"

lemma DrainWire_records:
  assumes "readRecords W L r = (r', map Some recs)" "rdErr r' = None"
  shows "snd (DrainWire W L c m r) = fillAll c m recs"
  using assms
proof (induction recs arbitrary: r c m)
  case Nil
  have "Next W L r = (r', False)"
    using Nil.prems(1) unfolding readRecords.simps[of W L r] by (auto split: prod.splits bool.splits)
  then show ?case using Nil.prems(2) unfolding DrainWire.simps[of W L c m r] by simp
next
  case (Cons rec recs)
  obtain r1 where n: "Next W L r = (r1, True)" "readRecords W L r1 = (r', map Some recs)" "rdRec r1 = Some rec"
    using Cons.prems(1) unfolding readRecords.simps[of W L r] by (auto split: prod.splits bool.splits)
  obtain c1 m1 y where f: "fillRecord c m (Some rec) = (c1, m1, y)" by (cases "fillRecord c m (Some rec)")
  show ?case
    using Cons.IH[OF n(2) Cons.prems(2), of c1 m1] f n(3)
    unfolding DrainWire.simps[of W L c m r] n(1) by (cases y) simp_all
qed

text \<open>
  Property C20 (wire_fill_direct): filling from the stream a writer made of records does exactly what
  adding the records one by one does, to the contribution, to the store and in its result.
\<close>

theorem wire_fill_direct:
  assumes "cborLaws W" "plainConstraints cons" "recs \<noteq> []" "\<forall>rec \<in> set recs. wireStored L rec"
    and "writeRecords W appendSink (NewWireWriter [] cons) recs = (t, Inr ())"
  shows "snd (DrainWire W L c m (NewWireReader (wtW t))) = fillAll c m recs"
proof -
  obtain r where "readRecords W L (NewWireReader (wtW t)) = (r, map Some recs)" "rdErr r = None"
    using stream_back[OF assms] by blast
  then show ?thesis by (rule DrainWire_records)
qed

definition idle :: sequencer where
  "idle =
     \<lparr>sqOpener = 1, sqUni = graphMem, sqMarks = emptyList, sqSelf = sampleContributor, sqClock = (\<lambda>_. 1780272000000000000),
      sqTicks = 0, sqHead = ''hD'', sqHeads = []\<rparr>"

definition emptyContribution :: contribution where
  "emptyContribution =
     \<lparr>coOpener = 1, coBaseHead = ''hD'', coBaseTime = 1780272000000000000, coConstraints = NewConstraints (wireOptions wireSample),
      coSealed = False, coStaged = [], coBranches = []\<rparr>"

theorem wire_fill_confined_witness:
  "\<exists>stream r0 r' s' c' x. Constraints framed (NewWireReader stream) = (r0, Inr wireSample) \<and>
     AddWire framed graphLib idle emptyContribution r0 = (r', s', c', x) \<and>
     filledWithin graphLib wireSample emptyContribution graphMem c' (sqUni s')"
proof -
  obtain t where t: "writeRecords framed appendSink (NewWireWriter [] wireSample) wireRecords = (t, Inr ())"
    using wire_written by blast
  obtain r0 where r0: "Constraints framed (NewWireReader (wtW t)) = (r0, Inr wireSample)"
    using stream_back[OF framed_laws wire_sample t] by (cases "Constraints framed (NewWireReader (wtW t))") auto
  obtain r' s' c' x where a: "AddWire framed graphLib idle emptyContribution r0 = (r', s', c', x)"
    by (cases "AddWire framed graphLib idle emptyContribution r0") auto
  have "sqUni idle = graphMem" by (simp add: idle_def)
  then have "filledWithin graphLib wireSample emptyContribution graphMem c' (sqUni s')"
    using wire_fill_confined[OF r0 a] by simp
  then show ?thesis using r0 a by blast
qed

lemma sample_fill:
  "(case fillAll emptyContribution graphMem wireRecords of (c, m, x) \<Rightarrow>
     x = Inr () \<and> map ID (stagedOn c ''main'') = [''hA''] \<and> mContent m = [(''hxy'', ''xy'')])"
  by code_simp

theorem wire_fill_direct_witness:
  "\<exists>t c m. writeRecords framed appendSink (NewWireWriter [] wireSample) wireRecords = (t, Inr ()) \<and>
     snd (DrainWire framed graphLib emptyContribution graphMem (NewWireReader (wtW t))) = (c, m, Inr ()) \<and>
     map ID (stagedOn c ''main'') = [''hA''] \<and> mContent m = [(''hxy'', ''xy'')]"
proof -
  obtain t where t: "writeRecords framed appendSink (NewWireWriter [] wireSample) wireRecords = (t, Inr ())"
    using wire_written by blast
  show ?thesis using wire_fill_direct[OF framed_laws wire_sample t, of emptyContribution graphMem] t sample_fill
    by (auto split: prod.splits)
qed

end
