(* ===== verification/Spec2Isabelle.thy ===== *)
theory Spec2Isabelle
  imports Completing Partition QueryCodec WireFill
begin

text \<open>
  A verification library for the Ranke archive core (the Go package \<open>ranke\<close> at the root of the
  repository, with the sequencer of \<open>adapter/sequencer/dev\<close> and the composite stores of
  \<open>adapter/storage\<close>).

  \<^bold>\<open>The program.\<close> A claim is a node with its edges, signed, sealed in an envelope and named by the
  hash of that envelope; an edge names another claim by its id. A Universe stores claims and content
  by id. A branch table is a claim whose edges name the heads of the branches, and each table refers
  to the last one: the spine. An archive is a Universe read at one table; a bookmark list records
  which table is current. A sequencer is the sole writer: it opens contributions (graphs staged over
  branches), verifies and completes them, and merges them into the heads by minting the next table
  and bookmarking it. Reads run over the closure of a head: lookups, membership, queries, copies and
  the verifier are all walks from a head along references.

  \<^bold>\<open>The theories,\<close> each over the ones before it, and the files under \<open>src/\<close> they model. Definitions
  bear the names of the code; where one is a method of several types, or a name of HOL, it has a
  prefix (\<open>mem\<close> the memory Universe, \<open>part\<close> a partition, \<open>marks\<close> the bookmark slots).

  \<^item> \<open>Prelude\<close>: byte strings, Go maps as association lists, machine integers, the error monad
    (\<open>result\<close>, \<open>rbind\<close>, \<open>mapM\<close>) and the facts on lists the components share.
  \<^item> \<open>Errs\<close> (\<open>errors.go\<close>): one constructor per sentinel, wrapping and \<open>errors.Is\<close>.
  \<^item> \<open>Taxonomy\<close> (\<open>node_taxonomy.go\<close>, \<open>edge_taxonomy.go\<close>, \<open>encoding_taxonomy.go\<close>,
    \<open>field_taxonomy.go\<close>): types, encodings, field names, their wire aliases and limits. The alias
    tables share one locale, interpreted for each of them.
  \<^item> \<open>GoTime\<close> (\<open>time_fields.go\<close>) and \<open>Edtf\<close> (\<open>edtf.go\<close>): the part of Go's \<open>time\<close> the program
    uses, timestamps and their text; EDTF dates, their spans and midpoints.
  \<^item> \<open>Model\<close> (\<open>claim.go\<close>, \<open>claim_helpers.go\<close>, \<open>node.go\<close>, \<open>edge.go\<close>, \<open>filter.go\<close>): edges, nodes
    and claims as records, the accessors, the overlay a materialised diff shows.
  \<^item> \<open>Crypto\<close> (\<open>id.go\<close>, \<open>sign.go\<close>, \<open>verify_content.go\<close>, \<open>codec_envelope.go\<close>): the record \<open>lib\<close> of
    library functions (hash, signatures, CBOR, base encodings), multikeys, envelopes, the verifying
    reader.
  \<^item> \<open>Codec\<close> (\<open>codec.go\<close>, \<open>query_content.go\<close>): records from claims and back, the content budget, the
    CBOR and JSON forms.
  \<^item> \<open>GoPath\<close>: \<open>path.Match\<close>, which tag patterns are matched with.
  \<^item> \<open>Walk\<close>: the one loop under every traversal (\<open>drain\<close>), reachability (\<open>reach\<close>), and that the
    loop acts on exactly what is reachable.
  \<^item> \<open>Store\<close> (\<open>universe.go\<close>, \<open>universe_memory.go\<close>, \<open>bookmark_store.go\<close>): the Universe interface as
    the record \<open>uni\<close> of its reads, with the locales \<open>universe\<close> and \<open>byte_store\<close> for what a reader
    relies on; the memory Universe with every operation that changes it, interpreting both.
  \<^item> \<open>Closure\<close> (\<open>universe_default.go\<close>, \<open>universe_taxonomy.go\<close>): materialising, membership, lookup,
    heights, the copy walkers (locales \<open>receiver\<close> and \<open>copying\<close>), branch membership.
  \<^item> \<open>Builder\<close> (\<open>claim_builder.go\<close>, \<open>claim_assemble.go\<close>, \<open>claim_type_contributor.go\<close>): the builder's
    options, the construction of edges, sealing and signing.
  \<^item> \<open>Verify\<close>, \<open>Verified\<close> (\<open>verify*.go\<close>, \<open>claim_type_branch.go\<close>): the rules, the revocation index, the
    closure run (locale \<open>raw_store\<close>), and what a clean run shows.
  \<^item> \<open>Archive\<close> (\<open>graph.go\<close>, \<open>archive.go\<close>, \<open>spine_item.go\<close>, \<open>claim_type_branch.go\<close>): graphs and their
    consolidation, branches, the archive handle, the spine.
  \<^item> \<open>Contribution\<close> (\<open>contribution.go\<close>, \<open>deletion.go\<close>): constraints, admission, what a deletion
    strands, the planned sweep.
  \<^item> \<open>Bookmarks\<close> (\<open>bookmark.go\<close>, \<open>bookmarks.go\<close>, \<open>bookmark_locator.go\<close>): signed entries, the range
    searches, append (locale \<open>bookmark_store\<close>), the locator.
  \<^item> \<open>Query\<close>, \<open>QueryWalk\<close>, \<open>QueryRun\<close> (\<open>query*.go\<close>): queries and their checks, filters and orders; the
    path traversal; the executor, the shape and the encoding of results.
  \<^item> \<open>Utf8\<close>, \<open>GoDuration\<close>, \<open>QueryCodec\<close> (\<open>query_codec.go\<close>): UTF-8 text, Go's text of a duration and its parser; the wire
    types of a query, the mapping in both directions, and what \<open>encoding/json\<close> does between a wire
    value and the tree of a JSON document (the lexing of its text is left out).
  \<^item> \<open>Tagger\<close> (\<open>universe_default_tagger.go\<close>): the membership tags of branches.
  \<^item> \<open>Sequencer\<close>, \<open>Merging\<close>, \<open>Completing\<close> (\<open>sequencer.go\<close>, \<open>adapter/sequencer/dev\<close>): the blocking
    sequencer as a record that each operation returns updated; what merges, completion and founding
    do to the archive.
  \<^item> \<open>Wire\<close>, \<open>WireFill\<close> (\<open>codec_wire.go\<close>, \<open>contribution.go\<close>): the constraints a contribution stream
    declares, the writer, the reader, and filling a contribution from one; the CBOR library is the
    record \<open>cborLib\<close>, relied on by \<open>cborLaws\<close>.
  \<^item> \<open>Partition\<close> (\<open>adapter/storage/partition\<close>): one Universe over shards. The locale \<open>partition\<close>
    assumes the contract of each shard and gives that of the whole (a \<open>sublocale\<close>), so that every
    lemma on walks holds of a partition; it is interpreted on lists of memory stores.

  \<^bold>\<open>How the code is rendered.\<close> A call that can fail returns \<open>err + 'a\<close>; one that changes a store or
  a sequencer returns the new state beside its result, also when it fails, so that what a failure
  leaves behind is visible. Heights, sizes and indexes of the wire are 64-bit words; a Go pointer that
  may be nil is an option, a nil id the empty one. A Go map whose iteration order the code depends on
  is an association list. A library is a parameter: \<open>lib\<close> holds its functions, and a theorem that
  needs a law of them (a hash that tells two inputs apart, a codec that decodes what it encoded) has
  it as a hypothesis (\<open>collisionFree\<close>, \<open>codecLaws\<close>, \<open>decodable\<close>), with a witness that computes with
  a concrete one. A theorem on a minted claim speaks of what the store then reads at its id, not of the
  claim the operation held.

  \<^bold>\<open>What is shown.\<close> \<open>Verified\<close>: a clean run verified each claim of the closure, heights fall along
  references and there is no cycle, and no key outlives its revocation. \<open>Codec\<close>, \<open>Crypto\<close>,
  \<open>GoTime\<close>, \<open>Taxonomy\<close>: the round trips of records, keys, times and aliases, and that decoding
  checks what it accepts. \<open>Builder\<close>: what is built verifies. \<open>Store\<close>, \<open>Closure\<close>: the memory store
  refines a map, a materialised read ends, and walks answer exactly the closure. \<open>Edtf\<close>: the midpoint
  of a span lies in it for years up to 146 million, and where it does not. \<open>Archive\<close>, \<open>Contribution\<close>, \<open>Merging\<close>,
  \<open>Completing\<close>: what a contribution may name, that a merge loses nothing and publishes one table
  over the last, that a completed contribution was verified in a store between the one before and the
  one after, and where an error leaves more behind than the code intends. \<open>Bookmarks\<close>: the list
  grows by one readable entry at its end. \<open>QueryRun\<close>, \<open>Tagger\<close>: a query answers exactly the
  filtered claims of its scope, and tags confine a read as the closure does. \<open>QueryCodec\<close>: an encoded
  query decodes to its wire form, or where it cannot. \<open>Wire\<close>, \<open>WireFill\<close>: a stream reads back as
  written, its header binds all of the fill, and declarations compose to what both permit. \<open>Partition\<close>: a
  partition reads and writes as the one store that holds what its shards hold, and cannot be tagged.

  \<^bold>\<open>Loops and bounds.\<close> \<open>drain\<close> terminates by the number of stored ids not yet seen and needs no
  fuel. The searches of the bookmark list terminate by the width of the range. Fuel is used where
  a store could answer with a cycle: \<open>materializeOne\<close> takes the number of stored claims,
  which \<open>memRead_ends\<close> shows to be enough whenever a diff sits above what it revises;
  \<open>walkLevels\<close> and \<open>tagLevels\<close> take the number of stored claims plus two, and each level but the last
  meets a claim no earlier one did, so that it is never used up (\<open>walkLevels_exact\<close>,
  \<open>tagLevels_spec\<close>); \<open>descendSpine\<close> takes the number of stored claims plus one, past any spine that
  does not return to a table; \<open>classRanges\<close> and \<open>matchChunk\<close> take the length of the pattern, of
  which each step consumes a byte; \<open>readAll\<close> takes any number above the size read.

  \<^bold>\<open>Not modelled.\<close> The stack of layers, whose writes land in detached goroutines; the adapters to files, blobs, sqlite, redis, S3, Azure, REST and neo4j (their
  logic is calls to a service, the neo4j one a translation of queries to Cypher text), the command
  line programs, the generators of vectors and the benchmarks. The concurrent sequencer's queue,
  worker goroutines and locks: its operations are the blocking sequencer's, run from a queue, and a
  model of the interleavings would rest on a semantics of Go's channels rather than on this code.
  Contexts and cancellation, mutexes (each operation is one step), the time budget and the events of
  a query report, the decoding of PEM key files, the randomness of seeds, and the text of error
  messages, and the lexing of JSON and CBOR.
\<close>

end
